(* ===== verification/Fast_Urem.thy ===== *)
theory Fast_Urem
  imports Prelude
begin

text \<open>
  Fast 32-bit remainder by a constant (\<^verbatim>\<open>src/util/fast_urem_by_const.h\<close>): the magic
  number, both variants of the high part of the 32x64 multiplication, the remainder, and the
  proof that it is the remainder for every divisor that is not zero. The code asserts this of each
  result; the assertion is the theorem here and not part of the definition.
\<close>

section \<open>Definitions\<close>

definition REMAINDER_MAGIC :: "u32 \<Rightarrow> u64" where
  "REMAINDER_MAGIC divisor = (NOT 0) div ucast divisor + 1"

text \<open>The variant for compilers with a 128-bit integer.\<close>

definition mul32by64_hi_u128 :: "u32 \<Rightarrow> u64 \<Rightarrow> u32" where
  "mul32by64_hi_u128 a b = ucast (drop_bit 64 ((ucast b :: 128 word) * ucast a))"

text \<open>The portable variant.\<close>

definition mul32by64_hi :: "u32 \<Rightarrow> u64 \<Rightarrow> u32" where
  "mul32by64_hi a b =
     (let b0 = ucast b :: u32;
          b1 = ucast (drop_bit 32 b) :: u32
      in ucast (drop_bit 32 (drop_bit 32 ((ucast a :: u64) * ucast b0) + (ucast a :: u64) * ucast b1)))"

definition util_fast_urem32 :: "u32 \<Rightarrow> u32 \<Rightarrow> u64 \<Rightarrow> u32" where
  "util_fast_urem32 n d magic = (let lowbits = magic * ucast n in mul32by64_hi d lowbits)"

section \<open>Correctness\<close>

text \<open>
  The arithmetic behind the trick. With \<open>M = (2^64 - 1) div d + 1\<close> we have
  \<open>M * d = 2^64 + e\<close> for some \<open>e < d\<close>; writing \<open>n = q * d + r\<close>, the low
  64 bits of \<open>M * n\<close> are \<open>q * e + r * M\<close>, and \<open>d\<close> times that is
  \<open>r * 2^64 + e * n\<close>, where the second summand is below \<open>2^64\<close>.
\<close>

lemma magic_times_divisor:
  assumes "0 < d" "M = (2 ^ 64 - 1) div d + (1::nat)"
  obtains e where "M * d = 2 ^ 64 + e" "e < d"
proof -
  define k where "k = (2 ^ 64 - 1 :: nat) mod d"
  have "k < d" using assms(1) by (simp add: k_def)
  have "(2 ^ 64 - 1) div d * d + k = (2 ^ 64 - 1 :: nat)"
    unfolding k_def by (rule div_mult_mod_eq)
  then have "M * d = 2 ^ 64 + (d - 1 - k)"
    using assms(2) \<open>k < d\<close> by (simp add: algebra_simps)
  moreover have "d - 1 - k < d" using assms(1) by simp
  ultimately show thesis by (rule that)
qed

lemma fast_urem_nat:
  fixes d n :: nat
  assumes "0 < d" "d < 2 ^ 32" "n < 2 ^ 32" "M = (2 ^ 64 - 1) div d + 1"
  shows "(d * (M * n mod 2 ^ 64)) div 2 ^ 64 = n mod d"
proof -
  obtain e where Md: "M * d = 2 ^ 64 + e" and "e < d"
    using magic_times_divisor [OF assms(1,4)] .
  define q r low where "q = n div d" and "r = n mod d" and "low = q * e + r * M"
  have n: "n = q * d + r" by (simp add: q_def r_def)
  have "r < d" using assms(1) by (simp add: r_def)
  have Mn: "M * n = q * 2 ^ 64 + low"
  proof -
    have "M * n = q * (M * d) + r * M" by (simp add: n algebra_simps)
    then show ?thesis by (simp add: Md low_def algebra_simps)
  qed
  have dlow: "d * low = r * 2 ^ 64 + e * n"
  proof -
    have "d * low = q * d * e + r * (M * d)" by (simp add: low_def algebra_simps)
    then show ?thesis by (simp add: Md n algebra_simps)
  qed
  have en: "e * n < 2 ^ 64"
  proof -
    have "e * n \<le> (2 ^ 32) * n" using \<open>e < d\<close> assms(2) by (intro mult_right_mono) auto
    also have "\<dots> < 2 ^ 32 * 2 ^ 32" using assms(3) by (intro mult_strict_left_mono) auto
    finally show ?thesis by simp
  qed
  have "d * low < (r + 1) * 2 ^ 64" using dlow en by simp
  also have "\<dots> \<le> d * 2 ^ 64" using \<open>r < d\<close> by (intro mult_right_mono) auto
  finally have "low < 2 ^ 64" by simp
  then have "M * n mod 2 ^ 64 = low" by (simp add: Mn)
  then show ?thesis using dlow en by (simp add: r_def)
qed

text \<open>The two variants of the high multiplication agree with the exact product.\<close>

lemma high_half_split:
  fixes a b :: nat
  shows "(a * (b mod 2 ^ 32) div 2 ^ 32 + a * (b div 2 ^ 32)) div 2 ^ 32 = a * b div 2 ^ 64"
proof -
  have "a * b = a * (b mod 2 ^ 32) + 2 ^ 32 * (a * (b div 2 ^ 32))"
    by (metis mod_mult_div_eq distrib_left mult.left_commute)
  then have "a * b div 2 ^ 32 = a * (b mod 2 ^ 32) div 2 ^ 32 + a * (b div 2 ^ 32)"
    by simp
  moreover have "a * b div 2 ^ 64 = a * b div 2 ^ 32 div 2 ^ 32"
    by (simp flip: div_mult2_eq)
  ultimately show ?thesis by simp
qed

lemma unat_ucast_32_64 [simp]: "unat (ucast (a::u32) :: u64) = unat a"
  using unat_u32_less [of a] by (simp add: unat_ucast_mod)

lemma u32_times_u64_high_less: "unat (a::u32) * unat (b::u64) div 2 ^ 64 < 2 ^ 32"
proof -
  have "unat a * unat b < 2 ^ 32 * 2 ^ 64"
    using unat_u32_less [of a] unat_u64_less [of b] by (intro mult_strict_mono) auto
  then show ?thesis by (simp add: less_mult_imp_div_less)
qed

lemma unat_mul32by64_hi: "unat (mul32by64_hi a b) = unat a * unat b div 2 ^ 64"
proof -
  let ?A = "unat a" and ?B = "unat b"
  have A: "?A \<le> 2 ^ 32 - 1" using unat_u32_less [of a] by simp
  have lo: "?A * (?B mod 2 ^ 32) \<le> (2 ^ 32 - 1) * (2 ^ 32 - 1)"
    using A by (intro mult_mono) (auto simp: less_Suc_eq_le [symmetric])
  have hi: "?A * (?B div 2 ^ 32) \<le> (2 ^ 32 - 1) * (2 ^ 32 - 1)"
    using A unat_u64_less [of b] by (intro mult_mono) (auto simp: less_Suc_eq_le [symmetric] div_less_iff_less_mult)
  have b1: "?B div 2 ^ 32 < 2 ^ 32"
    using unat_u64_less [of b] by (simp add: div_less_iff_less_mult)
  have sum: "?A * (?B mod 2 ^ 32) div 2 ^ 32 + ?A * (?B div 2 ^ 32) < 2 ^ 64"
    using lo hi by simp
  show ?thesis
    unfolding mul32by64_hi_def Let_def
    using lo hi b1 sum high_half_split [of ?A ?B] u32_times_u64_high_less [of a b] unat_u64_less [of b]
    by (simp add: unat_ucast_mod unat_drop_bit_div unat_word_ariths)
qed

lemma mul32by64_hi_variants: "mul32by64_hi a b = mul32by64_hi_u128 a b"
proof -
  have "unat a * unat b < 2 ^ 128"
    using unat_u32_less [of a] unat_u64_less [of b]
    by (intro order_less_le_trans [OF mult_strict_mono]) auto
  then have "unat (mul32by64_hi_u128 a b) = unat a * unat b div 2 ^ 64"
    unfolding mul32by64_hi_u128_def
    using u32_times_u64_high_less [of a b] unat_u32_less [of a] unat_u64_less [of b]
    by (simp add: unat_ucast_mod unat_drop_bit_div unat_word_ariths mult.commute)
  then show ?thesis by (simp add: unat_mul32by64_hi word_unat_eq_iff)
qed

lemma unat_REMAINDER_MAGIC:
  "unat (REMAINDER_MAGIC d) = ((2 ^ 64 - 1) div unat d + 1) mod 2 ^ 64"
  by (simp add: REMAINDER_MAGIC_def unat_word_ariths unat_div_distrib unsigned_minus_1_eq_mask
      mask_eq_exp_minus_1 mod_Suc_eq)

text \<open>
  The remainder computed by two multiplications is the remainder. The divisor one, whose magic
  number wraps to zero, is included.
\<close>

lemma util_fast_urem32_eq_mod:
  assumes "0 < d"
  shows "util_fast_urem32 n d (REMAINDER_MAGIC d) = n mod d"
proof -
  define M where "M = (2 ^ 64 - 1) div unat d + (1::nat)"
  have d: "0 < unat d" using assms by (simp add: word_less_nat_alt)
  have "unat (REMAINDER_MAGIC d * ucast n) = M * unat n mod 2 ^ 64"
    using unat_REMAINDER_MAGIC [of d] by (simp add: M_def unat_word_ariths mod_mult_left_eq)
  then have "unat (util_fast_urem32 n d (REMAINDER_MAGIC d)) = (unat d * (M * unat n mod 2 ^ 64)) div 2 ^ 64"
    by (simp add: util_fast_urem32_def unat_mul32by64_hi)
  also have "\<dots> = unat n mod unat d"
    using d unat_u32_less by (intro fast_urem_nat) (auto simp: M_def)
  finally show ?thesis by (simp add: word_unat_eq_iff unat_mod_distrib)
qed

end
