(* ===== verification/Primes.thy ===== *)
theory Primes
  imports Prelude
begin

text \<open>
  Primality of concrete numbers by Pratt certificates, checked inside the kernel. The sizes of the
  open-addressing tables are primes, and the probe sequences visit every slot because of it; the
  theory of the size table uses the certificates of this one.
\<close>

section \<open>Prime numbers\<close>

definition is_prime :: "nat \<Rightarrow> bool" where
  "is_prime p \<longleftrightarrow> 1 < p \<and> (\<forall>d. d dvd p \<longrightarrow> d = 1 \<or> d = p)"

lemma is_prime_coprime:
  assumes "is_prime p" "0 < k" "k < p"
  shows "coprime k p"
proof (rule coprimeI)
  fix d assume d: "d dvd k" "d dvd p"
  then have "d \<le> k" using assms(2) by (simp add: dvd_imp_le)
  with d assms(1,3) show "is_unit d" by (auto simp: is_prime_def)
qed

lemma is_prime_dvd_mult:
  assumes "is_prime p" "p dvd a * b"
  shows "p dvd a \<or> p dvd b"
proof (cases "p dvd a")
  case False
  have "coprime p a"
  proof (rule coprimeI)
    fix d assume "d dvd p" "d dvd a"
    with assms(1) False show "is_unit d" by (auto simp: is_prime_def)
  qed
  with assms(2) show ?thesis by (simp add: coprime_dvd_mult_right_iff)
qed simp

lemma is_prime_dvd_prod_list:
  "is_prime p \<Longrightarrow> p dvd prod_list qs \<Longrightarrow> \<forall>q \<in> set qs. is_prime q \<Longrightarrow> p \<in> set qs"
proof (induction qs)
  case Nil
  then show ?case by (simp add: is_prime_def)
next
  case (Cons q qs)
  then consider "p dvd q" | "p dvd prod_list qs"
    using is_prime_dvd_mult by auto
  then show ?case
    using Cons by cases (auto simp: is_prime_def)
qed

lemma prime_factor_exists:
  assumes "1 < (m::nat)"
  obtains p where "is_prime p" "p dvd m"
  using assms
proof (induction m arbitrary: thesis rule: less_induct)
  case (less m)
  show ?case
  proof (cases "is_prime m")
    case True
    then show ?thesis by (rule less.prems(1)) simp
  next
    case False
    then obtain d where d: "d dvd m" "d \<noteq> 1" "d \<noteq> m"
      using less.prems(2) by (auto simp: is_prime_def)
    have "0 < d" using d(1) less.prems(2) by (cases d) auto
    have "d \<le> m" using d(1) less.prems(2) by (intro dvd_imp_le) auto
    with \<open>0 < d\<close> d(2,3) have "1 < d" "d < m" by auto
    show ?thesis
    proof (rule less.IH [OF \<open>d < m\<close> _ \<open>1 < d\<close>])
      fix p assume "is_prime p" "p dvd d"
      then show thesis using d(1) by (intro less.prems(1) [of p]) (auto intro: dvd_trans)
    qed
  qed
qed

section \<open>Lucas' test\<close>

text \<open>
  If some \<open>a\<close> has multiplicative order \<open>n - 1\<close> modulo \<open>n\<close>, its powers are
  \<open>n - 1\<close> different residues prime to \<open>n\<close>, so every number from 1 to \<open>n - 1\<close> is prime
  to \<open>n\<close>.
\<close>

lemma power_mod_cancel:
  assumes "coprime a n" "i \<le> j" "a ^ i mod n = a ^ j mod (n::nat)" "1 < n"
  shows "a ^ (j - i) mod n = 1"
proof -
  have "0 < a" using assms(1,4) by (metis coprime_0_left_iff less_numeral_extra(3) not_gr_zero nat_dvd_1_iff_1 less_irrefl)
  then have "a ^ i \<le> a ^ j" using assms(2) by (simp add: power_increasing)
  then have "n dvd a ^ j - a ^ i" using assms(3) by (metis mod_eq_dvd_iff_nat)
  also have "a ^ j - a ^ i = a ^ i * (a ^ (j - i) - 1)"
    using assms(2) by (simp add: diff_mult_distrib2 flip: power_add)
  finally have "n dvd a ^ (j - i) - 1"
    using assms(1) by (simp add: coprime_dvd_mult_right_iff coprime_commute)
  then have "a ^ (j - i) mod n = 1 mod n"
    using \<open>0 < a\<close> by (subst mod_eq_dvd_iff_nat) (auto simp: Suc_le_eq)
  then show ?thesis using assms(4) by simp
qed

lemma order_divides:
  assumes least: "\<And>k. 0 < k \<Longrightarrow> k < d \<Longrightarrow> a ^ k mod n \<noteq> (1::nat)"
    and "0 < d" "a ^ d mod n = 1" "a ^ m mod n = 1" "1 < n"
  shows "d dvd m"
proof -
  have "a ^ m = (a ^ d) ^ (m div d) * a ^ (m mod d)"
    by (simp flip: power_mult power_add)
  then have "a ^ (m mod d) mod n = 1"
    using assms(3,4,5) by (metis mod_mult_left_eq power_mod power_one mult_1)
  moreover have "m mod d < d" using \<open>0 < d\<close> by simp
  ultimately have "m mod d = 0" using least by blast
  then show ?thesis by auto
qed

lemma full_order_prime:
  assumes "1 < n" "coprime a n" and least: "\<And>k. 0 < k \<Longrightarrow> k < n - 1 \<Longrightarrow> a ^ k mod n \<noteq> (1::nat)"
  shows "is_prime n"
proof -
  let ?f = "\<lambda>k. a ^ k mod n"
  have neq: "?f i \<noteq> ?f j" if "i < j" "j < n - 1" for i j
  proof
    assume "?f i = ?f j"
    then have "a ^ (j - i) mod n = 1" using that assms(1,2) by (intro power_mod_cancel) auto
    moreover have "0 < j - i" "j - i < n - 1" using that by arith+
    ultimately show False using least by blast
  qed
  have inj: "inj_on ?f {0..<n - 1}"
    by (rule linorder_inj_onI) (use neq in auto)
  have sub: "?f ` {0..<n - 1} \<subseteq> {x. 0 < x \<and> x < n \<and> coprime x n}"
  proof (rule image_subsetI)
    fix k
    have "coprime (a ^ k) n" using assms(2) by simp
    then have "coprime (?f k) n" using assms(1) by (simp add: coprime_iff_gcd_eq_1 gcd.commute flip: gcd_red_nat)
    moreover from this assms(1) have "0 < ?f k" by (metis coprime_0_left_iff less_irrefl nat_dvd_1_iff_1 not_gr_zero)
    ultimately show "?f k \<in> {x. 0 < x \<and> x < n \<and> coprime x n}" using assms(1) by simp
  qed
  have img: "?f ` {0..<n - 1} = {1..<n}"
    using sub inj by (intro card_subset_eq) (auto simp: card_image)
  show ?thesis unfolding is_prime_def
  proof (intro conjI allI impI)
    fix d assume "d dvd n"
    then have "0 < d" "d \<le> n" using assms(1) by (auto intro: dvd_imp_le Nat.gr0I)
    then have "d = n \<or> d \<in> {1..<n}" by auto
    then have "d = n \<or> coprime d n" using sub unfolding img by auto
    then show "d = 1 \<or> d = n"
      using \<open>d dvd n\<close> by (metis coprime_absorb_left nat_dvd_1_iff_1 coprime_commute coprime_self coprime_dvd_mult_left_iff dvd_refl gcd_nat.absorb1 coprime_iff_gcd_eq_1)
  qed (rule assms(1))
qed

lemma lucas_test:
  assumes "1 < n" "a ^ (n - 1) mod n = (1::nat)"
    and qs: "prod_list qs = n - 1" "\<forall>q \<in> set qs. is_prime q"
    and witness: "\<forall>q \<in> set qs. a ^ ((n - 1) div q) mod n \<noteq> 1"
  shows "is_prime n"
proof -
  define d where "d = (LEAST k. 0 < k \<and> a ^ k mod n = 1)"
  have ex: "0 < n - 1 \<and> a ^ (n - 1) mod n = 1" using assms(1,2) by simp
  have d: "0 < d" "a ^ d mod n = 1"
    using LeastI [of "\<lambda>k. 0 < k \<and> a ^ k mod n = 1", OF ex] by (auto simp: d_def)
  have least: "a ^ k mod n \<noteq> 1" if "0 < k" "k < d" for k
    using not_less_Least [of k "\<lambda>k. 0 < k \<and> a ^ k mod n = 1"] that by (auto simp: d_def)
  have "d dvd n - 1" using least d assms(1,2) by (intro order_divides) auto
  then obtain m where m: "n - 1 = d * m" by (rule dvdE)
  have "m = 1"
  proof (rule ccontr)
    assume "m \<noteq> 1"
    with m ex have "1 < m" by (metis less_one linorder_neqE_nat mult_0_right not_less_zero)
    then obtain p where p: "is_prime p" "p dvd m" by (rule prime_factor_exists)
    then have "p \<in> set qs" using qs m by (intro is_prime_dvd_prod_list) auto
    obtain k where k: "m = p * k" using p(2) by (rule dvdE)
    have "0 < p" using p(1) by (simp add: is_prime_def)
    then have "(n - 1) div p = d * k" unfolding m k by (simp add: mult.left_commute)
    then have "a ^ ((n - 1) div p) mod n = 1"
      using d(2) assms(1) by (metis power_mult power_mod power_one mod_less)
    with witness \<open>p \<in> set qs\<close> show False by blast
  qed
  then have full: "d = n - 1" using m by simp
  have "coprime a n"
  proof (rule coprimeI)
    fix c assume "c dvd a" "c dvd n"
    then have "c dvd a ^ (n - 1) mod n"
      using ex by (metis dvd_mod dvd_power dvd_trans)
    then show "is_unit c" using assms(2) by simp
  qed
  then show ?thesis using assms(1) least full by (intro full_order_prime) auto
qed

section \<open>Executable certificates\<close>

text \<open>
  The computations run on \<^typ>\<open>int\<close>, whose numerals the kernel evaluates in binary. An exponent
  is consumed bit by bit, from its most significant bit on.
\<close>

fun bits_of :: "nat \<Rightarrow> int \<Rightarrow> bool list \<Rightarrow> bool list" where
  "bits_of 0 m bs = bs"
| "bits_of (Suc fuel) m bs = (if m \<le> 0 then bs else bits_of fuel (m div 2) ((m mod 2 = 1) # bs))"

fun bits_val :: "bool list \<Rightarrow> nat \<Rightarrow> nat" where
  "bits_val [] v = v"
| "bits_val (b # bs) v = bits_val bs (2 * v + (if b then 1 else 0))"

fun powmod :: "int \<Rightarrow> int \<Rightarrow> bool list \<Rightarrow> int \<Rightarrow> int" where
  "powmod n a [] r = r"
| "powmod n a (b # bs) r =
     powmod n a bs (if b then (r * r mod n) * a mod n else r * r mod n)"

lemma powmod_eq: "powmod n a bs (a ^ v mod n) = a ^ bits_val bs v mod n"
proof (induction bs arbitrary: v)
  case Nil
  show ?case by simp
next
  case (Cons b bs)
  have sq: "(a ^ v mod n) * (a ^ v mod n) mod n = a ^ (2 * v) mod n"
    by (simp add: mod_mult_eq mult_2 flip: power_add)
  have "(a ^ (2 * v) mod n) * a mod n = a ^ (2 * v + 1) mod n"
    by (simp add: mod_mult_right_eq mult.commute)
  then have "powmod n a (b # bs) (a ^ v mod n) = powmod n a bs (a ^ (2 * v + (if b then 1 else 0)) mod n)"
    unfolding powmod.simps sq by (cases b) auto
  then show ?case using Cons.IH by simp
qed

lemma bits_val_append: "bits_val (xs @ ys) v = bits_val ys (bits_val xs v)"
  by (induction xs arbitrary: v) auto

lemma bits_val_bits_of:
  assumes "m < 2 ^ fuel" "0 \<le> m"
  shows "bits_val (bits_of fuel m bs) 0 = bits_val bs (nat m)"
  using assms
proof (induction fuel arbitrary: m bs)
  case 0
  then show ?case by simp
next
  case (Suc fuel)
  show ?case
  proof (cases "m = 0")
    case False
    with Suc.prems have "m div 2 < 2 ^ fuel" "0 \<le> m div 2" by auto
    from Suc.IH [OF this] False Suc.prems(2)
    have "bits_val (bits_of (Suc fuel) m bs) 0 = bits_val ((m mod 2 = 1) # bs) (nat (m div 2))"
      by simp
    moreover have "2 * nat (m div 2) + (if m mod 2 = 1 then 1 else 0) = nat m"
      using Suc.prems(2) by (cases m rule: int_cases2) (auto simp: nat_div_distrib, presburger+)
    ultimately show ?thesis by simp
  qed simp
qed

definition fermat :: "int \<Rightarrow> int \<Rightarrow> int \<Rightarrow> int" where
  "fermat n a m = powmod n a (bits_of 32 m []) 1"

lemma fermat_eq:
  assumes "1 < n" "0 \<le> m" "m < 2 ^ 32" "0 \<le> a"
  shows "fermat n a m = int (nat a ^ nat m mod nat n)"
proof -
  have "powmod n a (bits_of 32 m []) (a ^ 0 mod n) = a ^ bits_val (bits_of 32 m []) 0 mod n"
    by (rule powmod_eq)
  then show ?thesis
    using assms bits_val_bits_of [of m 32 "[]"] by (simp add: fermat_def zmod_int)
qed

text \<open>A certificate: the number, a witness and the prime factors of its predecessor.\<close>

definition pratt :: "int \<Rightarrow> int \<Rightarrow> int list \<Rightarrow> bool" where
  "pratt n a qs \<longleftrightarrow> 1 < n \<and> n < 2 ^ 32 \<and> 0 \<le> a \<and> prod_list qs = n - 1 \<and>
     fermat n a (n - 1) = 1 \<and> list_all (\<lambda>q. 0 < q \<and> fermat n a ((n - 1) div q) \<noteq> 1) qs"

lemma pratt_prime:
  assumes "pratt n a qs" "list_all (\<lambda>q. is_prime (nat q)) qs"
  shows "is_prime (nat n)"
proof (rule lucas_test [where a = "nat a" and qs = "map nat qs"])
  have n: "1 < n" "n < 2 ^ 32" "0 \<le> a" and prod: "prod_list qs = n - 1"
    and pos: "\<forall>q \<in> set qs. 0 < q"
    using assms(1) by (auto simp: pratt_def list_all_iff)
  have nat_n1: "nat n - 1 = nat (n - 1)" by simp
  show "1 < nat n" using n by simp
  have "fermat n a (n - 1) = int (nat a ^ nat (n - 1) mod nat n)"
    using n by (intro fermat_eq) auto
  then show "nat a ^ (nat n - 1) mod nat n = 1"
    using assms(1) unfolding nat_n1 pratt_def by linarith
  have "int (prod_list (map nat qs)) = prod_list qs" using pos by (induction qs) auto
  then show "prod_list (map nat qs) = nat n - 1" using prod n by simp
  show "\<forall>q \<in> set (map nat qs). is_prime q" using assms(2) by (auto simp: list_all_iff)
  show "\<forall>q \<in> set (map nat qs). nat a ^ ((nat n - 1) div q) mod nat n \<noteq> 1"
  proof
    fix q assume "q \<in> set (map nat qs)"
    then obtain p where p: "p \<in> set qs" "q = nat p" by auto
    then have "0 < p" "fermat n a ((n - 1) div p) \<noteq> 1"
      using assms(1) by (auto simp: pratt_def list_all_iff)
    moreover have "(n - 1) div p \<le> n - 1" using n \<open>0 < p\<close> by (intro int_div_le_self) auto
    moreover have "0 \<le> (n - 1) div p" using n \<open>0 < p\<close> by (simp add: pos_imp_zdiv_nonneg_iff)
    moreover from calculation have "fermat n a ((n - 1) div p) = int (nat a ^ nat ((n - 1) div p) mod nat n)"
      using n by (intro fermat_eq) auto
    ultimately have "nat a ^ nat ((n - 1) div p) mod nat n \<noteq> 1" by linarith
    moreover have "nat ((n - 1) div p) = (nat n - 1) div q"
      using n \<open>0 < p\<close> p(2) unfolding nat_n1 by (simp add: nat_div_distrib)
    ultimately show "nat a ^ ((nat n - 1) div q) mod nat n \<noteq> 1" by simp
  qed
qed

text \<open>Small primes by trial division.\<close>

lemma trial_prime:
  assumes "1 < p" "\<And>d. 2 \<le> d \<Longrightarrow> d < b \<Longrightarrow> p mod d \<noteq> 0" "p < b * b"
  shows "is_prime p"
  unfolding is_prime_def
proof (intro conjI allI impI)
  fix d assume d: "d dvd p"
  then obtain e where e: "p = d * e" by (rule dvdE)
  show "d = 1 \<or> d = p"
  proof (rule ccontr)
    assume "\<not> (d = 1 \<or> d = p)"
    with e assms(1) have de: "2 \<le> d" "2 \<le> e" by (cases d; cases e; auto)+
    have "d < b \<or> e < b" using e assms(3) by (metis mult_le_mono not_le)
    then show False using de assms(2) [of d] assms(2) [of e] e by auto
  qed
qed (rule assms(1))

end
