(* ===== verification/Hash_Sizes.thy ===== *)
theory Hash_Sizes
  imports Fast_Urem Primes
begin

text \<open>
  The size table shared by \<^verbatim>\<open>src/util/hash_table.c\<close> and \<^verbatim>\<open>src/util/set.c\<close> (the
  two files hold the same initialiser): number of entries at which a table grows, table size and
  re-hash modulus, with the magic numbers of the fast remainder. The theory proves that every size
  is prime, so that each probe step is prime to the size.
\<close>

section \<open>Definitions\<close>

record hash_size =
  hs_max_entries :: u32
  hs_size :: u32
  hs_rehash :: u32
  hs_size_magic :: u64
  hs_rehash_magic :: u64

definition ENTRY :: "u32 \<Rightarrow> u32 \<Rightarrow> u32 \<Rightarrow> hash_size" where
  "ENTRY max_entries sz rehash =
     \<lparr>hs_max_entries = max_entries, hs_size = sz, hs_rehash = rehash,
      hs_size_magic = REMAINDER_MAGIC sz, hs_rehash_magic = REMAINDER_MAGIC rehash\<rparr>"

definition hash_sizes :: "hash_size list" where
  "hash_sizes =
    [ENTRY 2 5 3,
     ENTRY 4 7 5,
     ENTRY 8 13 11,
     ENTRY 16 19 17,
     ENTRY 32 43 41,
     ENTRY 64 73 71,
     ENTRY 128 151 149,
     ENTRY 256 283 281,
     ENTRY 512 571 569,
     ENTRY 1024 1153 1151,
     ENTRY 2048 2269 2267,
     ENTRY 4096 4519 4517,
     ENTRY 8192 9013 9011,
     ENTRY 16384 18043 18041,
     ENTRY 32768 36109 36107,
     ENTRY 65536 72091 72089,
     ENTRY 131072 144409 144407,
     ENTRY 262144 288361 288359,
     ENTRY 524288 576883 576881,
     ENTRY 1048576 1153459 1153457,
     ENTRY 2097152 2307163 2307161,
     ENTRY 4194304 4613893 4613891,
     ENTRY 8388608 9227641 9227639,
     ENTRY 16777216 18455029 18455027,
     ENTRY 33554432 36911011 36911009,
     ENTRY 67108864 73819861 73819859,
     ENTRY 134217728 147639589 147639587,
     ENTRY 268435456 295279081 295279079,
     ENTRY 536870912 590559793 590559791,
     ENTRY 1073741824 1181116273 1181116271,
     ENTRY 2147483648 2362232233 2362232231]"

section \<open>The sizes are prime\<close>

text \<open>Trial division for the small primes the certificates rest on.\<close>

definition trial :: "int \<Rightarrow> int \<Rightarrow> bool" where
  "trial p b \<longleftrightarrow> 1 < p \<and> 0 \<le> b \<and> p < b * b \<and> list_all (\<lambda>d. p mod d \<noteq> 0) [2..b - 1]"

lemma trial_sound:
  assumes "trial p b"
  shows "is_prime (nat p)"
proof (rule trial_prime [where b = "nat b"])
  from assms show "1 < nat p" by (simp add: trial_def)
  from assms show "nat p < nat b * nat b" by (simp add: trial_def nat_less_iff flip: nat_mult_distrib)
  show "nat p mod d \<noteq> 0" if "2 \<le> d" "d < nat b" for d
  proof -
    have "p mod int d \<noteq> 0" using assms that by (auto simp: trial_def list_all_iff)
    moreover have "int (nat p mod d) = p mod int d" using assms by (simp add: trial_def zmod_int)
    ultimately show ?thesis by linarith
  qed
qed

definition small_primes :: "(int \<times> int) list" where
  "small_primes =
    [(2, 2), (3, 2), (5, 3), (7, 3), (11, 4), (13, 4), (17, 5), (19, 5), (23, 5), (31, 6),
     (41, 7), (43, 7), (47, 7), (59, 8), (73, 9), (89, 10), (97, 10), (131, 12), (151, 13),
     (229, 16), (251, 16), (283, 17), (463, 22), (547, 24), (557, 24), (571, 24), (587, 25),
     (631, 26), (647, 26), (727, 27), (751, 28), (1153, 34), (1187, 35), (1367, 37), (1381, 38),
     (2269, 48), (2377, 49), (2689, 52)]"

lemma small_primes_trial: "list_all (\<lambda>(p, b). trial p b) small_primes"
  by code_simp

lemma small_primes_prime: "p \<in> fst ` set small_primes \<Longrightarrow> is_prime (nat p)"
  using small_primes_trial by (force simp: list_all_iff dest: trial_sound)

text \<open>
  Certificates \<open>(n, a, qs)\<close>: \<open>a\<close> generates the residues modulo \<open>n\<close> and \<open>qs\<close> are the
  prime factors of \<open>n - 1\<close>. Each factor is a small prime or certified earlier in the list.
\<close>

type_synonym cert = "int \<times> int \<times> int list"

fun certified :: "int list \<Rightarrow> cert list \<Rightarrow> bool" where
  "certified known [] = True"
| "certified known ((n, a, qs) # cs) =
     (list_all (\<lambda>q. q \<in> set known) qs \<and> certified (n # known) cs)"

lemma certified_prime:
  "certified known cs \<Longrightarrow> \<forall>p \<in> set known. is_prime (nat p) \<Longrightarrow>
     \<forall>(n, a, qs) \<in> set cs. pratt n a qs \<Longrightarrow> \<forall>c \<in> set cs. is_prime (nat (fst c))"
proof (induction known cs rule: certified.induct)
  case (2 known n a qs cs)
  have "is_prime (nat n)"
    using 2 by (intro pratt_prime [of n a qs]) (auto simp: list_all_iff)
  with 2 show ?case by auto
qed simp

definition certs1 :: "cert list" where
  "certs1 =
    [(4519, 3, [2, 3, 3, 251]),
     (9013, 5, [2, 2, 3, 751]),
     (18043, 2, [2, 3, 31, 97]),
     (36109, 2, [2, 2, 3, 3, 17, 59]),
     (72091, 2, [2, 3, 3, 3, 3, 5, 89])]"

definition certs2 :: "cert list" where
  "certs2 =
    [(144409, 13, [2, 2, 2, 3, 11, 547]),
     (288361, 7, [2, 2, 2, 3, 3, 3, 3, 5, 89]),
     (576883, 2, [2, 3, 3, 3, 3, 3, 1187])]"

definition certs3 :: "cert list" where
  "certs3 =
    [(64081, 11, [2, 2, 2, 2, 3, 3, 5, 89]),
     (1153459, 3, [2, 3, 3, 64081]),
     (2307163, 2, [2, 3, 11, 13, 2689]),
     (4613893, 5, [2, 2, 3, 23, 73, 229])]"

definition certs4 :: "cert list" where
  "certs4 =
    [(9227641, 7, [2, 2, 2, 3, 5, 131, 587]),
     (18455029, 2, [2, 2, 3, 647, 2377]),
     (4363, 2, [2, 3, 727]),
     (1230367, 3, [2, 3, 47, 4363])]"

definition certs5 :: "cert list" where
  "certs5 =
    [(36911011, 3, [2, 3, 5, 1230367]),
     (41011, 2, [2, 3, 5, 1367]),
     (1230331, 2, [2, 3, 5, 41011]),
     (73819861, 7, [2, 2, 3, 5, 1230331])]"

definition certs6 :: "cert list" where
  "certs6 =
    [(26573, 2, [2, 2, 7, 13, 73]),
     (147639589, 2, [2, 2, 3, 463, 26573]),
     (1230329, 3, [2, 2, 2, 11, 11, 31, 41]),
     (2460659, 2, [2, 1230329])]"

definition certs7 :: "cert list" where
  "certs7 =
    [(295279081, 7, [2, 2, 2, 3, 5, 2460659]),
     (590559793, 5, [2, 2, 2, 2, 3, 59, 151, 1381]),
     (6311, 7, [2, 5, 631])]"

definition certs8 :: "cert list" where
  "certs8 =
    [(1181116273, 5, [2, 2, 2, 2, 3, 7, 557, 6311])]"

lemma certs1_ok: "list_all (\<lambda>(n, a, qs). pratt n a qs) certs1"
  by code_simp

lemma certs2_ok: "list_all (\<lambda>(n, a, qs). pratt n a qs) certs2"
  by code_simp

lemma certs3_ok: "list_all (\<lambda>(n, a, qs). pratt n a qs) certs3"
  by code_simp

lemma certs4_ok: "list_all (\<lambda>(n, a, qs). pratt n a qs) certs4"
  by code_simp

lemma certs5_ok: "list_all (\<lambda>(n, a, qs). pratt n a qs) certs5"
  by code_simp

lemma certs6_ok: "list_all (\<lambda>(n, a, qs). pratt n a qs) certs6"
  by code_simp

lemma certs7_ok: "list_all (\<lambda>(n, a, qs). pratt n a qs) certs7"
  by code_simp

lemma certs8_ok: "list_all (\<lambda>(n, a, qs). pratt n a qs) certs8"
  by code_simp

definition certs :: "cert list" where
  "certs = certs1 @ certs2 @ certs3 @ certs4 @ certs5 @ certs6 @ certs7 @ certs8"

lemma certs_pratt: "\<forall>(n, a, qs) \<in> set certs. pratt n a qs"
  using certs1_ok certs2_ok certs3_ok certs4_ok certs5_ok certs6_ok certs7_ok certs8_ok
  unfolding certs_def list_all_iff set_append by (simp only: ball_Un)

lemma certs_ordered: "certified (map fst small_primes) certs"
  by code_simp

lemma certs_prime: "\<forall>c \<in> set certs. is_prime (nat (fst c))"
  by (rule certified_prime [OF certs_ordered _ certs_pratt]) (auto intro: small_primes_prime)

text \<open>All table sizes except the last, which \<open>next_address\<close> cannot handle in 32 bits anyway.\<close>

lemma table_sizes:
  "map (\<lambda>h. uint (hs_size h)) (take 30 hash_sizes) =
    [5, 7, 13, 19, 43, 73, 151, 283, 571, 1153, 2269, 4519, 9013, 18043, 36109,
     72091, 144409, 288361, 576883, 1153459, 2307163, 4613893, 9227641, 18455029, 36911011, 73819861, 147639589, 295279081, 590559793, 1181116273]"
  by (simp add: hash_sizes_def ENTRY_def)

lemma table_sizes_certified:
  "list_all (\<lambda>p. p \<in> set (map fst small_primes) \<or> p \<in> set (map fst certs))
    [5, 7, 13, 19, 43, 73, 151, 283, 571, 1153, 2269, 4519, 9013, 18043, 36109,
     72091, 144409, 288361, 576883, 1153459, 2307163, 4613893, 9227641, 18455029, 36911011, 73819861, 147639589, 295279081, 590559793, 1181116273]"
  by code_simp

lemma hash_size_prime:
  assumes "i < 30"
  shows "is_prime (unat (hs_size (hash_sizes ! i)))"
proof -
  let ?p = "uint (hs_size (hash_sizes ! i))"
  have len: "length hash_sizes = 31" by (simp add: hash_sizes_def)
  have "?p = map (\<lambda>h. uint (hs_size h)) (take 30 hash_sizes) ! i" using assms len by simp
  then have "?p \<in> set (map (\<lambda>h. uint (hs_size h)) (take 30 hash_sizes))"
    using assms len by (simp only: nth_mem length_map length_take)
  then have "?p \<in> set (map fst small_primes) \<or> ?p \<in> set (map fst certs)"
    using table_sizes_certified unfolding table_sizes list_all_iff by blast
  then have "is_prime (nat ?p)"
    unfolding set_map using small_primes_prime certs_prime by (metis imageE)
  then show ?thesis by simp
qed

end
