(* ===== verification/Probing.thy ===== *)
theory Probing
  imports Hash_Sizes
begin

text \<open>
  What the open-addressing tables of \<^verbatim>\<open>hash_table.c\<close> and \<^verbatim>\<open>set.c\<close> share: the pointers
  that mark a slot, and the probe sequence of a hash. The C code computes the next address with a
  conditional subtraction on 32-bit values; the theory relates it to the arithmetic progression
  modulo the table size and shows that the progression visits every slot exactly once.
\<close>

section \<open>Key pointers\<close>

text \<open>
  The \<^verbatim>\<open>const void *\<close> keys. \<open>Deleted_key_value\<close> is the address of the file's private static
  \<^verbatim>\<open>deleted_key_value\<close>, which no caller can pass; a pointer of a caller is \<open>NULL\<close> or
  \<open>Ptr k\<close>, where \<open>k\<close> is what it points to (or the integer cast to a pointer).
\<close>

datatype 'k ptr = NULL | Deleted_key_value | Ptr 'k

text \<open>\<^verbatim>\<open>(void *)(uintptr_t) id\<close>: the integer 0 is the null pointer.\<close>

definition uint_key :: "'a::len word \<Rightarrow> 'a word ptr" where
  "uint_key i = (if i = 0 then NULL else Ptr i)"

lemma uint_key_nz [simp]: "i \<noteq> 0 \<Longrightarrow> uint_key i = Ptr i"
  by (simp add: uint_key_def)

section \<open>Probe addresses\<close>

text \<open>\<^verbatim>\<open>hash_address += double_hash; if (hash_address >= size) hash_address -= size;\<close>\<close>

definition next_address :: "u32 \<Rightarrow> u32 \<Rightarrow> u32 \<Rightarrow> u32" where
  "next_address sz double_hash hash_address =
     (let hash_address = hash_address + double_hash
      in if hash_address \<ge> sz then hash_address - sz else hash_address)"

text \<open>The slot of probe number \<open>k\<close>, as plain arithmetic.\<close>

definition slot :: "u32 \<Rightarrow> u32 \<Rightarrow> u32 \<Rightarrow> nat \<Rightarrow> nat" where
  "slot sz rh h k = (unat h mod unat sz + k * (1 + unat h mod unat rh)) mod unat sz"

text \<open>Sizes a table can have without its addresses leaving 32 bits.\<close>

definition good_size :: "u32 \<Rightarrow> u32 \<Rightarrow> bool" where
  "good_size sz rh \<longleftrightarrow> (\<exists>i < 30. sz = hs_size (hash_sizes ! i) \<and> rh = hs_rehash (hash_sizes ! i))"

lemma length_hash_sizes [simp]: "length hash_sizes = 31"
  by (simp add: hash_sizes_def)

lemma hash_sizes_facts:
  "list_all (\<lambda>h. 4 < unat (hs_size h) \<and> unat (hs_rehash h) = unat (hs_size h) - 2 \<and>
     unat (hs_size h) < 2 ^ 31 \<and> 0 < hs_max_entries h \<and> unat (hs_max_entries h) + 1 < unat (hs_size h) \<and>
     hs_size_magic h = REMAINDER_MAGIC (hs_size h) \<and> hs_rehash_magic h = REMAINDER_MAGIC (hs_rehash h))
   (take 30 hash_sizes)"
  by (simp add: hash_sizes_def ENTRY_def)

lemma hash_size_facts:
  assumes "i < 30"
  shows "4 < unat (hs_size (hash_sizes ! i))"
    and "unat (hs_rehash (hash_sizes ! i)) = unat (hs_size (hash_sizes ! i)) - 2"
    and "unat (hs_size (hash_sizes ! i)) < 2 ^ 31"
    and "0 < hs_max_entries (hash_sizes ! i)"
    and "unat (hs_max_entries (hash_sizes ! i)) + 1 < unat (hs_size (hash_sizes ! i))"
    and "hs_size_magic (hash_sizes ! i) = REMAINDER_MAGIC (hs_size (hash_sizes ! i))"
    and "hs_rehash_magic (hash_sizes ! i) = REMAINDER_MAGIC (hs_rehash (hash_sizes ! i))"
proof -
  have "hash_sizes ! i \<in> set (take 30 hash_sizes)"
    using assms by (auto simp: in_set_conv_nth intro!: exI [of _ i])
  then have "4 < unat (hs_size (hash_sizes ! i)) \<and>
      unat (hs_rehash (hash_sizes ! i)) = unat (hs_size (hash_sizes ! i)) - 2 \<and>
      unat (hs_size (hash_sizes ! i)) < 2 ^ 31 \<and> 0 < hs_max_entries (hash_sizes ! i) \<and>
      unat (hs_max_entries (hash_sizes ! i)) + 1 < unat (hs_size (hash_sizes ! i)) \<and>
      hs_size_magic (hash_sizes ! i) = REMAINDER_MAGIC (hs_size (hash_sizes ! i)) \<and>
      hs_rehash_magic (hash_sizes ! i) = REMAINDER_MAGIC (hs_rehash (hash_sizes ! i))"
    using hash_sizes_facts unfolding list_all_iff by blast
  then show "4 < unat (hs_size (hash_sizes ! i))"
    and "unat (hs_rehash (hash_sizes ! i)) = unat (hs_size (hash_sizes ! i)) - 2"
    and "unat (hs_size (hash_sizes ! i)) < 2 ^ 31"
    and "0 < hs_max_entries (hash_sizes ! i)"
    and "unat (hs_max_entries (hash_sizes ! i)) + 1 < unat (hs_size (hash_sizes ! i))"
    and "hs_size_magic (hash_sizes ! i) = REMAINDER_MAGIC (hs_size (hash_sizes ! i))"
    and "hs_rehash_magic (hash_sizes ! i) = REMAINDER_MAGIC (hs_rehash (hash_sizes ! i))"
    by blast+
qed

lemma good_size_facts:
  assumes "good_size sz rh"
  shows "4 < unat sz" "unat rh = unat sz - 2" "unat sz < 2 ^ 31" "is_prime (unat sz)"
    "0 < sz" "0 < rh"
proof -
  obtain i where i: "i < 30" "sz = hs_size (hash_sizes ! i)" "rh = hs_rehash (hash_sizes ! i)"
    using assms by (auto simp: good_size_def)
  show s: "4 < unat sz" "unat rh = unat sz - 2" "unat sz < 2 ^ 31" "is_prime (unat sz)"
    using hash_size_facts(1-3) [OF i(1)] hash_size_prime [OF i(1)] i by simp_all
  from s(1,2) show "0 < sz" "0 < rh" by (simp_all add: word_less_nat_alt)
qed

section \<open>The probe sequence visits every slot once\<close>

lemma slot_less: "0 < unat sz \<Longrightarrow> slot sz rh h k < unat sz"
  by (simp add: slot_def)

lemma slot_step_coprime:
  assumes "good_size sz rh"
  shows "coprime (1 + unat (h::u32) mod unat rh) (unat sz)"
proof (rule is_prime_coprime)
  have "unat h mod unat rh < unat rh" using good_size_facts(1,2) [OF assms] by simp
  then show "1 + unat h mod unat rh < unat sz" using good_size_facts(1,2) [OF assms] by linarith
qed (use good_size_facts(4) [OF assms] in auto)

lemma slot_inj:
  assumes gs: "good_size sz rh" and "i < unat sz" "j < unat sz" "slot sz rh h i = slot sz rh h j"
  shows "i = j"
proof -
  let ?d = "1 + unat h mod unat rh" and ?s = "unat sz"
  have *: "j - i = 0" if "i \<le> j" "j < ?s" "slot sz rh h i = slot sz rh h j" for i j
  proof -
    have "?s dvd (unat h mod ?s + j * ?d) - (unat h mod ?s + i * ?d)"
    proof (subst mod_eq_dvd_iff_nat [symmetric])
      show "unat h mod ?s + i * ?d \<le> unat h mod ?s + j * ?d"
        using that(1) by (intro add_left_mono mult_right_mono) auto
      show "(unat h mod ?s + j * ?d) mod ?s = (unat h mod ?s + i * ?d) mod ?s"
        using that(3) by (simp only: slot_def)
    qed
    also have "(unat h mod ?s + j * ?d) - (unat h mod ?s + i * ?d) = (j - i) * ?d"
      by (simp only: diff_mult_distrib diff_cancel)
    finally have "?s dvd j - i"
      using slot_step_coprime [OF gs, of h] by (metis coprime_dvd_mult_left_iff coprime_commute)
    then show ?thesis using that by (metis dvd_imp_le diff_less_Suc le_less_trans less_irrefl
          not_gr_zero less_imp_diff_less)
  qed
  show ?thesis
  proof (cases "i \<le> j")
    case True
    with * [of i j] assms show ?thesis by simp
  next
    case False
    with * [of j i] assms show ?thesis by simp
  qed
qed

lemma slot_surj:
  assumes gs: "good_size sz rh" and "i < unat sz"
  obtains k where "k < unat sz" "slot sz rh h k = i"
proof -
  have "slot sz rh h ` {..<unat sz} = {..<unat sz}"
  proof (rule card_subset_eq)
    show "slot sz rh h ` {..<unat sz} \<subseteq> {..<unat sz}"
      using good_size_facts(1) [OF gs] by (auto intro: slot_less)
    have "inj_on (slot sz rh h) {..<unat sz}" using slot_inj [OF gs] by (auto intro: inj_onI)
    then show "card (slot sz rh h ` {..<unat sz}) = card {..<unat sz}" by (rule card_image)
  qed simp
  then show thesis using assms(2) that by (metis imageE lessThan_iff)
qed

lemma slot_0: "slot sz rh h 0 = unat h mod unat sz"
  by (simp add: slot_def)

lemma slot_Suc: "slot sz rh h (Suc k) = (slot sz rh h k + (1 + unat h mod unat rh)) mod unat sz"
proof -
  have "unat h mod unat sz + Suc k * (1 + unat h mod unat rh) =
      (unat h mod unat sz + k * (1 + unat h mod unat rh)) + (1 + unat h mod unat rh)" by simp
  then show ?thesis unfolding slot_def by (metis mod_add_left_eq)
qed

lemma slot_back_at_start:
  assumes "good_size sz rh" "Suc k \<le> unat sz"
  shows "slot sz rh h (Suc k) = slot sz rh h 0 \<longleftrightarrow> Suc k = unat sz"
proof
  assume "Suc k = unat sz"
  then show "slot sz rh h (Suc k) = slot sz rh h 0"
    unfolding slot_def by (metis mod_mult_self2 add.right_neutral mult_0)
next
  assume eq: "slot sz rh h (Suc k) = slot sz rh h 0"
  show "Suc k = unat sz"
  proof (rule ccontr)
    assume "Suc k \<noteq> unat sz"
    with assms have "Suc k < unat sz" by simp
    with slot_inj [OF assms(1), of "Suc k" 0] eq show False by simp
  qed
qed

section \<open>The code's addresses are the probe sequence\<close>

lemma unat_next_address:
  assumes "unat sz < 2 ^ 31" "unat a < unat sz" "unat d < unat sz"
  shows "unat (next_address sz d a) = (unat a + unat d) mod unat sz"
proof -
  have sum: "unat (a + d) = unat a + unat d" using assms by (intro unat_add_no_wrap) simp
  show ?thesis
  proof (cases "a + d \<ge> sz")
    case True
    then have "unat (next_address sz d a) = unat a + unat d - unat sz"
      using sum by (simp add: next_address_def unat_sub_no_wrap)
    moreover have "unat sz \<le> unat a + unat d" using True sum by (simp add: word_le_nat_alt)
    ultimately show ?thesis using assms by (simp add: le_mod_geq)
  next
    case False
    then have "unat a + unat d < unat sz" using sum by (simp add: word_le_nat_alt)
    then show ?thesis using False sum by (simp add: next_address_def)
  qed
qed

text \<open>The start address and the step, as the C code computes them.\<close>

lemma start_address_slot [probe_simps]:
  assumes "good_size sz rh"
  shows "util_fast_urem32 h sz (REMAINDER_MAGIC sz) = of_nat (slot sz rh h 0)"
proof -
  have "util_fast_urem32 h sz (REMAINDER_MAGIC sz) = h mod sz"
    using good_size_facts(5) [OF assms] by (rule util_fast_urem32_eq_mod)
  then show ?thesis by (simp add: slot_0 word_unat_eq_iff unat_mod_distrib unat_of_nat
        mod_less [OF order_le_less_trans [OF mod_less_eq_dividend unat_u32_less]])
qed

lemma unat_double_hash [probe_simps]:
  assumes "good_size sz rh"
  shows "unat (1 + util_fast_urem32 h rh (REMAINDER_MAGIC rh)) = 1 + unat h mod unat rh"
proof -
  have "util_fast_urem32 h rh (REMAINDER_MAGIC rh) = h mod rh"
    using good_size_facts(6) [OF assms] by (rule util_fast_urem32_eq_mod)
  moreover have "unat h mod unat rh < 2 ^ 32 - 1"
    using good_size_facts(1,2,3) [OF assms] by (intro order_less_le_trans [OF mod_less_divisor]) auto
  ultimately show ?thesis by (simp add: unat_word_ariths unat_mod_distrib)
qed

lemma unat_of_nat_slot [simp]:
  "good_size sz rh \<Longrightarrow> unat (of_nat (slot sz rh h k) :: u32) = slot sz rh h k"
  using slot_less [of sz rh h k] good_size_facts(1,3) [of sz rh] by (simp add: unat_of_nat)

lemma next_address_slot [probe_simps]:
  assumes "good_size sz rh"
  shows "next_address sz (1 + util_fast_urem32 h rh (REMAINDER_MAGIC rh)) (of_nat (slot sz rh h k)) =
    of_nat (slot sz rh h (Suc k))"
proof -
  note gs = good_size_facts [OF assms]
  have "unat h mod unat rh < unat rh" using gs(1,2) by simp
  then have "1 + unat h mod unat rh < unat sz" using gs(1,2) by linarith
  then have "unat (next_address sz (1 + util_fast_urem32 h rh (REMAINDER_MAGIC rh)) (of_nat (slot sz rh h k))) =
      slot sz rh h (Suc k)"
    using gs slot_less [of sz rh h k] unat_double_hash [OF assms] assms
    by (subst unat_next_address) (auto simp: slot_Suc)
  then show ?thesis using assms by (simp add: word_unat_eq_iff)
qed

lemma of_nat_slot_eq_iff [probe_simps]:
  assumes "good_size sz rh"
  shows "(of_nat (slot sz rh h i) :: u32) = of_nat (slot sz rh h j) \<longleftrightarrow> slot sz rh h i = slot sz rh h j"
  using assms by (simp add: word_unat_eq_iff)

end
