(* ===== verification/Xxhash.thy ===== *)
theory Xxhash
  imports Prelude
begin

text \<open>
  The 32-bit hash \<^verbatim>\<open>XXH32\<close> of \<^verbatim>\<open>src/util/xxhash.h\<close>, which hashes the keys of
  the tables. Inputs are byte lists. The final step exists twice in the source, as a loop
  (\<^verbatim>\<open>XXH_REROLL\<close>) and as a switch with fall-through; both are modelled and shown equal.
\<close>

section \<open>Definitions\<close>

abbreviation PRIME32_1 :: u32 where "PRIME32_1 \<equiv> 0x9E3779B1"
abbreviation PRIME32_2 :: u32 where "PRIME32_2 \<equiv> 0x85EBCA77"
abbreviation PRIME32_3 :: u32 where "PRIME32_3 \<equiv> 0xC2B2AE3D"
abbreviation PRIME32_4 :: u32 where "PRIME32_4 \<equiv> 0x27D4EB2F"
abbreviation PRIME32_5 :: u32 where "PRIME32_5 \<equiv> 0x165667B1"

definition XXH_rotl32 :: "u32 \<Rightarrow> nat \<Rightarrow> u32" where
  "XXH_rotl32 x r = push_bit r x OR drop_bit (32 - r) x"

definition XXH32_round :: "u32 \<Rightarrow> u32 \<Rightarrow> u32" where
  "XXH32_round acc inp = XXH_rotl32 (acc + inp * PRIME32_2) 13 * PRIME32_1"

definition XXH32_avalanche :: "u32 \<Rightarrow> u32" where
  "XXH32_avalanche h32 =
     (let h32 = h32 XOR drop_bit 15 h32;
          h32 = h32 * PRIME32_2;
          h32 = h32 XOR drop_bit 13 h32;
          h32 = h32 * PRIME32_3
      in h32 XOR drop_bit 16 h32)"

text \<open>\<^verbatim>\<open>XXH_get32bits\<close>: four bytes, least significant first.\<close>

fun XXH_get32bits :: "u8 list \<Rightarrow> u32" where
  "XXH_get32bits (b0 # b1 # b2 # b3 # _) =
     ucast b0 OR push_bit 8 (ucast b1) OR push_bit 16 (ucast b2) OR push_bit 24 (ucast b3)"
| "XXH_get32bits _ = 0"

definition PROCESS1 :: "u32 \<times> u8 list \<Rightarrow> u32 \<times> u8 list" where
  "PROCESS1 s = (case s of (h32, ptr) \<Rightarrow>
     (XXH_rotl32 (h32 + ucast (hd ptr) * PRIME32_5) 11 * PRIME32_1, tl ptr))"

definition PROCESS4 :: "u32 \<times> u8 list \<Rightarrow> u32 \<times> u8 list" where
  "PROCESS4 s = (case s of (h32, ptr) \<Rightarrow>
     (XXH_rotl32 (h32 + XXH_get32bits ptr * PRIME32_3) 17 * PRIME32_4, drop 4 ptr))"

text \<open>The rerolled version: two loops over the remaining length.\<close>

fun reroll1 :: "nat \<Rightarrow> u32 \<times> u8 list \<Rightarrow> u32 \<times> u8 list" where
  "reroll1 len s = (if 0 < len then reroll1 (len - 1) (PROCESS1 s) else s)"

fun reroll4 :: "nat \<Rightarrow> u32 \<times> u8 list \<Rightarrow> u32 \<times> u8 list" where
  "reroll4 len s = (if 4 \<le> len then reroll4 (len - 4) (PROCESS4 s) else reroll1 len s)"

definition XXH32_finalize_reroll :: "u32 \<Rightarrow> u8 list \<Rightarrow> nat \<Rightarrow> u32" where
  "XXH32_finalize_reroll h32 ptr len =
     (let len = len mod 16 in XXH32_avalanche (fst (reroll4 len (h32, ptr))))"

text \<open>The switch: each case falls through to the next one of its group.\<close>

definition XXH32_finalize :: "u32 \<Rightarrow> u8 list \<Rightarrow> nat \<Rightarrow> u32" where
  "XXH32_finalize h32 ptr len =
     (let n = len mod 16; s = (h32, ptr);
          s = (if n \<in> {12, 13, 14, 15} then PROCESS4 s else s);
          s = (if n \<in> {12, 8, 13, 9, 14, 10, 15, 11} then PROCESS4 s else s);
          s = (if n \<in> {12, 8, 4, 13, 9, 5, 14, 10, 6, 15, 11, 7} then PROCESS4 s else s);
          s = (if n \<in> {13, 9, 5, 14, 10, 6, 15, 11, 7, 3, 2, 1} then PROCESS1 s else s);
          s = (if n \<in> {14, 10, 6, 15, 11, 7, 3, 2} then PROCESS1 s else s);
          s = (if n \<in> {15, 11, 7, 3} then PROCESS1 s else s)
      in XXH32_avalanche (fst s))"

text \<open>The main loop over 16-byte stripes; it runs while at least 16 bytes are left.\<close>

function stripes :: "u32 \<times> u32 \<times> u32 \<times> u32 \<Rightarrow> u8 list \<Rightarrow> (u32 \<times> u32 \<times> u32 \<times> u32) \<times> u8 list" where
  "stripes (v1, v2, v3, v4) inp =
     (if 16 \<le> length inp
      then stripes (XXH32_round v1 (XXH_get32bits inp), XXH32_round v2 (XXH_get32bits (drop 4 inp)),
                    XXH32_round v3 (XXH_get32bits (drop 8 inp)), XXH32_round v4 (XXH_get32bits (drop 12 inp)))
             (drop 16 inp)
      else ((v1, v2, v3, v4), inp))"
  by pat_completeness auto
termination
  by (relation "measure (\<lambda>(_, inp). length inp)") auto

definition XXH32_endian_align :: "u8 list \<Rightarrow> nat \<Rightarrow> u32 \<Rightarrow> u32" where
  "XXH32_endian_align inp len seed =
     (let (h32, inp) =
        (if 16 \<le> len
         then case stripes (seed + PRIME32_1 + PRIME32_2, seed + PRIME32_2, seed + 0, seed - PRIME32_1) inp of
                ((v1, v2, v3, v4), inp) \<Rightarrow>
                  (XXH_rotl32 v1 1 + XXH_rotl32 v2 7 + XXH_rotl32 v3 12 + XXH_rotl32 v4 18, inp)
         else (seed + PRIME32_5, inp));
        h32 = h32 + of_nat len
      in XXH32_finalize h32 inp (len mod 16))"

definition XXH32 :: "u8 list \<Rightarrow> u32 \<Rightarrow> u32" where
  "XXH32 inp seed = XXH32_endian_align inp (length inp) seed"

text \<open>The memory image of an array of 32-bit values on a little-endian machine.\<close>

definition bytes_of_u32 :: "u32 \<Rightarrow> u8 list" where
  "bytes_of_u32 w = [ucast w, ucast (drop_bit 8 w), ucast (drop_bit 16 w), ucast (drop_bit 24 w)]"

definition bytes_of_u32s :: "u32 list \<Rightarrow> u8 list" where
  "bytes_of_u32s ws = concat (map bytes_of_u32 ws)"

section \<open>Properties\<close>

declare reroll1.simps [simp del] reroll4.simps [simp del] stripes.simps [simp del]

lemma XXH_get32bits_bytes: "XXH_get32bits (bytes_of_u32 w @ rest) = w"
proof (rule bit_word_eqI)
  fix n assume "n < LENGTH(32)"
  then consider "n < 8" | "8 \<le> n" "n < 16" | "16 \<le> n" "n < 24" | "24 \<le> n" "n < 32"
    by fastforce
  then show "bit (XXH_get32bits (bytes_of_u32 w @ rest)) n = bit w n"
    by cases (auto simp: bytes_of_u32_def bit_or_iff bit_push_bit_iff bit_ucast_iff bit_drop_bit_eq)
qed

lemma length_bytes_of_u32 [simp]: "length (bytes_of_u32 w) = 4"
  by (simp add: bytes_of_u32_def)

lemma length_bytes_of_u32s [simp]: "length (bytes_of_u32s ws) = 4 * length ws"
  by (induction ws) (auto simp: bytes_of_u32s_def)

lemma stripes_rest: "length (snd (stripes v inp)) = length inp mod 16"
proof (induction v inp rule: stripes.induct)
  case (1 v1 v2 v3 v4 inp)
  show ?case
  proof (cases "16 \<le> length inp")
    case True
    with 1 show ?thesis by (subst stripes.simps) (simp add: le_mod_geq)
  next
    case False
    then show ?thesis by (subst stripes.simps) simp
  qed
qed

text \<open>The two variants of the final step agree for every remaining length.\<close>

lemma finalize_variants_agree: "XXH32_finalize h32 ptr len = XXH32_finalize_reroll h32 ptr len"
proof -
  define n where "n = len mod 16"
  then have "n < 16" by simp
  then have "n \<in> {15, 14, 13, 12, 11, 10, 9, 8, 7, 6, 5, 4, 3, 2, 1, 0}" by (simp, arith)
  then show ?thesis
    unfolding XXH32_finalize_def XXH32_finalize_reroll_def Let_def n_def [symmetric]
    by (elim insertE emptyE) (simp_all add: reroll4.simps reroll1.simps)
qed

end
