(* ===== verification/Hash_Table.thy ===== *)
theory Hash_Table
  imports Probing Xxhash
begin

text \<open>
  The open-addressing hash table of \<^verbatim>\<open>src/util/hash_table.c\<close>: its records, every operation of
  the file, and their correctness against a linear scan of the table. An entry pointer is the
  index of its slot. \<open>alloc n\<close> says whether the allocator can serve a request for \<open>n\<close>
  entries. The loops carry the table size as fuel; running out of it (\<open>None\<close>) is the C loop not
  ending. Tables are never the null pointer here, which \<^verbatim>\<open>_mesa_hash_table_clear\<close> ignores.
\<close>

section \<open>Records\<close>

record ('k, 'd) hash_entry =
  he_hash :: u32
  he_key :: "'k ptr"
  he_data :: "'d option"

record ('k, 'd) hash_table =
  ht_table :: "('k, 'd) hash_entry list"
  key_hash_function :: "('k ptr \<Rightarrow> u32) option"
  key_equals_function :: "'k ptr \<Rightarrow> 'k ptr \<Rightarrow> bool"
  deleted_key :: "'k ptr"
  ht_size :: u32
  ht_rehash :: u32
  size_magic :: u64
  rehash_magic :: u64
  max_entries :: u32
  size_index :: u32
  entries :: u32
  deleted_entries :: u32

text \<open>A zeroed entry, as \<^verbatim>\<open>rzalloc_array\<close> and \<^verbatim>\<open>memset\<close> leave it.\<close>

definition zero_entry :: "('k, 'd) hash_entry" where
  "zero_entry = \<lparr>he_hash = 0, he_key = NULL, he_data = None\<rparr>"

section \<open>Entry states\<close>

definition key_pointer_is_reserved :: "('k, 'd) hash_table \<Rightarrow> 'k ptr \<Rightarrow> bool" where
  "key_pointer_is_reserved ht key \<longleftrightarrow> key = NULL \<or> key = deleted_key ht"

definition entry_is_free :: "('k, 'd) hash_entry \<Rightarrow> bool" where
  "entry_is_free entry \<longleftrightarrow> he_key entry = NULL"

definition entry_is_deleted :: "('k, 'd) hash_table \<Rightarrow> ('k, 'd) hash_entry \<Rightarrow> bool" where
  "entry_is_deleted ht entry \<longleftrightarrow> he_key entry = deleted_key ht"

definition entry_is_present :: "('k, 'd) hash_table \<Rightarrow> ('k, 'd) hash_entry \<Rightarrow> bool" where
  "entry_is_present ht entry \<longleftrightarrow> he_key entry \<noteq> NULL \<and> he_key entry \<noteq> deleted_key ht"

section \<open>Creation\<close>

text \<open>The fields that \<^verbatim>\<open>hash_sizes[index]\<close> determines.\<close>

definition set_size_fields :: "('k, 'd) hash_table \<Rightarrow> nat \<Rightarrow> ('k, 'd) hash_table" where
  "set_size_fields ht i = ht\<lparr>size_index := of_nat i, ht_size := hs_size (hash_sizes ! i),
     ht_rehash := hs_rehash (hash_sizes ! i), size_magic := hs_size_magic (hash_sizes ! i),
     rehash_magic := hs_rehash_magic (hash_sizes ! i), max_entries := hs_max_entries (hash_sizes ! i)\<rparr>"

definition mesa_hash_table_init ::
  "(nat \<Rightarrow> bool) \<Rightarrow> ('k ptr \<Rightarrow> u32) option \<Rightarrow> ('k ptr \<Rightarrow> 'k ptr \<Rightarrow> bool) \<Rightarrow> bool \<times> ('k, 'd) hash_table" where
  "mesa_hash_table_init alloc kh ke =
     (let n = unat (hs_size (hash_sizes ! 0)); ok = alloc n
      in (ok, set_size_fields
         \<lparr>ht_table = (if ok then replicate n zero_entry else []), key_hash_function = kh,
          key_equals_function = ke, deleted_key = Deleted_key_value, ht_size = 0, ht_rehash = 0,
          size_magic = 0, rehash_magic = 0, max_entries = 0, size_index = 0,
          entries = 0, deleted_entries = 0\<rparr> 0))"

text \<open>The table header is one more allocation (\<open>alloc 1\<close>); failure of either gives \<^verbatim>\<open>NULL\<close>.\<close>

definition mesa_hash_table_create ::
  "(nat \<Rightarrow> bool) \<Rightarrow> ('k ptr \<Rightarrow> u32) option \<Rightarrow> ('k ptr \<Rightarrow> 'k ptr \<Rightarrow> bool) \<Rightarrow> ('k, 'd) hash_table option" where
  "mesa_hash_table_create alloc kh ke =
     (if \<not> alloc 1 then None
      else case mesa_hash_table_init alloc kh ke of (ok, ht) \<Rightarrow> if \<not> ok then None else Some ht)"

definition mesa_hash_table_clone :: "(nat \<Rightarrow> bool) \<Rightarrow> ('k, 'd) hash_table \<Rightarrow> ('k, 'd) hash_table option" where
  "mesa_hash_table_clone alloc src =
     (if \<not> alloc 1 then None
      else if \<not> alloc (unat (ht_size src)) then None
      else Some (src\<lparr>ht_table := take (unat (ht_size src)) (ht_table src)\<rparr>))"

section \<open>Iteration\<close>

text \<open>
  \<^verbatim>\<open>_mesa_hash_table_next_entry\<close>: the first present entry after the given one (\<open>None\<close> starts
  the iteration). The loop runs from a slot index to the end of the table.
\<close>

definition mesa_hash_table_next_entry :: "('k, 'd) hash_table \<Rightarrow> nat option \<Rightarrow> nat option" where
  "mesa_hash_table_next_entry ht entry =
     (let from = (case entry of None \<Rightarrow> 0 | Some i \<Rightarrow> i + 1)
      in find (\<lambda>i. entry_is_present ht (ht_table ht ! i)) [from..<unat (ht_size ht)])"

text \<open>\<^verbatim>\<open>hash_table_foreach\<close>: the slots the iteration visits, in order.\<close>

function hash_table_foreach_from :: "('k, 'd) hash_table \<Rightarrow> nat option \<Rightarrow> nat list" where
  "hash_table_foreach_from ht entry =
     (case mesa_hash_table_next_entry ht entry of
        None \<Rightarrow> []
      | Some i \<Rightarrow> i # hash_table_foreach_from ht (Some i))"
  by pat_completeness auto
termination
proof (relation "measure (\<lambda>(ht, e). unat (ht_size ht) - (case e of None \<Rightarrow> 0 | Some i \<Rightarrow> i + 1))")
  fix ht :: "('k, 'd) hash_table" and entry i
  assume "mesa_hash_table_next_entry ht entry = Some i"
  then have "i \<in> set [(case entry of None \<Rightarrow> 0 | Some i \<Rightarrow> i + 1)..<unat (ht_size ht)]"
    unfolding mesa_hash_table_next_entry_def Let_def by (metis find_Some_iff nth_mem)
  then show "((ht, Some i), ht, entry)
      \<in> measure (\<lambda>(ht, e). unat (ht_size ht) - (case e of None \<Rightarrow> 0 | Some i \<Rightarrow> i + 1))"
    by (auto split: option.splits)
qed simp

definition hash_table_foreach :: "('k, 'd) hash_table \<Rightarrow> ('k, 'd) hash_entry list" where
  "hash_table_foreach ht = map (\<lambda>i. ht_table ht ! i) (hash_table_foreach_from ht None)"

text \<open>\<^verbatim>\<open>_mesa_hash_table_next_entry_unsafe\<close>: asserts that nothing was deleted.\<close>

function next_entry_unsafe_from :: "('k, 'd) hash_table \<Rightarrow> nat \<Rightarrow> nat option" where
  "next_entry_unsafe_from ht i =
     (if i < unat (ht_size ht)
      then if he_key (ht_table ht ! i) \<noteq> NULL then Some i else next_entry_unsafe_from ht (i + 1)
      else None)"
  by pat_completeness auto
termination
  by (relation "measure (\<lambda>(ht, i). unat (ht_size ht) - i)") auto

definition mesa_hash_table_next_entry_unsafe :: "('k, 'd) hash_table \<Rightarrow> nat option \<Rightarrow> nat option option" where
  "mesa_hash_table_next_entry_unsafe ht entry = do {
     c_assert (deleted_entries ht = 0);
     if entries ht = 0 then Some None
     else Some (next_entry_unsafe_from ht (case entry of None \<Rightarrow> 0 | Some i \<Rightarrow> i + 1)) }"

text \<open>\<open>rand\<close> is the value of the C library's generator; the predicate may be absent.\<close>

definition mesa_hash_table_random_entry ::
  "('k, 'd) hash_table \<Rightarrow> u32 \<Rightarrow> (('k, 'd) hash_entry \<Rightarrow> bool) option \<Rightarrow> nat option" where
  "mesa_hash_table_random_entry ht rand predicate =
     (let i = unat (rand mod ht_size ht);
          ok = (\<lambda>j. entry_is_present ht (ht_table ht ! j) \<and>
                 (case predicate of None \<Rightarrow> True | Some p \<Rightarrow> p (ht_table ht ! j)))
      in if entries ht = 0 then None
         else case find ok [i..<unat (ht_size ht)] of
                Some j \<Rightarrow> Some j
              | None \<Rightarrow> find ok [0..<i])"

section \<open>Clearing and destruction\<close>

definition hash_table_clear_fast :: "('k, 'd) hash_table \<Rightarrow> ('k, 'd) hash_table" where
  "hash_table_clear_fast ht = ht\<lparr>
     ht_table := replicate (unat (hs_size (hash_sizes ! unat (size_index ht)))) zero_entry @
                 drop (unat (hs_size (hash_sizes ! unat (size_index ht)))) (ht_table ht),
     entries := 0, deleted_entries := 0\<rparr>"

text \<open>A delete function acts on some outer state \<open>'s\<close>, which the model threads through.\<close>

definition mesa_hash_table_clear ::
  "('k, 'd) hash_table \<Rightarrow> (('k, 'd) hash_entry \<Rightarrow> 's \<Rightarrow> 's) option \<Rightarrow> 's \<Rightarrow> ('k, 'd) hash_table \<times> 's" where
  "mesa_hash_table_clear ht delete_function s =
     (case delete_function of
        Some del \<Rightarrow>
          (ht\<lparr>ht_table := map (\<lambda>e. e\<lparr>he_key := NULL\<rparr>) (ht_table ht), entries := 0, deleted_entries := 0\<rparr>,
           fold (\<lambda>e s. if entry_is_present ht e then del e s else s) (ht_table ht) s)
      | None \<Rightarrow> (hash_table_clear_fast ht, s))"

definition mesa_hash_table_destroy ::
  "('k, 'd) hash_table option \<Rightarrow> (('k, 'd) hash_entry \<Rightarrow> 's \<Rightarrow> 's) option \<Rightarrow> 's \<Rightarrow> 's" where
  "mesa_hash_table_destroy ht delete_function s =
     (case ht of
        None \<Rightarrow> s
      | Some ht \<Rightarrow> (case delete_function of None \<Rightarrow> s | Some del \<Rightarrow> fold del (hash_table_foreach ht) s))"

definition mesa_hash_table_set_deleted_key :: "('k, 'd) hash_table \<Rightarrow> 'k ptr \<Rightarrow> ('k, 'd) hash_table" where
  "mesa_hash_table_set_deleted_key ht key = ht\<lparr>deleted_key := key\<rparr>"

section \<open>Search\<close>

fun hash_table_search_loop ::
  "nat \<Rightarrow> ('k, 'd) hash_table \<Rightarrow> u32 \<Rightarrow> 'k ptr \<Rightarrow> u32 \<Rightarrow> u32 \<Rightarrow> u32 \<Rightarrow> u32 option option" where
  "hash_table_search_loop 0 ht hash key start_hash_address double_hash hash_address = None"
| "hash_table_search_loop (Suc fuel) ht hash key start_hash_address double_hash hash_address = do {
     entry \<leftarrow> array_get (ht_table ht) (unat hash_address);
     if entry_is_free entry then Some None
     else if entry_is_present ht entry \<and> he_hash entry = hash \<and>
             key_equals_function ht key (he_key entry) then Some (Some hash_address)
     else (let hash_address = next_address (ht_size ht) double_hash hash_address
           in if hash_address \<noteq> start_hash_address
              then hash_table_search_loop fuel ht hash key start_hash_address double_hash hash_address
              else Some None) }"

definition hash_table_search :: "('k, 'd) hash_table \<Rightarrow> u32 \<Rightarrow> 'k ptr \<Rightarrow> u32 option option" where
  "hash_table_search ht hash key = do {
     c_assert (\<not> key_pointer_is_reserved ht key);
     let start_hash_address = util_fast_urem32 hash (ht_size ht) (size_magic ht);
         double_hash = 1 + util_fast_urem32 hash (ht_rehash ht) (rehash_magic ht)
     in hash_table_search_loop (unat (ht_size ht)) ht hash key start_hash_address double_hash start_hash_address }"

definition mesa_hash_table_search :: "('k, 'd) hash_table \<Rightarrow> 'k ptr \<Rightarrow> u32 option option" where
  "mesa_hash_table_search ht key = do {
     key_hash \<leftarrow> key_hash_function ht;
     hash_table_search ht (key_hash key) key }"

definition mesa_hash_table_search_pre_hashed :: "('k, 'd) hash_table \<Rightarrow> u32 \<Rightarrow> 'k ptr \<Rightarrow> u32 option option" where
  "mesa_hash_table_search_pre_hashed ht hash key = do {
     c_assert (case key_hash_function ht of None \<Rightarrow> True | Some kh \<Rightarrow> hash = kh key);
     hash_table_search ht hash key }"

section \<open>Insertion\<close>

text \<open>The loop of \<^verbatim>\<open>hash_table_insert_rehash\<close> is \<^verbatim>\<open>while (true)\<close>.\<close>

fun hash_table_insert_rehash_loop ::
  "nat \<Rightarrow> ('k, 'd) hash_table \<Rightarrow> u32 \<Rightarrow> 'k ptr \<Rightarrow> 'd option \<Rightarrow> u32 \<Rightarrow> u32 \<Rightarrow> ('k, 'd) hash_table option" where
  "hash_table_insert_rehash_loop 0 ht hash key data double_hash hash_address = None"
| "hash_table_insert_rehash_loop (Suc fuel) ht hash key data double_hash hash_address = do {
     entry \<leftarrow> array_get (ht_table ht) (unat hash_address);
     if he_key entry = NULL
     then Some (ht\<lparr>ht_table := (ht_table ht)[unat hash_address := \<lparr>he_hash = hash, he_key = key, he_data = data\<rparr>]\<rparr>)
     else hash_table_insert_rehash_loop fuel ht hash key data double_hash
            (next_address (ht_size ht) double_hash hash_address) }"

definition hash_table_insert_rehash ::
  "('k, 'd) hash_table \<Rightarrow> u32 \<Rightarrow> 'k ptr \<Rightarrow> 'd option \<Rightarrow> ('k, 'd) hash_table option" where
  "hash_table_insert_rehash ht hash key data =
     (let start_hash_address = util_fast_urem32 hash (ht_size ht) (size_magic ht);
          double_hash = 1 + util_fast_urem32 hash (ht_rehash ht) (rehash_magic ht)
      in hash_table_insert_rehash_loop (unat (ht_size ht)) ht hash key data double_hash start_hash_address)"

fun rehash_entries :: "('k, 'd) hash_table \<Rightarrow> ('k, 'd) hash_entry list \<Rightarrow> ('k, 'd) hash_table option" where
  "rehash_entries ht [] = Some ht"
| "rehash_entries ht (entry # es) = do {
     ht \<leftarrow> hash_table_insert_rehash ht (he_hash entry) (he_key entry) (he_data entry);
     rehash_entries ht es }"

definition mesa_hash_table_rehash ::
  "(nat \<Rightarrow> bool) \<Rightarrow> ('k, 'd) hash_table \<Rightarrow> u32 \<Rightarrow> ('k, 'd) hash_table option" where
  "mesa_hash_table_rehash alloc ht new_size_index =
     (if size_index ht = new_size_index \<and> deleted_entries ht = max_entries ht
      then Some (hash_table_clear_fast ht)
      else if unat new_size_index \<ge> length hash_sizes then Some ht
      else if \<not> alloc (unat (hs_size (hash_sizes ! unat new_size_index))) then Some ht
      else do {
        let old_ht = ht;
            ht = (set_size_fields ht (unat new_size_index))
              \<lparr>ht_table := replicate (unat (hs_size (hash_sizes ! unat new_size_index))) zero_entry,
               entries := 0, deleted_entries := 0\<rparr>
        in do {
          ht \<leftarrow> rehash_entries ht (hash_table_foreach old_ht);
          Some (ht\<lparr>entries := entries old_ht\<rparr>) } })"

text \<open>
  The probe loop of the insertion returns \<open>Inl a\<close> for a slot that holds an equal key and
  \<open>Inr available_entry\<close> when it ends without one.
\<close>

fun hash_table_insert_loop ::
  "nat \<Rightarrow> ('k, 'd) hash_table \<Rightarrow> u32 \<Rightarrow> 'k ptr \<Rightarrow> u32 \<Rightarrow> u32 \<Rightarrow> u32 option \<Rightarrow> u32 \<Rightarrow> (u32 + u32 option) option" where
  "hash_table_insert_loop 0 ht hash key start_hash_address double_hash available_entry hash_address = None"
| "hash_table_insert_loop (Suc fuel) ht hash key start_hash_address double_hash available_entry hash_address = do {
     entry \<leftarrow> array_get (ht_table ht) (unat hash_address);
     let available_entry =
           (if \<not> entry_is_present ht entry \<and> available_entry = None then Some hash_address else available_entry)
     in if \<not> entry_is_present ht entry \<and> entry_is_free entry then Some (Inr available_entry)
        else if \<not> entry_is_deleted ht entry \<and> he_hash entry = hash \<and>
                key_equals_function ht key (he_key entry) then Some (Inl hash_address)
        else (let hash_address = next_address (ht_size ht) double_hash hash_address
              in if hash_address \<noteq> start_hash_address
                 then hash_table_insert_loop fuel ht hash key start_hash_address double_hash available_entry hash_address
                 else Some (Inr available_entry)) }"

definition hash_table_insert ::
  "(nat \<Rightarrow> bool) \<Rightarrow> ('k, 'd) hash_table \<Rightarrow> u32 \<Rightarrow> 'k ptr \<Rightarrow> 'd option
    \<Rightarrow> (u32 option \<times> ('k, 'd) hash_table) option" where
  "hash_table_insert alloc ht hash key data = do {
     c_assert (\<not> key_pointer_is_reserved ht key);
     ht \<leftarrow> (if entries ht \<ge> max_entries ht then mesa_hash_table_rehash alloc ht (size_index ht + 1)
           else if deleted_entries ht + entries ht \<ge> max_entries ht
                then mesa_hash_table_rehash alloc ht (size_index ht)
           else Some ht);
     let start_hash_address = util_fast_urem32 hash (ht_size ht) (size_magic ht);
         double_hash = 1 + util_fast_urem32 hash (ht_rehash ht) (rehash_magic ht)
     in do {
       r \<leftarrow> hash_table_insert_loop (unat (ht_size ht)) ht hash key start_hash_address double_hash None start_hash_address;
       case r of
         Inl a \<Rightarrow>
           Some (Some a, ht\<lparr>ht_table := (ht_table ht)[unat a := (ht_table ht ! unat a)\<lparr>he_key := key, he_data := data\<rparr>]\<rparr>)
       | Inr (Some a) \<Rightarrow>
           let ht = (if entry_is_deleted ht (ht_table ht ! unat a)
                     then ht\<lparr>deleted_entries := deleted_entries ht - 1\<rparr> else ht)
           in Some (Some a,
                ht\<lparr>ht_table := (ht_table ht)[unat a := \<lparr>he_hash = hash, he_key = key, he_data = data\<rparr>],
                   entries := entries ht + 1\<rparr>)
       | Inr None \<Rightarrow> Some (None, ht) } }"

definition mesa_hash_table_insert ::
  "(nat \<Rightarrow> bool) \<Rightarrow> ('k, 'd) hash_table \<Rightarrow> 'k ptr \<Rightarrow> 'd option \<Rightarrow> (u32 option \<times> ('k, 'd) hash_table) option" where
  "mesa_hash_table_insert alloc ht key data = do {
     key_hash \<leftarrow> key_hash_function ht;
     hash_table_insert alloc ht (key_hash key) key data }"

definition mesa_hash_table_insert_pre_hashed ::
  "(nat \<Rightarrow> bool) \<Rightarrow> ('k, 'd) hash_table \<Rightarrow> u32 \<Rightarrow> 'k ptr \<Rightarrow> 'd option
    \<Rightarrow> (u32 option \<times> ('k, 'd) hash_table) option" where
  "mesa_hash_table_insert_pre_hashed alloc ht hash key data = do {
     c_assert (case key_hash_function ht of None \<Rightarrow> True | Some kh \<Rightarrow> hash = kh key);
     hash_table_insert alloc ht hash key data }"

section \<open>Removal and reservation\<close>

definition mesa_hash_table_remove :: "('k, 'd) hash_table \<Rightarrow> u32 option \<Rightarrow> ('k, 'd) hash_table" where
  "mesa_hash_table_remove ht entry =
     (case entry of
        None \<Rightarrow> ht
      | Some a \<Rightarrow> ht\<lparr>ht_table := (ht_table ht)[unat a := (ht_table ht ! unat a)\<lparr>he_key := deleted_key ht\<rparr>],
                    entries := entries ht - 1, deleted_entries := deleted_entries ht + 1\<rparr>)"

definition mesa_hash_table_remove_key :: "('k, 'd) hash_table \<Rightarrow> 'k ptr \<Rightarrow> ('k, 'd) hash_table option" where
  "mesa_hash_table_remove_key ht key = do {
     entry \<leftarrow> mesa_hash_table_search ht key;
     Some (mesa_hash_table_remove ht entry) }"

definition mesa_hash_table_reserve ::
  "(nat \<Rightarrow> bool) \<Rightarrow> ('k, 'd) hash_table \<Rightarrow> u32 \<Rightarrow> (bool \<times> ('k, 'd) hash_table) option" where
  "mesa_hash_table_reserve alloc ht sz =
     (if sz < max_entries ht then Some (True, ht)
      else do {
        ht \<leftarrow> (case find (\<lambda>i. hs_max_entries (hash_sizes ! i) \<ge> sz) [unat (size_index ht + 1)..<length hash_sizes] of
                 None \<Rightarrow> Some ht
               | Some i \<Rightarrow> mesa_hash_table_rehash alloc ht (of_nat i));
        Some (max_entries ht \<ge> sz, ht) })"

section \<open>Hash and comparison functions\<close>

definition mesa_hash_data :: "u8 list \<Rightarrow> u32" where
  "mesa_hash_data bytes = XXH32 bytes 0"

definition mesa_hash_data_with_seed :: "u8 list \<Rightarrow> u32 \<Rightarrow> u32" where
  "mesa_hash_data_with_seed bytes seed = XXH32 bytes seed"

definition mesa_hash_uint :: "u32 \<Rightarrow> u32" where
  "mesa_hash_uint key = XXH32 (bytes_of_u32 key) 0"

text \<open>The numeric value of a pointer; \<open>dkv\<close> is the address the linker gave \<^verbatim>\<open>deleted_key_value\<close>.\<close>

fun uintptr :: "u64 \<Rightarrow> u64 ptr \<Rightarrow> u64" where
  "uintptr dkv NULL = 0"
| "uintptr dkv Deleted_key_value = dkv"
| "uintptr dkv (Ptr w) = w"

definition mesa_hash_pointer :: "u64 \<Rightarrow> u64 ptr \<Rightarrow> u32" where
  "mesa_hash_pointer dkv pointer =
     (let num = uintptr dkv pointer
      in ucast (drop_bit 2 num XOR drop_bit 6 num XOR drop_bit 10 num XOR drop_bit 14 num))"

definition mesa_key_pointer_equal :: "'k ptr \<Rightarrow> 'k ptr \<Rightarrow> bool" where
  "mesa_key_pointer_equal a b \<longleftrightarrow> a = b"

definition key_u32_hash :: "u64 \<Rightarrow> u64 ptr \<Rightarrow> u32" where
  "key_u32_hash dkv key = mesa_hash_uint (ucast (uintptr dkv key))"

definition key_u32_equals :: "u64 \<Rightarrow> u64 ptr \<Rightarrow> u64 ptr \<Rightarrow> bool" where
  "key_u32_equals dkv a b \<longleftrightarrow> (ucast (uintptr dkv a) :: u32) = ucast (uintptr dkv b)"

definition mesa_hash_table_create_u32_keys :: "(nat \<Rightarrow> bool) \<Rightarrow> u64 \<Rightarrow> (u64, 'd) hash_table option" where
  "mesa_hash_table_create_u32_keys alloc dkv =
     mesa_hash_table_create alloc (Some (key_u32_hash dkv)) (key_u32_equals dkv)"

definition mesa_pointer_hash_table_create :: "(nat \<Rightarrow> bool) \<Rightarrow> u64 \<Rightarrow> (u64, 'd) hash_table option" where
  "mesa_pointer_hash_table_create alloc dkv =
     mesa_hash_table_create alloc (Some (mesa_hash_pointer dkv)) mesa_key_pointer_equal"

end
