(* ===== verification/Hash_Table_Rehash.thy ===== *)
theory Hash_Table_Rehash
  imports Hash_Table_Correct
begin

text \<open>
  Growth of the hash table: rehashing into a table of another size keeps the map, insertion with
  its rehash stores the key and keeps the invariant and the load bound, and freshly created tables
  are empty.
\<close>

section \<open>Rehashing\<close>

lemma free_or_deleted_slot:
  assumes wf: "ht_wf ht" and "present_count ht < length (ht_table ht)"
  obtains j where "j < unat (ht_size ht)" "\<not> entry_is_present ht (pentry ht h j)"
proof -
  obtain i where i: "i < length (ht_table ht)" "\<not> entry_is_present ht (ht_table ht ! i)"
    using assms(2) unfolding present_count_def by (rule length_filter_less_nth)
  obtain j where "j < unat (ht_size ht)" "pslot ht h j = i"
    using slot_surj [OF ht_wf_good [OF wf]] i(1) ht_wf_length [OF wf] by metis
  then show thesis using i(2) that [of j] by (simp add: pentry_def)
qed

text \<open>An empty table of size number \<open>i\<close> with the callbacks of \<open>ht\<close>.\<close>

definition fresh_table :: "('k, 'd) hash_table \<Rightarrow> nat \<Rightarrow> ('k, 'd) hash_table" where
  "fresh_table ht i = (set_size_fields ht i)
     \<lparr>ht_table := replicate (unat (hs_size (hash_sizes ! i))) zero_entry, entries := 0, deleted_entries := 0\<rparr>"

lemma zero_entry_free [simp]:
  "entry_is_free zero_entry" "\<not> entry_is_present ht zero_entry"
  "deleted_key ht \<noteq> NULL \<Longrightarrow> \<not> entry_is_deleted ht zero_entry"
  by (simp_all add: zero_entry_def entry_is_free_def entry_is_present_def entry_is_deleted_def)

lemma key_funs_cong:
  "key_hash_function a = key_hash_function b \<Longrightarrow> key_equals_function a = key_equals_function b \<Longrightarrow>
   deleted_key a = deleted_key b \<Longrightarrow> key_funs_ok D a = key_funs_ok D b"
  unfolding key_funs_ok_def key_pointer_is_reserved_def by (simp only:)

lemma fresh_table_fields [simp]:
  "key_hash_function (fresh_table ht i) = key_hash_function ht"
  "key_equals_function (fresh_table ht i) = key_equals_function ht"
  "deleted_key (fresh_table ht i) = deleted_key ht"
  "max_entries (fresh_table ht i) = hs_max_entries (hash_sizes ! i)"
  "ht_size (fresh_table ht i) = hs_size (hash_sizes ! i)"
  "ht_rehash (fresh_table ht i) = hs_rehash (hash_sizes ! i)"
  "size_magic (fresh_table ht i) = hs_size_magic (hash_sizes ! i)"
  "rehash_magic (fresh_table ht i) = hs_rehash_magic (hash_sizes ! i)"
  "ht_table (fresh_table ht i) = replicate (unat (hs_size (hash_sizes ! i))) zero_entry"
  "size_index (fresh_table ht i) = of_nat i" "entries (fresh_table ht i) = 0" "deleted_entries (fresh_table ht i) = 0"
  by (simp_all add: fresh_table_def set_size_fields_def)

lemma fresh_table_wf:
  assumes "deleted_key ht \<noteq> NULL" "i < 30"
  shows "ht_wf (fresh_table ht i)"
proof -
  have "unat (of_nat i :: u32) = i" using assms(2) by (simp add: unat_of_nat)
  then show ?thesis using assms by (simp add: ht_wf_def)
qed

lemma fresh_table_counts [simp]:
  "present_count (fresh_table ht i) = 0"
  "deleted_key ht \<noteq> NULL \<Longrightarrow> deleted_count (fresh_table ht i) = 0"
  by (simp_all add: present_count_def deleted_count_def)

lemma fresh_table_core:
  assumes "key_funs_ok D ht" "deleted_key ht \<noteq> NULL" "i < 30"
  shows "ht_core D (fresh_table ht i)"
proof -
  have "key_funs_ok D (fresh_table ht i)"
    using assms(1) key_funs_cong [of "fresh_table ht i" ht D] by simp
  moreover have "\<not> entry_is_present (fresh_table ht i) (ht_table (fresh_table ht i) ! j)"
    if "j < length (ht_table (fresh_table ht i))" for j
    using that by simp
  ultimately show ?thesis unfolding ht_core_def using fresh_table_wf [OF assms(2,3)] by blast
qed

lemma fresh_table_inv:
  assumes "key_funs_ok D ht" "deleted_key ht \<noteq> NULL" "i < 30"
  shows "ht_inv D (fresh_table ht i)"
  using fresh_table_core [OF assms] assms(2) by (simp add: ht_inv_def)

lemma fresh_table_occurs [simp]: "\<not> occurs_at (fresh_table ht i) k j"
  by (auto simp: occurs_at_def)

lemma fresh_table_lookup [simp]: "ht_lookup (fresh_table ht i) k = None"
  by (simp add: ht_lookup_None_iff)

lemma find_upt_least:
  assumes "\<exists>j < n. P j"
  obtains m where "find P [0..<n] = Some m" "m < n" "P m" "\<And>j. j < m \<Longrightarrow> \<not> P j"
proof -
  have "find P [0..<n] \<noteq> None" using assms by (auto simp: find_None_iff)
  then obtain m where m: "find P [0..<n] = Some m" by blast
  then have "m < n" "P m" "\<forall>j < m. \<not> P j" by (auto simp: find_Some_iff)
  with m show thesis using that [of m] by blast
qed

lemma insert_rehash_store:
  assumes core: "ht_core D ht" and "D k" and no: "\<nexists>i. occurs_at ht k i"
    and dc: "deleted_count ht = 0" and room: "present_count ht < length (ht_table ht)"
  obtains i where "hash_table_insert_rehash ht (khash ht k) k d =
      Some (put ht i \<lparr>he_hash = khash ht k, he_key = k, he_data = d\<rparr>)"
    "ht_core D (put ht i \<lparr>he_hash = khash ht k, he_key = k, he_data = d\<rparr>)"
    "present_count (put ht i \<lparr>he_hash = khash ht k, he_key = k, he_data = d\<rparr>) = Suc (present_count ht)"
    "deleted_count (put ht i \<lparr>he_hash = khash ht k, he_key = k, he_data = d\<rparr>) = 0"
    "\<And>k'. D k' \<Longrightarrow> ht_lookup (put ht i \<lparr>he_hash = khash ht k, he_key = k, he_data = d\<rparr>) k' =
       (if keq ht k' k then Some d else ht_lookup ht k')"
proof -
  note wf = ht_coreD(1) [OF core]
  let ?h = "khash ht k" and ?n = "unat (ht_size ht)"
  have pos: "0 < ?n" using good_size_facts(1) [OF ht_wf_good [OF wf]] by simp
  obtain j where j: "j < ?n" "\<not> entry_is_present ht (pentry ht ?h j)"
    using free_or_deleted_slot [OF wf room] .
  have "\<not> entry_is_deleted ht (pentry ht ?h j)"
    using dc pslot_less [OF wf, of ?h j] by (auto simp: deleted_count_def filter_empty_conv pentry_def)
  with j have ex: "\<exists>j < ?n. entry_is_free (pentry ht ?h j)" by (auto simp: entry_states)
  obtain m where m: "find (\<lambda>j. entry_is_free (pentry ht ?h j)) [0..<?n] = Some m" "m < ?n"
    "entry_is_free (pentry ht ?h m)" "\<forall>j < m. \<not> entry_is_free (pentry ht ?h j)"
    using find_upt_least [OF ex] by blast
  have np: "\<not> entry_is_present ht (ht_table ht ! pslot ht ?h m)"
    using m(3) by (simp add: pentry_def entry_states)
  note st = ht_store [OF core \<open>D k\<close> no m(2) refl np m(4) refl]
  have "hash_table_insert_rehash ht ?h k d = hash_table_insert_rehash_loop (?n - 0) ht ?h k d
      (1 + util_fast_urem32 ?h (ht_rehash ht) (REMAINDER_MAGIC (ht_rehash ht))) (of_nat (pslot ht ?h 0))"
    by (simp add: hash_table_insert_rehash_def Let_def ht_wf_magic [OF wf] start_address_slot [OF ht_wf_good [OF wf]])
  also have "\<dots> = Some (put ht (pslot ht ?h m) \<lparr>he_hash = ?h, he_key = k, he_data = d\<rparr>)"
    unfolding insert_rehash_loop_find [OF wf pos] m(1) by simp
  finally show thesis
    using st(4) [of d] dc by (intro that [OF _ st(1) st(3) _ st(2)]) simp_all
qed

text \<open>Reinserting entries with pairwise different keys into a table that holds none of them.\<close>

lemma rehash_entries_correct:
  assumes "ht_core D ht" "deleted_count ht = 0" "present_count ht + length es < length (ht_table ht)"
    "\<forall>e \<in> set es. D (he_key e) \<and> he_hash e = khash ht (he_key e) \<and> (\<nexists>i. occurs_at ht (he_key e) i)"
    "sorted_wrt (\<lambda>a b. \<not> keq ht (he_key a) (he_key b)) es"
  shows "\<exists>T. rehash_entries ht es = Some (ht\<lparr>ht_table := T\<rparr>) \<and> ht_core D (ht\<lparr>ht_table := T\<rparr>) \<and>
    deleted_count (ht\<lparr>ht_table := T\<rparr>) = 0 \<and> present_count (ht\<lparr>ht_table := T\<rparr>) = present_count ht + length es \<and>
    (\<forall>k. D k \<longrightarrow> ht_lookup (ht\<lparr>ht_table := T\<rparr>) k =
       (case find (\<lambda>e. keq ht k (he_key e)) es of Some e \<Rightarrow> Some (he_data e) | None \<Rightarrow> ht_lookup ht k))"
  using assms
proof (induction es arbitrary: ht)
  case Nil
  then show ?case by (intro exI [of _ "ht_table ht"]) simp
next
  case (Cons e es)
  note kf = key_funsD [OF ht_coreD(2) [OF Cons.prems(1)]]
  have De: "D (he_key e)" and he: "he_hash e = khash ht (he_key e)" and no: "\<nexists>i. occurs_at ht (he_key e) i"
    using Cons.prems(4) by simp_all
  have room: "present_count ht < length (ht_table ht)" using Cons.prems(3) by simp
  define e' :: "('a, 'b) hash_entry" where "e' = \<lparr>he_hash = khash ht (he_key e), he_key = he_key e, he_data = he_data e\<rparr>"
  obtain i where i: "hash_table_insert_rehash ht (khash ht (he_key e)) (he_key e) (he_data e) = Some (put ht i e')"
    "ht_core D (put ht i e')" "present_count (put ht i e') = Suc (present_count ht)"
    "deleted_count (put ht i e') = 0"
    "\<And>k. D k \<Longrightarrow> ht_lookup (put ht i e') k = (if keq ht k (he_key e) then Some (he_data e) else ht_lookup ht k)"
    unfolding e'_def using insert_rehash_store [OF Cons.prems(1) De no Cons.prems(2) room] by metis
  have ne: "\<not> keq ht (he_key e) (he_key e2)" if "e2 \<in> set es" for e2 using Cons.prems(5) that by simp
  have ne': "\<not> keq ht (he_key e2) (he_key e)" if "e2 \<in> set es" for e2
    using ne [OF that] kf(3) [OF _ De] that Cons.prems(4) by auto
  have none: "\<nexists>j. occurs_at (put ht i e') (he_key e2) j" if "e2 \<in> set es" for e2
  proof -
    have "ht_lookup (put ht i e') (he_key e2) = None"
      using i(5) [of "he_key e2"] ne' [OF that] that Cons.prems(4) ht_lookup_None_iff [of ht "he_key e2"] by simp
    then show ?thesis by (simp add: ht_lookup_None_iff)
  qed
  let ?ht = "put ht i e'"
  have "\<exists>T. rehash_entries ?ht es = Some (?ht\<lparr>ht_table := T\<rparr>) \<and> ht_core D (?ht\<lparr>ht_table := T\<rparr>) \<and>
    deleted_count (?ht\<lparr>ht_table := T\<rparr>) = 0 \<and> present_count (?ht\<lparr>ht_table := T\<rparr>) = present_count ?ht + length es \<and>
    (\<forall>k. D k \<longrightarrow> ht_lookup (?ht\<lparr>ht_table := T\<rparr>) k =
       (case find (\<lambda>e. keq ?ht k (he_key e)) es of Some e \<Rightarrow> Some (he_data e) | None \<Rightarrow> ht_lookup ?ht k))"
  proof (rule Cons.IH [OF i(2,4)])
    show "present_count ?ht + length es < length (ht_table ?ht)" using i(3) Cons.prems(3) by simp
    show "\<forall>e2 \<in> set es. D (he_key e2) \<and> he_hash e2 = khash ?ht (he_key e2) \<and> (\<nexists>j. occurs_at ?ht (he_key e2) j)"
      using none Cons.prems(4) by simp
    show "sorted_wrt (\<lambda>a b. \<not> keq ?ht (he_key a) (he_key b)) es" using Cons.prems(5) by simp
  qed
  then obtain T where T: "rehash_entries ?ht es = Some (ht\<lparr>ht_table := T\<rparr>)" "ht_core D (ht\<lparr>ht_table := T\<rparr>)"
    "deleted_count (ht\<lparr>ht_table := T\<rparr>) = 0" "present_count (ht\<lparr>ht_table := T\<rparr>) = Suc (present_count ht) + length es"
    "\<And>k. D k \<Longrightarrow> ht_lookup (ht\<lparr>ht_table := T\<rparr>) k =
       (case find (\<lambda>e. keq ht k (he_key e)) es of Some e \<Rightarrow> Some (he_data e) | None \<Rightarrow> ht_lookup ?ht k)"
    using i(3) by auto
  have look: "ht_lookup (ht\<lparr>ht_table := T\<rparr>) k =
       (case find (\<lambda>e. keq ht k (he_key e)) (e # es) of Some e \<Rightarrow> Some (he_data e) | None \<Rightarrow> ht_lookup ht k)"
    if "D k" for k
  proof (cases "keq ht k (he_key e)")
    case True
    have "\<not> keq ht k (he_key e2)" if "e2 \<in> set es" for e2
      using True ne [OF that] kf(3) [OF \<open>D k\<close> De] kf(5) [OF De \<open>D k\<close>, of "he_key e2"] that Cons.prems(4) by auto
    then have "find (\<lambda>e. keq ht k (he_key e)) es = None" by (simp add: find_None_iff)
    then show ?thesis using True T(5) [OF that] i(5) [OF that] by simp
  next
    case False
    then show ?thesis using T(5) [OF that] i(5) [OF that] by (simp split: option.splits)
  qed
  show ?case using T(1-4) i(1) look he by (intro exI [of _ T]) simp
qed

lemma clear_fast_fresh:
  assumes "ht_wf ht"
  shows "hash_table_clear_fast ht = fresh_table ht (unat (size_index ht))"
  using assms by (simp add: hash_table_clear_fast_def fresh_table_def set_size_fields_def ht_wf_def)

lemma foreach_sorted:
  assumes "ht_core D ht"
  shows "sorted_wrt (\<lambda>a b. \<not> keq ht (he_key a) (he_key b)) (filter (entry_is_present ht) (ht_table ht))"
proof -
  let ?R = "\<lambda>a b. entry_is_present ht a \<longrightarrow> entry_is_present ht b \<longrightarrow> \<not> keq ht (he_key a) (he_key b)"
  have "sorted_wrt ?R (ht_table ht)"
    unfolding sorted_wrt_iff_nth_less
  proof (intro allI impI notI)
    fix i j assume *: "i < j" "j < length (ht_table ht)" "entry_is_present ht (ht_table ht ! i)"
      "entry_is_present ht (ht_table ht ! j)" "keq ht (he_key (ht_table ht ! i)) (he_key (ht_table ht ! j))"
    then have "i < length (ht_table ht)" by simp
    from ht_coreD(6) [OF assms this *(2-5)] *(1) show False by simp
  qed
  then have "sorted_wrt ?R (filter (entry_is_present ht) (ht_table ht))" by (rule sorted_wrt_filter)
  then show ?thesis by (rule sorted_wrt_mono_rel [rotated]) simp
qed

text \<open>Rehashing keeps the map and drops the tombstones.\<close>

lemma rehash_correct:
  assumes inv: "ht_inv D ht" and idx: "unat idx < 30"
    and room: "present_count ht \<le> unat (hs_max_entries (hash_sizes ! unat idx))"
    and load: "ht_load ht" and ok: "\<forall>n. alloc n"
  obtains ht' where "mesa_hash_table_rehash alloc ht idx = Some ht'" "ht_inv D ht'"
    "\<forall>k. D k \<longrightarrow> ht_lookup ht' k = ht_lookup ht k"
    "present_count ht' = present_count ht" "deleted_count ht' = 0"
    "max_entries ht' = hs_max_entries (hash_sizes ! unat idx)" "size_index ht' = idx"
    "key_hash_function ht' = key_hash_function ht" "key_equals_function ht' = key_equals_function ht"
    "deleted_key ht' = deleted_key ht"
proof -
  have core: "ht_core D ht" using inv by (simp add: ht_inv_def)
  note wf = ht_coreD(1) [OF core] and kfo = ht_coreD(2) [OF core]
  have dk: "deleted_key ht \<noteq> NULL" using wf by (simp add: ht_wf_def)
  show thesis
  proof (cases "size_index ht = idx \<and> deleted_entries ht = max_entries ht")
    case True
    have 0: "present_count ht = 0"
      using True inv load by (simp add: ht_inv_def ht_load_def)
    then have none: "ht_lookup ht k = None" for k
      by (auto simp: ht_lookup_None_iff occurs_at_def present_count_def filter_empty_conv)
    have "mesa_hash_table_rehash alloc ht idx = Some (fresh_table ht (unat idx))"
      using True clear_fast_fresh [OF wf] by (simp add: mesa_hash_table_rehash_def)
    then show thesis using 0 none dk fresh_table_inv [OF kfo dk idx]
      by (intro that [of "fresh_table ht (unat idx)"]) simp_all
  next
    case False
    let ?f = "fresh_table ht (unat idx)" and ?es = "filter (entry_is_present ht) (ht_table ht)"
    have es: "\<forall>e \<in> set ?es. D (he_key e) \<and> he_hash e = khash ?f (he_key e) \<and> (\<nexists>i. occurs_at ?f (he_key e) i)"
    proof
      fix e assume "e \<in> set ?es"
      then obtain i where i: "i < length (ht_table ht)" "e = ht_table ht ! i" "entry_is_present ht e"
        by (auto simp: in_set_conv_nth)
      then show "D (he_key e) \<and> he_hash e = khash ?f (he_key e) \<and> (\<nexists>i. occurs_at ?f (he_key e) i)"
        using ht_coreD(3,4) [OF core i(1)] by simp
    qed
    have "present_count ?f + length ?es < length (ht_table ?f)"
      using room hash_size_facts(5) [OF idx] by (simp add: present_count_def [of ht])
    from rehash_entries_correct [OF fresh_table_core [OF kfo dk idx] _ this es]
    obtain T where T: "rehash_entries ?f ?es = Some (?f\<lparr>ht_table := T\<rparr>)" "ht_core D (?f\<lparr>ht_table := T\<rparr>)"
      "deleted_count (?f\<lparr>ht_table := T\<rparr>) = 0" "present_count (?f\<lparr>ht_table := T\<rparr>) = present_count ?f + length ?es"
      and look: "\<forall>k. D k \<longrightarrow> ht_lookup (?f\<lparr>ht_table := T\<rparr>) k =
         (case find (\<lambda>e. keq ?f k (he_key e)) ?es of Some e \<Rightarrow> Some (he_data e) | None \<Rightarrow> ht_lookup ?f k)"
      using foreach_sorted [OF core] dk fresh_table_counts(2) [OF dk] fresh_table_fields(2) by metis
    let ?ht = "?f\<lparr>ht_table := T, entries := entries ht\<rparr>"
    have rh: "mesa_hash_table_rehash alloc ht idx = Some ?ht"
      using False ok idx T(1) foreach_filter [OF ht_wf_length [OF wf]]
      by (auto simp: mesa_hash_table_rehash_def Let_def fresh_table_def)
    show thesis
    proof (rule that [OF rh])
      show "ht_inv D ?ht" using T(2-4) inv dk by (simp add: ht_inv_def present_count_def [of ht])
      show "\<forall>k. D k \<longrightarrow> ht_lookup ?ht k = ht_lookup ht k"
        using look by (simp add: find_filter ht_lookup_def [of ht] split: option.splits)
      show "present_count ?ht = present_count ht" using T(4) by (simp add: present_count_def [of ht])
    qed (use T(3) in simp_all)
  qed
qed

section \<open>Insertion\<close>

text \<open>The table the probe loop of an insertion runs on: after the growth step, not full.\<close>

definition grow_for_insert :: "(nat \<Rightarrow> bool) \<Rightarrow> ('k, 'd) hash_table \<Rightarrow> ('k, 'd) hash_table option" where
  "grow_for_insert alloc ht =
     (if entries ht \<ge> max_entries ht then mesa_hash_table_rehash alloc ht (size_index ht + 1)
      else if deleted_entries ht + entries ht \<ge> max_entries ht
           then mesa_hash_table_rehash alloc ht (size_index ht)
      else Some ht)"

lemma hash_sizes_increase: "i < 29 \<Longrightarrow> hs_max_entries (hash_sizes ! i) < hs_max_entries (hash_sizes ! Suc i)"
proof -
  have "list_all (\<lambda>i. hs_max_entries (hash_sizes ! i) < hs_max_entries (hash_sizes ! Suc i)) [0..<29]"
    by (simp add: hash_sizes_def ENTRY_def upt_rec)
  then show "i < 29 \<Longrightarrow> hs_max_entries (hash_sizes ! i) < hs_max_entries (hash_sizes ! Suc i)"
    by (simp add: list_all_iff)
qed

lemma ht_invD:
  assumes "ht_inv D ht"
  shows "ht_core D ht" "ht_wf ht" "unat (entries ht) = present_count ht" "unat (deleted_entries ht) = deleted_count ht"
  using assms by (auto simp: ht_inv_def dest: ht_coreD(1))

lemma wf_index: "ht_wf ht \<Longrightarrow> max_entries ht = hs_max_entries (hash_sizes ! unat (size_index ht)) \<and> unat (size_index ht) < 30"
  by (simp add: ht_wf_def)

lemma grow_correct:
  assumes inv: "ht_inv D ht" and load: "ht_load ht" and ok: "\<forall>n. alloc n"
    and small: "entries ht < max_entries ht \<or> size_index ht < 29"
  obtains ht' where "grow_for_insert alloc ht = Some ht'" "ht_inv D ht'"
    "\<forall>k. D k \<longrightarrow> ht_lookup ht' k = ht_lookup ht k"
    "present_count ht' = present_count ht" "present_count ht' + deleted_count ht' < unat (max_entries ht')"
    "key_hash_function ht' = key_hash_function ht" "key_equals_function ht' = key_equals_function ht"
    "deleted_key ht' = deleted_key ht"
proof -
  note I = ht_invD [OF inv] and wi = wf_index [OF ht_invD(2) [OF inv]]
  consider (grow) "entries ht \<ge> max_entries ht"
    | (same) "entries ht < max_entries ht" "deleted_entries ht + entries ht \<ge> max_entries ht"
    | (none) "entries ht < max_entries ht" "deleted_entries ht + entries ht < max_entries ht"
    using linorder_not_le by blast
  then show thesis
  proof cases
    case grow
    then have si: "size_index ht < 29" using small by auto
    then have idx: "unat (size_index ht + 1) = Suc (unat (size_index ht))" "unat (size_index ht) < 29"
      by (auto simp: word_less_nat_alt intro: unat_succ)
    have lt: "unat (max_entries ht) < unat (hs_max_entries (hash_sizes ! unat (size_index ht + 1)))"
      using hash_sizes_increase [OF idx(2)] wi idx(1) by (simp add: word_less_nat_alt)
    have le: "present_count ht \<le> unat (max_entries ht)" using load by (simp add: ht_load_def)
    have fits: "unat (size_index ht + 1) < 30" "present_count ht \<le> unat (hs_max_entries (hash_sizes ! unat (size_index ht + 1)))"
      using idx lt le by simp_all
    obtain ht' where ht': "mesa_hash_table_rehash alloc ht (size_index ht + 1) = Some ht'" "ht_inv D ht'"
      "\<forall>k. D k \<longrightarrow> ht_lookup ht' k = ht_lookup ht k" "present_count ht' = present_count ht" "deleted_count ht' = 0"
      "max_entries ht' = hs_max_entries (hash_sizes ! unat (size_index ht + 1))" "size_index ht' = size_index ht + 1"
      "key_hash_function ht' = key_hash_function ht" "key_equals_function ht' = key_equals_function ht"
      "deleted_key ht' = deleted_key ht"
      using rehash_correct [OF inv fits load ok] .
    show thesis using ht' lt le grow by (intro that [of ht']) (simp_all add: grow_for_insert_def)
  next
    case same
    have lt: "present_count ht < unat (max_entries ht)" using same(1) I(3) by (simp add: word_less_nat_alt)
    have fits: "unat (size_index ht) < 30" "present_count ht \<le> unat (hs_max_entries (hash_sizes ! unat (size_index ht)))"
      using wi lt by auto
    obtain ht' where ht': "mesa_hash_table_rehash alloc ht (size_index ht) = Some ht'" "ht_inv D ht'"
      "\<forall>k. D k \<longrightarrow> ht_lookup ht' k = ht_lookup ht k" "present_count ht' = present_count ht" "deleted_count ht' = 0"
      "max_entries ht' = hs_max_entries (hash_sizes ! unat (size_index ht))" "size_index ht' = size_index ht"
      "key_hash_function ht' = key_hash_function ht" "key_equals_function ht' = key_equals_function ht"
      "deleted_key ht' = deleted_key ht"
      using rehash_correct [OF inv fits load ok] .
    show thesis using ht' lt wi same by (intro that [of ht']) (simp_all add: grow_for_insert_def not_le [symmetric])
  next
    case none
    have "unat (deleted_entries ht + entries ht) = deleted_count ht + present_count ht"
      using I(3,4) load unat_u32_less [of "max_entries ht"]
      by (subst unat_add_no_wrap) (simp_all add: ht_load_def)
    then have "present_count ht + deleted_count ht < unat (max_entries ht)"
      using none(2) by (simp add: word_less_nat_alt)
    then show thesis using none inv by (intro that [of ht]) (simp_all add: grow_for_insert_def not_le [symmetric])
  qed
qed

lemma mesa_insert_unfold:
  assumes "key_hash_function ht = Some kh" "\<not> key_pointer_is_reserved ht k" "grow_for_insert alloc ht = Some ht'"
  shows "mesa_hash_table_insert alloc ht k d =
    (let start_hash_address = util_fast_urem32 (kh k) (ht_size ht') (size_magic ht');
         double_hash = 1 + util_fast_urem32 (kh k) (ht_rehash ht') (rehash_magic ht')
     in do {
       r \<leftarrow> hash_table_insert_loop (unat (ht_size ht')) ht' (kh k) k start_hash_address double_hash None start_hash_address;
       case r of
         Inl a \<Rightarrow>
           Some (Some a, ht'\<lparr>ht_table := (ht_table ht')[unat a := (ht_table ht' ! unat a)\<lparr>he_key := k, he_data := d\<rparr>]\<rparr>)
       | Inr (Some a) \<Rightarrow>
           let ht = (if entry_is_deleted ht' (ht_table ht' ! unat a)
                     then ht'\<lparr>deleted_entries := deleted_entries ht' - 1\<rparr> else ht')
           in Some (Some a,
                ht\<lparr>ht_table := (ht_table ht)[unat a := \<lparr>he_hash = kh k, he_key = k, he_data = d\<rparr>],
                   entries := entries ht + 1\<rparr>)
       | Inr None \<Rightarrow> Some (None, ht') })"
  using assms by (simp add: mesa_hash_table_insert_def hash_table_insert_def grow_for_insert_def [symmetric])

text \<open>The probe loop of an insertion, with the addresses as the code computes them.\<close>

abbreviation insert_probe :: "('k, 'd) hash_table \<Rightarrow> u32 \<Rightarrow> 'k ptr \<Rightarrow> (u32 + u32 option) option" where
  "insert_probe g h k \<equiv> hash_table_insert_loop (unat (ht_size g)) g h k (util_fast_urem32 h (ht_size g) (size_magic g))
     (1 + util_fast_urem32 h (ht_rehash g) (rehash_magic g)) None (util_fast_urem32 h (ht_size g) (size_magic g))"

lemma insert_probe_find:
  assumes wf: "ht_wf g"
  shows "insert_probe g h k =
    Some (case find (\<lambda>j. entry_is_free (pentry g h j) \<or> matches g h k (pentry g h j)) [0..<unat (ht_size g)] of
            Some j \<Rightarrow> (if entry_is_free (pentry g h j)
                       then Inr (map_option (\<lambda>i. of_nat (pslot g h i))
                             (find (\<lambda>i. \<not> entry_is_present g (pentry g h i)) [0..<unat (ht_size g)]))
                       else Inl (of_nat (pslot g h j)))
          | None \<Rightarrow> Inr (map_option (\<lambda>i. of_nat (pslot g h i))
                             (find (\<lambda>i. \<not> entry_is_present g (pentry g h i)) [0..<unat (ht_size g)])))"
proof -
  have "0 < unat (ht_size g)" using good_size_facts(1) [OF ht_wf_good [OF wf]] by simp
  from insert_loop_find [OF wf this, of h k None] show ?thesis
    unfolding option.simps(4) diff_zero ht_wf_magic [OF wf] start_address_slot [OF ht_wf_good [OF wf]] .
qed

lemma insert_probe_hit:
  assumes core: "ht_core D g" and "D k" "occurs_at g k i"
  shows "insert_probe g (khash g k) k = Some (Inl (of_nat i))"
proof -
  obtain m where "find (\<lambda>j. entry_is_free (pentry g (khash g k) j) \<or>
      matches g (khash g k) k (pentry g (khash g k) j)) [0..<unat (ht_size g)] = Some m"
    "pslot g (khash g k) m = i" "\<not> entry_is_free (pentry g (khash g k) m)"
    using find_occurs [OF assms] by blast
  then show ?thesis unfolding insert_probe_find [OF ht_coreD(1) [OF core]] by simp
qed

text \<open>A new entry in slot \<open>i\<close>, which may reuse a tombstone.\<close>

definition with_new_entry :: "('k, 'd) hash_table \<Rightarrow> nat \<Rightarrow> 'k ptr \<Rightarrow> 'd option \<Rightarrow> ('k, 'd) hash_table" where
  "with_new_entry g i k d = (put g i \<lparr>he_hash = khash g k, he_key = k, he_data = d\<rparr>)
     \<lparr>entries := entries g + 1,
      deleted_entries := (if entry_is_deleted g (ht_table g ! i) then deleted_entries g - 1 else deleted_entries g)\<rparr>"

lemma insert_probe_miss:
  assumes inv: "ht_inv D g" and "D k" and no: "\<nexists>i. occurs_at g k i"
    and load: "present_count g + deleted_count g < unat (max_entries g)"
  obtains i where "insert_probe g (khash g k) k = Some (Inr (Some (of_nat i)))" "i < length (ht_table g)"
    "ht_inv D (with_new_entry g i k d)" "ht_load (with_new_entry g i k d)"
    "\<forall>k'. D k' \<longrightarrow> ht_lookup (with_new_entry g i k d) k' = (if keq g k' k then Some d else ht_lookup g k')"
    "present_count (with_new_entry g i k d) = Suc (present_count g)"
proof -
  note I = ht_invD [OF inv]
  let ?h = "khash g k" and ?n = "unat (ht_size g)" and ?e = "\<lparr>he_hash = khash g k, he_key = k, he_data = d\<rparr>"
  have room: "present_count g < length (ht_table g)"
    using load ht_wf_max [OF I(2)] ht_wf_length [OF I(2)] by simp
  have ex: "\<exists>j < ?n. \<not> entry_is_present g (pentry g ?h j)" using free_or_deleted_slot [OF I(2) room] by metis
  obtain m where m: "find (\<lambda>j. \<not> entry_is_present g (pentry g ?h j)) [0..<?n] = Some m" "m < ?n"
    "\<not> entry_is_present g (pentry g ?h m)" "\<And>j. j < m \<Longrightarrow> \<not> \<not> entry_is_present g (pentry g ?h j)"
    using find_upt_least [OF ex] by blast
  define i where "i = pslot g ?h m"
  have np: "\<not> entry_is_present g (ht_table g ! i)" using m(3) by (simp add: pentry_def i_def)
  have nf: "\<forall>j < m. \<not> entry_is_free (pentry g ?h j)" using m(4) by (simp add: entry_states)
  note st = ht_store [where d = d, OF I(1) \<open>D k\<close> no m(2) i_def np nf refl]
  have probe: "insert_probe g ?h k = Some (Inr (Some (of_nat i)))"
    unfolding insert_probe_find [OF I(2)] find_not_occurs [OF I(1) \<open>D k\<close> no] m(1) i_def
    by (auto dest: find_SomeD split: option.splits)
  have cnt: "unat (entries g + 1) = Suc (present_count g)"
    using I(3) load unat_u32_less [of "max_entries g"] by (subst unat_succ) simp_all
  have dcnt: "unat (if entry_is_deleted g (ht_table g ! i) then deleted_entries g - 1 else deleted_entries g) =
      deleted_count (put g i ?e)"
    using st(4) I(4) unat_pred [of "deleted_entries g" "deleted_count (put g i ?e)"] by simp
  show thesis
  proof (rule that [OF probe st(5)])
    show "ht_inv D (with_new_entry g i k d)" using st(1,3) cnt dcnt by (simp add: ht_inv_def with_new_entry_def)
    show "ht_load (with_new_entry g i k d)" using st(3,4) load by (simp add: ht_load_def with_new_entry_def)
    show "\<forall>k'. D k' \<longrightarrow> ht_lookup (with_new_entry g i k d) k' = (if keq g k' k then Some d else ht_lookup g k')"
      using st(2) by (simp add: with_new_entry_def)
    show "present_count (with_new_entry g i k d) = Suc (present_count g)" using st(3) by (simp add: with_new_entry_def)
  qed
qed

text \<open>
  With memory available and the next size within 32-bit addressing, an insertion returns the slot
  that now holds the key, replaces the value of an equal key, and keeps the invariant and the load
  bound.
\<close>

lemma insert_correct:
  assumes inv: "ht_inv D ht" and load: "ht_load ht" and ok: "\<forall>n. alloc n" and "D k"
    and small: "entries ht < max_entries ht \<or> size_index ht < 29"
  obtains a ht' where "mesa_hash_table_insert alloc ht k d = Some (Some a, ht')"
    "unat a < length (ht_table ht')" "he_key (ht_table ht' ! unat a) = k" "he_data (ht_table ht' ! unat a) = d"
    "ht_inv D ht'" "ht_load ht'"
    "\<And>k'. D k' \<Longrightarrow> ht_lookup ht' k' = (if keq ht k' k then Some d else ht_lookup ht k')"
    "present_count ht' = present_count ht + (if ht_lookup ht k = None then 1 else 0)"
    "key_hash_function ht' = key_hash_function ht" "key_equals_function ht' = key_equals_function ht"
    "deleted_key ht' = deleted_key ht"
proof -
  note kf0 = key_funsD [OF ht_coreD(2) [OF ht_invD(1) [OF inv]]]
  obtain g where g: "grow_for_insert alloc ht = Some g" "ht_inv D g"
    "\<forall>k. D k \<longrightarrow> ht_lookup g k = ht_lookup ht k"
    "present_count g = present_count ht" "present_count g + deleted_count g < unat (max_entries g)"
    and same: "key_hash_function g = key_hash_function ht" "key_equals_function g = key_equals_function ht"
    "deleted_key g = deleted_key ht"
    using grow_correct [OF inv load ok small] .
  note I = ht_invD [OF g(2)]
  note run = mesa_insert_unfold [OF kf0(6) kf0(1) [OF \<open>D k\<close>] g(1), of d, unfolded Let_def, folded same(1)]
  show thesis
  proof (cases "\<exists>i. occurs_at g k i")
    case True
    then obtain i where occ: "occurs_at g k i" by blast
    then have i: "i < length (ht_table g)" by (simp add: occurs_at_def)
    have ui: "unat (of_nat i :: u32) = i" using I(1) i by (rule occurs_at_less_u32)
    let ?e = "(ht_table g ! i)\<lparr>he_key := k, he_data := d\<rparr>"
    note rp = ht_replace [where d = d, OF I(1) \<open>D k\<close> occ refl]
    have res: "mesa_hash_table_insert alloc ht k d = Some (Some (of_nat i), put g i ?e)"
      unfolding run insert_probe_hit [OF I(1) \<open>D k\<close> occ] using ui by simp
    have "ht_lookup g k \<noteq> None" using occ by (auto simp: ht_lookup_None_iff)
    then have lk: "ht_lookup ht k \<noteq> None" using g(3) [rule_format, OF \<open>D k\<close>] by simp
    show thesis
    proof (rule that [OF res])
      show "ht_inv D (put g i ?e)" using rp(1,3,4) I(3,4) by (simp add: ht_inv_def)
      show "ht_load (put g i ?e)" using rp(3,4) g(5) by (simp add: ht_load_def)
      show "ht_lookup (put g i ?e) k' = (if keq ht k' k then Some d else ht_lookup ht k')" if "D k'" for k'
        using rp(2) [OF that] g(3) [rule_format, OF that] same(2) by simp
      show "present_count (put g i ?e) = present_count ht + (if ht_lookup ht k = None then 1 else 0)"
        using rp(3) g(4) lk by simp
    qed (use i ui same in simp_all)
  next
    case no: False
    obtain i where i: "insert_probe g (khash g k) k = Some (Inr (Some (of_nat i)))" "i < length (ht_table g)"
      "ht_inv D (with_new_entry g i k d)" "ht_load (with_new_entry g i k d)"
      "\<forall>k'. D k' \<longrightarrow> ht_lookup (with_new_entry g i k d) k' = (if keq g k' k then Some d else ht_lookup g k')"
      "present_count (with_new_entry g i k d) = Suc (present_count g)"
      using insert_probe_miss [OF g(2) \<open>D k\<close> no g(5)] .
    have ui: "unat (of_nat i :: u32) = i" using I(1) i(2) by (rule occurs_at_less_u32)
    have res: "mesa_hash_table_insert alloc ht k d = Some (Some (of_nat i), with_new_entry g i k d)"
      unfolding run i(1) using ui by (simp add: with_new_entry_def)
    have lk: "ht_lookup ht k = None" using no g(3) [rule_format, OF \<open>D k\<close>] ht_lookup_None_iff [of g k] by simp
    show thesis
    proof (rule that [OF res _ _ _ i(3,4)])
      show "ht_lookup (with_new_entry g i k d) k' = (if keq ht k' k then Some d else ht_lookup ht k')" if "D k'" for k'
        using i(5) that g(3) same(2) by simp
      show "present_count (with_new_entry g i k d) = present_count ht + (if ht_lookup ht k = None then 1 else 0)"
        using i(6) g(4) lk by simp
    qed (use i(2) ui same in \<open>simp_all add: with_new_entry_def\<close>)
  qed
qed

end
