(* ===== verification/Map_Interface.thy ===== *)
theory Map_Interface
  imports Prelude
begin

text \<open>
  The contract between the lookup tables (\<^verbatim>\<open>hash_table.c\<close>, \<^verbatim>\<open>set.c\<close>) and
  their clients. A table is a finite map on the keys its client uses, up to the client's notion of
  equal keys. \<open>find_op\<close> and \<open>insert_op\<close> are the operations as the code has them (\<open>None\<close> is an
  assertion failure or a loop that does not end); \<open>contents\<close> is the map the table stands for.
  \<open>interning\<close> adds what the SPIR-V builder does with such a table: look a key up and, when it is
  missing, insert it with a new value.
\<close>

locale map_table =
  fixes valid :: "'t \<Rightarrow> bool" and key_ok :: "'k \<Rightarrow> bool" and same_key :: "'k \<Rightarrow> 'k \<Rightarrow> bool"
    and used :: "'t \<Rightarrow> nat" and capacity :: nat
    and contents :: "'t \<Rightarrow> 'k \<Rightarrow> 'v option"
    and find_op :: "'t \<Rightarrow> 'k \<Rightarrow> 'v option option"
    and insert_op :: "'t \<Rightarrow> 'k \<Rightarrow> 'v \<Rightarrow> 't option"
  assumes same_refl: "key_ok k \<Longrightarrow> same_key k k"
    and same_sym: "key_ok k \<Longrightarrow> key_ok k' \<Longrightarrow> same_key k k' \<Longrightarrow> same_key k' k"
    and same_trans: "key_ok a \<Longrightarrow> key_ok b \<Longrightarrow> key_ok c \<Longrightarrow> same_key a b \<Longrightarrow> same_key b c \<Longrightarrow> same_key a c"
    and find_contents: "valid t \<Longrightarrow> key_ok k \<Longrightarrow> find_op t k = Some (contents t k)"
    and insert_contents: "valid t \<Longrightarrow> key_ok k \<Longrightarrow> used t < capacity \<Longrightarrow>
      \<exists>t'. insert_op t k v = Some t' \<and> valid t' \<and>
        used t' \<le> Suc (used t) \<and>
        (\<forall>k'. key_ok k' \<longrightarrow> contents t' k' = (if same_key k' k then Some v else contents t k'))"
begin

lemma insert_total:
  assumes "valid t" "key_ok k" "used t < capacity"
  obtains t' where "insert_op t k v = Some t'" "valid t'"
    "used t' \<le> Suc (used t)"
    "\<forall>k'. key_ok k' \<longrightarrow> contents t' k' = (if same_key k' k then Some v else contents t k')"
  using insert_contents [OF assms] by blast

lemma insert_eq:
  assumes "valid t" "key_ok k" "used t < capacity" "insert_op t k v = Some t'"
  shows "valid t'" "used t' \<le> Suc (used t)"
    "\<And>k'. key_ok k' \<Longrightarrow> contents t' k' = (if same_key k' k then Some v else contents t k')"
proof -
  obtain t2 where "insert_op t k v = Some t2" "valid t2" "used t2 \<le> Suc (used t)"
    "\<forall>k'. key_ok k' \<longrightarrow> contents t2 k' = (if same_key k' k then Some v else contents t k')"
    using insert_total [OF assms(1-3)] .
  with assms(4) show "valid t'" "used t' \<le> Suc (used t)"
    "\<And>k'. key_ok k' \<Longrightarrow> contents t' k' = (if same_key k' k then Some v else contents t k')"
    by simp_all
qed

lemma find_after_insert:
  assumes "valid t" "key_ok k" "used t < capacity" "insert_op t k v = Some t'" "key_ok k'"
  shows "find_op t' k' = Some (if same_key k' k then Some v else contents t k')"
  using insert_eq [OF assms(1-4)] find_contents assms(5) by simp

text \<open>A sequence of insertions, in the order of the list.\<close>

fun insert_all :: "'t \<Rightarrow> ('k \<times> 'v) list \<Rightarrow> 't option" where
  "insert_all t [] = Some t"
| "insert_all t ((k, v) # kvs) = do { t \<leftarrow> insert_op t k v; insert_all t kvs }"

lemma insert_all_contents:
  assumes "valid t" "\<forall>(k, v) \<in> set kvs. key_ok k" "used t + length kvs \<le> capacity"
  shows "\<exists>t'. insert_all t kvs = Some t' \<and> valid t' \<and> used t' \<le> used t + length kvs \<and>
    (\<forall>k'. key_ok k' \<longrightarrow> find_op t' k' =
       Some (case find (\<lambda>(k, v). same_key k' k) (rev kvs) of Some (k, v) \<Rightarrow> Some v | None \<Rightarrow> contents t k'))"
  using assms
proof (induction kvs arbitrary: t)
  case Nil
  then show ?case using find_contents by simp
next
  case (Cons p kvs)
  obtain k v where p: "p = (k, v)" by fastforce
  have kok: "key_ok k" using Cons.prems(2) p by simp
  have "used t < capacity" using Cons.prems(3) by simp
  with Cons.prems(1) kok obtain t1 where t1: "insert_op t k v = Some t1" "valid t1"
    "used t1 \<le> Suc (used t)"
    "\<forall>k'. key_ok k' \<longrightarrow> contents t1 k' = (if same_key k' k then Some v else contents t k')"
    by (rule insert_total)
  have used1: "used t1 \<le> Suc (used t)" using t1(3) by simp
  obtain t' where t': "insert_all t1 kvs = Some t'" "valid t'" "used t' \<le> used t1 + length kvs"
    "\<forall>k'. key_ok k' \<longrightarrow> find_op t' k' =
       Some (case find (\<lambda>(k, v). same_key k' k) (rev kvs) of Some (k, v) \<Rightarrow> Some v | None \<Rightarrow> contents t1 k')"
    using Cons.IH [OF t1(2)] Cons.prems(2,3) used1 by fastforce
  show ?case
    using t' t1 used1 p by (intro exI [of _ t']) (auto simp: find_append split: option.splits)
qed

end

text \<open>
  Find-or-create: the value already stored for the key, or a new one. The laws say that equal keys
  keep getting the same value and that different keys never share one.
\<close>

locale interning = map_table valid key_ok same_key used capacity contents find_op insert_op
  for valid :: "'t \<Rightarrow> bool" and key_ok :: "'k \<Rightarrow> bool" and same_key :: "'k \<Rightarrow> 'k \<Rightarrow> bool"
    and used :: "'t \<Rightarrow> nat" and capacity :: nat
    and contents :: "'t \<Rightarrow> 'k \<Rightarrow> 'v option"
    and find_op :: "'t \<Rightarrow> 'k \<Rightarrow> 'v option option"
    and insert_op :: "'t \<Rightarrow> 'k \<Rightarrow> 'v \<Rightarrow> 't option" +
  fixes id_of :: "'v \<Rightarrow> nat"
  assumes contents_cong: "valid t \<Longrightarrow> key_ok k \<Longrightarrow> key_ok k' \<Longrightarrow> same_key k k' \<Longrightarrow> contents t k = contents t k'"
begin

definition intern :: "'t \<Rightarrow> 'k \<Rightarrow> 'v \<Rightarrow> ('v \<times> 't) option" where
  "intern t k new = do {
     r \<leftarrow> find_op t k;
     case r of Some v \<Rightarrow> Some (v, t) | None \<Rightarrow> do { t \<leftarrow> insert_op t k new; Some (new, t) } }"

text \<open>Every stored value has an id below \<open>n\<close>, and no two different keys share an id.\<close>

definition ids_below :: "nat \<Rightarrow> 't \<Rightarrow> bool" where
  "ids_below n t \<longleftrightarrow> (\<forall>k v. key_ok k \<longrightarrow> contents t k = Some v \<longrightarrow> id_of v < n) \<and>
     (\<forall>k k' v v'. key_ok k \<longrightarrow> key_ok k' \<longrightarrow> contents t k = Some v \<longrightarrow> contents t k' = Some v' \<longrightarrow>
        id_of v = id_of v' \<longrightarrow> same_key k k')"

lemma intern_hit:
  assumes "valid t" "key_ok k" "contents t k = Some v"
  shows "intern t k new = Some (v, t)"
  using assms find_contents by (simp add: intern_def)

lemma intern_miss:
  assumes "valid t" "key_ok k" "contents t k = None" "used t < capacity"
  obtains t' where "insert_op t k new = Some t'" "intern t k new = Some (new, t')" "valid t'" "used t' \<le> Suc (used t)"
    "\<forall>k'. key_ok k' \<longrightarrow> contents t' k' = (if same_key k' k then Some new else contents t k')"
  using insert_contents [OF assms(1,2,4), of new] find_contents assms by (fastforce simp: intern_def)

lemma intern_again:
  assumes "valid t" "key_ok k" "key_ok k'" "same_key k' k" "used t < capacity" "intern t k new = Some (v, t')"
  shows "intern t' k' new' = Some (v, t')"
proof (cases "contents t k")
  case None
  obtain t2 where "intern t k new = Some (new, t2)" "valid t2"
    "\<forall>k'. key_ok k' \<longrightarrow> contents t2 k' = (if same_key k' k then Some new else contents t k')"
    using intern_miss [OF assms(1,2) None assms(5)] by metis
  then show ?thesis using assms intern_hit [of t2 k' new new'] by simp
next
  case (Some x)
  then have "t' = t" "v = x" using intern_hit [OF assms(1,2) Some] assms(6) by auto
  moreover have "contents t k' = Some x" using contents_cong [OF assms(1,3,2,4)] Some by simp
  ultimately show ?thesis using intern_hit [OF assms(1,3)] by simp
qed

lemma ids_below_insert:
  assumes ids: "ids_below n t" and "key_ok k" "id_of new = n"
    and upd: "\<forall>k'. key_ok k' \<longrightarrow> contents t' k' = (if same_key k' k then Some new else contents t k')"
  shows "ids_below (Suc n) t'"
  unfolding ids_below_def
proof (intro conjI allI impI)
  fix a v assume "key_ok a" "contents t' a = Some v"
  then show "id_of v < Suc n" using upd ids assms(3) unfolding ids_below_def by (metis less_Suc_eq option.inject)
next
  fix a b v w assume *: "key_ok a" "key_ok b" "contents t' a = Some v" "contents t' b = Some w" "id_of v = id_of w"
  have lt: "id_of x < n" if "key_ok c" "contents t c = Some x" for c x using ids that unfolding ids_below_def by blast
  show "same_key a b"
  proof (cases "same_key a k = same_key b k")
    case True
    show ?thesis
    proof (cases "same_key a k")
      case t: True
      then have "same_key k b" using True same_sym [OF *(2) assms(2)] by simp
      then show ?thesis using same_trans [OF *(1) assms(2) *(2) t] by simp
    next
      case False
      then have "contents t a = Some v" "contents t b = Some w" using True upd * by auto
      then show ?thesis using ids * unfolding ids_below_def by blast
    qed
  next
    case False
    then show ?thesis using upd * lt assms(3) by (metis less_irrefl option.inject)
  qed
qed

lemma ids_below_mono: "ids_below n t \<Longrightarrow> n \<le> m \<Longrightarrow> ids_below m t"
  unfolding ids_below_def by (meson less_le_trans)

end

end
