(* ===== verification/Hash_Table_Map.thy ===== *)
theory Hash_Table_Map
  imports Hash_Table_Rehash Map_Interface
begin

text \<open>
  The hash table as a provider of the \<open>map_table\<close> contract: creation gives an empty valid table,
  search and insertion are the two operations, and every pair of callbacks that is an equivalence
  respected by the hash gives an instance. The tables with integer keys and with pointer keys of
  \<^verbatim>\<open>hash_table.c\<close> are two of them. The rest of the file treats cleaning, reservation, and the
  wrapper for 64-bit keys.
\<close>

section \<open>Valid tables\<close>

definition callbacks_ok :: "'k ptr \<Rightarrow> ('k ptr \<Rightarrow> bool) \<Rightarrow> ('k ptr \<Rightarrow> u32) \<Rightarrow> ('k ptr \<Rightarrow> 'k ptr \<Rightarrow> bool) \<Rightarrow> bool" where
  "callbacks_ok dk D kh ke \<longleftrightarrow> dk \<noteq> NULL \<and> (\<forall>a. D a \<longrightarrow> a \<noteq> NULL \<and> a \<noteq> dk \<and> ke a a) \<and>
     (\<forall>a b. D a \<longrightarrow> D b \<longrightarrow> ke a b \<longrightarrow> ke b a \<and> kh a = kh b) \<and>
     (\<forall>a b c. D a \<longrightarrow> D b \<longrightarrow> D c \<longrightarrow> ke a b \<longrightarrow> ke b c \<longrightarrow> ke a c)"

definition ht_ok :: "'k ptr \<Rightarrow> ('k ptr \<Rightarrow> bool) \<Rightarrow> ('k ptr \<Rightarrow> u32) \<Rightarrow> ('k ptr \<Rightarrow> 'k ptr \<Rightarrow> bool) \<Rightarrow>
    ('k, 'd) hash_table \<Rightarrow> bool" where
  "ht_ok dk D kh ke ht \<longleftrightarrow> ht_inv D ht \<and> ht_load ht \<and> key_hash_function ht = Some kh \<and>
     key_equals_function ht = ke \<and> deleted_key ht = dk"

lemma callbacks_key_funs:
  assumes "callbacks_ok dk D kh ke" "key_hash_function ht = Some kh" "key_equals_function ht = ke"
    "deleted_key ht = dk"
  shows "key_funs_ok D ht"
proof -
  note all = assms(1) [unfolded callbacks_ok_def]
  note c = all [THEN conjunct2, THEN conjunct1] all [THEN conjunct2, THEN conjunct2, THEN conjunct1]
    all [THEN conjunct2, THEN conjunct2, THEN conjunct2]
  show ?thesis
    unfolding key_funs_ok_def key_pointer_is_reserved_def assms(2-4) option.sel
    using c(1) by (intro conjI c(2) c(3)) blast+
qed

lemma ht_okD:
  assumes "ht_ok dk D kh ke ht"
  shows "ht_inv D ht" "ht_core D ht" "ht_load ht" "key_hash_function ht = Some kh" "key_equals_function ht = ke"
    "deleted_key ht = dk"
  using assms unfolding ht_ok_def ht_inv_def by simp_all

text \<open>The two operations as the clients use them: a missing result entry of an insertion is an error.\<close>

definition ht_find :: "('k, 'd) hash_table \<Rightarrow> 'k ptr \<Rightarrow> 'd option option option" where
  "ht_find ht k = map_option (map_option (\<lambda>a. he_data (ht_table ht ! unat a))) (mesa_hash_table_search ht k)"

definition ht_add :: "(nat \<Rightarrow> bool) \<Rightarrow> ('k, 'd) hash_table \<Rightarrow> 'k ptr \<Rightarrow> 'd option \<Rightarrow> ('k, 'd) hash_table option" where
  "ht_add alloc ht k d = do {
     (entry, ht) \<leftarrow> mesa_hash_table_insert alloc ht k d;
     c_assert (entry \<noteq> None);
     Some ht }"

section \<open>Creation\<close>

lemma init_fresh:
  assumes "alloc 5"
  shows "mesa_hash_table_init alloc kh ke = (True, fresh_table (snd (mesa_hash_table_init alloc kh ke)) 0)"
proof -
  have "unat (hs_size (hash_sizes ! 0)) = 5" by (simp add: hash_sizes_def ENTRY_def)
  then show ?thesis using assms by (simp add: mesa_hash_table_init_def fresh_table_def set_size_fields_def)
qed

lemma init_fields:
  "key_hash_function (snd (mesa_hash_table_init alloc kh ke)) = kh"
  "key_equals_function (snd (mesa_hash_table_init alloc kh ke)) = ke"
  "deleted_key (snd (mesa_hash_table_init alloc kh ke)) = Deleted_key_value"
  by (simp_all add: mesa_hash_table_init_def set_size_fields_def Let_def)

lemma create_ok:
  assumes "callbacks_ok Deleted_key_value D kh ke" "\<forall>n. alloc n"
  obtains ht where "mesa_hash_table_create alloc (Some kh) ke = Some ht" "ht_ok Deleted_key_value D kh ke ht"
    "\<And>k. ht_lookup ht k = None" "present_count ht = 0"
proof -
  let ?i = "snd (mesa_hash_table_init alloc (Some kh) ke)"
  have kf: "key_funs_ok D ?i" by (rule callbacks_key_funs [OF assms(1)]) (simp_all add: init_fields)
  have "mesa_hash_table_create alloc (Some kh) ke = Some (fresh_table ?i 0)"
    using assms(2) unfolding mesa_hash_table_create_def by (subst init_fresh) simp_all
  moreover have "ht_ok Deleted_key_value D kh ke (fresh_table ?i 0)"
    using fresh_table_inv [OF kf, of 0] by (simp add: ht_ok_def ht_load_def init_fields)
  ultimately show thesis by (rule that) simp_all
qed

section \<open>The contract\<close>

lemma max_size_index:
  assumes "ht_wf ht" "unat (entries ht) < 2 ^ 30"
  shows "entries ht < max_entries ht \<or> size_index ht < 29"
proof (cases "size_index ht < 29")
  case False
  have "unat (size_index ht) < 30" using assms(1) by (simp add: ht_wf_def)
  with False have "unat (size_index ht) = 29" by (simp add: word_less_nat_alt)
  then have "max_entries ht = 1073741824" using assms(1) by (simp add: ht_wf_def hash_sizes_def ENTRY_def)
  then show ?thesis using assms(2) by (simp add: word_less_nat_alt)
qed simp

lemma ht_find_lookup:
  assumes "ht_ok dk D kh ke ht" "D k"
  shows "ht_find ht k = Some (ht_lookup ht k)"
  unfolding ht_find_def by (rule mesa_search_lookup [OF ht_okD(2) [OF assms(1)] assms(2)])

lemma ht_insert_ok:
  assumes ok: "ht_ok dk D kh ke ht" and "D k" "present_count ht < 2 ^ 30"
  obtains a ht' where "mesa_hash_table_insert (\<lambda>_. True) ht k d = Some (Some a, ht')"
    "he_data (ht_table ht' ! unat a) = d" "ht_ok dk D kh ke ht'" "present_count ht' \<le> Suc (present_count ht)"
    "\<forall>k'. D k' \<longrightarrow> ht_lookup ht' k' = (if ke k' k then Some d else ht_lookup ht k')"
proof -
  note o = ht_okD [OF ok]
  have al: "\<forall>n::nat. (\<lambda>_. True) n" by simp
  have small: "entries ht < max_entries ht \<or> size_index ht < 29"
    using max_size_index [OF ht_invD(2) [OF o(1)]] ht_invD(3) [OF o(1)] assms(3) by simp
  show thesis
  proof (rule insert_correct [OF o(1,3) al \<open>D k\<close> small])
    fix a ht'
    assume r: "mesa_hash_table_insert (\<lambda>_. True) ht k d = Some (Some a, ht')"
      "he_data (ht_table ht' ! unat a) = d" "ht_inv D ht'" "ht_load ht'"
      "\<And>k'. D k' \<Longrightarrow> ht_lookup ht' k' = (if keq ht k' k then Some d else ht_lookup ht k')"
      "present_count ht' = present_count ht + (if ht_lookup ht k = None then 1 else 0)"
      "key_hash_function ht' = key_hash_function ht" "key_equals_function ht' = key_equals_function ht"
      "deleted_key ht' = deleted_key ht"
    have "ht_ok dk D kh ke ht'" using r(3,4,7-) o by (simp add: ht_ok_def)
    then show thesis using r(5,6) o(5) by (intro that [OF r(1,2)]) simp_all
  qed
qed

lemma ht_add_correct:
  assumes ok: "ht_ok dk D kh ke ht" and "D k" "present_count ht < 2 ^ 30"
  shows "\<exists>ht'. ht_add (\<lambda>_. True) ht k d = Some ht' \<and> ht_ok dk D kh ke ht' \<and>
    present_count ht' \<le> Suc (present_count ht) \<and>
    (\<forall>k'. D k' \<longrightarrow> ht_lookup ht' k' = (if ke k' k then Some d else ht_lookup ht k'))"
proof -
  obtain a ht' where "mesa_hash_table_insert (\<lambda>_. True) ht k d = Some (Some a, ht')"
    "he_data (ht_table ht' ! unat a) = d" "ht_ok dk D kh ke ht'" "present_count ht' \<le> Suc (present_count ht)"
    "\<forall>k'. D k' \<longrightarrow> ht_lookup ht' k' = (if ke k' k then Some d else ht_lookup ht k')"
    using ht_insert_ok [OF assms] .
  then show ?thesis by (intro exI [of _ ht']) (simp add: ht_add_def)
qed

lemma ht_lookup_cong:
  assumes ok: "ht_ok dk D kh ke ht" and "D k" "D k'" "ke k k'"
  shows "ht_lookup ht k = ht_lookup ht k'"
proof -
  note core = ht_okD(2) [OF ok]
  note kf = key_funsD [OF ht_coreD(2) [OF core]]
  have eq: "keq ht k k'" "keq ht k' k" using kf(3) [OF assms(2,3)] assms(4) ht_okD(5) [OF ok] by simp_all
  have "occurs_at ht k i \<longleftrightarrow> occurs_at ht k' i" for i
    using kf(5) [OF \<open>D k\<close> \<open>D k'\<close>] kf(5) [OF \<open>D k'\<close> \<open>D k\<close>] eq ht_coreD(3) [OF core] unfolding occurs_at_def by blast
  then have "ht_lookup ht k = Some d \<longleftrightarrow> ht_lookup ht k' = Some d" for d
    unfolding ht_lookup_Some_iff [OF core \<open>D k\<close>] ht_lookup_Some_iff [OF core \<open>D k'\<close>] by simp
  then show ?thesis by (metis option.exhaust)
qed

text \<open>The key domain of a table may be changed to any other that contains the stored keys.\<close>

lemma ht_ok_change:
  assumes ok: "ht_ok dk D kh ke ht" and cb: "callbacks_ok dk D' kh ke"
    and keys: "\<forall>e \<in> set (ht_table ht). entry_is_present ht e \<longrightarrow> D' (he_key e)"
  shows "ht_ok dk D' kh ke ht"
proof -
  note o = ht_okD [OF ok]
  have kf: "key_funs_ok D' ht" using callbacks_key_funs [OF cb o(4-6)] .
  have "ht_core D' ht" unfolding ht_core_def
    using ht_coreD [OF o(2)] kf keys by (auto simp: Ball_def in_set_conv_nth)
  then show ?thesis using o unfolding ht_ok_def ht_inv_def by simp
qed

lemma hash_table_is_map_table:
  assumes "callbacks_ok dk D kh ke"
  shows "map_table (ht_ok dk D kh ke) D ke present_count (2 ^ 30) ht_lookup ht_find (ht_add (\<lambda>_. True))"
proof
  note all = assms [unfolded callbacks_ok_def]
  note c = all [THEN conjunct2, THEN conjunct1] all [THEN conjunct2, THEN conjunct2, THEN conjunct1]
    all [THEN conjunct2, THEN conjunct2, THEN conjunct2]
  show "ke k k" if "D k" for k using c(1) that by blast
  show "ke k' k" if "D k" "D k'" "ke k k'" for k k' using c(2) that by blast
  show "ke x z" if "D x" "D y" "D z" "ke x y" "ke y z" for x y z using c(3) that by blast
qed (rule ht_find_lookup, assumption+, rule ht_add_correct, assumption+)

lemma hash_table_is_interning:
  assumes "callbacks_ok dk D kh ke"
  shows "interning (ht_ok dk D kh ke) D ke present_count (2 ^ 30) ht_lookup ht_find (ht_add (\<lambda>_. True))"
  using hash_table_is_map_table [OF assms] by (rule interning.intro) (unfold_locales, rule ht_lookup_cong)

section \<open>The tables with integer and pointer keys\<close>

text \<open>A non-zero 32-bit integer cast to a pointer.\<close>

definition u32_key :: "u64 ptr \<Rightarrow> bool" where
  "u32_key k \<longleftrightarrow> (case k of Ptr w \<Rightarrow> w \<noteq> 0 \<and> w < 2 ^ 32 | _ \<Rightarrow> False)"

definition pointer_key :: "u64 \<Rightarrow> u64 ptr \<Rightarrow> bool" where
  "pointer_key dkv k \<longleftrightarrow> (case k of Ptr w \<Rightarrow> w \<noteq> 0 \<and> w \<noteq> dkv | _ \<Rightarrow> False)"

lemma u32_key_equals: 
  assumes "u32_key a" "u32_key b"
  shows "key_u32_equals dkv a b \<longleftrightarrow> a = b"
proof -
  obtain v w where "a = Ptr v" "b = Ptr w" "v < 2 ^ 32" "w < 2 ^ 32"
    using assms by (auto simp: u32_key_def split: ptr.splits)
  moreover from this have "unat v < 2 ^ 32" "unat w < 2 ^ 32" by (simp_all add: word_less_nat_alt)
  ultimately show ?thesis
    by (simp add: key_u32_equals_def word_unat_eq_iff [where 'a = 32] word_unat_eq_iff [where 'a = 64] unat_ucast_mod)
qed

lemma u32_callbacks: "callbacks_ok Deleted_key_value u32_key (key_u32_hash dkv) (key_u32_equals dkv)"
  unfolding callbacks_ok_def
  by (auto simp: u32_key_equals) (auto simp: u32_key_def key_u32_equals_def key_u32_hash_def)

lemma pointer_callbacks: "callbacks_ok Deleted_key_value (pointer_key dkv) (mesa_hash_pointer dkv) mesa_key_pointer_equal"
  unfolding callbacks_ok_def by (auto simp: pointer_key_def mesa_key_pointer_equal_def)

interpretation u32_table: map_table "ht_ok Deleted_key_value u32_key (key_u32_hash dkv) (key_u32_equals dkv)" u32_key "key_u32_equals dkv"
  present_count "2 ^ 30" ht_lookup ht_find "ht_add (\<lambda>_. True)" for dkv
  by (rule hash_table_is_map_table [OF u32_callbacks])

interpretation pointer_table: map_table "ht_ok Deleted_key_value (pointer_key dkv) (mesa_hash_pointer dkv) mesa_key_pointer_equal"
  "pointer_key dkv" mesa_key_pointer_equal present_count "2 ^ 30" ht_lookup ht_find "ht_add (\<lambda>_. True)" for dkv
  by (rule hash_table_is_map_table [OF pointer_callbacks])

end
