(* ===== verification/Hash_Table_U64.thy ===== *)
theory Hash_Table_U64
  imports Hash_Table_Map
begin

text \<open>
  The wrapper of \<^verbatim>\<open>hash_table.c\<close> for 64-bit integer keys, on a build with 64-bit pointers: the
  key is cast to a pointer, and the two keys that collide with the table's markers (0 for a free
  slot, 1 for a deleted one) are kept in two fields of their own. The theorems show that the wrapper is
  a map on all 64-bit keys, with no reserved key left.
\<close>

section \<open>The wrapper\<close>

abbreviation FREED_KEY_VALUE :: u64 where "FREED_KEY_VALUE \<equiv> 0"
abbreviation DELETED_KEY_VALUE :: u64 where "DELETED_KEY_VALUE \<equiv> 1"

record 'd hash_table_u64 =
  u64_table :: "(u64, 'd) hash_table option"
  freed_key_data :: "'d option"
  deleted_key_data :: "'d option"

definition mesa_hash_table_u64_create :: "(nat \<Rightarrow> bool) \<Rightarrow> u64 \<Rightarrow> 'd hash_table_u64 option" where
  "mesa_hash_table_u64_create alloc dkv =
     (if \<not> alloc 1 then None
      else Some \<lparr>u64_table = map_option (\<lambda>t. mesa_hash_table_set_deleted_key t (uint_key DELETED_KEY_VALUE))
                   (mesa_hash_table_create alloc (Some (mesa_hash_pointer dkv)) mesa_key_pointer_equal),
                 freed_key_data = None, deleted_key_data = None\<rparr>)"

text \<open>With 64-bit pointers the delete callback returns at once; the cleared table keeps its storage.\<close>

definition mesa_hash_table_u64_clear :: "'d hash_table_u64 option \<Rightarrow> 'd hash_table_u64 option" where
  "mesa_hash_table_u64_clear ht = (case ht of
     None \<Rightarrow> None
   | Some ht \<Rightarrow> Some \<lparr>u64_table = map_option (\<lambda>t. fst (mesa_hash_table_clear t (Some (\<lambda>e u. u)) ())) (u64_table ht),
                     freed_key_data = None, deleted_key_data = None\<rparr>)"

definition mesa_hash_table_u64_insert ::
  "(nat \<Rightarrow> bool) \<Rightarrow> 'd hash_table_u64 \<Rightarrow> u64 \<Rightarrow> 'd option \<Rightarrow> 'd hash_table_u64 option" where
  "mesa_hash_table_u64_insert alloc ht key data =
     (if key = FREED_KEY_VALUE then Some (ht\<lparr>freed_key_data := data\<rparr>)
      else if key = DELETED_KEY_VALUE then Some (ht\<lparr>deleted_key_data := data\<rparr>)
      else do {
        t \<leftarrow> u64_table ht;
        (entry, t) \<leftarrow> mesa_hash_table_insert alloc t (uint_key key) data;
        Some (ht\<lparr>u64_table := Some t\<rparr>) })"

definition hash_table_u64_search :: "'d hash_table_u64 \<Rightarrow> u64 \<Rightarrow> u32 option option" where
  "hash_table_u64_search ht key = do {
     t \<leftarrow> u64_table ht;
     mesa_hash_table_search t (uint_key key) }"

definition mesa_hash_table_u64_search :: "'d hash_table_u64 \<Rightarrow> u64 \<Rightarrow> 'd option option" where
  "mesa_hash_table_u64_search ht key =
     (if key = FREED_KEY_VALUE then Some (freed_key_data ht)
      else if key = DELETED_KEY_VALUE then Some (deleted_key_data ht)
      else do {
        entry \<leftarrow> hash_table_u64_search ht key;
        t \<leftarrow> u64_table ht;
        Some (case entry of None \<Rightarrow> None | Some a \<Rightarrow> he_data (ht_table t ! unat a)) })"

definition mesa_hash_table_u64_remove :: "'d hash_table_u64 \<Rightarrow> u64 \<Rightarrow> 'd hash_table_u64 option" where
  "mesa_hash_table_u64_remove ht key =
     (if key = FREED_KEY_VALUE then Some (ht\<lparr>freed_key_data := None\<rparr>)
      else if key = DELETED_KEY_VALUE then Some (ht\<lparr>deleted_key_data := None\<rparr>)
      else do {
        entry \<leftarrow> hash_table_u64_search ht key;
        t \<leftarrow> u64_table ht;
        case entry of
          None \<Rightarrow> Some ht
        | Some a \<Rightarrow> Some (ht\<lparr>u64_table := Some (mesa_hash_table_remove t (Some a))\<rparr>) })"

section \<open>The map it stands for\<close>

definition u64_key :: "u64 ptr \<Rightarrow> bool" where
  "u64_key k \<longleftrightarrow> (case k of Ptr w \<Rightarrow> w \<noteq> 0 \<and> w \<noteq> 1 | _ \<Rightarrow> False)"

abbreviation u64_ht_ok :: "u64 \<Rightarrow> (u64, 'd) hash_table \<Rightarrow> bool" where
  "u64_ht_ok dkv \<equiv> ht_ok (Ptr 1) u64_key (mesa_hash_pointer dkv) mesa_key_pointer_equal"

definition u64_ok :: "u64 \<Rightarrow> 'd hash_table_u64 \<Rightarrow> bool" where
  "u64_ok dkv ht \<longleftrightarrow> (\<exists>t. u64_table ht = Some t \<and> u64_ht_ok dkv t)"

definition u64_contents :: "'d hash_table_u64 \<Rightarrow> u64 \<Rightarrow> 'd option" where
  "u64_contents ht key =
     (if key = FREED_KEY_VALUE then freed_key_data ht
      else if key = DELETED_KEY_VALUE then deleted_key_data ht
      else case ht_lookup (the (u64_table ht)) (Ptr key) of None \<Rightarrow> None | Some d \<Rightarrow> d)"

lemma u64_callbacks: "callbacks_ok (Ptr 1) u64_key (mesa_hash_pointer dkv) mesa_key_pointer_equal"
  unfolding callbacks_ok_def by (auto simp: u64_key_def mesa_key_pointer_equal_def)

lemma u64_key_Ptr [simp]: "u64_key (Ptr w) \<longleftrightarrow> w \<noteq> 0 \<and> w \<noteq> 1"
  by (simp add: u64_key_def)

interpretation u64_inner: map_table "u64_ht_ok dkv" u64_key mesa_key_pointer_equal
  present_count "2 ^ 30" ht_lookup ht_find "ht_add (\<lambda>_. True)" for dkv
  by (rule hash_table_is_map_table [OF u64_callbacks])

lemma u64_search_contents:
  assumes "u64_ok dkv ht"
  shows "mesa_hash_table_u64_search ht key = Some (u64_contents ht key)"
proof -
  obtain t where t: "u64_table ht = Some t" "u64_ht_ok dkv t" using assms by (auto simp: u64_ok_def)
  show ?thesis
  proof (cases "key = 0 \<or> key = 1")
    case False
    then have "ht_find t (Ptr key) = Some (ht_lookup t (Ptr key))" by (intro u64_inner.find_contents [OF t(2)]) simp
    then show ?thesis using False t(1)
      by (auto simp: ht_find_def mesa_hash_table_u64_search_def hash_table_u64_search_def u64_contents_def
          split: option.splits)
  qed (auto simp: mesa_hash_table_u64_search_def u64_contents_def)
qed

lemma u64_insert_contents:
  assumes "u64_ok dkv ht" "present_count (the (u64_table ht)) < 2 ^ 30"
  shows "\<exists>ht'. mesa_hash_table_u64_insert (\<lambda>_. True) ht key d = Some ht' \<and> u64_ok dkv ht' \<and>
    present_count (the (u64_table ht')) \<le> Suc (present_count (the (u64_table ht))) \<and>
    u64_contents ht' = (u64_contents ht)(key := d)"
proof -
  obtain t where t: "u64_table ht = Some t" "u64_ht_ok dkv t" using assms by (auto simp: u64_ok_def)
  show ?thesis
  proof (cases "key = 0 \<or> key = 1")
    case True
    then show ?thesis using assms
      by (auto simp: mesa_hash_table_u64_insert_def u64_contents_def u64_ok_def fun_eq_iff)
  next
    case False
    then have "u64_key (Ptr key)" "present_count t < 2 ^ 30" using assms(2) t(1) by simp_all
    from u64_inner.insert_total [OF t(2) this] obtain t' where
      t': "ht_add (\<lambda>_. True) t (Ptr key) d = Some t'" "u64_ht_ok dkv t'" "present_count t' \<le> Suc (present_count t)"
      "\<forall>k'. u64_key k' \<longrightarrow> ht_lookup t' k' = (if mesa_key_pointer_equal k' (Ptr key) then Some d else ht_lookup t k')"
      by metis
    have ins: "mesa_hash_table_u64_insert (\<lambda>_. True) ht key d = Some (ht\<lparr>u64_table := Some t'\<rparr>)"
      using t'(1) False t(1) by (auto simp: mesa_hash_table_u64_insert_def ht_add_def bind_eq_Some)
    have "u64_contents (ht\<lparr>u64_table := Some t'\<rparr>) k = ((u64_contents ht)(key := d)) k" for k
      using t'(4) [rule_format, of "Ptr k"] False t(1) by (auto simp: u64_contents_def mesa_key_pointer_equal_def)
    then show ?thesis using ins t' t(1) by (intro exI [of _ "ht\<lparr>u64_table := Some t'\<rparr>"]) (auto simp: u64_ok_def)
  qed
qed

interpretation u64_map: map_table "u64_ok dkv" "\<lambda>_. True" "(=)" "\<lambda>ht. present_count (the (u64_table ht))" "2 ^ 30"
  u64_contents mesa_hash_table_u64_search "\<lambda>ht k d. mesa_hash_table_u64_insert (\<lambda>_. True) ht k (Some d)" for dkv
proof unfold_locales
  fix t :: "'d hash_table_u64" and k v
  assume "u64_ok dkv t" "present_count (the (u64_table t)) < 2 ^ 30"
  from u64_insert_contents [OF this, of k "Some v"]
  show "\<exists>t'. mesa_hash_table_u64_insert (\<lambda>_. True) t k (Some v) = Some t' \<and> u64_ok dkv t' \<and>
      present_count (the (u64_table t')) \<le> Suc (present_count (the (u64_table t))) \<and>
      (\<forall>k'. True \<longrightarrow> u64_contents t' k' = (if k' = k then Some v else u64_contents t k'))"
    by auto
qed (auto intro: u64_search_contents)

lemma u64_remove_contents:
  assumes "u64_ok dkv ht"
  shows "\<exists>ht'. mesa_hash_table_u64_remove ht key = Some ht' \<and> u64_ok dkv ht' \<and>
    u64_contents ht' = (u64_contents ht)(key := None)"
proof -
  obtain t where t: "u64_table ht = Some t" "u64_ht_ok dkv t" using assms by (auto simp: u64_ok_def)
  show ?thesis
  proof (cases "key = 0 \<or> key = 1")
    case True
    then show ?thesis using assms
      by (auto simp: mesa_hash_table_u64_remove_def u64_contents_def u64_ok_def fun_eq_iff)
  next
    case False
    note o = ht_okD [OF t(2)]
    have uk: "u64_key (Ptr key)" using False by simp
    obtain t' where t': "mesa_hash_table_remove_key t (Ptr key) = Some t'" "ht_inv u64_key t'"
      "\<And>k'. u64_key k' \<Longrightarrow> ht_lookup t' k' = (if keq t k' (Ptr key) then None else ht_lookup t k')"
      and same: "key_hash_function t' = key_hash_function t" "key_equals_function t' = key_equals_function t"
      "present_count t' + deleted_count t' = present_count t + deleted_count t"
      "max_entries t' = max_entries t" "deleted_key t' = deleted_key t"
      using remove_key_correct [OF o(1) uk] by metis
    have ok': "u64_ht_ok dkv t'" using t'(2) same o by (simp add: ht_ok_def ht_load_def)
    have rem: "mesa_hash_table_u64_remove ht key = Some (ht\<lparr>u64_table := Some t'\<rparr>)"
      using t'(1) False t(1) by (auto simp: mesa_hash_table_u64_remove_def mesa_hash_table_remove_key_def
          hash_table_u64_search_def mesa_hash_table_remove_def bind_eq_Some split: option.splits)
    have "u64_contents (ht\<lparr>u64_table := Some t'\<rparr>) k = ((u64_contents ht)(key := None)) k" for k
      using t'(3) [of "Ptr k"] False t(1) o(5) by (auto simp: u64_contents_def mesa_key_pointer_equal_def)
    then show ?thesis using rem ok' by (intro exI [of _ "ht\<lparr>u64_table := Some t'\<rparr>"]) (auto simp: u64_ok_def)
  qed
qed

section \<open>Creation and clearing\<close>

lemma set_deleted_key_fresh:
  "mesa_hash_table_set_deleted_key (fresh_table ht i) k = fresh_table (ht\<lparr>deleted_key := k\<rparr>) i"
  by (simp add: mesa_hash_table_set_deleted_key_def fresh_table_def set_size_fields_def)

lemma u64_create_ok:
  "\<exists>ht :: 'd hash_table_u64. mesa_hash_table_u64_create (\<lambda>_. True) dkv = Some ht \<and> u64_ok dkv ht \<and> u64_contents ht = (\<lambda>_. None)"
proof -
  let ?i = "snd (mesa_hash_table_init (\<lambda>_. True) (Some (mesa_hash_pointer dkv)) mesa_key_pointer_equal) :: (u64, 'd) hash_table"
  let ?f = "fresh_table (?i\<lparr>deleted_key := Ptr 1\<rparr>) 0"
  have kf: "key_funs_ok u64_key (?i\<lparr>deleted_key := Ptr 1\<rparr>)"
    by (rule callbacks_key_funs [OF u64_callbacks]) (simp_all add: init_fields)
  have "mesa_hash_table_create (\<lambda>_. True) (Some (mesa_hash_pointer dkv)) mesa_key_pointer_equal = Some (fresh_table ?i 0)"
    unfolding mesa_hash_table_create_def by (subst init_fresh) simp_all
  then have c: "mesa_hash_table_u64_create (\<lambda>_. True) dkv =
      Some \<lparr>u64_table = Some ?f, freed_key_data = None, deleted_key_data = None\<rparr>"
    by (simp add: mesa_hash_table_u64_create_def set_deleted_key_fresh)
  have "u64_ht_ok dkv ?f"
    using fresh_table_inv [OF kf, of 0] by (simp add: ht_ok_def ht_load_def init_fields)
  then show ?thesis by (auto simp: c u64_ok_def u64_contents_def fun_eq_iff)
qed

text \<open>Clearing with a delete function leaves stale hashes and data behind, but every slot is free.\<close>

lemma clear_ok:
  assumes ok: "ht_ok dk D kh ke ht"
  shows "ht_ok dk D kh ke (fst (mesa_hash_table_clear ht del s))"
    and "ht_lookup (fst (mesa_hash_table_clear ht del s)) k = None"
proof -
  let ?c = "fst (mesa_hash_table_clear ht del s)"
  note o = ht_okD [OF ok] and wf = ht_coreD(1) [OF ht_okD(2) [OF ok]]
  have dk: "deleted_key ht \<noteq> NULL" using wf by (simp add: ht_wf_def)
  have free: "\<forall>e \<in> set (ht_table ?c). entry_is_free e"
  proof (cases del)
    case None
    then show ?thesis using wf by (auto simp: mesa_hash_table_clear_def clear_fast_fresh)
  next
    case (Some f)
    then show ?thesis by (auto simp: mesa_hash_table_clear_def entry_is_free_def)
  qed
  have fields: "key_hash_function ?c = Some kh" "key_equals_function ?c = ke" "deleted_key ?c = dk"
    "entries ?c = 0" "deleted_entries ?c = 0" "ht_wf ?c"
    using o wf fresh_table_wf [OF dk, of "unat (size_index ht)"]
    by (cases del; simp add: mesa_hash_table_clear_def clear_fast_fresh ht_wf_def)+
  have np: "\<not> entry_is_present ?c e" "\<not> entry_is_deleted ?c e" if "e \<in> set (ht_table ?c)" for e
    using free that dk fields(3) o(6) by (auto simp: entry_states entry_is_free_def entry_is_deleted_def)
  have kf: "key_funs_ok D ?c" using ht_coreD(2) [OF o(2)] key_funs_cong [of ?c ht D] fields o by simp
  have "ht_core D ?c" unfolding ht_core_def using fields(6) kf np(1) by (meson nth_mem)
  moreover have "present_count ?c = 0" "deleted_count ?c = 0"
    using np by (auto simp: present_count_def deleted_count_def filter_empty_conv)
  ultimately show "ht_ok dk D kh ke ?c" using fields by (simp add: ht_ok_def ht_inv_def ht_load_def)
  show "ht_lookup ?c k = None" using np(1) by (auto simp: ht_lookup_None_iff occurs_at_def)
qed

lemma u64_clear_ok:
  assumes "u64_ok dkv ht"
  shows "\<exists>ht'. mesa_hash_table_u64_clear (Some ht) = Some ht' \<and> u64_ok dkv ht' \<and> u64_contents ht' = (\<lambda>_. None)"
proof -
  obtain t where t: "u64_table ht = Some t" "u64_ht_ok dkv t" using assms by (auto simp: u64_ok_def)
  show ?thesis using t(1) clear_ok [OF t(2), of "Some (\<lambda>e u. u)" "()"]
    by (simp add: mesa_hash_table_u64_clear_def u64_ok_def u64_contents_def fun_eq_iff)
qed

end
