(* ===== verification/Set_Table.thy ===== *)
theory Set_Table
  imports Hash_Table_Map
begin

text \<open>
  The open-addressing set of \<^verbatim>\<open>src/util/set.c\<close>. The file repeats the algorithm of
  \<^verbatim>\<open>hash_table.c\<close> on entries without data, with the deleted marker fixed; the theory keeps its own records
  and operations. Sets are never the null pointer here (\<^verbatim>\<open>_mesa_set_clear\<close> ignores it), and the two sets of
  \<^verbatim>\<open>_mesa_set_intersects\<close> share the callbacks, as it asserts.
\<close>

section \<open>Records\<close>

record 'k set_entry =
  se_hash :: u32
  se_key :: "'k ptr"

record 'k mesa_set =
  set_table :: "'k set_entry list"
  s_key_hash_function :: "('k ptr \<Rightarrow> u32) option"
  s_key_equals_function :: "'k ptr \<Rightarrow> 'k ptr \<Rightarrow> bool"
  s_size :: u32
  s_rehash :: u32
  s_size_magic :: u64
  s_rehash_magic :: u64
  s_max_entries :: u32
  s_size_index :: u32
  s_entries :: u32
  s_deleted_entries :: u32

definition set_hash_sizes :: "hash_size list" where
  "set_hash_sizes =
    [ENTRY 2 5 3,
     ENTRY 4 7 5,
     ENTRY 8 13 11,
     ENTRY 16 19 17,
     ENTRY 32 43 41,
     ENTRY 64 73 71,
     ENTRY 128 151 149,
     ENTRY 256 283 281,
     ENTRY 512 571 569,
     ENTRY 1024 1153 1151,
     ENTRY 2048 2269 2267,
     ENTRY 4096 4519 4517,
     ENTRY 8192 9013 9011,
     ENTRY 16384 18043 18041,
     ENTRY 32768 36109 36107,
     ENTRY 65536 72091 72089,
     ENTRY 131072 144409 144407,
     ENTRY 262144 288361 288359,
     ENTRY 524288 576883 576881,
     ENTRY 1048576 1153459 1153457,
     ENTRY 2097152 2307163 2307161,
     ENTRY 4194304 4613893 4613891,
     ENTRY 8388608 9227641 9227639,
     ENTRY 16777216 18455029 18455027,
     ENTRY 33554432 36911011 36911009,
     ENTRY 67108864 73819861 73819859,
     ENTRY 134217728 147639589 147639587,
     ENTRY 268435456 295279081 295279079,
     ENTRY 536870912 590559793 590559791,
     ENTRY 1073741824 1181116273 1181116271,
     ENTRY 2147483648 2362232233 2362232231]"

definition zero_set_entry :: "'k set_entry" where
  "zero_set_entry = \<lparr>se_hash = 0, se_key = NULL\<rparr>"

definition set_key_pointer_is_reserved :: "'k ptr \<Rightarrow> bool" where
  "set_key_pointer_is_reserved key \<longleftrightarrow> key = NULL \<or> key = Deleted_key_value"

definition set_entry_is_free :: "'k set_entry \<Rightarrow> bool" where
  "set_entry_is_free entry \<longleftrightarrow> se_key entry = NULL"

definition set_entry_is_deleted :: "'k set_entry \<Rightarrow> bool" where
  "set_entry_is_deleted entry \<longleftrightarrow> se_key entry = Deleted_key_value"

definition set_entry_is_present :: "'k set_entry \<Rightarrow> bool" where
  "set_entry_is_present entry \<longleftrightarrow> se_key entry \<noteq> NULL \<and> se_key entry \<noteq> Deleted_key_value"

section \<open>Creation\<close>

definition set_set_size_fields :: "'k mesa_set \<Rightarrow> nat \<Rightarrow> 'k mesa_set" where
  "set_set_size_fields ht i = ht\<lparr>s_size_index := of_nat i, s_size := hs_size (set_hash_sizes ! i),
     s_rehash := hs_rehash (set_hash_sizes ! i), s_size_magic := hs_size_magic (set_hash_sizes ! i),
     s_rehash_magic := hs_rehash_magic (set_hash_sizes ! i), s_max_entries := hs_max_entries (set_hash_sizes ! i)\<rparr>"

definition mesa_set_init ::
  "(nat \<Rightarrow> bool) \<Rightarrow> ('k ptr \<Rightarrow> u32) option \<Rightarrow> ('k ptr \<Rightarrow> 'k ptr \<Rightarrow> bool) \<Rightarrow> bool \<times> 'k mesa_set" where
  "mesa_set_init alloc kh ke =
     (let n = unat (hs_size (set_hash_sizes ! 0)); ok = alloc n
      in (ok, set_set_size_fields
         \<lparr>set_table = (if ok then replicate n zero_set_entry else []), s_key_hash_function = kh,
          s_key_equals_function = ke, s_size = 0, s_rehash = 0,
          s_size_magic = 0, s_rehash_magic = 0, s_max_entries = 0, s_size_index = 0,
          s_entries = 0, s_deleted_entries = 0\<rparr> 0))"

definition mesa_set_create ::
  "(nat \<Rightarrow> bool) \<Rightarrow> ('k ptr \<Rightarrow> u32) option \<Rightarrow> ('k ptr \<Rightarrow> 'k ptr \<Rightarrow> bool) \<Rightarrow> 'k mesa_set option" where
  "mesa_set_create alloc kh ke =
     (if \<not> alloc 1 then None
      else case mesa_set_init alloc kh ke of (ok, ht) \<Rightarrow> if \<not> ok then None else Some ht)"

definition mesa_set_create_u32_keys :: "(nat \<Rightarrow> bool) \<Rightarrow> u64 \<Rightarrow> u64 mesa_set option" where
  "mesa_set_create_u32_keys alloc dkv = mesa_set_create alloc (Some (key_u32_hash dkv)) (key_u32_equals dkv)"

definition mesa_pointer_set_create :: "(nat \<Rightarrow> bool) \<Rightarrow> u64 \<Rightarrow> u64 mesa_set option" where
  "mesa_pointer_set_create alloc dkv = mesa_set_create alloc (Some (mesa_hash_pointer dkv)) mesa_key_pointer_equal"

definition mesa_set_clone :: "(nat \<Rightarrow> bool) \<Rightarrow> 'k mesa_set \<Rightarrow> 'k mesa_set option" where
  "mesa_set_clone alloc src =
     (if \<not> alloc 1 then None
      else if \<not> alloc (unat (s_size src)) then None
      else Some (src\<lparr>set_table := take (unat (s_size src)) (set_table src)\<rparr>))"

section \<open>Iteration\<close>

definition mesa_set_next_entry :: "'k mesa_set \<Rightarrow> nat option \<Rightarrow> nat option" where
  "mesa_set_next_entry ht entry =
     (let from = (case entry of None \<Rightarrow> 0 | Some i \<Rightarrow> i + 1)
      in find (\<lambda>i. set_entry_is_present (set_table ht ! i)) [from..<unat (s_size ht)])"

function set_foreach_from :: "'k mesa_set \<Rightarrow> nat option \<Rightarrow> nat list" where
  "set_foreach_from ht entry =
     (case mesa_set_next_entry ht entry of
        None \<Rightarrow> []
      | Some i \<Rightarrow> i # set_foreach_from ht (Some i))"
  by pat_completeness auto
termination
proof (relation "measure (\<lambda>(ht, e). unat (s_size ht) - (case e of None \<Rightarrow> 0 | Some i \<Rightarrow> i + 1))")
  fix ht :: "'k mesa_set" and entry i
  assume "mesa_set_next_entry ht entry = Some i"
  then have "i \<in> set [(case entry of None \<Rightarrow> 0 | Some i \<Rightarrow> i + 1)..<unat (s_size ht)]"
    unfolding mesa_set_next_entry_def Let_def by (metis find_Some_iff nth_mem)
  then show "((ht, Some i), ht, entry)
      \<in> measure (\<lambda>(ht, e). unat (s_size ht) - (case e of None \<Rightarrow> 0 | Some i \<Rightarrow> i + 1))"
    by (auto split: option.splits)
qed simp

definition set_foreach :: "'k mesa_set \<Rightarrow> 'k set_entry list" where
  "set_foreach ht = map (\<lambda>i. set_table ht ! i) (set_foreach_from ht None)"

function set_next_entry_unsafe_from :: "'k mesa_set \<Rightarrow> nat \<Rightarrow> nat option" where
  "set_next_entry_unsafe_from ht i =
     (if i < unat (s_size ht)
      then if se_key (set_table ht ! i) \<noteq> NULL then Some i else set_next_entry_unsafe_from ht (i + 1)
      else None)"
  by pat_completeness auto
termination
  by (relation "measure (\<lambda>(ht, i). unat (s_size ht) - i)") auto

definition mesa_set_next_entry_unsafe :: "'k mesa_set \<Rightarrow> nat option \<Rightarrow> nat option option" where
  "mesa_set_next_entry_unsafe ht entry = do {
     c_assert (s_deleted_entries ht = 0);
     if s_entries ht = 0 then Some None
     else Some (set_next_entry_unsafe_from ht (case entry of None \<Rightarrow> 0 | Some i \<Rightarrow> i + 1)) }"

definition mesa_set_random_entry :: "'k mesa_set \<Rightarrow> u32 \<Rightarrow> ('k set_entry \<Rightarrow> bool) option \<Rightarrow> nat option" where
  "mesa_set_random_entry ht rand predicate =
     (let i = unat (rand mod s_size ht);
          ok = (\<lambda>j. set_entry_is_present (set_table ht ! j) \<and>
                 (case predicate of None \<Rightarrow> True | Some p \<Rightarrow> p (set_table ht ! j)))
      in if s_entries ht = 0 then None
         else case find ok [i..<unat (s_size ht)] of
                Some j \<Rightarrow> Some j
              | None \<Rightarrow> find ok [0..<i])"

section \<open>Clearing and destruction\<close>

definition set_clear_fast :: "'k mesa_set \<Rightarrow> 'k mesa_set" where
  "set_clear_fast ht = ht\<lparr>
     set_table := replicate (unat (hs_size (set_hash_sizes ! unat (s_size_index ht)))) zero_set_entry @
                  drop (unat (hs_size (set_hash_sizes ! unat (s_size_index ht)))) (set_table ht),
     s_entries := 0, s_deleted_entries := 0\<rparr>"

definition mesa_set_clear ::
  "'k mesa_set \<Rightarrow> ('k set_entry \<Rightarrow> 's \<Rightarrow> 's) option \<Rightarrow> 's \<Rightarrow> 'k mesa_set \<times> 's" where
  "mesa_set_clear ht delete_function s =
     (case delete_function of
        Some del \<Rightarrow>
          (ht\<lparr>set_table := map (\<lambda>e. e\<lparr>se_key := NULL\<rparr>) (set_table ht), s_entries := 0, s_deleted_entries := 0\<rparr>,
           fold (\<lambda>e s. if set_entry_is_present e then del e s else s) (set_table ht) s)
      | None \<Rightarrow> (set_clear_fast ht, s))"

definition mesa_set_destroy :: "'k mesa_set option \<Rightarrow> ('k set_entry \<Rightarrow> 's \<Rightarrow> 's) option \<Rightarrow> 's \<Rightarrow> 's" where
  "mesa_set_destroy ht delete_function s =
     (case ht of
        None \<Rightarrow> s
      | Some ht \<Rightarrow> (case delete_function of None \<Rightarrow> s | Some del \<Rightarrow> fold del (set_foreach ht) s))"

section \<open>Search\<close>

fun set_search_loop ::
  "nat \<Rightarrow> 'k mesa_set \<Rightarrow> u32 \<Rightarrow> 'k ptr \<Rightarrow> u32 \<Rightarrow> u32 \<Rightarrow> u32 \<Rightarrow> u32 option option" where
  "set_search_loop 0 ht hash key start_address double_hash hash_address = None"
| "set_search_loop (Suc fuel) ht hash key start_address double_hash hash_address = do {
     entry \<leftarrow> array_get (set_table ht) (unat hash_address);
     if set_entry_is_free entry then Some None
     else if set_entry_is_present entry \<and> se_hash entry = hash \<and>
             s_key_equals_function ht key (se_key entry) then Some (Some hash_address)
     else (let hash_address = next_address (s_size ht) double_hash hash_address
           in if hash_address \<noteq> start_address
              then set_search_loop fuel ht hash key start_address double_hash hash_address
              else Some None) }"

definition set_search :: "'k mesa_set \<Rightarrow> u32 \<Rightarrow> 'k ptr \<Rightarrow> u32 option option" where
  "set_search ht hash key = do {
     c_assert (\<not> set_key_pointer_is_reserved key);
     let start_address = util_fast_urem32 hash (s_size ht) (s_size_magic ht);
         double_hash = util_fast_urem32 hash (s_rehash ht) (s_rehash_magic ht) + 1
     in set_search_loop (unat (s_size ht)) ht hash key start_address double_hash start_address }"

definition mesa_set_search :: "'k mesa_set \<Rightarrow> 'k ptr \<Rightarrow> u32 option option" where
  "mesa_set_search ht key = do {
     key_hash \<leftarrow> s_key_hash_function ht;
     set_search ht (key_hash key) key }"

definition mesa_set_search_pre_hashed :: "'k mesa_set \<Rightarrow> u32 \<Rightarrow> 'k ptr \<Rightarrow> u32 option option" where
  "mesa_set_search_pre_hashed ht hash key = do {
     c_assert (case s_key_hash_function ht of None \<Rightarrow> True | Some kh \<Rightarrow> hash = kh key);
     set_search ht hash key }"

section \<open>Insertion\<close>

fun set_add_rehash_loop :: "nat \<Rightarrow> 'k mesa_set \<Rightarrow> u32 \<Rightarrow> 'k ptr \<Rightarrow> u32 \<Rightarrow> u32 \<Rightarrow> 'k mesa_set option" where
  "set_add_rehash_loop 0 ht hash key double_hash hash_address = None"
| "set_add_rehash_loop (Suc fuel) ht hash key double_hash hash_address = do {
     entry \<leftarrow> array_get (set_table ht) (unat hash_address);
     if se_key entry = NULL
     then Some (ht\<lparr>set_table := (set_table ht)[unat hash_address := \<lparr>se_hash = hash, se_key = key\<rparr>]\<rparr>)
     else set_add_rehash_loop fuel ht hash key double_hash (next_address (s_size ht) double_hash hash_address) }"

definition set_add_rehash :: "'k mesa_set \<Rightarrow> u32 \<Rightarrow> 'k ptr \<Rightarrow> 'k mesa_set option" where
  "set_add_rehash ht hash key =
     (let start_address = util_fast_urem32 hash (s_size ht) (s_size_magic ht);
          double_hash = util_fast_urem32 hash (s_rehash ht) (s_rehash_magic ht) + 1
      in set_add_rehash_loop (unat (s_size ht)) ht hash key double_hash start_address)"

fun set_rehash_entries :: "'k mesa_set \<Rightarrow> 'k set_entry list \<Rightarrow> 'k mesa_set option" where
  "set_rehash_entries ht [] = Some ht"
| "set_rehash_entries ht (entry # es) = do {
     ht \<leftarrow> set_add_rehash ht (se_hash entry) (se_key entry);
     set_rehash_entries ht es }"

definition set_rehash :: "(nat \<Rightarrow> bool) \<Rightarrow> 'k mesa_set \<Rightarrow> u32 \<Rightarrow> 'k mesa_set option" where
  "set_rehash alloc ht new_size_index =
     (if s_size_index ht = new_size_index \<and> s_deleted_entries ht = s_max_entries ht
      then do { let ht = set_clear_fast ht in do { c_assert (s_entries ht = 0); Some ht } }
      else if unat new_size_index \<ge> length set_hash_sizes then Some ht
      else if \<not> alloc (unat (hs_size (set_hash_sizes ! unat new_size_index))) then Some ht
      else do {
        let old_ht = ht;
            ht = (set_set_size_fields ht (unat new_size_index))
              \<lparr>set_table := replicate (unat (hs_size (set_hash_sizes ! unat new_size_index))) zero_set_entry,
               s_entries := 0, s_deleted_entries := 0\<rparr>
        in do {
          ht \<leftarrow> set_rehash_entries ht (set_foreach old_ht);
          Some (ht\<lparr>s_entries := s_entries old_ht\<rparr>) } })"

text \<open>Past the last row of the size table the loop of \<^verbatim>\<open>_mesa_set_resize\<close> reads out of bounds.\<close>

definition mesa_set_resize :: "(nat \<Rightarrow> bool) \<Rightarrow> 'k mesa_set \<Rightarrow> u32 \<Rightarrow> 'k mesa_set option" where
  "mesa_set_resize alloc ht n = do {
     let n = (if s_entries ht > n then s_entries ht else n)
     in do {
       i \<leftarrow> find (\<lambda>i. \<not> hs_max_entries (set_hash_sizes ! i) < n) [0..<length set_hash_sizes];
       set_rehash alloc ht (of_nat i) } }"

fun set_search_or_add_loop ::
  "nat \<Rightarrow> 'k mesa_set \<Rightarrow> u32 \<Rightarrow> 'k ptr \<Rightarrow> u32 \<Rightarrow> u32 \<Rightarrow> u32 option \<Rightarrow> u32 \<Rightarrow> (u32 + u32 option) option" where
  "set_search_or_add_loop 0 ht hash key start_address double_hash available_entry hash_address = None"
| "set_search_or_add_loop (Suc fuel) ht hash key start_address double_hash available_entry hash_address = do {
     entry \<leftarrow> array_get (set_table ht) (unat hash_address);
     let available_entry =
           (if \<not> set_entry_is_present entry \<and> available_entry = None then Some hash_address else available_entry)
     in if \<not> set_entry_is_present entry \<and> set_entry_is_free entry then Some (Inr available_entry)
        else if \<not> set_entry_is_deleted entry \<and> se_hash entry = hash \<and>
                s_key_equals_function ht key (se_key entry) then Some (Inl hash_address)
        else (let hash_address = next_address (s_size ht) double_hash hash_address
              in if hash_address \<noteq> start_address
                 then set_search_or_add_loop fuel ht hash key start_address double_hash available_entry hash_address
                 else Some (Inr available_entry)) }"

text \<open>
  The result: the entry (\<open>None\<close> when a resize failed), what was written to \<^verbatim>\<open>*found\<close>
  (nothing in that case), and the set.
\<close>

definition set_search_or_add ::
  "(nat \<Rightarrow> bool) \<Rightarrow> 'k mesa_set \<Rightarrow> u32 \<Rightarrow> 'k ptr \<Rightarrow> (u32 option \<times> bool option \<times> 'k mesa_set) option" where
  "set_search_or_add alloc ht hash key = do {
     c_assert (\<not> set_key_pointer_is_reserved key);
     ht \<leftarrow> (if s_entries ht \<ge> s_max_entries ht then set_rehash alloc ht (s_size_index ht + 1)
           else if s_deleted_entries ht + s_entries ht \<ge> s_max_entries ht
                then set_rehash alloc ht (s_size_index ht)
           else Some ht);
     let start_address = util_fast_urem32 hash (s_size ht) (s_size_magic ht);
         double_hash = util_fast_urem32 hash (s_rehash ht) (s_rehash_magic ht) + 1
     in do {
       r \<leftarrow> set_search_or_add_loop (unat (s_size ht)) ht hash key start_address double_hash None start_address;
       case r of
         Inl a \<Rightarrow> Some (Some a, Some True, ht)
       | Inr (Some a) \<Rightarrow>
           let ht = (if set_entry_is_deleted (set_table ht ! unat a)
                     then ht\<lparr>s_deleted_entries := s_deleted_entries ht - 1\<rparr> else ht)
           in Some (Some a, Some False,
                ht\<lparr>set_table := (set_table ht)[unat a := \<lparr>se_hash = hash, se_key = key\<rparr>],
                   s_entries := s_entries ht + 1\<rparr>)
       | Inr None \<Rightarrow> Some (None, None, ht) } }"

definition set_replace_key :: "'k mesa_set \<Rightarrow> u32 \<Rightarrow> 'k ptr \<Rightarrow> 'k mesa_set" where
  "set_replace_key ht a key = ht\<lparr>set_table := (set_table ht)[unat a := (set_table ht ! unat a)\<lparr>se_key := key\<rparr>]\<rparr>"

definition set_add :: "(nat \<Rightarrow> bool) \<Rightarrow> 'k mesa_set \<Rightarrow> u32 \<Rightarrow> 'k ptr \<Rightarrow> (u32 option \<times> 'k mesa_set) option" where
  "set_add alloc ht hash key = do {
     (entry, found, ht) \<leftarrow> set_search_or_add alloc ht hash key;
     Some (case entry of None \<Rightarrow> (None, ht) | Some a \<Rightarrow> (Some a, set_replace_key ht a key)) }"

definition mesa_set_add :: "(nat \<Rightarrow> bool) \<Rightarrow> 'k mesa_set \<Rightarrow> 'k ptr \<Rightarrow> (u32 option \<times> 'k mesa_set) option" where
  "mesa_set_add alloc ht key = do {
     key_hash \<leftarrow> s_key_hash_function ht;
     set_add alloc ht (key_hash key) key }"

definition mesa_set_add_pre_hashed ::
  "(nat \<Rightarrow> bool) \<Rightarrow> 'k mesa_set \<Rightarrow> u32 \<Rightarrow> 'k ptr \<Rightarrow> (u32 option \<times> 'k mesa_set) option" where
  "mesa_set_add_pre_hashed alloc ht hash key = do {
     c_assert (case s_key_hash_function ht of None \<Rightarrow> True | Some kh \<Rightarrow> hash = kh key);
     set_add alloc ht hash key }"

definition mesa_set_search_and_add_pre_hashed ::
  "(nat \<Rightarrow> bool) \<Rightarrow> 'k mesa_set \<Rightarrow> u32 \<Rightarrow> 'k ptr \<Rightarrow> (u32 option \<times> bool option \<times> 'k mesa_set) option" where
  "mesa_set_search_and_add_pre_hashed alloc ht hash key = do {
     c_assert (case s_key_hash_function ht of None \<Rightarrow> True | Some kh \<Rightarrow> hash = kh key);
     (entry, replaced, ht) \<leftarrow> set_search_or_add alloc ht hash key;
     Some (case entry of None \<Rightarrow> (None, replaced, ht) | Some a \<Rightarrow> (Some a, replaced, set_replace_key ht a key)) }"

definition mesa_set_search_and_add ::
  "(nat \<Rightarrow> bool) \<Rightarrow> 'k mesa_set \<Rightarrow> 'k ptr \<Rightarrow> (u32 option \<times> bool option \<times> 'k mesa_set) option" where
  "mesa_set_search_and_add alloc ht key = do {
     key_hash \<leftarrow> s_key_hash_function ht;
     mesa_set_search_and_add_pre_hashed alloc ht (key_hash key) key }"

definition mesa_set_search_or_add ::
  "(nat \<Rightarrow> bool) \<Rightarrow> 'k mesa_set \<Rightarrow> 'k ptr \<Rightarrow> (u32 option \<times> bool option \<times> 'k mesa_set) option" where
  "mesa_set_search_or_add alloc ht key = do {
     key_hash \<leftarrow> s_key_hash_function ht;
     set_search_or_add alloc ht (key_hash key) key }"

definition mesa_set_search_or_add_pre_hashed ::
  "(nat \<Rightarrow> bool) \<Rightarrow> 'k mesa_set \<Rightarrow> u32 \<Rightarrow> 'k ptr \<Rightarrow> (u32 option \<times> bool option \<times> 'k mesa_set) option" where
  "mesa_set_search_or_add_pre_hashed alloc ht hash key = do {
     c_assert (case s_key_hash_function ht of None \<Rightarrow> True | Some kh \<Rightarrow> hash = kh key);
     set_search_or_add alloc ht hash key }"

section \<open>Removal and intersection\<close>

definition mesa_set_remove :: "'k mesa_set \<Rightarrow> u32 option \<Rightarrow> 'k mesa_set" where
  "mesa_set_remove ht entry =
     (case entry of
        None \<Rightarrow> ht
      | Some a \<Rightarrow> ht\<lparr>set_table := (set_table ht)[unat a := (set_table ht ! unat a)\<lparr>se_key := Deleted_key_value\<rparr>],
                    s_entries := s_entries ht - 1, s_deleted_entries := s_deleted_entries ht + 1\<rparr>)"

definition mesa_set_remove_key :: "'k mesa_set \<Rightarrow> 'k ptr \<Rightarrow> 'k mesa_set option" where
  "mesa_set_remove_key ht key = do {
     entry \<leftarrow> mesa_set_search ht key;
     Some (mesa_set_remove ht entry) }"

fun set_intersects_loop :: "'k mesa_set \<Rightarrow> 'k set_entry list \<Rightarrow> bool option" where
  "set_intersects_loop b [] = Some False"
| "set_intersects_loop b (entry # es) = do {
     found \<leftarrow> mesa_set_search_pre_hashed b (se_hash entry) (se_key entry);
     if found \<noteq> None then Some True else set_intersects_loop b es }"

text \<open>
  \<^verbatim>\<open>_mesa_set_intersects\<close> also asserts that the two sets share their callbacks; function
  pointers cannot be compared in the model, so callers of the model pass two sets with the same ones.
\<close>

definition mesa_set_intersects :: "'k mesa_set \<Rightarrow> 'k mesa_set \<Rightarrow> bool option" where
  "mesa_set_intersects a b =
     (if s_entries b < s_entries a then set_intersects_loop a (set_foreach b)
      else set_intersects_loop b (set_foreach a))"

end
