(* ===== verification/Set_Correct.thy ===== *)
theory Set_Correct
  imports Set_Table
begin

text \<open>
  Correctness of \<^verbatim>\<open>set.c\<close>, by simulation: a set is mapped to a hash table whose entries carry no
  data, each operation of the set is shown to commute with the map and its counterpart of
  \<^verbatim>\<open>hash_table.c\<close>, and the theorems of the hash table carry over.
\<close>

section \<open>A set as a hash table\<close>

definition as_entry :: "'k set_entry \<Rightarrow> ('k, unit) hash_entry" where
  "as_entry e = \<lparr>he_hash = se_hash e, he_key = se_key e, he_data = None\<rparr>"

definition as_table :: "'k mesa_set \<Rightarrow> ('k, unit) hash_table" where
  "as_table s = \<lparr>ht_table = map as_entry (set_table s), key_hash_function = s_key_hash_function s,
     key_equals_function = s_key_equals_function s, deleted_key = Deleted_key_value, ht_size = s_size s,
     ht_rehash = s_rehash s, size_magic = s_size_magic s, rehash_magic = s_rehash_magic s,
     max_entries = s_max_entries s, size_index = s_size_index s, entries = s_entries s,
     deleted_entries = s_deleted_entries s\<rparr>"

lemma set_hash_sizes_eq: "set_hash_sizes = hash_sizes"
  by (simp only: set_hash_sizes_def hash_sizes_def)

lemma as_table_fields [simp]:
  "ht_table (as_table s) = map as_entry (set_table s)"
  "key_hash_function (as_table s) = s_key_hash_function s"
  "key_equals_function (as_table s) = s_key_equals_function s" "deleted_key (as_table s) = Deleted_key_value"
  "ht_size (as_table s) = s_size s" "ht_rehash (as_table s) = s_rehash s"
  "size_magic (as_table s) = s_size_magic s" "rehash_magic (as_table s) = s_rehash_magic s"
  "max_entries (as_table s) = s_max_entries s" "size_index (as_table s) = s_size_index s"
  "entries (as_table s) = s_entries s" "deleted_entries (as_table s) = s_deleted_entries s"
  by (simp_all add: as_table_def)

lemma as_entry_fields [simp]:
  "he_hash (as_entry e) = se_hash e" "he_key (as_entry e) = se_key e" "he_data (as_entry e) = None"
  "as_entry (e\<lparr>se_key := k\<rparr>) = (as_entry e)\<lparr>he_key := k\<rparr>" "as_entry zero_set_entry = zero_entry"
  "as_entry \<lparr>se_hash = h, se_key = k\<rparr> = \<lparr>he_hash = h, he_key = k, he_data = None\<rparr>"
  by (simp_all add: as_entry_def zero_set_entry_def zero_entry_def)

lemma as_table_updates [simp]:
  "as_table (s\<lparr>set_table := T\<rparr>) = (as_table s)\<lparr>ht_table := map as_entry T\<rparr>"
  "as_table (s\<lparr>s_entries := n\<rparr>) = (as_table s)\<lparr>entries := n\<rparr>"
  "as_table (s\<lparr>s_deleted_entries := n\<rparr>) = (as_table s)\<lparr>deleted_entries := n\<rparr>"
  "as_table (set_set_size_fields s i) = set_size_fields (as_table s) i"
  by (simp_all add: as_table_def set_set_size_fields_def set_size_fields_def set_hash_sizes_eq)

lemma as_entry_states [simp]:
  "entry_is_free (as_entry e) = set_entry_is_free e"
  "entry_is_present (as_table s) (as_entry e) = set_entry_is_present e"
  "entry_is_deleted (as_table s) (as_entry e) = set_entry_is_deleted e"
  "key_pointer_is_reserved (as_table s) = set_key_pointer_is_reserved"
  by (simp_all add: entry_is_free_def entry_is_present_def entry_is_deleted_def set_entry_is_free_def fun_eq_iff
      set_entry_is_present_def set_entry_is_deleted_def key_pointer_is_reserved_def set_key_pointer_is_reserved_def)

lemma array_get_map: "array_get (map f xs) i = map_option f (array_get xs i)"
  by (simp add: array_get_def)

section \<open>Simulation of the operations\<close>

lemma search_loop_sim:
  "set_search_loop fuel s h k start dh a = hash_table_search_loop fuel (as_table s) h k start dh a"
proof (induction fuel arbitrary: a)
  case (Suc fuel)
  then show ?case by (cases "array_get (set_table s) (unat a)") (simp_all add: array_get_map Let_def)
qed simp

lemma set_search_sim: "set_search s h k = hash_table_search (as_table s) h k"
  by (simp add: set_search_def hash_table_search_def search_loop_sim add.commute)

lemma mesa_set_search_sim: "mesa_set_search s k = mesa_hash_table_search (as_table s) k"
  by (simp add: mesa_set_search_def mesa_hash_table_search_def set_search_sim)

lemma add_rehash_loop_sim:
  "map_option as_table (set_add_rehash_loop fuel s h k dh a) =
     hash_table_insert_rehash_loop fuel (as_table s) h k None dh a"
proof (induction fuel arbitrary: a)
  case (Suc fuel)
  then show ?case
    by (cases "array_get (set_table s) (unat a)") (simp_all add: array_get_map map_update)
qed simp

lemma rehash_entries_sim:
  "map_option as_table (set_rehash_entries s es) = rehash_entries (as_table s) (map as_entry es)"
proof (induction es arbitrary: s)
  case (Cons e es)
  have *: "map_option as_table (set_add_rehash s (se_hash e) (se_key e)) =
      hash_table_insert_rehash (as_table s) (se_hash e) (se_key e) None"
    by (simp add: set_add_rehash_def hash_table_insert_rehash_def add_rehash_loop_sim add.commute)
  show ?case
    using Cons.IH by (cases "set_add_rehash s (se_hash e) (se_key e)") (simp_all add: * [symmetric])
qed simp

lemma set_next_entry_sim:
  "length (set_table s) = unat (s_size s) \<Longrightarrow> mesa_set_next_entry s e = mesa_hash_table_next_entry (as_table s) e"
  unfolding mesa_set_next_entry_def mesa_hash_table_next_entry_def Let_def
  by (intro find_cong) auto

declare set_foreach_from.simps [simp del]

lemma set_foreach_from_sim:
  "length (set_table s) = unat (s_size s) \<Longrightarrow> set_foreach_from s e = hash_table_foreach_from (as_table s) e"
proof (induction s e rule: set_foreach_from.induct)
  case (1 s e)
  show ?case
    using 1 by (subst set_foreach_from.simps, subst hash_table_foreach_from.simps)
      (auto simp: set_next_entry_sim split: option.splits)
qed

lemma foreach_from_bound: "i \<in> set (hash_table_foreach_from ht e) \<Longrightarrow> i < unat (ht_size ht)"
  by (auto simp: foreach_from_filter)

lemma set_foreach_sim:
  assumes "length (set_table s) = unat (s_size s)"
  shows "map as_entry (set_foreach s) = hash_table_foreach (as_table s)"
  using assms foreach_from_bound [of _ "as_table s" None]
  by (auto simp: set_foreach_def hash_table_foreach_def set_foreach_from_sim)

lemma set_foreach_filter:
  assumes "length (set_table s) = unat (s_size s)"
  shows "set_foreach s = filter set_entry_is_present (set_table s)"
proof -
  have "map as_entry (set_foreach s) = map as_entry (filter set_entry_is_present (set_table s))"
    using foreach_filter [of "as_table s"] assms by (simp add: set_foreach_sim filter_map comp_def)
  moreover have "inj as_entry" by (rule injI) (simp add: as_entry_def set_entry.equality)
  ultimately show ?thesis using inj_map_eq_map by blast
qed

lemma set_clear_fast_sim: "as_table (set_clear_fast s) = hash_table_clear_fast (as_table s)"
  by (simp add: set_clear_fast_def hash_table_clear_fast_def set_hash_sizes_eq drop_map)

lemma set_rehash_sim:
  assumes "length (set_table s) = unat (s_size s)"
  shows "map_option as_table (set_rehash alloc s i) = mesa_hash_table_rehash alloc (as_table s) i"
proof -
  let ?f = "(set_set_size_fields s (unat i))
      \<lparr>set_table := replicate (unat (hs_size (set_hash_sizes ! unat i))) zero_set_entry, s_entries := 0, s_deleted_entries := 0\<rparr>"
  have "map_option as_table (do { s' \<leftarrow> set_rehash_entries ?f (set_foreach s); Some (s'\<lparr>s_entries := s_entries s\<rparr>) }) =
      do { t \<leftarrow> rehash_entries (as_table ?f) (map as_entry (set_foreach s)); Some (t\<lparr>entries := s_entries s\<rparr>) }"
    unfolding rehash_entries_sim [symmetric] by (cases "set_rehash_entries ?f (set_foreach s)") simp_all
  moreover have "s_entries (set_clear_fast s) = 0" by (simp add: set_clear_fast_def)
  ultimately show ?thesis
    using set_foreach_sim [OF assms]
    by (simp add: set_rehash_def mesa_hash_table_rehash_def set_clear_fast_sim Let_def set_hash_sizes_eq)
qed

lemma search_or_add_loop_sim:
  "set_search_or_add_loop fuel s h k start dh avail a = hash_table_insert_loop fuel (as_table s) h k start dh avail a"
proof (induction fuel arbitrary: a avail)
  case (Suc fuel)
  then show ?case by (cases "array_get (set_table s) (unat a)") (simp_all add: array_get_map Let_def)
qed simp

text \<open>The slot the probe loop returns lies in the table.\<close>

definition slot_in :: "('k, 'd) hash_table \<Rightarrow> u32 option \<Rightarrow> bool" where
  "slot_in ht x \<longleftrightarrow> (case x of None \<Rightarrow> True | Some a \<Rightarrow> unat a < length (ht_table ht))"

lemma insert_loop_bound:
  assumes "hash_table_insert_loop fuel ht h k start dh avail a = Some r" "slot_in ht avail"
  shows "slot_in ht (case r of Inl x \<Rightarrow> Some x | Inr x \<Rightarrow> x)"
  using assms
proof (induction fuel arbitrary: a avail)
  case (Suc fuel)
  obtain e where e: "array_get (ht_table ht) (unat a) = Some e"
    using Suc.prems(1) by (cases "array_get (ht_table ht) (unat a)") simp_all
  then have a: "slot_in ht (Some a)" by (simp add: slot_in_def array_get_eq_Some)
  let ?av = "if \<not> entry_is_present ht e \<and> avail = None then Some a else avail"
  let ?next = "next_address (ht_size ht) dh a"
  have av: "slot_in ht ?av" using a Suc.prems(2) by simp
  have run: "Some r = (if \<not> entry_is_present ht e \<and> entry_is_free e then Some (Inr ?av)
     else if \<not> entry_is_deleted ht e \<and> he_hash e = h \<and> key_equals_function ht k (he_key e) then Some (Inl a)
     else if ?next \<noteq> start then hash_table_insert_loop fuel ht h k start dh ?av ?next
     else Some (Inr ?av))"
    using Suc.prems(1) e by (simp only: hash_table_insert_loop.simps bind.bind_lunit Let_def)
  show ?case
  proof (cases "\<not> entry_is_present ht e \<and> entry_is_free e")
    case True
    then show ?thesis using run av by simp
  next
    case f: False
    show ?thesis
    proof (cases "\<not> entry_is_deleted ht e \<and> he_hash e = h \<and> key_equals_function ht k (he_key e)")
      case True
      then show ?thesis using run f a by simp
    next
      case False
      show ?thesis
      proof (cases "?next = start")
        case True
        have "Some r = Some (Inr ?av)" using run unfolding if_not_P [OF f] if_not_P [OF False] True by simp
        then show ?thesis using av by simp
      next
        case neq: False
        have "hash_table_insert_loop fuel ht h k start dh ?av ?next = Some r"
          using run unfolding if_not_P [OF f] if_not_P [OF False] if_P [OF neq] by simp
        then show ?thesis using av by (rule Suc.IH)
      qed
    qed
  qed
qed simp

section \<open>Adding\<close>

definition set_grow :: "(nat \<Rightarrow> bool) \<Rightarrow> 'k mesa_set \<Rightarrow> 'k mesa_set option" where
  "set_grow alloc ht =
     (if s_entries ht \<ge> s_max_entries ht then set_rehash alloc ht (s_size_index ht + 1)
      else if s_deleted_entries ht + s_entries ht \<ge> s_max_entries ht then set_rehash alloc ht (s_size_index ht)
      else Some ht)"

lemma set_grow_sim:
  "length (set_table s) = unat (s_size s) \<Longrightarrow> map_option as_table (set_grow alloc s) = grow_for_insert alloc (as_table s)"
  by (simp add: set_grow_def grow_for_insert_def set_rehash_sim)

text \<open>
  \<^verbatim>\<open>set_add\<close> is the insertion of the hash table, and \<^verbatim>\<open>set_search_or_add\<close> differs from it only
  in keeping the stored key of an equal element.
\<close>

lemma set_add_sim:
  assumes len: "length (set_table s) = unat (s_size s)"
  shows "map_option (apsnd as_table) (set_add alloc s h k) = hash_table_insert alloc (as_table s) h k None"
proof (cases "set_key_pointer_is_reserved k")
  case True
  then show ?thesis by (simp add: set_add_def set_search_or_add_def hash_table_insert_def)
next
  case nr: False
  show ?thesis
  proof (cases "set_grow alloc s")
    case None
    then have "grow_for_insert alloc (as_table s) = None" using set_grow_sim [OF len, of alloc] by simp
    then show ?thesis using None nr
      unfolding set_add_def set_search_or_add_def hash_table_insert_def set_grow_def [symmetric]
        grow_for_insert_def [symmetric] by simp
  next
    case (Some g)
    then have g: "grow_for_insert alloc (as_table s) = Some (as_table g)" using set_grow_sim [OF len, of alloc] by simp
    let ?st = "util_fast_urem32 h (s_size g) (s_size_magic g)"
    let ?dh = "1 + util_fast_urem32 h (s_rehash g) (s_rehash_magic g)"
    let ?loop = "hash_table_insert_loop (unat (s_size g)) (as_table g) h k ?st ?dh None ?st"
    have L: "set_add alloc s h k = do {
        r \<leftarrow> ?loop;
        case r of
          Inl a \<Rightarrow> Some (Some a, set_replace_key g a k)
        | Inr (Some a) \<Rightarrow> Some (Some a, set_replace_key
             ((if set_entry_is_deleted (set_table g ! unat a) then g\<lparr>s_deleted_entries := s_deleted_entries g - 1\<rparr> else g)
              \<lparr>set_table := (set_table g)[unat a := \<lparr>se_hash = h, se_key = k\<rparr>], s_entries := s_entries g + 1\<rparr>) a k)
        | Inr None \<Rightarrow> Some (None, g) }"
      using nr Some unfolding set_add_def set_search_or_add_def set_grow_def [symmetric] search_or_add_loop_sim
      unfolding Let_def add.commute [of _ 1]
      by (cases ?loop) (simp_all split: sum.split option.split)
    have R: "hash_table_insert alloc (as_table s) h k None = do {
       r \<leftarrow> ?loop;
       case r of
         Inl a \<Rightarrow> Some (Some a, put (as_table g) (unat a) ((ht_table (as_table g) ! unat a)\<lparr>he_key := k, he_data := None\<rparr>))
       | Inr (Some a) \<Rightarrow> Some (Some a,
           (put (if entry_is_deleted (as_table g) (ht_table (as_table g) ! unat a)
                 then (as_table g)\<lparr>deleted_entries := s_deleted_entries g - 1\<rparr> else as_table g)
              (unat a) \<lparr>he_hash = h, he_key = k, he_data = None\<rparr>)\<lparr>entries := s_entries g + 1\<rparr>)
       | Inr None \<Rightarrow> Some (None, as_table g) }"
      using nr g unfolding hash_table_insert_def grow_for_insert_def [symmetric]
      unfolding Let_def by (cases ?loop) (simp_all split: sum.split option.split)
    show ?thesis
    proof (cases ?loop)
      case None
      then show ?thesis unfolding L R by simp
    next
      case (Some r)
      from insert_loop_bound [OF this] have b: "\<And>x. r = Inl x \<Longrightarrow> unat x < length (set_table g)"
        "\<And>x. r = Inr (Some x) \<Longrightarrow> unat x < length (set_table g)" by (simp_all add: slot_in_def)
      show ?thesis
      proof (cases r)
        case (Inl a)
        then show ?thesis using b(1) Some unfolding L R
          by (simp add: set_replace_key_def map_update as_entry_def)
      next
        case (Inr o')
        then show ?thesis using b(2) Some unfolding L R
          by (cases o') (simp_all add: set_replace_key_def map_update)
      qed
    qed
  qed
qed

section \<open>The set as a provider of the map contract\<close>

definition set_ok :: "('k ptr \<Rightarrow> bool) \<Rightarrow> ('k ptr \<Rightarrow> u32) \<Rightarrow> ('k ptr \<Rightarrow> 'k ptr \<Rightarrow> bool) \<Rightarrow> 'k mesa_set \<Rightarrow> bool" where
  "set_ok D kh ke s \<longleftrightarrow> ht_ok Deleted_key_value D kh ke (as_table s)"

definition set_member :: "'k mesa_set \<Rightarrow> 'k ptr \<Rightarrow> bool" where
  "set_member s k \<longleftrightarrow> (\<exists>e \<in> set (set_table s). set_entry_is_present e \<and> s_key_equals_function s k (se_key e))"

definition set_count :: "'k mesa_set \<Rightarrow> nat" where
  "set_count s = length (filter set_entry_is_present (set_table s))"

definition set_contents :: "'k mesa_set \<Rightarrow> 'k ptr \<Rightarrow> unit option" where
  "set_contents s k = (if set_member s k then Some () else None)"

definition set_find :: "'k mesa_set \<Rightarrow> 'k ptr \<Rightarrow> unit option option" where
  "set_find s k = map_option (map_option (\<lambda>_. ())) (mesa_set_search s k)"

definition set_insert :: "(nat \<Rightarrow> bool) \<Rightarrow> 'k mesa_set \<Rightarrow> 'k ptr \<Rightarrow> unit \<Rightarrow> 'k mesa_set option" where
  "set_insert alloc s k u = do {
     (entry, s) \<leftarrow> mesa_set_add alloc s k;
     c_assert (entry \<noteq> None);
     Some s }"

lemma set_member_lookup: "set_member s k \<longleftrightarrow> ht_lookup (as_table s) k \<noteq> None"
  by (auto simp: set_member_def ht_lookup_def find_None_iff)

lemma set_count_present: "present_count (as_table s) = set_count s"
  by (simp add: present_count_def set_count_def filter_map comp_def)

lemma set_ok_length: "set_ok D kh ke s \<Longrightarrow> length (set_table s) = unat (s_size s)"
  using ht_wf_length [of "as_table s"] ht_coreD(1) [OF ht_okD(2)] unfolding set_ok_def by fastforce

lemma set_find_contents:
  assumes "set_ok D kh ke s" "D k"
  shows "set_find s k = Some (set_contents s k)"
proof -
  have "ht_find (as_table s) k = Some (ht_lookup (as_table s) k)"
    using assms unfolding set_ok_def by (rule ht_find_lookup)
  then show ?thesis
    by (auto simp: ht_find_def set_find_def mesa_set_search_sim set_contents_def set_member_lookup)
qed

lemma set_insert_sim:
  assumes "set_ok D kh ke s" "s_key_hash_function s = Some kh"
  shows "map_option as_table (set_insert alloc s k ()) = ht_add alloc (as_table s) k None"
proof -
  have E: "map_option (apsnd as_table) (mesa_set_add alloc s k) = mesa_hash_table_insert alloc (as_table s) k None"
    using set_add_sim [OF set_ok_length [OF assms(1)]] assms(2)
    by (simp add: mesa_set_add_def mesa_hash_table_insert_def)
  show ?thesis unfolding ht_add_def set_insert_def E [symmetric]
    by (cases "mesa_set_add alloc s k") (auto simp: c_assert_def)
qed

lemma set_ok_fields:
  assumes "set_ok D kh ke s"
  shows "s_key_hash_function s = Some kh" "s_key_equals_function s = ke"
  using ht_okD(4,5) [OF assms [unfolded set_ok_def]] by simp_all

lemma set_insert_correct:
  assumes ok: "set_ok D kh ke s" and "D k" "set_count s < 2 ^ 30"
  shows "\<exists>s'. set_insert (\<lambda>_. True) s k u = Some s' \<and> set_ok D kh ke s' \<and> set_count s' \<le> Suc (set_count s) \<and>
    (\<forall>k'. D k' \<longrightarrow> set_contents s' k' = (if ke k' k then Some u else set_contents s k'))"
proof -
  obtain t where t: "ht_add (\<lambda>_. True) (as_table s) k None = Some t" "ht_ok Deleted_key_value D kh ke t"
    "present_count t \<le> Suc (present_count (as_table s))"
    "\<forall>k'. D k' \<longrightarrow> ht_lookup t k' = (if ke k' k then Some None else ht_lookup (as_table s) k')"
    using ht_add_correct [OF ok [unfolded set_ok_def] \<open>D k\<close>] assms(3) unfolding set_count_present by blast
  then obtain s' where "set_insert (\<lambda>_. True) s k () = Some s'" "t = as_table s'"
    using set_insert_sim [OF ok set_ok_fields(1) [OF ok], of "\<lambda>_. True" k] by fastforce
  then show ?thesis using t
    by (intro exI [of _ s']) (simp add: set_ok_def set_count_present set_contents_def set_member_lookup)
qed

lemma set_is_map_table:
  assumes "callbacks_ok Deleted_key_value D kh ke"
  shows "map_table (set_ok D kh ke) D ke set_count (2 ^ 30) set_contents set_find (set_insert (\<lambda>_. True))"
proof
  note all = assms [unfolded callbacks_ok_def]
  note c = all [THEN conjunct2, THEN conjunct1] all [THEN conjunct2, THEN conjunct2, THEN conjunct1]
    all [THEN conjunct2, THEN conjunct2, THEN conjunct2]
  show "ke k k" if "D k" for k using c(1) that by blast
  show "ke k' k" if "D k" "D k'" "ke k k'" for k k' using c(2) that by blast
  show "ke x z" if "D x" "D y" "D z" "ke x y" "ke y z" for x y z using c(3) that by blast
  show "set_find t k = Some (set_contents t k)" if "set_ok D kh ke t" "D k" for t k
    using that by (rule set_find_contents)
  show "\<exists>t'. set_insert (\<lambda>_. True) t k v = Some t' \<and> set_ok D kh ke t' \<and> set_count t' \<le> Suc (set_count t) \<and>
      (\<forall>k'. D k' \<longrightarrow> set_contents t' k' = (if ke k' k then Some v else set_contents t k'))"
    if "set_ok D kh ke t" "D k" "set_count t < 2 ^ 30" for t k v
    using that by (rule set_insert_correct)
qed

interpretation u32_set: map_table "set_ok u32_key (key_u32_hash dkv) (key_u32_equals dkv)" u32_key "key_u32_equals dkv"
  set_count "2 ^ 30" set_contents set_find "set_insert (\<lambda>_. True)" for dkv
  by (rule set_is_map_table [OF u32_callbacks])

interpretation pointer_set: map_table "set_ok (pointer_key dkv) (mesa_hash_pointer dkv) mesa_key_pointer_equal"
  "pointer_key dkv" mesa_key_pointer_equal set_count "2 ^ 30" set_contents set_find "set_insert (\<lambda>_. True)" for dkv
  by (rule set_is_map_table [OF pointer_callbacks])

section \<open>Creation, removal, search-or-add\<close>

lemma set_init_sim:
  "mesa_hash_table_init alloc kh ke = (fst (mesa_set_init alloc kh ke), as_table (snd (mesa_set_init alloc kh ke)))"
  by (simp add: mesa_set_init_def mesa_hash_table_init_def Let_def set_hash_sizes_eq) (simp add: as_table_def)

lemma set_create_sim: "map_option as_table (mesa_set_create alloc kh ke) = mesa_hash_table_create alloc kh ke"
  unfolding mesa_set_create_def mesa_hash_table_create_def set_init_sim by (auto split: prod.split)

lemma set_create_ok:
  assumes "callbacks_ok Deleted_key_value D kh ke"
  obtains s where "mesa_set_create (\<lambda>_. True) (Some kh) ke = Some s" "set_ok D kh ke s" "set_count s = 0"
    "\<And>k. \<not> set_member s k"
proof -
  obtain t :: "('a, unit) hash_table" where t: "mesa_hash_table_create (\<lambda>_. True) (Some kh) ke = Some t"
    "ht_ok Deleted_key_value D kh ke t" "\<And>k. ht_lookup t k = None" "present_count t = 0"
    using create_ok [OF assms, of "\<lambda>_. True"] by auto
  then obtain s where "mesa_set_create (\<lambda>_. True) (Some kh) ke = Some s" "t = as_table s"
    using set_create_sim [of "\<lambda>_. True" "Some kh" ke] by fastforce
  then show thesis using t that by (simp add: set_ok_def set_count_present set_member_lookup)
qed

lemma set_remove_sim:
  assumes "s_key_hash_function s = Some kh" "set_ok D kh ke s" "D k"
  shows "map_option as_table (mesa_set_remove_key s k) = mesa_hash_table_remove_key (as_table s) k"
proof -
  have "as_table (mesa_set_remove s e) = mesa_hash_table_remove (as_table s) e" if "slot_in (as_table s) e" for e
    using that by (auto simp: mesa_set_remove_def mesa_hash_table_remove_def slot_in_def map_update split: option.split)
  moreover have "slot_in (as_table s) e" if "mesa_hash_table_search (as_table s) k = Some e" for e
  proof -
    note core = ht_okD(2) [OF assms(2) [unfolded set_ok_def]]
    show ?thesis
    proof (cases "\<exists>i. occurs_at (as_table s) k i")
      case True
      then obtain i where i: "occurs_at (as_table s) k i" by blast
      then have "i < length (ht_table (as_table s))" by (simp add: occurs_at_def)
      then show ?thesis using mesa_search_found [OF core \<open>D k\<close> i] that occurs_at_less_u32 [OF core] by (auto simp: slot_in_def)
    next
      case False
      then show ?thesis using mesa_search_missing [OF core \<open>D k\<close>] that by (auto simp: slot_in_def)
    qed
  qed
  ultimately show ?thesis unfolding mesa_set_remove_key_def mesa_hash_table_remove_key_def mesa_set_search_sim
    by (cases "mesa_hash_table_search (as_table s) k") simp_all
qed

lemma set_remove_correct:
  assumes ok: "set_ok D kh ke s" and "D k"
  shows "\<exists>s'. mesa_set_remove_key s k = Some s' \<and> set_ok D kh ke s' \<and>
    (\<forall>k'. D k' \<longrightarrow> set_member s' k' = (set_member s k' \<and> \<not> ke k' k))"
proof -
  note o = ht_okD [OF ok [unfolded set_ok_def]]
  obtain t' where t': "mesa_hash_table_remove_key (as_table s) k = Some t'" "ht_inv D t'"
      "\<And>k'. D k' \<Longrightarrow> ht_lookup t' k' = (if keq (as_table s) k' k then None else ht_lookup (as_table s) k')"
      and same: "key_hash_function t' = key_hash_function (as_table s)" "key_equals_function t' = key_equals_function (as_table s)"
      "present_count t' + deleted_count t' = present_count (as_table s) + deleted_count (as_table s)"
      "max_entries t' = max_entries (as_table s)" "deleted_key t' = deleted_key (as_table s)"
      using remove_key_correct [OF o(1) \<open>D k\<close>] by metis
  have ok': "ht_ok Deleted_key_value D kh ke t'" using t'(2) same o by (simp add: ht_ok_def ht_load_def)
  obtain s' where "mesa_set_remove_key s k = Some s'" "t' = as_table s'"
    using set_remove_sim [OF set_ok_fields(1) [OF ok] ok \<open>D k\<close>] t'(1) by fastforce
  then show ?thesis using ok' t'(3) o(5) by (intro exI [of _ s']) (simp add: set_ok_def set_member_lookup)
qed

text \<open>The search-or-add operations report whether the element was there and never replace a stored key.\<close>

lemma search_or_add_correct:
  assumes ok: "set_ok D kh ke s" and "D k" "set_count s < 2 ^ 30"
  shows "\<exists>a s'. mesa_set_search_or_add (\<lambda>_. True) s k = Some (Some a, Some (set_member s k), s') \<and>
    set_ok D kh ke s' \<and> set_count s' = set_count s + (if set_member s k then 0 else 1) \<and>
    (\<forall>k'. D k' \<longrightarrow> set_member s' k' = (ke k' k \<or> set_member s k'))"
proof -
  note o = ht_okD [OF ok [unfolded set_ok_def]] and sf = set_ok_fields [OF ok] and len = set_ok_length [OF ok]
  note kf = key_funsD [OF ht_coreD(2) [OF o(2)]]
  have al: "\<forall>n::nat. (\<lambda>_. True) n" by simp
  have small: "entries (as_table s) < max_entries (as_table s) \<or> size_index (as_table s) < 29"
    using max_size_index [OF ht_invD(2) [OF o(1)]] ht_invD(3) [OF o(1)] assms(3) unfolding set_count_present by simp
  obtain G where G: "grow_for_insert (\<lambda>_. True) (as_table s) = Some G" "ht_inv D G"
    "\<forall>k. D k \<longrightarrow> ht_lookup G k = ht_lookup (as_table s) k"
    "present_count G = present_count (as_table s)" "present_count G + deleted_count G < unat (max_entries G)"
    and same: "key_hash_function G = key_hash_function (as_table s)"
    "key_equals_function G = key_equals_function (as_table s)" "deleted_key G = deleted_key (as_table s)"
    using grow_correct [OF o(1,3) al small] .
  obtain g where g: "set_grow (\<lambda>_. True) s = Some g" "G = as_table g"
    using set_grow_sim [OF len, of "\<lambda>_. True"] G(1) by fastforce
  note I = ht_invD [OF G(2)]
  have kh: "khash G = kh" using same(1) sf(1) by simp
  have nr: "\<not> set_key_pointer_is_reserved k" using kf(1) [OF \<open>D k\<close>] by simp
  have gok: "ht_ok Deleted_key_value D kh ke G" using G(2,5) same o by (simp add: ht_ok_def ht_load_def)
  have run: "mesa_set_search_or_add (\<lambda>_. True) s k = do {
       r \<leftarrow> insert_probe G (kh k) k;
       case r of
         Inl a \<Rightarrow> Some (Some a, Some True, g)
       | Inr (Some a) \<Rightarrow> Some (Some a, Some False,
           (if set_entry_is_deleted (set_table g ! unat a) then g\<lparr>s_deleted_entries := s_deleted_entries g - 1\<rparr> else g)
              \<lparr>set_table := (set_table g)[unat a := \<lparr>se_hash = kh k, se_key = k\<rparr>], s_entries := s_entries g + 1\<rparr>)
       | Inr None \<Rightarrow> Some (None, None, g) }"
    using nr g(1) sf(1) unfolding mesa_set_search_or_add_def set_search_or_add_def set_grow_def [symmetric]
      search_or_add_loop_sim unfolding g(2) Let_def add.commute [of _ 1]
    by (cases "insert_probe (as_table g) (kh k) k") (simp_all split: sum.split option.split)
  show ?thesis
  proof (cases "\<exists>i. occurs_at G k i")
    case True
    then obtain i where occ: "occurs_at G k i" by blast
    have "mesa_set_search_or_add (\<lambda>_. True) s k = Some (Some (of_nat i), Some True, g)"
      unfolding run insert_probe_hit [OF I(1) \<open>D k\<close> occ, unfolded kh] by simp
    moreover have mem: "set_member s k" using True G(3) \<open>D k\<close> ht_lookup_None_iff [of G k] by (simp add: set_member_lookup)
    moreover have "set_member g k' = (ke k' k \<or> set_member s k')" if "D k'" for k'
      using G(3) that mem ht_lookup_cong [OF gok that \<open>D k\<close>] \<open>D k\<close> by (auto simp: set_member_lookup g(2))
    moreover have "set_count g = set_count s" using G(4) by (simp add: g(2) set_count_present)
    ultimately show ?thesis using gok by (auto simp: set_ok_def g(2))
  next
    case no: False
    obtain i where i: "insert_probe G (khash G k) k = Some (Inr (Some (of_nat i)))" "i < length (ht_table G)"
      "ht_inv D (with_new_entry G i k None)" "ht_load (with_new_entry G i k None)"
      "\<forall>k'. D k' \<longrightarrow> ht_lookup (with_new_entry G i k None) k' = (if keq G k' k then Some None else ht_lookup G k')"
      "present_count (with_new_entry G i k None) = Suc (present_count G)"
      using insert_probe_miss [OF G(2) \<open>D k\<close> no G(5)] .
    have ui: "unat (of_nat i :: u32) = i" using I(1) i(2) by (rule occurs_at_less_u32)
    define s' where "s' = (if set_entry_is_deleted (set_table g ! i) then g\<lparr>s_deleted_entries := s_deleted_entries g - 1\<rparr> else g)
              \<lparr>set_table := (set_table g)[i := \<lparr>se_hash = kh k, se_key = k\<rparr>], s_entries := s_entries g + 1\<rparr>"
    have "mesa_set_search_or_add (\<lambda>_. True) s k = Some (Some (of_nat i), Some False, s')"
      unfolding run i(1) [unfolded kh] using ui by (simp add: s'_def)
    moreover have s': "as_table s' = with_new_entry G i k None"
      using i(2) sf(1) kh unfolding with_new_entry_def s'_def kh g(2) by (auto simp: map_update)
    moreover have mem: "\<not> set_member s k" using no G(3) \<open>D k\<close> ht_lookup_None_iff [of G k] by (simp add: set_member_lookup)
    moreover have "set_member s' k' = (ke k' k \<or> set_member s k')" if "D k'" for k'
      using i(5) that G(3) same(2) o(5) by (simp add: set_member_lookup s')
    moreover have "set_count s' = Suc (set_count s)"
      using i(6) G(4) by (simp add: s' set_count_present [symmetric])
    moreover have "set_ok D kh ke s'"
      using i(3,4) same o unfolding set_ok_def s' by (simp add: ht_ok_def with_new_entry_def)
    ultimately show ?thesis by auto
  qed
qed

section \<open>Resizing, clearing, intersecting\<close>

lemma set_resize_correct:
  assumes ok: "set_ok D kh ke s" and n: "unat n \<le> 2 ^ 30" "set_count s \<le> 2 ^ 30"
  shows "\<exists>s'. mesa_set_resize (\<lambda>_. True) s n = Some s' \<and> set_ok D kh ke s' \<and> set_count s' = set_count s \<and>
    unat n \<le> unat (s_max_entries s') \<and> (\<forall>k. D k \<longrightarrow> set_member s' k = set_member s k)"
proof -
  note o = ht_okD [OF ok [unfolded set_ok_def]]
  have ent: "unat (s_entries s) = set_count s" using ht_invD(3) [OF o(1)] by (simp add: set_count_present)
  define N where "N = (if s_entries s > n then s_entries s else n)"
  have N: "unat n \<le> unat N" "set_count s \<le> unat N" "unat N \<le> 2 ^ 30"
    using n ent by (auto simp: N_def word_less_nat_alt)
  have len: "length hash_sizes = 31" by simp
  have m29: "hs_max_entries (hash_sizes ! 29) = 1073741824" by (simp add: hash_sizes_def ENTRY_def)
  have ex: "\<exists>i < 31. \<not> hs_max_entries (hash_sizes ! i) < N"
    using N(3) by (intro exI [of _ 29]) (simp add: m29 word_less_nat_alt)
  obtain i where i: "find (\<lambda>i. \<not> hs_max_entries (hash_sizes ! i) < N) [0..<31] = Some i" "i < 31"
    "\<not> hs_max_entries (hash_sizes ! i) < N" "\<And>j. j < i \<Longrightarrow> \<not> \<not> hs_max_entries (hash_sizes ! j) < N"
    using find_upt_least [OF ex] by blast
  have i30: "i < 30" using i(4) [of 29] N(3) by (cases "29 < i") (auto simp: m29 word_less_nat_alt)
  have ui: "unat (of_nat i :: u32) = i" using i30 by (simp add: unat_of_nat)
  have fits: "unat (of_nat i :: u32) < 30" "present_count (as_table s) \<le> unat (hs_max_entries (hash_sizes ! unat (of_nat i :: u32)))"
    using i30 i(3) N(2) by (simp_all add: ui set_count_present word_less_nat_alt)
  have al: "\<forall>n::nat. (\<lambda>_. True) n" by simp
  obtain t where t: "mesa_hash_table_rehash (\<lambda>_. True) (as_table s) (of_nat i) = Some t" "ht_inv D t"
    "\<forall>k. D k \<longrightarrow> ht_lookup t k = ht_lookup (as_table s) k"
    "present_count t = present_count (as_table s)" "deleted_count t = 0"
    "max_entries t = hs_max_entries (hash_sizes ! unat (of_nat i :: u32))" "size_index t = of_nat i"
    "key_hash_function t = key_hash_function (as_table s)" "key_equals_function t = key_equals_function (as_table s)"
    "deleted_key t = deleted_key (as_table s)"
    using rehash_correct [OF o(1) fits o(3) al] .
  obtain s' where s': "set_rehash (\<lambda>_. True) s (of_nat i) = Some s'" "t = as_table s'"
    using set_rehash_sim [OF set_ok_length [OF ok], of "\<lambda>_. True" "of_nat i"] t(1) by fastforce
  have "mesa_set_resize (\<lambda>_. True) s n = Some s'"
    using i(1) s'(1) by (simp add: mesa_set_resize_def set_hash_sizes_eq N_def [symmetric])
  moreover have "ht_ok Deleted_key_value D kh ke t"
    using t fits(2) o by (simp add: ht_ok_def ht_load_def)
  moreover have "unat n \<le> unat (s_max_entries s')" using t(6) N(1) i(3) by (simp add: s'(2) ui word_less_nat_alt)
  ultimately show ?thesis using t(3,4)
    by (intro exI [of _ s']) (simp add: s'(2) set_ok_def set_member_lookup set_count_present [symmetric])
qed

lemma set_clear_sim:
  "as_table (fst (mesa_set_clear s None u)) = fst (mesa_hash_table_clear (as_table s) None u')"
  "as_table (fst (mesa_set_clear s (Some del) u)) = fst (mesa_hash_table_clear (as_table s) (Some del') u')"
  by (simp_all add: mesa_set_clear_def mesa_hash_table_clear_def set_clear_fast_sim comp_def)

lemma set_present_member:
  assumes ok: "set_ok D kh ke s" and "e \<in> set (set_table s)" "set_entry_is_present e"
  shows "D (se_key e)" "se_hash e = kh (se_key e)" "set_member s (se_key e)"
proof -
  note o = ht_okD [OF ok [unfolded set_ok_def]]
  obtain i where i: "i < length (set_table s)" "set_table s ! i = e" using assms(2) by (auto simp: in_set_conv_nth)
  show D: "D (se_key e)" and "se_hash e = kh (se_key e)"
    using ht_coreD(3,4) [OF o(2), of i] i assms(3) set_ok_fields [OF ok] by simp_all
  show "set_member s (se_key e)"
    using assms(2,3) key_funsD(2) [OF ht_coreD(2) [OF o(2)] D] by (auto simp: set_member_def)
qed

lemma set_intersects_loop_correct:
  assumes "set_ok D kh ke b" "\<forall>e \<in> set es. D (se_key e) \<and> se_hash e = kh (se_key e)"
  shows "set_intersects_loop b es = Some (\<exists>e \<in> set es. set_member b (se_key e))"
  using assms(2)
proof (induction es)
  case (Cons e es)
  have "mesa_set_search_pre_hashed b (se_hash e) (se_key e) = mesa_set_search b (se_key e)"
    using Cons.prems set_ok_fields [OF assms(1)] by (simp add: mesa_set_search_pre_hashed_def mesa_set_search_def)
  moreover have "set_find b (se_key e) = Some (set_contents b (se_key e))"
    using set_find_contents [OF assms(1)] Cons.prems by simp
  ultimately show ?case using Cons
    by (auto simp: set_find_def set_contents_def split: if_splits)
qed simp

lemma set_intersects_correct:
  assumes a: "set_ok D kh ke a" and b: "set_ok D kh ke b"
  shows "mesa_set_intersects a b = Some (\<exists>k. D k \<and> set_member a k \<and> set_member b k)"
proof -
  have one: "set_intersects_loop b (set_foreach a) = Some (\<exists>k. D k \<and> set_member a k \<and> set_member b k)"
    if a: "set_ok D kh ke a" and b: "set_ok D kh ke b" for a b
  proof -
    note pm = set_present_member [OF a]
    have es: "\<forall>e \<in> set (set_foreach a). D (se_key e) \<and> se_hash e = kh (se_key e)"
      using pm(1,2) by (simp add: set_foreach_filter [OF set_ok_length [OF a]])
    have "set_member b (se_key e)" if "D k" "set_member b k" "e \<in> set (set_table a)" "set_entry_is_present e" "ke k (se_key e)" for k e
      using ht_lookup_cong [OF b [unfolded set_ok_def] that(1) pm(1) [OF that(3,4)] that(5)] that(2)
      by (simp add: set_member_lookup)
    then have "(\<exists>e \<in> set (set_foreach a). set_member b (se_key e)) \<longleftrightarrow> (\<exists>k. D k \<and> set_member a k \<and> set_member b k)"
      using pm(1,3) set_ok_fields(2) [OF a] unfolding set_foreach_filter [OF set_ok_length [OF a]] set_filter
      by (fastforce simp: set_member_def [of a])
    then show ?thesis using set_intersects_loop_correct [OF b es] by simp
  qed
  show ?thesis using one [OF a b] one [OF b a] by (auto simp: mesa_set_intersects_def)
qed

end
