(* ===== verification/Table_Runs.thy ===== *)
theory Table_Runs
  imports Hash_Table_U64 Set_Correct
begin

text \<open>
  Sequences of calls. A client creates a table and then calls its operations in any order; the
  theory shows that the concrete table then answers like the abstract map (or set) that the same
  operations build. \<open>op_refinement\<close> is the contract of one step, its lemma \<open>run_refines\<close> the
  statement for sequences; the hash table, the set and the 64-bit wrapper interpret it.
\<close>

section \<open>The contract\<close>

fun run :: "('op \<Rightarrow> 's \<Rightarrow> 's option) \<Rightarrow> 'op list \<Rightarrow> 's \<Rightarrow> 's option" where
  "run step [] s = Some s"
| "run step (x # xs) s = do { s \<leftarrow> step x s; run step xs s }"

locale op_refinement =
  fixes step :: "'op \<Rightarrow> 's \<Rightarrow> 's option"
    and op_ok :: "'op \<Rightarrow> bool"
    and spec :: "'op \<Rightarrow> 'a \<Rightarrow> 'a"
    and rel :: "'s \<Rightarrow> 'a \<Rightarrow> bool"
    and used :: "'s \<Rightarrow> nat"
    and capacity :: nat
  assumes step_refines: "rel s a \<Longrightarrow> op_ok x \<Longrightarrow> used s < capacity \<Longrightarrow>
    \<exists>s'. step x s = Some s' \<and> rel s' (spec x a) \<and> used s' \<le> Suc (used s)"
begin

lemma run_refines:
  assumes "rel s a" "list_all op_ok xs" "used s + length xs \<le> capacity"
  shows "\<exists>s'. run step xs s = Some s' \<and> rel s' (fold spec xs a) \<and> used s' \<le> used s + length xs"
  using assms
proof (induction xs arbitrary: s a)
  case (Cons x xs)
  then obtain s' where s': "step x s = Some s'" "rel s' (spec x a)" "used s' \<le> Suc (used s)"
    using step_refines [of s a x] by auto
  then obtain s'' where "run step xs s' = Some s''" "rel s'' (fold spec xs (spec x a))" "used s'' \<le> used s' + length xs"
    using Cons.IH [of s' "spec x a"] Cons.prems by auto
  then show ?case using s' by simp
qed simp

end

section \<open>Hash table\<close>

datatype ('k, 'd) table_op = Insert "'k ptr" "'d option" | Remove "'k ptr" | Clear | Reserve u32

fun table_step :: "('k, 'd) table_op \<Rightarrow> ('k, 'd) hash_table \<Rightarrow> ('k, 'd) hash_table option" where
  "table_step (Insert k d) ht = ht_add (\<lambda>_. True) ht k d"
| "table_step (Remove k) ht = mesa_hash_table_remove_key ht k"
| "table_step Clear ht = Some (fst (mesa_hash_table_clear ht None ()))"
| "table_step (Reserve n) ht = do {
     (ok, ht) \<leftarrow> mesa_hash_table_reserve (\<lambda>_. True) ht n;
     c_assert ok;
     Some ht }"

text \<open>The same operations on a map from keys, where \<open>ke\<close> identifies equal keys.\<close>

fun map_step ::
  "('k ptr \<Rightarrow> 'k ptr \<Rightarrow> bool) \<Rightarrow> ('k, 'd) table_op \<Rightarrow> ('k ptr \<Rightarrow> 'd option option) \<Rightarrow> 'k ptr \<Rightarrow> 'd option option" where
  "map_step ke (Insert k d) m = (\<lambda>k'. if ke k' k then Some d else m k')"
| "map_step ke (Remove k) m = (\<lambda>k'. if ke k' k then None else m k')"
| "map_step ke Clear m = (\<lambda>_. None)"
| "map_step ke (Reserve n) m = m"

fun op_ok :: "('k ptr \<Rightarrow> bool) \<Rightarrow> ('k, 'd) table_op \<Rightarrow> bool" where
  "op_ok D (Insert k d) = D k"
| "op_ok D (Remove k) = D k"
| "op_ok D Clear = True"
| "op_ok D (Reserve n) = (n < 2 ^ 30)"

definition table_rel :: "'k ptr \<Rightarrow> ('k ptr \<Rightarrow> bool) \<Rightarrow> ('k ptr \<Rightarrow> u32) \<Rightarrow> ('k ptr \<Rightarrow> 'k ptr \<Rightarrow> bool) \<Rightarrow>
    ('k, 'd) hash_table \<Rightarrow> ('k ptr \<Rightarrow> 'd option option) \<Rightarrow> bool" where
  "table_rel dk D kh ke ht m \<longleftrightarrow> ht_ok dk D kh ke ht \<and> (\<forall>k. D k \<longrightarrow> ht_lookup ht k = m k)"

lemma remove_count:
  assumes inv: "ht_inv D ht" and "D k" "mesa_hash_table_remove_key ht k = Some ht'"
  shows "present_count ht' \<le> present_count ht"
proof (cases "\<exists>i. occurs_at ht k i")
  case True
  then obtain i where occ: "occurs_at ht k i" by blast
  have core: "ht_core D ht" using inv by (simp add: ht_inv_def)
  let ?e = "(ht_table ht ! i)\<lparr>he_key := deleted_key ht\<rparr>"
  have "ht' = (put ht i ?e)\<lparr>entries := entries ht - 1, deleted_entries := deleted_entries ht + 1\<rparr>"
    using remove_key_found [OF core \<open>D k\<close> occ] assms(3) by simp
  moreover have "i < length (ht_table ht)" using occ by (simp add: occurs_at_def)
  moreover have "\<not> entry_is_present ht ?e" by (simp add: entry_is_present_def)
  ultimately show ?thesis using present_count_put [of i ht ?e] by simp
next
  case False
  then show ?thesis using remove_key_missing [of D ht k] assms by (auto simp: ht_inv_def)
qed

lemma clear_count:
  assumes ok: "ht_ok dk D kh ke ht"
  shows "present_count (fst (mesa_hash_table_clear ht None u)) = 0"
proof -
  let ?c = "fst (mesa_hash_table_clear ht None u)"
  have "ht_lookup ?c k = None" for k using clear_ok(2) [OF ok] .
  then have no: "\<not> occurs_at ?c k i" for k i by (auto simp: ht_lookup_None_iff)
  note core = ht_okD(2) [OF clear_ok(1) [OF ok, of None u]]
  have "\<not> entry_is_present ?c (ht_table ?c ! i)" if "i < length (ht_table ?c)" for i
    using no [of "he_key (ht_table ?c ! i)" i] that ht_coreD(3) [OF core that]
      key_funsD(2) [OF ht_coreD(2) [OF core]] by (auto simp: occurs_at_def)
  then show ?thesis by (auto simp: present_count_def filter_empty_conv in_set_conv_nth)
qed

text \<open>Reserving room keeps the contents and reports success.\<close>

lemma reserve_correct:
  assumes ok: "ht_ok dk D kh ke ht" and n: "n < 2 ^ 30"
  shows "\<exists>ht'. mesa_hash_table_reserve (\<lambda>_. True) ht n = Some (True, ht') \<and> ht_ok dk D kh ke ht' \<and>
    n \<le> max_entries ht' \<and> present_count ht' = present_count ht \<and> (\<forall>k. D k \<longrightarrow> ht_lookup ht' k = ht_lookup ht k)"
proof (cases "n < max_entries ht")
  case True
  then show ?thesis using ok by (simp add: mesa_hash_table_reserve_def)
next
  case False
  note o = ht_okD [OF ok] and wf = ht_coreD(1) [OF ht_okD(2) [OF ok]]
  have m29: "hs_max_entries (hash_sizes ! 29) = 2 ^ 30" by (simp add: hash_sizes_def ENTRY_def)
  have idx: "unat (size_index ht) < 30" "max_entries ht = hs_max_entries (hash_sizes ! unat (size_index ht))"
    using wf by (simp_all add: ht_wf_def)
  have "unat (size_index ht) \<noteq> 29" using False n idx(2) m29 by auto
  then have s: "unat (size_index ht + 1) = Suc (unat (size_index ht))" "unat (size_index ht) < 29"
    using idx(1) by (simp_all add: unat_succ)
  let ?P = "\<lambda>i. hs_max_entries (hash_sizes ! i) \<ge> n"
  have "?P 29" "29 \<in> set [unat (size_index ht + 1)..<31]" using s n m29 by (simp_all add: less_imp_le)
  then have "find ?P [unat (size_index ht + 1)..<31] \<noteq> None" unfolding find_None_iff by blast
  then obtain i where fi: "find ?P [unat (size_index ht + 1)..<31] = Some i" by blast
  then obtain j where j: "j < 31 - Suc (unat (size_index ht))" "i = Suc (unat (size_index ht)) + j" "?P i"
    "\<forall>l < j. \<not> ?P (Suc (unat (size_index ht)) + l)"
    using s by (auto simp: find_Some_iff)
  have i30: "i < 30"
  proof (rule ccontr)
    assume "\<not> i < 30"
    then have "28 - unat (size_index ht) < j" using j(2) s(2) by simp
    then have "\<not> ?P (Suc (unat (size_index ht)) + (28 - unat (size_index ht)))" using j(4) by blast
    then show False using s(2) m29 n by (simp add: not_le)
  qed
  have ui: "unat (of_nat i :: u32) = i" using i30 by (simp add: unat_of_nat)
  have le: "present_count ht \<le> unat (hs_max_entries (hash_sizes ! unat (of_nat i :: u32)))"
  proof -
    have "present_count ht \<le> unat (max_entries ht)" using o(3) by (simp add: ht_load_def)
    also have "\<dots> \<le> unat n" using False by (simp add: word_le_nat_alt not_less)
    also have "\<dots> \<le> unat (hs_max_entries (hash_sizes ! i))" using j(3) by (simp add: word_le_nat_alt)
    finally show ?thesis by (simp add: ui)
  qed
  have al: "\<forall>n::nat. (\<lambda>_. True) n" by simp
  have u30: "unat (of_nat i :: u32) < 30" using ui i30 by simp
  obtain t where t: "mesa_hash_table_rehash (\<lambda>_. True) ht (of_nat i) = Some t" "ht_inv D t"
    "\<forall>k. D k \<longrightarrow> ht_lookup t k = ht_lookup ht k"
    "present_count t = present_count ht" "deleted_count t = 0"
    "max_entries t = hs_max_entries (hash_sizes ! unat (of_nat i :: u32))" "size_index t = of_nat i"
    "key_hash_function t = key_hash_function ht" "key_equals_function t = key_equals_function ht"
    "deleted_key t = deleted_key ht"
    using rehash_correct [OF o(1) u30 le o(3) al] .
  have "n \<le> max_entries t" using t(6) j(3) ui by simp
  moreover have "ht_ok dk D kh ke t" using t le o by (simp add: ht_ok_def ht_load_def)
  moreover have "mesa_hash_table_reserve (\<lambda>_. True) ht n = Some (True, t)"
    using False fi t(1) \<open>n \<le> max_entries t\<close> by (simp add: mesa_hash_table_reserve_def)
  ultimately show ?thesis using t(3,4) by auto
qed

lemma table_step_refines:
  assumes "table_rel dk D kh ke ht m" "op_ok D x" "present_count ht < 2 ^ 30"
  shows "\<exists>ht'. table_step x ht = Some ht' \<and> table_rel dk D kh ke ht' (map_step ke x m) \<and>
    present_count ht' \<le> Suc (present_count ht)"
proof -
  have ok: "ht_ok dk D kh ke ht" and look: "\<And>k. D k \<Longrightarrow> ht_lookup ht k = m k"
    using assms(1) by (simp_all add: table_rel_def)
  note o = ht_okD [OF ok]
  show ?thesis
  proof (cases x)
    case (Insert k d)
    then show ?thesis using ht_add_correct [OF ok, of k d] assms(2,3) look by (auto simp: table_rel_def)
  next
    case (Remove k)
    then have "D k" using assms(2) by simp
    obtain t where t: "mesa_hash_table_remove_key ht k = Some t" "ht_inv D t"
      "\<And>k'. D k' \<Longrightarrow> ht_lookup t k' = (if keq ht k' k then None else ht_lookup ht k')"
      and same: "key_hash_function t = key_hash_function ht" "key_equals_function t = key_equals_function ht"
      "present_count t + deleted_count t = present_count ht + deleted_count ht"
      "max_entries t = max_entries ht" "deleted_key t = deleted_key ht"
      using remove_key_correct [OF o(1) \<open>D k\<close>] by metis
    have "ht_ok dk D kh ke t" using t(2) same o by (simp add: ht_ok_def ht_load_def)
    then show ?thesis using Remove t(1,3) look o(5) remove_count [OF o(1) \<open>D k\<close> t(1)] by (auto simp: table_rel_def)
  next
    case Clear
    then show ?thesis using clear_ok [OF ok, of None "()"] clear_count [OF ok, of "()"] by (simp add: table_rel_def)
  next
    case (Reserve n)
    then show ?thesis using reserve_correct [OF ok, of n] assms(2) look by (auto simp: table_rel_def)
  qed
qed

text \<open>From creation on, for any callbacks that fit together.\<close>

lemma table_runs:
  fixes ops :: "('k, 'd) table_op list"
  assumes cb: "callbacks_ok Deleted_key_value D kh ke" and ops: "list_all (op_ok D) ops" "length ops \<le> 2 ^ 30"
  shows "\<exists>ht. Option.bind (mesa_hash_table_create (\<lambda>_. True) (Some kh) ke) (run table_step ops) = Some ht \<and>
    table_rel Deleted_key_value D kh ke ht (fold (map_step ke) ops (\<lambda>_. None))"
proof -
  have al: "\<forall>n::nat. (\<lambda>_. True) n" by simp
  obtain t :: "('k, 'd) hash_table" where t: "mesa_hash_table_create (\<lambda>_. True) (Some kh) ke = Some t"
    "ht_ok Deleted_key_value D kh ke t" "\<And>k. ht_lookup t k = None" "present_count t = 0"
    using create_ok [OF cb al] by blast
  have R: "op_refinement table_step (op_ok D) (map_step ke) (table_rel Deleted_key_value D kh ke) present_count (2 ^ 30)"
    by unfold_locales (rule table_step_refines)
  have "table_rel Deleted_key_value D kh ke t (\<lambda>_. None)" using t by (simp add: table_rel_def)
  then show ?thesis using op_refinement.run_refines [OF R, of t "\<lambda>_. None" ops] ops t(1,4) by auto
qed

text \<open>What the iteration of a valid table visits.\<close>

lemma distinct_filter_keys:
  assumes "inj_on (\<lambda>i. f (xs ! i)) {i. i < length xs \<and> P (xs ! i)}"
  shows "distinct (map f (filter P xs))"
  using assms
proof (induction xs)
  case (Cons x xs)
  have ij: "Suc i = Suc j" if "i < length xs" "P (xs ! i)" "j < length xs" "P (xs ! j)" "f (xs ! i) = f (xs ! j)" for i j
    using inj_onD [OF Cons.prems, of "Suc i" "Suc j"] that by simp
  have "f x \<noteq> f (xs ! i)" if "P x" "i < length xs" "P (xs ! i)" for i
    using inj_onD [OF Cons.prems, of 0 "Suc i"] that by auto
  moreover have "distinct (map f (filter P xs))" using ij by (intro Cons.IH inj_onI) simp
  ultimately show ?case by (auto simp: in_set_conv_nth)
qed simp

lemma foreach_contents:
  assumes ok: "ht_ok dk D kh ke ht"
  shows "distinct (map he_key (hash_table_foreach ht))" "length (hash_table_foreach ht) = unat (entries ht)"
    "e \<in> set (hash_table_foreach ht) \<Longrightarrow> D (he_key e) \<and> ht_lookup ht (he_key e) = Some (he_data e)"
    "D k \<Longrightarrow> ht_lookup ht k = Some d \<Longrightarrow> \<exists>e \<in> set (hash_table_foreach ht). ke k (he_key e) \<and> he_data e = d"
proof -
  note o = ht_okD [OF ok] and core = ht_okD(2) [OF ok]
  note kf = key_funsD [OF ht_coreD(2) [OF core]]
  have ff: "hash_table_foreach ht = filter (entry_is_present ht) (ht_table ht)"
    by (rule foreach_filter) (rule ht_wf_length [OF ht_coreD(1) [OF core]])
  show "length (hash_table_foreach ht) = unat (entries ht)"
    using ht_invD(3) [OF o(1)] by (simp add: ff present_count_def)
  have D: "D (he_key (ht_table ht ! i))" "occurs_at ht (he_key (ht_table ht ! i)) i"
    if "i < length (ht_table ht)" "entry_is_present ht (ht_table ht ! i)" for i
    using that ht_coreD(3) [OF core that] kf(2) by (auto simp: occurs_at_def)
  show "D (he_key e) \<and> ht_lookup ht (he_key e) = Some (he_data e)" if "e \<in> set (hash_table_foreach ht)"
    using that D ht_lookup_Some_iff [OF core] by (fastforce simp: ff in_set_conv_nth)
  show "\<exists>e \<in> set (hash_table_foreach ht). ke k (he_key e) \<and> he_data e = d" if k: "D k" "ht_lookup ht k = Some d"
  proof -
    obtain i where "occurs_at ht k i" "he_data (ht_table ht ! i) = d" using ht_lookup_Some_iff [OF core k(1)] k(2) by blast
    then show ?thesis using o(5) by (auto simp: ff occurs_at_def intro!: exI [of _ "ht_table ht ! i"])
  qed
  have "inj_on (\<lambda>i. he_key (ht_table ht ! i)) {i. i < length (ht_table ht) \<and> entry_is_present ht (ht_table ht ! i)}"
  proof (rule inj_onI, clarify)
    fix i j assume ij: "i < length (ht_table ht)" "entry_is_present ht (ht_table ht ! i)"
      "j < length (ht_table ht)" "entry_is_present ht (ht_table ht ! j)" "he_key (ht_table ht ! i) = he_key (ht_table ht ! j)"
    show "i = j" using occurs_unique [OF core, of "he_key (ht_table ht ! i)" i j] D [OF ij(1,2)] D [OF ij(3,4)] ij(5) by simp
  qed
  then show "distinct (map he_key (hash_table_foreach ht))" unfolding ff by (rule distinct_filter_keys)
qed

interpretation u32_runs: op_refinement table_step "op_ok u32_key" "map_step (key_u32_equals dkv)"
  "table_rel Deleted_key_value u32_key (key_u32_hash dkv) (key_u32_equals dkv)" present_count "2 ^ 30" for dkv
  by unfold_locales (rule table_step_refines)

interpretation pointer_runs: op_refinement table_step "op_ok (pointer_key dkv)" "map_step mesa_key_pointer_equal"
  "table_rel Deleted_key_value (pointer_key dkv) (mesa_hash_pointer dkv) mesa_key_pointer_equal" present_count "2 ^ 30" for dkv
  by unfold_locales (rule table_step_refines)

section \<open>Set\<close>

datatype 'k set_op = Set_add "'k ptr" | Set_search_or_add "'k ptr" | Set_remove "'k ptr" | Set_clear | Set_resize u32

fun set_step :: "'k set_op \<Rightarrow> 'k mesa_set \<Rightarrow> 'k mesa_set option" where
  "set_step (Set_add k) s = set_insert (\<lambda>_. True) s k ()"
| "set_step (Set_search_or_add k) s = do {
     (entry, found, s) \<leftarrow> mesa_set_search_or_add (\<lambda>_. True) s k;
     c_assert (entry \<noteq> None);
     Some s }"
| "set_step (Set_remove k) s = mesa_set_remove_key s k"
| "set_step Set_clear s = Some (fst (mesa_set_clear s None ()))"
| "set_step (Set_resize n) s = mesa_set_resize (\<lambda>_. True) s n"

fun member_step :: "('k ptr \<Rightarrow> 'k ptr \<Rightarrow> bool) \<Rightarrow> 'k set_op \<Rightarrow> ('k ptr \<Rightarrow> bool) \<Rightarrow> 'k ptr \<Rightarrow> bool" where
  "member_step ke (Set_add k) M = (\<lambda>k'. ke k' k \<or> M k')"
| "member_step ke (Set_search_or_add k) M = (\<lambda>k'. ke k' k \<or> M k')"
| "member_step ke (Set_remove k) M = (\<lambda>k'. M k' \<and> \<not> ke k' k)"
| "member_step ke Set_clear M = (\<lambda>_. False)"
| "member_step ke (Set_resize n) M = M"

fun set_op_ok :: "('k ptr \<Rightarrow> bool) \<Rightarrow> 'k set_op \<Rightarrow> bool" where
  "set_op_ok D (Set_add k) = D k"
| "set_op_ok D (Set_search_or_add k) = D k"
| "set_op_ok D (Set_remove k) = D k"
| "set_op_ok D Set_clear = True"
| "set_op_ok D (Set_resize n) = (unat n \<le> 2 ^ 30)"

definition set_rel :: "('k ptr \<Rightarrow> bool) \<Rightarrow> ('k ptr \<Rightarrow> u32) \<Rightarrow> ('k ptr \<Rightarrow> 'k ptr \<Rightarrow> bool) \<Rightarrow>
    'k mesa_set \<Rightarrow> ('k ptr \<Rightarrow> bool) \<Rightarrow> bool" where
  "set_rel D kh ke s M \<longleftrightarrow> set_ok D kh ke s \<and> (\<forall>k. D k \<longrightarrow> set_member s k = M k)"

lemma set_remove_count:
  assumes ok: "set_ok D kh ke s" and "D k" "mesa_set_remove_key s k = Some s'"
  shows "set_count s' \<le> set_count s"
proof -
  have "mesa_hash_table_remove_key (as_table s) k = Some (as_table s')"
    using set_remove_sim [OF set_ok_fields(1) [OF ok] ok \<open>D k\<close>] assms(3) by simp
  then show ?thesis
    using remove_count [OF ht_okD(1) [OF ok [unfolded set_ok_def]] \<open>D k\<close>] by (simp add: set_count_present [symmetric])
qed

lemma set_step_refines:
  assumes "set_rel D kh ke s M" "set_op_ok D x" "set_count s < 2 ^ 30"
  shows "\<exists>s'. set_step x s = Some s' \<and> set_rel D kh ke s' (member_step ke x M) \<and> set_count s' \<le> Suc (set_count s)"
proof -
  have ok: "set_ok D kh ke s" and mem: "\<And>k. D k \<Longrightarrow> set_member s k = M k"
    using assms(1) by (simp_all add: set_rel_def)
  show ?thesis
  proof (cases x)
    case (Set_add k)
    then obtain s' where "set_insert (\<lambda>_. True) s k () = Some s'" "set_ok D kh ke s'" "set_count s' \<le> Suc (set_count s)"
      "\<forall>k'. D k' \<longrightarrow> set_contents s' k' = (if ke k' k then Some () else set_contents s k')"
      using set_insert_correct [OF ok, of k "()"] assms(2,3) by auto
    then show ?thesis using Set_add mem by (auto simp: set_rel_def set_contents_def split: if_splits)
  next
    case (Set_search_or_add k)
    then show ?thesis using search_or_add_correct [OF ok, of k] assms(2,3) mem by (auto simp: set_rel_def)
  next
    case (Set_remove k)
    then have "D k" using assms(2) by simp
    obtain s' where "mesa_set_remove_key s k = Some s'" "set_ok D kh ke s'"
      "\<forall>k'. D k' \<longrightarrow> set_member s' k' = (set_member s k' \<and> \<not> ke k' k)"
      using set_remove_correct [OF ok \<open>D k\<close>] by blast
    then show ?thesis using Set_remove mem set_remove_count [OF ok \<open>D k\<close>, of s'] by (auto simp: set_rel_def)
  next
    case Set_clear
    let ?c = "fst (mesa_set_clear s None ())"
    note k = ok [unfolded set_ok_def]
    have "set_ok D kh ke ?c" "set_count ?c = 0" "\<not> set_member ?c k" for k
      unfolding set_ok_def set_count_present [symmetric] set_member_lookup set_clear_sim(1) [where u' = "()"]
      using clear_ok [OF k, of None "()"] clear_count [OF k, of "()"] by simp_all
    then show ?thesis using Set_clear by (simp add: set_rel_def)
  next
    case (Set_resize n)
    then show ?thesis using set_resize_correct [OF ok, of n] assms(2,3) mem by (auto simp: set_rel_def)
  qed
qed

lemma set_runs:
  fixes ops :: "'k set_op list"
  assumes cb: "callbacks_ok Deleted_key_value D kh ke" and ops: "list_all (set_op_ok D) ops" "length ops \<le> 2 ^ 30"
  shows "\<exists>s. Option.bind (mesa_set_create (\<lambda>_. True) (Some kh) ke) (run set_step ops) = Some s \<and>
    set_rel D kh ke s (fold (member_step ke) ops (\<lambda>_. False))"
proof -
  obtain s where s: "mesa_set_create (\<lambda>_. True) (Some kh) ke = Some s" "set_ok D kh ke s" "set_count s = 0" "\<And>k. \<not> set_member s k"
    using set_create_ok [OF cb] by blast
  have R: "op_refinement set_step (set_op_ok D) (member_step ke) (set_rel D kh ke) set_count (2 ^ 30)"
    by unfold_locales (rule set_step_refines)
  have "set_rel D kh ke s (\<lambda>_. False)" using s by (simp add: set_rel_def)
  then show ?thesis using op_refinement.run_refines [OF R, of s "\<lambda>_. False" ops] ops s(1,3) by auto
qed

lemma set_search_member:
  assumes "set_ok D kh ke s" "D k"
  shows "map_option (\<lambda>e. e \<noteq> None) (mesa_set_search s k) = Some (set_member s k)"
  using set_find_contents [OF assms] by (cases "mesa_set_search s k") (auto simp: set_find_def set_contents_def split: option.splits if_splits)

interpretation u32_set_runs: op_refinement set_step "set_op_ok u32_key" "member_step (key_u32_equals dkv)"
  "set_rel u32_key (key_u32_hash dkv) (key_u32_equals dkv)" set_count "2 ^ 30" for dkv
  by unfold_locales (rule set_step_refines)

interpretation pointer_set_runs: op_refinement set_step "set_op_ok (pointer_key dkv)" "member_step mesa_key_pointer_equal"
  "set_rel (pointer_key dkv) (mesa_hash_pointer dkv) mesa_key_pointer_equal" set_count "2 ^ 30" for dkv
  by unfold_locales (rule set_step_refines)

section \<open>64-bit keys\<close>

datatype 'd u64_op = U64_insert u64 "'d option" | U64_remove u64 | U64_clear

fun u64_step :: "'d u64_op \<Rightarrow> 'd hash_table_u64 \<Rightarrow> 'd hash_table_u64 option" where
  "u64_step (U64_insert key d) ht = mesa_hash_table_u64_insert (\<lambda>_. True) ht key d"
| "u64_step (U64_remove key) ht = mesa_hash_table_u64_remove ht key"
| "u64_step U64_clear ht = mesa_hash_table_u64_clear (Some ht)"

fun u64_map_step :: "'d u64_op \<Rightarrow> (u64 \<Rightarrow> 'd option) \<Rightarrow> u64 \<Rightarrow> 'd option" where
  "u64_map_step (U64_insert key d) m = m(key := d)"
| "u64_map_step (U64_remove key) m = m(key := None)"
| "u64_map_step U64_clear m = (\<lambda>_. None)"

definition u64_count :: "'d hash_table_u64 \<Rightarrow> nat" where
  "u64_count ht = present_count (the (u64_table ht))"

definition u64_rel :: "u64 \<Rightarrow> 'd hash_table_u64 \<Rightarrow> (u64 \<Rightarrow> 'd option) \<Rightarrow> bool" where
  "u64_rel dkv ht m \<longleftrightarrow> u64_ok dkv ht \<and> u64_contents ht = m"

lemma u64_remove_count:
  assumes "u64_ok dkv ht" "mesa_hash_table_u64_remove ht key = Some ht'"
  shows "u64_count ht' \<le> u64_count ht"
proof (cases "key = 0 \<or> key = 1")
  case True
  then show ?thesis using assms by (auto simp: mesa_hash_table_u64_remove_def u64_count_def)
next
  case False
  obtain t where t: "u64_table ht = Some t" "u64_ht_ok dkv t" using assms(1) by (auto simp: u64_ok_def)
  have "mesa_hash_table_remove_key t (Ptr key) = Some (the (u64_table ht'))"
    using assms(2) False t(1) by (cases "mesa_hash_table_search t (Ptr key)")
      (auto simp: mesa_hash_table_u64_remove_def mesa_hash_table_remove_key_def hash_table_u64_search_def
        mesa_hash_table_remove_def split: option.splits)
  then show ?thesis using remove_count [OF ht_okD(1) [OF t(2)], of "Ptr key"] False t(1) by (simp add: u64_count_def)
qed

lemma u64_clear_count:
  assumes "u64_ok dkv ht" "mesa_hash_table_u64_clear (Some ht) = Some ht'"
  shows "u64_count ht' \<le> u64_count ht"
proof -
  obtain t where t: "u64_table ht = Some t" "u64_ht_ok dkv t" using assms(1) by (auto simp: u64_ok_def)
  then have "deleted_key t \<noteq> NULL" using ht_coreD(1) [OF ht_okD(2) [OF t(2)]] by (simp add: ht_wf_def)
  then show ?thesis using assms(2) t(1)
    by (auto simp: mesa_hash_table_u64_clear_def mesa_hash_table_clear_def u64_count_def present_count_def
        entry_is_present_def filter_map comp_def)
qed

lemma u64_step_refines:
  assumes "u64_rel dkv ht m" "u64_count ht < 2 ^ 30"
  shows "\<exists>ht'. u64_step x ht = Some ht' \<and> u64_rel dkv ht' (u64_map_step x m) \<and> u64_count ht' \<le> Suc (u64_count ht)"
proof (cases x)
  case (U64_insert key d)
  then show ?thesis using u64_insert_contents [of dkv ht key d] assms by (auto simp: u64_rel_def u64_count_def)
next
  case (U64_remove key)
  then show ?thesis using u64_remove_contents [of dkv ht key] u64_remove_count [of dkv ht key] assms
    by (fastforce simp: u64_rel_def)
next
  case U64_clear
  then show ?thesis using u64_clear_ok [of dkv ht] u64_clear_count [of dkv ht] assms by (fastforce simp: u64_rel_def)
qed

interpretation u64_runs: op_refinement u64_step "\<lambda>_. True" u64_map_step "u64_rel dkv" u64_count "2 ^ 30" for dkv
  by unfold_locales (rule u64_step_refines)

lemma u64_run_from_create:
  fixes ops :: "'d u64_op list"
  assumes "length ops \<le> 2 ^ 30"
  shows "\<exists>ht. Option.bind (mesa_hash_table_u64_create (\<lambda>_. True) dkv) (run u64_step ops) = Some ht \<and>
    u64_rel dkv ht (fold u64_map_step ops (\<lambda>_. None))"
proof -
  obtain t :: "'d hash_table_u64" where t: "mesa_hash_table_u64_create (\<lambda>_. True) dkv = Some t" "u64_rel dkv t (\<lambda>_. None)"
    using u64_create_ok by (auto simp: u64_rel_def)
  have "u64_count t = 0"
  proof -
    have "fst (mesa_hash_table_init (\<lambda>_. True) (Some (mesa_hash_pointer dkv)) mesa_key_pointer_equal)"
      by (simp add: mesa_hash_table_init_def)
    then have "\<forall>e \<in> set (ht_table (the (u64_table t))). he_key e = NULL"
      using t(1) by (auto simp: mesa_hash_table_u64_create_def mesa_hash_table_create_def mesa_hash_table_init_def
          set_size_fields_def mesa_hash_table_set_deleted_key_def zero_entry_def Let_def split: prod.splits if_splits)
    then show ?thesis by (auto simp: u64_count_def present_count_def entry_is_present_def filter_empty_conv)
  qed
  then show ?thesis using u64_runs.run_refines [of dkv t "\<lambda>_. None" ops] t assms by (auto simp: list_all_iff)
qed

end
