(* ===== verification/Table_Properties.thy ===== *)
theory Table_Properties
  imports Table_Runs
begin

text \<open>
  The properties of the utility tables: the remainder trick and the probe sequence, the hash table, the set
  and the 64-bit wrapper as refinements of maps and sets, and the behaviour at the edges.
\<close>

section \<open>Arithmetic and probing\<close>

text \<open>C16: the multiplication-based remainder is the remainder, for every 32-bit dividend and non-zero divisor.\<close>

theorem fast_urem32_is_mod:
  "0 < d \<Longrightarrow> util_fast_urem32 n d (REMAINDER_MAGIC d) = n mod d"
  by (rule util_fast_urem32_eq_mod)

theorem fast_urem32_is_mod_witness:
  "util_fast_urem32 4294967295 13 (REMAINDER_MAGIC 13) = 4294967295 mod 13 \<and> 0 < (13 :: u32)"
  using fast_urem32_is_mod [of 13 4294967295] by simp

text \<open>The portable high product of \<^verbatim>\<open>_mul32by64_hi\<close> equals the one computed with 128-bit integers.\<close>

theorem mul32by64_hi_portable: "mul32by64_hi a b = mul32by64_hi_u128 a b"
  by (rule mul32by64_hi_variants)

text \<open>
  C18: for every size of the table below the largest, the probe sequence of a hash visits every slot exactly once
  in the first \<^verbatim>\<open>size\<close> steps, and the next step is back at the start.
\<close>

theorem probe_visits_all:
  fixes h :: u32
  assumes "i < 30"
  defines "sz \<equiv> hs_size (hash_sizes ! i)" and "rh \<equiv> hs_rehash (hash_sizes ! i)"
  defines "start \<equiv> util_fast_urem32 h sz (hs_size_magic (hash_sizes ! i))"
    and "step \<equiv> next_address sz (1 + util_fast_urem32 h rh (hs_rehash_magic (hash_sizes ! i)))"
  shows "inj_on (\<lambda>k. (step ^^ k) start) {..<unat sz} \<and>
    (\<lambda>k. unat ((step ^^ k) start)) ` {..<unat sz} = {..<unat sz} \<and> (step ^^ unat sz) start = start"
proof -
  have g: "good_size sz rh" unfolding good_size_def sz_def rh_def using assms(1) by blast
  have m: "hs_size_magic (hash_sizes ! i) = REMAINDER_MAGIC sz" "hs_rehash_magic (hash_sizes ! i) = REMAINDER_MAGIC rh"
    using hash_size_facts(6,7) [OF assms(1)] by (simp_all add: sz_def rh_def)
  have it: "(step ^^ k) start = of_nat (slot sz rh h k)" for k
    by (induction k) (simp_all add: start_def step_def m start_address_slot [OF g] next_address_slot [OF g])
  have lt: "slot sz rh h k < unat sz" for k using slot_less good_size_facts(1) [OF g] by (metis less_trans zero_less_numeral)
  have "inj_on (\<lambda>k. (step ^^ k) start) {..<unat sz}"
    unfolding it inj_on_def of_nat_slot_eq_iff [OF g] using slot_inj [OF g] by blast
  moreover have "(\<lambda>k. unat ((step ^^ k) start)) ` {..<unat sz} = {..<unat sz}"
  proof (intro equalityI subsetI)
    fix j assume "j \<in> {..<unat sz}"
    then obtain k where "k < unat sz" "slot sz rh h k = j" using slot_surj [OF g, of j h] by blast
    then show "j \<in> (\<lambda>k. unat ((step ^^ k) start)) ` {..<unat sz}"
      unfolding it unat_of_nat_slot [OF g] by blast
  qed (use lt in \<open>auto simp: it unat_of_nat_slot [OF g]\<close>)
  moreover have "(step ^^ unat sz) start = start"
  proof -
    obtain n where n: "unat sz = Suc n" using good_size_facts(1) [OF g] by (cases "unat sz") auto
    then have "slot sz rh h (Suc n) = slot sz rh h 0" using slot_back_at_start [OF g, of n h] by simp
    then show ?thesis using it [of "Suc n"] it [of 0] unfolding n by simp
  qed
  ultimately show ?thesis by blast
qed

theorem probe_visits_all_witness:
  "inj_on (\<lambda>k. (next_address 13 (1 + util_fast_urem32 77 11 (REMAINDER_MAGIC 11)) ^^ k)
     (util_fast_urem32 77 13 (REMAINDER_MAGIC 13))) {..<13}"
  using probe_visits_all [of 2 77] by (simp add: hash_sizes_def ENTRY_def)

text \<open>C34: the unrolled tail of XXH32 computes the same hash as the compact loop.\<close>

theorem xxh32_tail_variants: "XXH32_finalize h32 ptr len = XXH32_finalize_reroll h32 ptr len"
  by (rule finalize_variants_agree)

section \<open>Hash table\<close>

text \<open>
  C2: for every key type whose hash and equality callbacks agree, any sequence of insertions, removals, clears and
  reservations on a new table succeeds, and a search of the result returns what the same operations leave in a map.
\<close>

theorem hash_table_refines_map:
  fixes ops :: "('k, 'd) table_op list"
  assumes cb: "callbacks_ok Deleted_key_value D kh ke" and ops: "list_all (op_ok D) ops" "length ops \<le> 2 ^ 30"
  shows "\<exists>ht. Option.bind (mesa_hash_table_create (\<lambda>_. True) (Some kh) ke) (run table_step ops) = Some ht \<and>
    (\<forall>k. D k \<longrightarrow> ht_find ht k = Some (fold (map_step ke) ops (\<lambda>_. None) k))"
  using table_runs [OF assms] ht_find_lookup by (fastforce simp: table_rel_def)

theorem hash_table_refines_map_witness:
  "\<exists>ht. Option.bind (mesa_hash_table_create (\<lambda>_. True) (Some (key_u32_hash 0)) (key_u32_equals 0))
     (run table_step [Insert (Ptr 5) (Some True), Insert (Ptr 6) None, Remove (Ptr 5)]) = Some ht \<and>
    ht_find ht (Ptr 5) = Some None \<and> ht_find ht (Ptr 6) = Some (Some None)"
  using hash_table_refines_map [OF u32_callbacks [of 0], of "[Insert (Ptr 5) (Some True), Insert (Ptr 6) None, Remove (Ptr 5)]"]
  by (auto simp: u32_key_def key_u32_equals_def)

text \<open>
  C31: a search ends on every table of a valid size, whatever its slots hold: also when no slot is free, where only the
  return to the start ends the loop.
\<close>

theorem search_terminates:
  assumes "ht_wf ht" "\<not> key_pointer_is_reserved ht key"
  shows "\<exists>r. hash_table_search ht hash key = Some r"
proof -
  note gs = ht_wf_good [OF assms(1)]
  have "0 < unat (ht_size ht)" using good_size_facts(1) [OF gs] by simp
  then show ?thesis using search_loop_find [OF assms(1), of 0 hash key] assms(2)
    by (simp add: hash_table_search_def ht_wf_magic [OF assms(1)] start_address_slot [OF gs] Let_def)
qed

theorem search_terminates_witness:
  "\<exists>r. hash_table_search \<lparr>ht_table = replicate 5 \<lparr>he_hash = 7, he_key = Ptr 9, he_data = None\<rparr>, key_hash_function = None,
      key_equals_function = (=), deleted_key = Deleted_key_value, ht_size = 5, ht_rehash = 3,
      size_magic = REMAINDER_MAGIC 5, rehash_magic = REMAINDER_MAGIC 3, max_entries = 2, size_index = 0,
      entries = 5, deleted_entries = 0\<rparr> 7 (Ptr (4 :: u64)) = Some r"
  by (rule search_terminates)
    (simp_all add: ht_wf_def hash_sizes_def ENTRY_def key_pointer_is_reserved_def)

text \<open>
  C30: the iteration over a table built by any sequence of operations visits every stored key exactly once, with the
  data a search returns, and visits as many entries as the table counts.
\<close>

theorem foreach_visits_contents:
  assumes "callbacks_ok Deleted_key_value D kh ke" "list_all (op_ok D) ops" "length ops \<le> 2 ^ 30"
    "Option.bind (mesa_hash_table_create (\<lambda>_. True) (Some kh) ke) (run table_step ops) = Some ht"
  shows "distinct (map he_key (hash_table_foreach ht)) \<and> length (hash_table_foreach ht) = unat (entries ht) \<and>
    (\<forall>e \<in> set (hash_table_foreach ht). D (he_key e) \<and> ht_find ht (he_key e) = Some (Some (he_data e))) \<and>
    (\<forall>k d. D k \<and> ht_find ht k = Some (Some d) \<longrightarrow> (\<exists>e \<in> set (hash_table_foreach ht). ke k (he_key e) \<and> he_data e = d))"
proof -
  have ok: "ht_ok Deleted_key_value D kh ke ht" using table_runs [OF assms(1-3)] assms(4) by (auto simp: table_rel_def)
  have find: "D k \<Longrightarrow> ht_find ht k = Some (ht_lookup ht k)" for k by (rule ht_find_lookup [OF ok])
  show ?thesis using foreach_contents [OF ok] find by auto
qed

theorem foreach_visits_contents_witness:
  "\<exists>ht. Option.bind (mesa_hash_table_create (\<lambda>_. True) (Some (key_u32_hash 0)) (key_u32_equals 0))
     (run table_step [Insert (Ptr 5) (Some True)]) = Some ht \<and> length (hash_table_foreach ht) = unat (entries ht) \<and>
     distinct (map he_key (hash_table_foreach ht))"
proof -
  let ?ops = "[Insert (Ptr 5) (Some True)] :: (u64, bool) table_op list"
  have ok: "list_all (op_ok u32_key) ?ops" "length ?ops \<le> 2 ^ 30" by (simp_all add: u32_key_def)
  obtain ht where ht: "Option.bind (mesa_hash_table_create (\<lambda>_. True) (Some (key_u32_hash 0)) (key_u32_equals 0)) (run table_step ?ops) = Some ht"
    using table_runs [OF u32_callbacks [of 0] ok] by blast
  show ?thesis using ht foreach_visits_contents [OF u32_callbacks [of 0] ok ht] by blast
qed

section \<open>64-bit keys\<close>

text \<open>
  C15: the wrapper is a map on all 64-bit keys, also on the two values its table reserves: after any sequence of
  insertions, removals and clears a search returns what the same operations leave in a map.
\<close>

theorem u64_table_refines_map:
  assumes "length ops \<le> 2 ^ 30"
  shows "\<exists>ht. Option.bind (mesa_hash_table_u64_create (\<lambda>_. True) dkv) (run u64_step ops) = Some ht \<and>
    (\<forall>key. mesa_hash_table_u64_search ht key = Some (fold u64_map_step ops (\<lambda>_. None) key))"
  using u64_run_from_create [OF assms] u64_search_contents by (fastforce simp: u64_rel_def)

theorem u64_table_refines_map_witness:
  "\<exists>ht. Option.bind (mesa_hash_table_u64_create (\<lambda>_. True) 8)
     (run u64_step [U64_insert 0 (Some True), U64_insert 1 (Some False), U64_insert 99 (Some True), U64_remove 1]) = Some ht \<and>
   mesa_hash_table_u64_search ht 0 = Some (Some True) \<and> mesa_hash_table_u64_search ht 1 = Some None \<and>
   mesa_hash_table_u64_search ht 99 = Some (Some True)"
  using u64_table_refines_map [of "[U64_insert 0 (Some True), U64_insert 1 (Some False), U64_insert 99 (Some True), U64_remove 1]" 8]
  by auto

section \<open>Set\<close>

text \<open>
  C7: any sequence of additions, search-or-add calls, removals, clears and resizes on a new set succeeds, and a search of
  the result finds exactly the members that the same operations leave in a mathematical set.
\<close>

theorem set_refines_membership:
  assumes "callbacks_ok Deleted_key_value D kh ke" "list_all (set_op_ok D) ops" "length ops \<le> 2 ^ 30"
  shows "\<exists>s. Option.bind (mesa_set_create (\<lambda>_. True) (Some kh) ke) (run set_step ops) = Some s \<and>
    (\<forall>k. D k \<longrightarrow> map_option (\<lambda>e. e \<noteq> None) (mesa_set_search s k) = Some (fold (member_step ke) ops (\<lambda>_. False) k))"
  using set_runs [OF assms] set_search_member by (fastforce simp: set_rel_def)

theorem set_refines_membership_witness:
  "\<exists>s. Option.bind (mesa_set_create (\<lambda>_. True) (Some (key_u32_hash 0)) (key_u32_equals 0))
     (run set_step [Set_add (Ptr 3), Set_search_or_add (Ptr 4), Set_remove (Ptr 3), Set_resize 100]) = Some s \<and>
   map_option (\<lambda>e. e \<noteq> None) (mesa_set_search s (Ptr 3)) = Some False \<and>
   map_option (\<lambda>e. e \<noteq> None) (mesa_set_search s (Ptr 4)) = Some True"
proof -
  let ?ops = "[Set_add (Ptr 3), Set_search_or_add (Ptr 4), Set_remove (Ptr 3), Set_resize 100] :: u64 set_op list"
  have ok: "list_all (set_op_ok u32_key) ?ops" "length ?ops \<le> 2 ^ 30" "u32_key (Ptr 3)" "u32_key (Ptr 4)"
    by (simp_all add: u32_key_def)
  obtain s where s: "Option.bind (mesa_set_create (\<lambda>_. True) (Some (key_u32_hash 0)) (key_u32_equals 0)) (run set_step ?ops) = Some s"
    "\<forall>k. u32_key k \<longrightarrow> map_option (\<lambda>e. e \<noteq> None) (mesa_set_search s k) = Some (fold (member_step (key_u32_equals 0)) ?ops (\<lambda>_. False) k)"
    using set_refines_membership [OF u32_callbacks [of 0] ok(1,2)] by blast
  show ?thesis using s(1) s(2) [rule_format, OF ok(3)] s(2) [rule_format, OF ok(4)]
    by (intro exI [of _ s]) (simp add: key_u32_equals_def)
qed

text \<open>
  C32: the set's algorithm is the hash table's on entries without data: searching and adding agree step for step, for every
  allocator and every set whose array has the size it records.
\<close>

theorem set_simulates_hash_table:
  assumes "length (set_table s) = unat (s_size s)"
  shows "set_search s h k = hash_table_search (as_table s) h k \<and>
    map_option (apsnd as_table) (set_add alloc s h k) = hash_table_insert alloc (as_table s) h k None \<and>
    map_option as_table (set_rehash alloc s i) = mesa_hash_table_rehash alloc (as_table s) i \<and>
    map as_entry (set_foreach s) = hash_table_foreach (as_table s)"
  using set_search_sim set_add_sim [OF assms] set_rehash_sim [OF assms] set_foreach_sim [OF assms] by blast

theorem set_simulates_hash_table_witness:
  "set_search (snd (mesa_set_init (\<lambda>_. True) None (=))) 7 (Ptr (4 :: u64)) =
   hash_table_search (as_table (snd (mesa_set_init (\<lambda>_. True) None (=)))) 7 (Ptr (4 :: u64))"
  by (rule set_simulates_hash_table [THEN conjunct1])
    (simp add: mesa_set_init_def set_hash_sizes_def ENTRY_def set_set_size_fields_def)

text \<open>C33: two valid sets intersect exactly when some key is a member of both.\<close>

theorem set_intersects_iff_common_member:
  assumes "set_ok D kh ke a" "set_ok D kh ke b"
  shows "mesa_set_intersects a b = Some (\<exists>k. D k \<and> set_member a k \<and> set_member b k)"
  by (rule set_intersects_correct [OF assms])

theorem set_intersects_iff_common_member_witness:
  "\<exists>s. mesa_set_create (\<lambda>_. True) (Some (key_u32_hash 0)) (key_u32_equals 0) = Some s \<and> mesa_set_intersects s s = Some False"
proof -
  obtain s where s: "mesa_set_create (\<lambda>_. True) (Some (key_u32_hash 0)) (key_u32_equals 0) = Some s"
    "set_ok u32_key (key_u32_hash 0) (key_u32_equals 0) s" "\<And>k. \<not> set_member s k"
    using set_create_ok [OF u32_callbacks [of 0]] by blast
  then show ?thesis using set_intersects_iff_common_member [OF s(2) s(2)] by auto
qed

end
