(* ===== verification/Spirv_Enums.thy ===== *)
theory Spirv_Enums
  imports Prelude
begin

text \<open>
  The numbers of \<^verbatim>\<open>src/compiler/spirv/spirv.h\<close> that \<^verbatim>\<open>spirv_builder.c\<close> uses: opcodes,
  capabilities, decorations, image operand bits, storage classes. They are abbreviations, so that
  the emitted words stay plain numerals.
\<close>

abbreviation (input) SpvMagicNumber :: u32 where "SpvMagicNumber \<equiv> 0x07230203"

abbreviation (input) SpvOpUndef :: u32 where "SpvOpUndef \<equiv> 1"
abbreviation (input) SpvOpSource :: u32 where "SpvOpSource \<equiv> 3"
abbreviation (input) SpvOpName :: u32 where "SpvOpName \<equiv> 5"
abbreviation (input) SpvOpExtension :: u32 where "SpvOpExtension \<equiv> 10"
abbreviation (input) SpvOpExtInstImport :: u32 where "SpvOpExtInstImport \<equiv> 11"
abbreviation (input) SpvOpExtInst :: u32 where "SpvOpExtInst \<equiv> 12"
abbreviation (input) SpvOpMemoryModel :: u32 where "SpvOpMemoryModel \<equiv> 14"
abbreviation (input) SpvOpEntryPoint :: u32 where "SpvOpEntryPoint \<equiv> 15"
abbreviation (input) SpvOpExecutionMode :: u32 where "SpvOpExecutionMode \<equiv> 16"
abbreviation (input) SpvOpCapability :: u32 where "SpvOpCapability \<equiv> 17"
abbreviation (input) SpvOpTypeVoid :: u32 where "SpvOpTypeVoid \<equiv> 19"
abbreviation (input) SpvOpTypeBool :: u32 where "SpvOpTypeBool \<equiv> 20"
abbreviation (input) SpvOpTypeInt :: u32 where "SpvOpTypeInt \<equiv> 21"
abbreviation (input) SpvOpTypeFloat :: u32 where "SpvOpTypeFloat \<equiv> 22"
abbreviation (input) SpvOpTypeVector :: u32 where "SpvOpTypeVector \<equiv> 23"
abbreviation (input) SpvOpTypeMatrix :: u32 where "SpvOpTypeMatrix \<equiv> 24"
abbreviation (input) SpvOpTypeImage :: u32 where "SpvOpTypeImage \<equiv> 25"
abbreviation (input) SpvOpTypeSampledImage :: u32 where "SpvOpTypeSampledImage \<equiv> 27"
abbreviation (input) SpvOpTypeArray :: u32 where "SpvOpTypeArray \<equiv> 28"
abbreviation (input) SpvOpTypeRuntimeArray :: u32 where "SpvOpTypeRuntimeArray \<equiv> 29"
abbreviation (input) SpvOpTypeStruct :: u32 where "SpvOpTypeStruct \<equiv> 30"
abbreviation (input) SpvOpTypePointer :: u32 where "SpvOpTypePointer \<equiv> 32"
abbreviation (input) SpvOpTypeFunction :: u32 where "SpvOpTypeFunction \<equiv> 33"
abbreviation (input) SpvOpConstantTrue :: u32 where "SpvOpConstantTrue \<equiv> 41"
abbreviation (input) SpvOpConstantFalse :: u32 where "SpvOpConstantFalse \<equiv> 42"
abbreviation (input) SpvOpConstant :: u32 where "SpvOpConstant \<equiv> 43"
abbreviation (input) SpvOpConstantComposite :: u32 where "SpvOpConstantComposite \<equiv> 44"
abbreviation (input) SpvOpSpecConstant :: u32 where "SpvOpSpecConstant \<equiv> 50"
abbreviation (input) SpvOpSpecConstantComposite :: u32 where "SpvOpSpecConstantComposite \<equiv> 51"
abbreviation (input) SpvOpFunction :: u32 where "SpvOpFunction \<equiv> 54"
abbreviation (input) SpvOpFunctionEnd :: u32 where "SpvOpFunctionEnd \<equiv> 56"
abbreviation (input) SpvOpVariable :: u32 where "SpvOpVariable \<equiv> 59"
abbreviation (input) SpvOpImageTexelPointer :: u32 where "SpvOpImageTexelPointer \<equiv> 60"
abbreviation (input) SpvOpLoad :: u32 where "SpvOpLoad \<equiv> 61"
abbreviation (input) SpvOpStore :: u32 where "SpvOpStore \<equiv> 62"
abbreviation (input) SpvOpAccessChain :: u32 where "SpvOpAccessChain \<equiv> 65"
abbreviation (input) SpvOpDecorate :: u32 where "SpvOpDecorate \<equiv> 71"
abbreviation (input) SpvOpMemberDecorate :: u32 where "SpvOpMemberDecorate \<equiv> 72"
abbreviation (input) SpvOpVectorExtractDynamic :: u32 where "SpvOpVectorExtractDynamic \<equiv> 77"
abbreviation (input) SpvOpVectorInsertDynamic :: u32 where "SpvOpVectorInsertDynamic \<equiv> 78"
abbreviation (input) SpvOpVectorShuffle :: u32 where "SpvOpVectorShuffle \<equiv> 79"
abbreviation (input) SpvOpCompositeConstruct :: u32 where "SpvOpCompositeConstruct \<equiv> 80"
abbreviation (input) SpvOpCompositeExtract :: u32 where "SpvOpCompositeExtract \<equiv> 81"
abbreviation (input) SpvOpImageSampleImplicitLod :: u32 where "SpvOpImageSampleImplicitLod \<equiv> 87"
abbreviation (input) SpvOpImageSampleExplicitLod :: u32 where "SpvOpImageSampleExplicitLod \<equiv> 88"
abbreviation (input) SpvOpImageSampleDrefImplicitLod :: u32 where "SpvOpImageSampleDrefImplicitLod \<equiv> 89"
abbreviation (input) SpvOpImageSampleDrefExplicitLod :: u32 where "SpvOpImageSampleDrefExplicitLod \<equiv> 90"
abbreviation (input) SpvOpImageSampleProjImplicitLod :: u32 where "SpvOpImageSampleProjImplicitLod \<equiv> 91"
abbreviation (input) SpvOpImageSampleProjExplicitLod :: u32 where "SpvOpImageSampleProjExplicitLod \<equiv> 92"
abbreviation (input) SpvOpImageSampleProjDrefImplicitLod :: u32 where "SpvOpImageSampleProjDrefImplicitLod \<equiv> 93"
abbreviation (input) SpvOpImageSampleProjDrefExplicitLod :: u32 where "SpvOpImageSampleProjDrefExplicitLod \<equiv> 94"
abbreviation (input) SpvOpImageFetch :: u32 where "SpvOpImageFetch \<equiv> 95"
abbreviation (input) SpvOpImageGather :: u32 where "SpvOpImageGather \<equiv> 96"
abbreviation (input) SpvOpImageDrefGather :: u32 where "SpvOpImageDrefGather \<equiv> 97"
abbreviation (input) SpvOpImageRead :: u32 where "SpvOpImageRead \<equiv> 98"
abbreviation (input) SpvOpImageWrite :: u32 where "SpvOpImageWrite \<equiv> 99"
abbreviation (input) SpvOpImage :: u32 where "SpvOpImage \<equiv> 100"
abbreviation (input) SpvOpImageQuerySizeLod :: u32 where "SpvOpImageQuerySizeLod \<equiv> 103"
abbreviation (input) SpvOpImageQuerySize :: u32 where "SpvOpImageQuerySize \<equiv> 104"
abbreviation (input) SpvOpImageQueryLod :: u32 where "SpvOpImageQueryLod \<equiv> 105"
abbreviation (input) SpvOpImageQueryLevels :: u32 where "SpvOpImageQueryLevels \<equiv> 106"
abbreviation (input) SpvOpEmitVertex :: u32 where "SpvOpEmitVertex \<equiv> 218"
abbreviation (input) SpvOpEndPrimitive :: u32 where "SpvOpEndPrimitive \<equiv> 219"
abbreviation (input) SpvOpEmitStreamVertex :: u32 where "SpvOpEmitStreamVertex \<equiv> 220"
abbreviation (input) SpvOpEndStreamPrimitive :: u32 where "SpvOpEndStreamPrimitive \<equiv> 221"
abbreviation (input) SpvOpControlBarrier :: u32 where "SpvOpControlBarrier \<equiv> 224"
abbreviation (input) SpvOpMemoryBarrier :: u32 where "SpvOpMemoryBarrier \<equiv> 225"
abbreviation (input) SpvOpAtomicStore :: u32 where "SpvOpAtomicStore \<equiv> 228"
abbreviation (input) SpvOpPhi :: u32 where "SpvOpPhi \<equiv> 245"
abbreviation (input) SpvOpLoopMerge :: u32 where "SpvOpLoopMerge \<equiv> 246"
abbreviation (input) SpvOpSelectionMerge :: u32 where "SpvOpSelectionMerge \<equiv> 247"
abbreviation (input) SpvOpLabel :: u32 where "SpvOpLabel \<equiv> 248"
abbreviation (input) SpvOpBranch :: u32 where "SpvOpBranch \<equiv> 249"
abbreviation (input) SpvOpBranchConditional :: u32 where "SpvOpBranchConditional \<equiv> 250"
abbreviation (input) SpvOpKill :: u32 where "SpvOpKill \<equiv> 252"
abbreviation (input) SpvOpReturn :: u32 where "SpvOpReturn \<equiv> 253"
abbreviation (input) SpvOpImageSparseSampleImplicitLod :: u32 where "SpvOpImageSparseSampleImplicitLod \<equiv> 305"
abbreviation (input) SpvOpImageSparseSampleExplicitLod :: u32 where "SpvOpImageSparseSampleExplicitLod \<equiv> 306"
abbreviation (input) SpvOpImageSparseSampleDrefImplicitLod :: u32 where "SpvOpImageSparseSampleDrefImplicitLod \<equiv> 307"
abbreviation (input) SpvOpImageSparseSampleDrefExplicitLod :: u32 where "SpvOpImageSparseSampleDrefExplicitLod \<equiv> 308"
abbreviation (input) SpvOpImageSparseSampleProjImplicitLod :: u32 where "SpvOpImageSparseSampleProjImplicitLod \<equiv> 309"
abbreviation (input) SpvOpImageSparseSampleProjExplicitLod :: u32 where "SpvOpImageSparseSampleProjExplicitLod \<equiv> 310"
abbreviation (input) SpvOpImageSparseSampleProjDrefImplicitLod :: u32 where "SpvOpImageSparseSampleProjDrefImplicitLod \<equiv> 311"
abbreviation (input) SpvOpImageSparseSampleProjDrefExplicitLod :: u32 where "SpvOpImageSparseSampleProjDrefExplicitLod \<equiv> 312"
abbreviation (input) SpvOpImageSparseFetch :: u32 where "SpvOpImageSparseFetch \<equiv> 313"
abbreviation (input) SpvOpImageSparseGather :: u32 where "SpvOpImageSparseGather \<equiv> 314"
abbreviation (input) SpvOpImageSparseDrefGather :: u32 where "SpvOpImageSparseDrefGather \<equiv> 315"
abbreviation (input) SpvOpImageSparseRead :: u32 where "SpvOpImageSparseRead \<equiv> 320"
abbreviation (input) SpvOpBeginInvocationInterlockEXT :: u32 where "SpvOpBeginInvocationInterlockEXT \<equiv> 5364"
abbreviation (input) SpvOpEndInvocationInterlockEXT :: u32 where "SpvOpEndInvocationInterlockEXT \<equiv> 5365"

abbreviation (input) SpvCapabilityFloat16 :: u32 where "SpvCapabilityFloat16 \<equiv> 9"
abbreviation (input) SpvCapabilityFloat64 :: u32 where "SpvCapabilityFloat64 \<equiv> 10"
abbreviation (input) SpvCapabilityInt64 :: u32 where "SpvCapabilityInt64 \<equiv> 11"
abbreviation (input) SpvCapabilityInt16 :: u32 where "SpvCapabilityInt16 \<equiv> 22"
abbreviation (input) SpvCapabilityStorageImageMultisample :: u32 where "SpvCapabilityStorageImageMultisample \<equiv> 27"
abbreviation (input) SpvCapabilityInt8 :: u32 where "SpvCapabilityInt8 \<equiv> 39"

abbreviation (input) SpvDecorationSpecId :: u32 where "SpvDecorationSpecId \<equiv> 1"
abbreviation (input) SpvDecorationArrayStride :: u32 where "SpvDecorationArrayStride \<equiv> 6"
abbreviation (input) SpvDecorationBuiltIn :: u32 where "SpvDecorationBuiltIn \<equiv> 11"
abbreviation (input) SpvDecorationStream :: u32 where "SpvDecorationStream \<equiv> 29"
abbreviation (input) SpvDecorationLocation :: u32 where "SpvDecorationLocation \<equiv> 30"
abbreviation (input) SpvDecorationComponent :: u32 where "SpvDecorationComponent \<equiv> 31"
abbreviation (input) SpvDecorationIndex :: u32 where "SpvDecorationIndex \<equiv> 32"
abbreviation (input) SpvDecorationBinding :: u32 where "SpvDecorationBinding \<equiv> 33"
abbreviation (input) SpvDecorationDescriptorSet :: u32 where "SpvDecorationDescriptorSet \<equiv> 34"
abbreviation (input) SpvDecorationOffset :: u32 where "SpvDecorationOffset \<equiv> 35"
abbreviation (input) SpvDecorationXfbBuffer :: u32 where "SpvDecorationXfbBuffer \<equiv> 36"
abbreviation (input) SpvDecorationXfbStride :: u32 where "SpvDecorationXfbStride \<equiv> 37"
abbreviation (input) SpvDecorationInputAttachmentIndex :: u32 where "SpvDecorationInputAttachmentIndex \<equiv> 43"

abbreviation (input) SpvImageOperandsMaskNone :: u32 where "SpvImageOperandsMaskNone \<equiv> 0"
abbreviation (input) SpvImageOperandsBiasMask :: u32 where "SpvImageOperandsBiasMask \<equiv> 1"
abbreviation (input) SpvImageOperandsLodMask :: u32 where "SpvImageOperandsLodMask \<equiv> 2"
abbreviation (input) SpvImageOperandsGradMask :: u32 where "SpvImageOperandsGradMask \<equiv> 4"
abbreviation (input) SpvImageOperandsConstOffsetMask :: u32 where "SpvImageOperandsConstOffsetMask \<equiv> 8"
abbreviation (input) SpvImageOperandsOffsetMask :: u32 where "SpvImageOperandsOffsetMask \<equiv> 16"
abbreviation (input) SpvImageOperandsSampleMask :: u32 where "SpvImageOperandsSampleMask \<equiv> 64"
abbreviation (input) SpvImageOperandsMinLodMask :: u32 where "SpvImageOperandsMinLodMask \<equiv> 128"

abbreviation (input) SpvStorageClassFunction :: u32 where "SpvStorageClassFunction \<equiv> 7"
abbreviation (input) SpvStorageClassGeneric :: u32 where "SpvStorageClassGeneric \<equiv> 8"
abbreviation (input) SpvStorageClassImage :: u32 where "SpvStorageClassImage \<equiv> 11"

abbreviation (input) SpvScopeSubgroup :: u32 where "SpvScopeSubgroup \<equiv> 3"
abbreviation (input) SpvDimSubpassData :: u32 where "SpvDimSubpassData \<equiv> 6"

end
