(* ===== verification/Spirv_Buffer.thy ===== *)
theory Spirv_Buffer
  imports Spirv_Enums
begin

text \<open>
  The growable word buffers of \<^verbatim>\<open>spirv_builder.c\<close> and the literal strings written into them, and
  the SPIR-V instruction stream as a reader sees it. A buffer is the list of its first
  \<^verbatim>\<open>num_words\<close> words and its capacity; \<open>alloc n\<close> says whether \<^verbatim>\<open>reralloc_size\<close> can
  provide room for \<open>n\<close> words. The result of \<^verbatim>\<open>spirv_buffer_prepare\<close> is ignored by every caller,
  so a failed growth shows as the assertion of \<^verbatim>\<open>spirv_buffer_emit_word\<close>. Sizes are natural
  numbers: a buffer of \<open>2\<^sup>6\<^sup>2\<close> words does not fit a 64-bit address space.
\<close>

section \<open>The buffer\<close>

record spirv_buffer =
  words :: "u32 list"
  room :: nat

abbreviation num_words :: "spirv_buffer \<Rightarrow> nat" where
  "num_words b \<equiv> length (words b)"

definition spirv_buffer_grow :: "(nat \<Rightarrow> bool) \<Rightarrow> spirv_buffer \<Rightarrow> nat \<Rightarrow> bool \<times> spirv_buffer" where
  "spirv_buffer_grow alloc b needed =
     (let new_room = max 64 (max ((room b * 3) div 2) needed)
      in if \<not> alloc new_room then (False, b) else (True, b\<lparr>room := new_room\<rparr>))"

definition spirv_buffer_prepare :: "(nat \<Rightarrow> bool) \<Rightarrow> spirv_buffer \<Rightarrow> nat \<Rightarrow> bool \<times> spirv_buffer" where
  "spirv_buffer_prepare alloc b needed =
     (let needed = needed + num_words b
      in if room b \<ge> num_words b + needed then (True, b) else spirv_buffer_grow alloc b needed)"

text \<open>The position of the word is returned as a 32-bit value.\<close>

definition spirv_buffer_emit_word :: "spirv_buffer \<Rightarrow> u32 \<Rightarrow> (u32 \<times> spirv_buffer) option" where
  "spirv_buffer_emit_word b word = do {
     c_assert (num_words b < room b);
     Some (of_nat (num_words b), b\<lparr>words := words b @ [word]\<rparr>) }"

text \<open>\<^verbatim>\<open>b->words[pos] |= bits\<close>\<close>

definition spirv_buffer_or_word :: "spirv_buffer \<Rightarrow> nat \<Rightarrow> u32 \<Rightarrow> spirv_buffer option" where
  "spirv_buffer_or_word b pos bits = do {
     old \<leftarrow> array_get (words b) pos;
     ws \<leftarrow> array_set (words b) pos (old OR bits);
     Some (b\<lparr>words := ws\<rparr>) }"

section \<open>Literal strings\<close>

text \<open>
  A C string is the list of its bytes before the terminator. \<open>char_signed\<close> is the signedness of
  \<^verbatim>\<open>char\<close> on the platform: a signed byte is sign-extended when it is promoted to \<^verbatim>\<open>int\<close>
  before the shift.
\<close>

definition char_to_int :: "bool \<Rightarrow> u8 \<Rightarrow> u32" where
  "char_to_int char_signed c = (if char_signed then scast c else ucast c)"

fun spirv_buffer_emit_string_loop ::
  "bool \<Rightarrow> (nat \<Rightarrow> bool) \<Rightarrow> spirv_buffer \<Rightarrow> u8 list \<Rightarrow> nat \<Rightarrow> u32 \<Rightarrow> (nat \<times> u32 \<times> spirv_buffer) option" where
  "spirv_buffer_emit_string_loop cs alloc b [] pos word = Some (pos, word, b)"
| "spirv_buffer_emit_string_loop cs alloc b (c # str) pos word =
     (let word = word OR push_bit (8 * (pos mod 4)) (char_to_int cs c); pos = pos + 1
      in if pos mod 4 = 0
         then do {
           (p, b) \<leftarrow> spirv_buffer_emit_word (snd (spirv_buffer_prepare alloc b 1)) word;
           spirv_buffer_emit_string_loop cs alloc b str pos 0 }
         else spirv_buffer_emit_string_loop cs alloc b str pos word)"

definition spirv_buffer_emit_string ::
  "bool \<Rightarrow> (nat \<Rightarrow> bool) \<Rightarrow> spirv_buffer \<Rightarrow> u8 list \<Rightarrow> (nat \<times> spirv_buffer) option" where
  "spirv_buffer_emit_string cs alloc b str = do {
     (pos, word, b) \<leftarrow> spirv_buffer_emit_string_loop cs alloc b str 0 0;
     (p, b) \<leftarrow> spirv_buffer_emit_word (snd (spirv_buffer_prepare alloc b 1)) word;
     Some (1 + pos div 4, b) }"

section \<open>Growth\<close>

definition buf_ok :: "spirv_buffer \<Rightarrow> bool" where
  "buf_ok b \<longleftrightarrow> num_words b \<le> room b"

abbreviation prepared :: "(nat \<Rightarrow> bool) \<Rightarrow> spirv_buffer \<Rightarrow> nat \<Rightarrow> spirv_buffer" where
  "prepared alloc b n \<equiv> snd (spirv_buffer_prepare alloc b n)"

lemma prepare_words [simp]: "words (prepared alloc b n) = words b"
  by (simp add: spirv_buffer_prepare_def spirv_buffer_grow_def Let_def)

text \<open>
  After a successful prepare the requested words fit, and the capacity never shrinks. The test of the
  code counts \<^verbatim>\<open>num_words\<close> twice, so it grows earlier than needed, never later.
\<close>

lemma prepare_room:
  assumes "fst (spirv_buffer_prepare alloc b n)"
  shows "num_words b + n \<le> room (prepared alloc b n)"
  using assms by (auto simp: spirv_buffer_prepare_def spirv_buffer_grow_def Let_def split: if_splits)

lemma prepare_ok:
  assumes "\<forall>n. alloc n"
  shows "fst (spirv_buffer_prepare alloc b n)"
  using assms by (simp add: spirv_buffer_prepare_def spirv_buffer_grow_def Let_def)

lemma prepare_mono: "room b \<le> room (prepared alloc b n)"
  by (auto simp: spirv_buffer_prepare_def spirv_buffer_grow_def Let_def)

lemma prepare_failed:
  "\<not> fst (spirv_buffer_prepare alloc b n) \<Longrightarrow> prepared alloc b n = b"
  by (auto simp: spirv_buffer_prepare_def spirv_buffer_grow_def Let_def split: if_splits)

lemma emit_word_append:
  "num_words b < room b \<Longrightarrow>
   spirv_buffer_emit_word b w = Some (of_nat (num_words b), b\<lparr>words := words b @ [w]\<rparr>)"
  by (simp add: spirv_buffer_emit_word_def)

lemma prepare_emit_word:
  assumes "\<forall>n. alloc n"
  shows "\<exists>b'. spirv_buffer_emit_word (prepared alloc b 1) w = Some (of_nat (num_words b), b') \<and>
    words b' = words b @ [w] \<and> buf_ok b'"
  using prepare_room [OF prepare_ok [OF assms], of b 1] by (auto simp: emit_word_append buf_ok_def)

section \<open>What a string becomes\<close>

text \<open>Four bytes of a word, lowest first, and the words of a byte list whose length is a multiple of four.\<close>

definition word_bytes :: "u32 \<Rightarrow> u8 list" where
  "word_bytes w = [ucast w, ucast (drop_bit 8 w), ucast (drop_bit 16 w), ucast (drop_bit 24 w)]"

definition pack4 :: "u8 \<Rightarrow> u8 \<Rightarrow> u8 \<Rightarrow> u8 \<Rightarrow> u32" where
  "pack4 a b c d = ucast a OR push_bit 8 (ucast b) OR push_bit 16 (ucast c) OR push_bit 24 (ucast d)"

fun pack_bytes :: "u8 list \<Rightarrow> u32 list" where
  "pack_bytes (a # b # c # d # bs) = pack4 a b c d # pack_bytes bs"
| "pack_bytes _ = []"

text \<open>The SPIR-V literal of a string: its bytes, a terminator, and zeros up to a whole word.\<close>

definition string_literal :: "u8 list \<Rightarrow> u32 list" where
  "string_literal str = pack_bytes (str @ replicate (4 - length str mod 4) 0)"

definition read_string :: "u32 list \<Rightarrow> u8 list" where
  "read_string ws = takeWhile (\<lambda>c. c \<noteq> 0) (concat (map word_bytes ws))"

lemma word_bytes_pack4: "word_bytes (pack4 a b c d) = [a, b, c, d]"
  unfolding word_bytes_def pack4_def
  by (simp add: bit_eq_iff bit_simps) (auto dest: bit_imp_le_length)

lemma replicate_small:
  "replicate 4 (x::'a) = [x, x, x, x]" "replicate 3 x = [x, x, x]" "replicate 2 x = [x, x]" "replicate (Suc 0) x = [x]"
  by (simp_all add: numeral_eq_Suc)

lemma string_literal_simps:
  "string_literal [] = [pack4 0 0 0 0]" "string_literal [a] = [pack4 a 0 0 0]"
  "string_literal [a, b] = [pack4 a b 0 0]" "string_literal [a, b, c] = [pack4 a b c 0]"
  "string_literal (a # b # c # d # str) = pack4 a b c d # string_literal str"
  by (simp_all add: string_literal_def replicate_small)

lemma length_string_literal: "length (string_literal str) = 1 + length str div 4"
  by (induction str rule: pack_bytes.induct) (simp_all add: string_literal_simps)

text \<open>The literal holds the string: reading it up to the terminator gives it back.\<close>

lemma read_string_literal:
  assumes "\<forall>c \<in> set str. c \<noteq> 0"
  shows "read_string (string_literal str) = str"
  using assms
  by (induction str rule: pack_bytes.induct) (simp_all add: string_literal_simps read_string_def word_bytes_pack4)

text \<open>The emission loop, from a word boundary on.\<close>

lemma emit_string_loop:
  assumes al: "\<forall>n. alloc n" and "buf_ok b" "pos mod 4 = 0" "\<forall>c \<in> set str. char_to_int cs c = ucast c"
  shows "\<exists>b' w. spirv_buffer_emit_string_loop cs alloc b str pos 0 = Some (pos + length str, w, b') \<and>
    words b' @ [w] = words b @ string_literal str \<and> buf_ok b'"
  using assms(2-)
proof (induction str arbitrary: b pos rule: pack_bytes.induct)
  case (1 c0 c1 c2 c3 str)
  have m: "Suc pos mod 4 = 1" "Suc (Suc pos) mod 4 = 2" "Suc (Suc (Suc pos)) mod 4 = 3" "Suc (Suc (Suc (Suc pos))) mod 4 = 0"
    using 1(3) by presburger+
  have c: "char_to_int cs c0 = ucast c0" "char_to_int cs c1 = ucast c1" "char_to_int cs c2 = ucast c2" "char_to_int cs c3 = ucast c3"
    using 1(4) by simp_all
  obtain b1 where b1: "spirv_buffer_emit_word (prepared alloc b 1) (pack4 c0 c1 c2 c3) = Some (of_nat (num_words b), b1)"
    "words b1 = words b @ [pack4 c0 c1 c2 c3]" "buf_ok b1"
    using prepare_emit_word [OF al] by blast
  have "spirv_buffer_emit_string_loop cs alloc b (c0 # c1 # c2 # c3 # str) pos 0 =
      spirv_buffer_emit_string_loop cs alloc b1 str (Suc (Suc (Suc (Suc pos)))) 0"
    using b1(1) m 1(3) c by (simp add: pack4_def or.assoc)
  then show ?case using 1(1) [OF b1(3) m(4)] 1(4) b1(2)
    by (auto simp: string_literal_simps)
qed (auto simp: string_literal_simps pack4_def Let_def mod_Suc or.assoc)

lemma emit_string_literal:
  assumes al: "\<forall>n. alloc n" and "buf_ok b" "\<forall>c \<in> set str. char_to_int cs c = ucast c"
  shows "\<exists>b'. spirv_buffer_emit_string cs alloc b str = Some (length (string_literal str), b') \<and>
    words b' = words b @ string_literal str \<and> buf_ok b'"
proof -
  obtain b1 w where b1: "spirv_buffer_emit_string_loop cs alloc b str 0 0 = Some (length str, w, b1)"
    "words b1 @ [w] = words b @ string_literal str" "buf_ok b1"
    using emit_string_loop [OF al assms(2) _ assms(3), of 0] by auto
  obtain b2 where "spirv_buffer_emit_word (prepared alloc b1 1) w = Some (of_nat (num_words b1), b2)"
    "words b2 = words b1 @ [w]" "buf_ok b2"
    using prepare_emit_word [OF al] by blast
  then show ?thesis using b1 by (auto simp: spirv_buffer_emit_string_def length_string_literal)
qed

lemma char_to_int_plain:
  "\<not> cs \<Longrightarrow> char_to_int cs c = ucast c" "c < 128 \<Longrightarrow> char_to_int cs c = ucast c"
proof -
  assume "c < 128"
  then have "unat c < 128" by (simp add: word_less_nat_alt)
  then have "\<not> bit (unat c) 7" by (simp add: bit_iff_odd)
  then have "\<not> bit c 7" by (simp add: bit_unsigned_iff)
  moreover have "bit c (min 7 n) = bit c n" if "\<not> bit c 7" for n
  proof (cases "n < 7")
    case False
    then show ?thesis using that bit_imp_le_length [of c n] by (cases "n = 7") auto
  qed simp
  ultimately show "char_to_int cs c = ucast c"
    by (auto simp: char_to_int_def bit_eq_iff bit_simps)
qed (simp add: char_to_int_def)

section \<open>The instruction stream\<close>

text \<open>
  The first word of an instruction: \<^verbatim>\<open>op | (words << 16)\<close>. A reader takes the opcode from the low half
  and the number of words from the high half.
\<close>

definition op_word :: "u32 \<Rightarrow> nat \<Rightarrow> u32" where
  "op_word op n = op OR push_bit 16 (of_nat n)"

definition word_opcode :: "u32 \<Rightarrow> u32" where
  "word_opcode w = take_bit 16 w"

definition word_count :: "u32 \<Rightarrow> nat" where
  "word_count w = unat (drop_bit 16 w)"

type_synonym instruction = "u32 \<times> u32 list"

definition encode :: "instruction \<Rightarrow> u32 list" where
  "encode i = op_word (fst i) (1 + length (snd i)) # snd i"

definition encodable :: "instruction \<Rightarrow> bool" where
  "encodable i \<longleftrightarrow> unat (fst i) < 2 ^ 16 \<and> 1 + length (snd i) < 2 ^ 16"

text \<open>Splitting a section into instructions; \<open>None\<close> when a count is zero or runs past the end.\<close>

function decode :: "u32 list \<Rightarrow> instruction list option" where
  "decode [] = Some []"
| "decode (w # ws) =
     (if word_count w = 0 \<or> length ws < word_count w - 1 then None
      else do {
        is \<leftarrow> decode (drop (word_count w - 1) ws);
        Some ((word_opcode w, take (word_count w - 1) ws) # is) })"
  by pat_completeness auto
termination
  by (relation "measure length") auto

declare decode.simps(2) [simp del]

lemma op_word_fields:
  assumes "unat op < 2 ^ 16" "n < 2 ^ 16"
  shows "word_opcode (op_word op n) = op" "word_count (op_word op n) = n"
proof -
  have hi: "\<not> bit op (m + 16)" for m
  proof -
    have "unat op div 2 ^ (m + 16) = 0"
      using assms(1) by (intro div_less order_less_le_trans [OF assms(1)]) (simp add: power_add)
    then have "\<not> bit (unat op) (m + 16)" by (simp add: bit_iff_odd)
    then show ?thesis by (simp add: bit_unsigned_iff)
  qed
  have hi': "\<not> bit op m" if "16 \<le> m" for m using hi [of "m - 16"] that by simp
  show "word_opcode (op_word op n) = op"
    using hi' by (auto simp: word_opcode_def op_word_def bit_eq_iff bit_simps not_less)
  have "drop_bit 16 (op_word op n) = of_nat n"
  proof (rule bit_word_eqI)
    fix m assume m: "m < LENGTH(32)"
    have nb: "\<not> bit (of_nat n :: u32) k" if "16 \<le> k" for k
    proof -
      have "(2::nat) ^ 16 \<le> 2 ^ k" using that by (intro power_increasing) simp_all
      then have "n div 2 ^ k = 0" by (intro div_less order_less_le_trans [OF assms(2)])
      then have "\<not> bit n k" by (simp add: bit_iff_odd)
      then show ?thesis by (simp add: bit_simps)
    qed
    show "bit (drop_bit 16 (op_word op n)) m = bit (of_nat n :: u32) m"
      using hi [of m] nb [of m] m by (cases "m < 16") (simp_all add: op_word_def bit_simps add.commute not_less)
  qed
  then show "word_count (op_word op n) = n" using assms(2) by (simp add: word_count_def unat_of_nat)
qed

lemma decode_encode_Cons:
  assumes "encodable i"
  shows "decode (encode i @ ws) = map_option ((#) i) (decode ws)"
proof -
  have f: "word_opcode (op_word (fst i) (1 + length (snd i))) = fst i"
    "word_count (op_word (fst i) (1 + length (snd i))) = 1 + length (snd i)"
    using op_word_fields assms unfolding encodable_def by blast+
  show ?thesis unfolding encode_def append_Cons decode.simps f by (cases "decode ws") simp_all
qed

text \<open>Decoding what the builder appended: one more instruction at the end.\<close>

lemma decode_encodes:
  assumes "\<forall>i \<in> set is. encodable i"
  shows "decode (concat (map encode is)) = Some is"
  using assms by (induction "is") (simp_all add: decode_encode_Cons)

end
