(* ===== verification/Spirv_Builder.thy ===== *)
theory Spirv_Builder
  imports Spirv_Buffer Set_Correct
begin

text \<open>
  The state of zink's SPIR-V builder (\<^verbatim>\<open>struct spirv_builder\<close>) and the primitives all its
  functions are made of. The nine buffers of the struct are indexed by \<open>spv_section\<close>, which stands for
  the pointer \<^verbatim>\<open>&b->field\<close>. \<open>mem_ctx\<close> is the allocator: \<open>mem_ctx b n\<close> says whether a request of
  size \<open>n\<close> is served. \<open>deleted_key_address\<close> is the address of the deleted-key marker of
  \<^verbatim>\<open>set.c\<close>, a constant of the process.
\<close>

section \<open>State\<close>

datatype spv_section = Extensions | Imports | Memory_model | Entry_points | Exec_modes | Debug_names
  | Decorations | Types_const_defs | Instructions

record spirv_type =
  ty_op :: u32
  ty_args :: "u32 list"
  ty_type :: u32

record spirv_const =
  cn_op :: u32
  cn_type :: u32
  cn_args :: "u32 list"
  cn_result :: u32

record spirv_builder =
  mem_ctx :: "nat \<Rightarrow> bool"
  deleted_key_address :: u64
  caps :: "u64 mesa_set option"
  bufs :: "spv_section \<Rightarrow> spirv_buffer"
  b_types :: "(spirv_type, spirv_type) hash_table option"
  b_consts :: "(spirv_const, spirv_const) hash_table option"
  prev_id :: u32

text \<open>A builder as its creator zero-initialises it.\<close>

definition empty_builder :: "(nat \<Rightarrow> bool) \<Rightarrow> u64 \<Rightarrow> spirv_builder" where
  "empty_builder alloc dka = \<lparr>mem_ctx = alloc, deleted_key_address = dka, caps = None,
     bufs = (\<lambda>_. \<lparr>words = [], room = 0\<rparr>), b_types = None, b_consts = None, prev_id = 0\<rparr>"

definition spirv_builder_new_id :: "spirv_builder \<Rightarrow> u32 \<times> spirv_builder" where
  "spirv_builder_new_id b = (let b = b\<lparr>prev_id := prev_id b + 1\<rparr> in (prev_id b, b))"

section \<open>Emission primitives on the builder\<close>

definition prepare :: "spv_section \<Rightarrow> nat \<Rightarrow> spirv_builder \<Rightarrow> spirv_builder" where
  "prepare s n b = b\<lparr>bufs := (bufs b)(s := snd (spirv_buffer_prepare (mem_ctx b) (bufs b s) n))\<rparr>"

definition emit_word :: "spv_section \<Rightarrow> u32 \<Rightarrow> spirv_builder \<Rightarrow> (u32 \<times> spirv_builder) option" where
  "emit_word s w b = do {
     (pos, buf) \<leftarrow> spirv_buffer_emit_word (bufs b s) w;
     Some (pos, b\<lparr>bufs := (bufs b)(s := buf)\<rparr>) }"

text \<open>Consecutive calls of \<^verbatim>\<open>spirv_buffer_emit_word\<close> whose results are not used.\<close>

fun emit_words :: "spv_section \<Rightarrow> u32 list \<Rightarrow> spirv_builder \<Rightarrow> spirv_builder option" where
  "emit_words s [] b = Some b"
| "emit_words s (w # ws) b = do { (pos, b) \<leftarrow> emit_word s w b; emit_words s ws b }"

definition emit_string :: "bool \<Rightarrow> spv_section \<Rightarrow> u8 list \<Rightarrow> spirv_builder \<Rightarrow> (nat \<times> spirv_builder) option" where
  "emit_string cs s str b = do {
     (len, buf) \<leftarrow> spirv_buffer_emit_string cs (mem_ctx b) (bufs b s) str;
     Some (len, b\<lparr>bufs := (bufs b)(s := buf)\<rparr>) }"

definition or_word :: "spv_section \<Rightarrow> nat \<Rightarrow> u32 \<Rightarrow> spirv_builder \<Rightarrow> spirv_builder option" where
  "or_word s pos bits b = do {
     buf \<leftarrow> spirv_buffer_or_word (bufs b s) pos bits;
     Some (b\<lparr>bufs := (bufs b)(s := buf)\<rparr>) }"

section \<open>Capabilities\<close>

definition spirv_builder_emit_cap :: "spirv_builder \<Rightarrow> u32 \<Rightarrow> spirv_builder option" where
  "spirv_builder_emit_cap b cap = do {
     let b = (if caps b = None
              then b\<lparr>caps := mesa_set_create_u32_keys (mem_ctx b) (deleted_key_address b)\<rparr> else b)
     in do {
       s \<leftarrow> caps b;
       (entry, s) \<leftarrow> mesa_set_add (mem_ctx b) s (uint_key (ucast cap));
       Some (b\<lparr>caps := Some s\<rparr>) } }"

section \<open>Closed forms\<close>

text \<open>The words of a section.\<close>

abbreviation sect :: "spirv_builder \<Rightarrow> spv_section \<Rightarrow> u32 list" where
  "sect b s \<equiv> words (bufs b s)"

definition ready :: "spirv_builder \<Rightarrow> bool" where
  "ready b \<longleftrightarrow> (\<forall>n. mem_ctx b n) \<and> (\<forall>s. buf_ok (bufs b s))"

text \<open>Room prepared for \<open>n\<close> words, of which \<open>ws\<close> have been written.\<close>

definition with_words :: "spv_section \<Rightarrow> nat \<Rightarrow> u32 list \<Rightarrow> spirv_builder \<Rightarrow> spirv_builder" where
  "with_words s n ws b = b\<lparr>bufs := (bufs b)(s :=
     (prepared (mem_ctx b) (bufs b s) n)\<lparr>words := sect b s @ ws\<rparr>)\<rparr>"

lemma with_words_fields [simp]:
  "mem_ctx (with_words s n ws b) = mem_ctx b" "deleted_key_address (with_words s n ws b) = deleted_key_address b"
  "caps (with_words s n ws b) = caps b"
  "b_types (with_words s n ws b) = b_types b" "b_consts (with_words s n ws b) = b_consts b"
  "prev_id (with_words s n ws b) = prev_id b"
  "sect (with_words s n ws b) s' = (if s' = s then sect b s @ ws else sect b s')"
  by (simp_all add: with_words_def)

lemma prepare_fields [simp]:
  "mem_ctx (prepare s n b) = mem_ctx b" "caps (prepare s n b) = caps b"
  "deleted_key_address (prepare s n b) = deleted_key_address b"
  "b_types (prepare s n b) = b_types b" "b_consts (prepare s n b) = b_consts b" "prev_id (prepare s n b) = prev_id b"
  "sect (prepare s n b) s' = sect b s'"
  by (simp_all add: prepare_def)

lemma prepare_with_words: "prepare s n b = with_words s n [] b"
proof -
  have eq: "(prepared (mem_ctx b) (bufs b s) n)\<lparr>words := sect b s\<rparr> = prepared (mem_ctx b) (bufs b s) n"
    by (simp add: spirv_buffer.equality)
  show ?thesis unfolding prepare_def with_words_def append_Nil2 eq by (rule refl)
qed

lemma ready_room:
  assumes "ready b"
  shows "length (sect b s) + n \<le> room (prepared (mem_ctx b) (bufs b s) n)"
  using assms prepare_room prepare_ok unfolding ready_def by blast

lemma with_words_emit:
  assumes "ready b" "length ws < n"
  shows "emit_word s w (with_words s n ws b) =
    Some (of_nat (length (sect b s) + length ws), with_words s n (ws @ [w]) b)"
  using ready_room [OF assms(1), of s n] assms(2)
  by (simp add: emit_word_def with_words_def spirv_buffer_emit_word_def)

lemma with_words_emits [emit_simps]:
  assumes "ready b" "length ws + length ws' \<le> n"
  shows "emit_words s ws' (with_words s n ws b) = Some (with_words s n (ws @ ws') b)"
  using assms(2)
proof (induction ws' arbitrary: ws)
  case (Cons w ws')
  then show ?case using with_words_emit [OF assms(1), of ws n s w] by simp
qed simp

lemma prepare_emits [emit_simps]:
  assumes "ready b" "length ws \<le> n"
  shows "emit_words s ws (prepare s n b) = Some (with_words s n ws b)"
  using with_words_emits [OF assms(1), of "[]" ws n s] assms(2) by (simp add: prepare_with_words)

declare emit_words.simps(2) [simp del]

lemma ready_with_words [simp]: "ready b \<Longrightarrow> length ws \<le> n \<Longrightarrow> ready (with_words s n ws b)"
  using ready_room [of b s n] by (auto simp: ready_def with_words_def buf_ok_def)

lemma ready_updates [simp]:
  "ready (b\<lparr>prev_id := i\<rparr>) = ready b" "ready (b\<lparr>caps := c\<rparr>) = ready b" "ready (b\<lparr>b_types := t\<rparr>) = ready b"
  "ready (b\<lparr>b_consts := k\<rparr>) = ready b"
  by (simp_all add: ready_def)

lemma ready_alloc: "ready b \<Longrightarrow> mem_ctx b = (\<lambda>_. True)"
  by (auto simp: ready_def)

lemma ready_empty [simp]: "ready (empty_builder (\<lambda>_. True) dka)"
  by (simp add: ready_def empty_builder_def buf_ok_def)

lemma with_words_updates:
  "with_words s n ws (b\<lparr>prev_id := i\<rparr>) = (with_words s n ws b)\<lparr>prev_id := i\<rparr>"
  "with_words s n ws (b\<lparr>caps := c\<rparr>) = (with_words s n ws b)\<lparr>caps := c\<rparr>"
  "with_words s n ws (b\<lparr>b_types := t\<rparr>) = (with_words s n ws b)\<lparr>b_types := t\<rparr>"
  "with_words s n ws (b\<lparr>b_consts := k\<rparr>) = (with_words s n ws b)\<lparr>b_consts := k\<rparr>"
  by (simp_all add: with_words_def)

text \<open>Writes to two different sections do not interfere.\<close>

lemma with_words_commute:
  "s \<noteq> s' \<Longrightarrow> with_words s n ws (with_words s' n' ws' b) = with_words s' n' ws' (with_words s n ws b)"
  by (simp add: with_words_def fun_upd_twist)

end
