(* ===== verification/Spirv_Types.thy ===== *)
theory Spirv_Types
  imports Spirv_Builder
begin

text \<open>
  Types and constants of the builder: \<^verbatim>\<open>get_type_def\<close> and \<^verbatim>\<open>get_const_def\<close>, which declare
  each interned type and each constant once and remember its id in a hash table, and the functions
  built on them. A \<^verbatim>\<open>uint32_t args[]\<close> of \<^verbatim>\<open>num_args\<close> elements is the list of its
  elements. The comparison functions are total; that keys with the same opcode have the same number of operands, which they assert, is a lemma.
\<close>

section \<open>Keys\<close>

definition non_aggregate_type_hash :: "spirv_type ptr \<Rightarrow> u32" where
  "non_aggregate_type_hash arg = (case arg of
     Ptr type \<Rightarrow>
       (let hash = XXH32 (bytes_of_u32 (ty_op type)) 0
        in XXH32 (bytes_of_u32s (ty_args type)) hash)
   | _ \<Rightarrow> 0)"

text \<open>
  The comparison reads as many words as the first key has arguments. The second key is an entry of
  the table, whose array was zeroed when it was allocated. The assertion that both have the same number of
  arguments is not part of the function (release builds drop it); that it holds whenever the function is called is
  a theorem.
\<close>

definition arg_words :: "u32 list \<Rightarrow> u32 list" where
  "arg_words args = args @ replicate (8 - length args) 0"

definition non_aggregate_type_equals :: "spirv_type ptr \<Rightarrow> spirv_type ptr \<Rightarrow> bool" where
  "non_aggregate_type_equals a b = (case (a, b) of
     (Ptr ta, Ptr tb) \<Rightarrow>
       if ty_op ta \<noteq> ty_op tb then False
       else take (length (ty_args ta)) (arg_words (ty_args ta)) = take (length (ty_args ta)) (arg_words (ty_args tb))
   | _ \<Rightarrow> False)"

definition const_hash :: "spirv_const ptr \<Rightarrow> u32" where
  "const_hash arg = (case arg of
     Ptr key \<Rightarrow>
       (let hash = XXH32 (bytes_of_u32 (cn_op key)) 0;
            hash = XXH32 (bytes_of_u32 (cn_type key)) hash
        in XXH32 (bytes_of_u32s (cn_args key)) hash)
   | _ \<Rightarrow> 0)"

definition const_equals :: "spirv_const ptr \<Rightarrow> spirv_const ptr \<Rightarrow> bool" where
  "const_equals a b = (case (a, b) of
     (Ptr ca, Ptr cb) \<Rightarrow>
       if cn_op ca \<noteq> cn_op cb \<or> cn_type ca \<noteq> cn_type cb then False
       else take (length (cn_args ca)) (arg_words (cn_args ca)) = take (length (cn_args ca)) (arg_words (cn_args cb))
   | _ \<Rightarrow> False)"

section \<open>Types\<close>

text \<open>
  A data pointer read from an entry is dereferenced, so an entry without data would be undefined.
  The entry returned by the insertion is read back for its id.
\<close>

definition entry_data :: "('k, 'd) hash_table \<Rightarrow> u32 \<Rightarrow> 'd option" where
  "entry_data ht a = he_data (ht_table ht ! unat a)"

definition get_type_def :: "spirv_builder \<Rightarrow> u32 \<Rightarrow> u32 list \<Rightarrow> (u32 \<times> spirv_builder) option" where
  "get_type_def b op args = do {
     c_assert (length args \<le> 8);
     let key = \<lparr>ty_op = op, ty_args = args, ty_type = 0\<rparr>;
         declare_type = (\<lambda>b ht.
           if \<not> mem_ctx b 1 then Some (0, b\<lparr>b_types := Some ht\<rparr>)
           else do {
             let b = b\<lparr>b_types := Some ht\<rparr>;
                 (rid, b) = spirv_builder_new_id b;
                 type = \<lparr>ty_op = op, ty_args = args, ty_type = rid\<rparr>
             in do {
               b \<leftarrow> emit_words Types_const_defs (op_word op (2 + length args) # rid # args)
                      (prepare Types_const_defs (2 + length args) b);
               ht \<leftarrow> b_types b;
               (entry, ht) \<leftarrow> mesa_hash_table_insert (mem_ctx b) ht (Ptr type) (Some type);
               a \<leftarrow> entry;
               t \<leftarrow> entry_data ht a;
               Some (ty_type t, b\<lparr>b_types := Some ht\<rparr>) } })
     in case b_types b of
          Some ht \<Rightarrow> do {
            entry \<leftarrow> mesa_hash_table_search ht (Ptr key);
            case entry of
              Some a \<Rightarrow> do { t \<leftarrow> entry_data ht a; Some (ty_type t, b) }
            | None \<Rightarrow> declare_type b ht }
        | None \<Rightarrow> do {
            ht \<leftarrow> mesa_hash_table_create (mem_ctx b) (Some non_aggregate_type_hash) non_aggregate_type_equals;
            declare_type b ht } }"

definition spirv_builder_type_void :: "spirv_builder \<Rightarrow> (u32 \<times> spirv_builder) option" where
  "spirv_builder_type_void b = get_type_def b SpvOpTypeVoid []"

definition spirv_builder_type_bool :: "spirv_builder \<Rightarrow> (u32 \<times> spirv_builder) option" where
  "spirv_builder_type_bool b = get_type_def b SpvOpTypeBool []"

definition spirv_builder_type_int :: "spirv_builder \<Rightarrow> u32 \<Rightarrow> (u32 \<times> spirv_builder) option" where
  "spirv_builder_type_int b width = get_type_def b SpvOpTypeInt [width, 1]"

definition spirv_builder_type_uint :: "spirv_builder \<Rightarrow> u32 \<Rightarrow> (u32 \<times> spirv_builder) option" where
  "spirv_builder_type_uint b width = do {
     b \<leftarrow> (if width = 8 then spirv_builder_emit_cap b SpvCapabilityInt8
           else if width = 16 then spirv_builder_emit_cap b SpvCapabilityInt16
           else if width = 64 then spirv_builder_emit_cap b SpvCapabilityInt64
           else Some b);
     get_type_def b SpvOpTypeInt [width, 0] }"

definition spirv_builder_type_float :: "spirv_builder \<Rightarrow> u32 \<Rightarrow> (u32 \<times> spirv_builder) option" where
  "spirv_builder_type_float b width = do {
     b \<leftarrow> (if width = 16 then spirv_builder_emit_cap b SpvCapabilityFloat16
           else if width = 64 then spirv_builder_emit_cap b SpvCapabilityFloat64
           else Some b);
     get_type_def b SpvOpTypeFloat [width] }"

definition spirv_builder_type_image ::
  "spirv_builder \<Rightarrow> u32 \<Rightarrow> u32 \<Rightarrow> bool \<Rightarrow> bool \<Rightarrow> bool \<Rightarrow> u32 \<Rightarrow> u32 \<Rightarrow> (u32 \<times> spirv_builder) option" where
  "spirv_builder_type_image b sampled_type dim depth arrayed ms sampled image_format = do {
     c_assert (sampled < 3);
     b \<leftarrow> (if sampled = 2 \<and> ms \<and> dim \<noteq> SpvDimSubpassData
           then spirv_builder_emit_cap b SpvCapabilityStorageImageMultisample else Some b);
     get_type_def b SpvOpTypeImage
       [sampled_type, dim, if depth then 1 else 0, if arrayed then 1 else 0, if ms then 1 else 0, sampled, image_format] }"

definition spirv_builder_type_sampled_image :: "spirv_builder \<Rightarrow> u32 \<Rightarrow> (u32 \<times> spirv_builder) option" where
  "spirv_builder_type_sampled_image b image_type = get_type_def b SpvOpTypeSampledImage [image_type]"

definition spirv_builder_type_pointer :: "spirv_builder \<Rightarrow> u32 \<Rightarrow> u32 \<Rightarrow> (u32 \<times> spirv_builder) option" where
  "spirv_builder_type_pointer b storage_class type = get_type_def b SpvOpTypePointer [storage_class, type]"

definition spirv_builder_type_vector :: "spirv_builder \<Rightarrow> u32 \<Rightarrow> u32 \<Rightarrow> (u32 \<times> spirv_builder) option" where
  "spirv_builder_type_vector b component_type component_count = do {
     c_assert (component_count > 1);
     get_type_def b SpvOpTypeVector [component_type, component_count] }"

definition spirv_builder_type_matrix :: "spirv_builder \<Rightarrow> u32 \<Rightarrow> u32 \<Rightarrow> (u32 \<times> spirv_builder) option" where
  "spirv_builder_type_matrix b component_type component_count = do {
     c_assert (component_count > 1);
     get_type_def b SpvOpTypeMatrix [component_type, component_count] }"

definition spirv_builder_type_runtime_array :: "spirv_builder \<Rightarrow> u32 \<Rightarrow> (u32 \<times> spirv_builder) option" where
  "spirv_builder_type_runtime_array b component_type = do {
     let (type, b) = spirv_builder_new_id b
     in do {
       b \<leftarrow> emit_words Types_const_defs [op_word SpvOpTypeRuntimeArray 3, type, component_type]
              (prepare Types_const_defs 3 b);
       Some (type, b) } }"

definition spirv_builder_type_array :: "spirv_builder \<Rightarrow> u32 \<Rightarrow> u32 \<Rightarrow> (u32 \<times> spirv_builder) option" where
  "spirv_builder_type_array b component_type len = do {
     let (type, b) = spirv_builder_new_id b
     in do {
       b \<leftarrow> emit_words Types_const_defs [op_word SpvOpTypeArray 4, type, component_type, len]
              (prepare Types_const_defs 4 b);
       Some (type, b) } }"

definition spirv_builder_type_struct :: "spirv_builder \<Rightarrow> u32 list \<Rightarrow> (u32 \<times> spirv_builder) option" where
  "spirv_builder_type_struct b member_types = do {
     let n = 2 + length member_types; (type, b) = spirv_builder_new_id b
     in do {
       b \<leftarrow> emit_words Types_const_defs (op_word SpvOpTypeStruct n # type # member_types)
              (prepare Types_const_defs n b);
       Some (type, b) } }"

definition spirv_builder_type_function :: "spirv_builder \<Rightarrow> u32 \<Rightarrow> u32 list \<Rightarrow> (u32 \<times> spirv_builder) option" where
  "spirv_builder_type_function b return_type parameter_types = do {
     let n = 3 + length parameter_types; (type, b) = spirv_builder_new_id b
     in do {
       b \<leftarrow> emit_words Types_const_defs (op_word SpvOpTypeFunction n # type # return_type # parameter_types)
              (prepare Types_const_defs n b);
       Some (type, b) } }"

section \<open>Constants\<close>

definition get_const_def :: "spirv_builder \<Rightarrow> u32 \<Rightarrow> u32 \<Rightarrow> u32 list \<Rightarrow> (u32 \<times> spirv_builder) option" where
  "get_const_def b op type args = do {
     c_assert (length args \<le> 8);
     let key = \<lparr>cn_op = op, cn_type = type, cn_args = args, cn_result = 0\<rparr>;
         declare_const = (\<lambda>b ht.
           if \<not> mem_ctx b 1 then Some (0, b\<lparr>b_consts := Some ht\<rparr>)
           else do {
             let b = b\<lparr>b_consts := Some ht\<rparr>;
                 (rid, b) = spirv_builder_new_id b;
                 cnst = \<lparr>cn_op = op, cn_type = type, cn_args = args, cn_result = rid\<rparr>
             in do {
               b \<leftarrow> emit_words Types_const_defs (op_word op (3 + length args) # type # rid # args)
                      (prepare Types_const_defs (3 + length args) b);
               ht \<leftarrow> b_consts b;
               (entry, ht) \<leftarrow> mesa_hash_table_insert (mem_ctx b) ht (Ptr cnst) (Some cnst);
               a \<leftarrow> entry;
               c \<leftarrow> entry_data ht a;
               Some (cn_result c, b\<lparr>b_consts := Some ht\<rparr>) } })
     in case b_consts b of
          Some ht \<Rightarrow> do {
            entry \<leftarrow> mesa_hash_table_search ht (Ptr key);
            case entry of
              Some a \<Rightarrow> do { c \<leftarrow> entry_data ht a; Some (cn_result c, b) }
            | None \<Rightarrow> declare_const b ht }
        | None \<Rightarrow> do {
            ht \<leftarrow> mesa_hash_table_create (mem_ctx b) (Some const_hash) const_equals;
            declare_const b ht } }"

definition emit_constant_32 :: "spirv_builder \<Rightarrow> u32 \<Rightarrow> u32 \<Rightarrow> (u32 \<times> spirv_builder) option" where
  "emit_constant_32 b type val = get_const_def b SpvOpConstant type [val]"

definition emit_constant_64 :: "spirv_builder \<Rightarrow> u32 \<Rightarrow> u64 \<Rightarrow> (u32 \<times> spirv_builder) option" where
  "emit_constant_64 b type val =
     get_const_def b SpvOpConstant type [ucast (val AND 0xFFFFFFFF), ucast (drop_bit 32 val)]"

definition spirv_builder_const_bool :: "spirv_builder \<Rightarrow> bool \<Rightarrow> (u32 \<times> spirv_builder) option" where
  "spirv_builder_const_bool b val = do {
     (type, b) \<leftarrow> spirv_builder_type_bool b;
     get_const_def b (if val then SpvOpConstantTrue else SpvOpConstantFalse) type [] }"

text \<open>\<^verbatim>\<open>width\<close> is a C \<^verbatim>\<open>int\<close>; the comparison is signed.\<close>

definition spirv_builder_const_int :: "spirv_builder \<Rightarrow> u32 \<Rightarrow> u64 \<Rightarrow> (u32 \<times> spirv_builder) option" where
  "spirv_builder_const_int b width val = do {
     c_assert (16 \<le> sint width);
     (type, b) \<leftarrow> spirv_builder_type_int b width;
     if sint width \<le> 32 then emit_constant_32 b type (ucast val) else emit_constant_64 b type val }"

definition spirv_builder_const_uint :: "spirv_builder \<Rightarrow> u32 \<Rightarrow> u64 \<Rightarrow> (u32 \<times> spirv_builder) option" where
  "spirv_builder_const_uint b width val = do {
     c_assert (8 \<le> sint width);
     b \<leftarrow> (if width = 8 then spirv_builder_emit_cap b SpvCapabilityInt8
           else if width = 16 then spirv_builder_emit_cap b SpvCapabilityInt16
           else if width = 64 then spirv_builder_emit_cap b SpvCapabilityInt64
           else Some b);
     (type, b) \<leftarrow> spirv_builder_type_uint b width;
     if sint width \<le> 32 then emit_constant_32 b type (ucast val) else emit_constant_64 b type val }"

definition spirv_builder_const_composite :: "spirv_builder \<Rightarrow> u32 \<Rightarrow> u32 list \<Rightarrow> (u32 \<times> spirv_builder) option" where
  "spirv_builder_const_composite b result_type constituents =
     get_const_def b SpvOpConstantComposite result_type constituents"

end
