(* ===== verification/Spirv_Insts.thy ===== *)
theory Spirv_Insts
  imports Spirv_Types
begin

text \<open>
  The emission functions of \<^verbatim>\<open>spirv_builder.c\<close>, in the order of the file. Each takes the builder
  and returns it, with the id of its result where the C function returns one. Ids and enumeration values are
  32-bit words; an array argument and its length are one list. Where C evaluates a call as an argument of
  \<^verbatim>\<open>spirv_buffer_emit_word\<close>, the call comes first.
\<close>

section \<open>Module-level sections\<close>

text \<open>\<open>cs\<close> is the signedness of \<^verbatim>\<open>char\<close>.\<close>

definition spirv_builder_emit_extension :: "bool \<Rightarrow> spirv_builder \<Rightarrow> u8 list \<Rightarrow> spirv_builder option" where
  "spirv_builder_emit_extension cs b name = do {
     let pos = length (sect b Extensions)
     in do {
       b \<leftarrow> emit_words Extensions [SpvOpExtension] (prepare Extensions 1 b);
       (len, b) \<leftarrow> emit_string cs Extensions name b;
       or_word Extensions pos (push_bit 16 (of_nat (1 + len))) b } }"

definition spirv_builder_emit_source :: "spirv_builder \<Rightarrow> u32 \<Rightarrow> u32 \<Rightarrow> spirv_builder option" where
  "spirv_builder_emit_source b lang version =
     emit_words Debug_names [op_word SpvOpSource 3, lang, version] (prepare Debug_names 3 b)"

definition spirv_builder_emit_mem_model :: "spirv_builder \<Rightarrow> u32 \<Rightarrow> u32 \<Rightarrow> spirv_builder option" where
  "spirv_builder_emit_mem_model b addr_model mem_model =
     emit_words Memory_model [op_word SpvOpMemoryModel 3, addr_model, mem_model] (prepare Memory_model 3 b)"

definition spirv_builder_emit_entry_point ::
  "bool \<Rightarrow> spirv_builder \<Rightarrow> u32 \<Rightarrow> u32 \<Rightarrow> u8 list \<Rightarrow> u32 list \<Rightarrow> spirv_builder option" where
  "spirv_builder_emit_entry_point cs b exec_model entry_point name interfaces = do {
     let pos = length (sect b Entry_points)
     in do {
       b \<leftarrow> emit_words Entry_points [SpvOpEntryPoint, exec_model, entry_point] (prepare Entry_points 3 b);
       (len, b) \<leftarrow> emit_string cs Entry_points name b;
       b \<leftarrow> or_word Entry_points pos (push_bit 16 (of_nat (3 + len + length interfaces))) b;
       emit_words Entry_points interfaces (prepare Entry_points (length interfaces) b) } }"

definition spirv_builder_emit_exec_mode_literal ::
  "spirv_builder \<Rightarrow> u32 \<Rightarrow> u32 \<Rightarrow> u32 \<Rightarrow> (u32 \<times> spirv_builder) option" where
  "spirv_builder_emit_exec_mode_literal b entry_point exec_mode param = do {
     b \<leftarrow> emit_words Exec_modes [op_word SpvOpExecutionMode 4, entry_point, exec_mode] (prepare Exec_modes 4 b);
     emit_word Exec_modes param b }"

text \<open>\<^verbatim>\<open>param\<close> is an array of three words.\<close>

definition spirv_builder_emit_exec_mode_literal3 ::
  "spirv_builder \<Rightarrow> u32 \<Rightarrow> u32 \<Rightarrow> u32 \<times> u32 \<times> u32 \<Rightarrow> spirv_builder option" where
  "spirv_builder_emit_exec_mode_literal3 b entry_point exec_mode param =
     (case param of (p0, p1, p2) \<Rightarrow>
        emit_words Exec_modes [op_word SpvOpExecutionMode 6, entry_point, exec_mode, p0, p1, p2] (prepare Exec_modes 6 b))"

definition spirv_builder_emit_exec_mode :: "spirv_builder \<Rightarrow> u32 \<Rightarrow> u32 \<Rightarrow> spirv_builder option" where
  "spirv_builder_emit_exec_mode b entry_point exec_mode =
     emit_words Exec_modes [op_word SpvOpExecutionMode 3, entry_point, exec_mode] (prepare Exec_modes 3 b)"

definition spirv_builder_emit_name :: "bool \<Rightarrow> spirv_builder \<Rightarrow> u32 \<Rightarrow> u8 list \<Rightarrow> spirv_builder option" where
  "spirv_builder_emit_name cs b target name = do {
     let pos = length (sect b Debug_names)
     in do {
       b \<leftarrow> emit_words Debug_names [SpvOpName, target] (prepare Debug_names 2 b);
       (len, b) \<leftarrow> emit_string cs Debug_names name b;
       or_word Debug_names pos (push_bit 16 (of_nat (2 + len))) b } }"

definition spirv_builder_import :: "bool \<Rightarrow> spirv_builder \<Rightarrow> u8 list \<Rightarrow> (u32 \<times> spirv_builder) option" where
  "spirv_builder_import cs b name = do {
     let (result, b) = spirv_builder_new_id b; pos = length (sect b Imports)
     in do {
       b \<leftarrow> emit_words Imports [SpvOpExtInstImport, result] (prepare Imports 2 b);
       (len, b) \<leftarrow> emit_string cs Imports name b;
       b \<leftarrow> or_word Imports pos (push_bit 16 (of_nat (2 + len))) b;
       Some (result, b) } }"

section \<open>Decorations\<close>

definition emit_decoration :: "spirv_builder \<Rightarrow> u32 \<Rightarrow> u32 \<Rightarrow> u32 list \<Rightarrow> spirv_builder option" where
  "emit_decoration b target decoration extra_operands =
     (let n = 3 + length extra_operands
      in emit_words Decorations (op_word SpvOpDecorate n # target # decoration # extra_operands) (prepare Decorations n b))"

definition spirv_builder_emit_decoration :: "spirv_builder \<Rightarrow> u32 \<Rightarrow> u32 \<Rightarrow> spirv_builder option" where
  "spirv_builder_emit_decoration b target decoration = emit_decoration b target decoration []"

definition spirv_builder_emit_input_attachment_index :: "spirv_builder \<Rightarrow> u32 \<Rightarrow> u32 \<Rightarrow> spirv_builder option" where
  "spirv_builder_emit_input_attachment_index b target i = emit_decoration b target SpvDecorationInputAttachmentIndex [i]"

definition spirv_builder_emit_specid :: "spirv_builder \<Rightarrow> u32 \<Rightarrow> u32 \<Rightarrow> spirv_builder option" where
  "spirv_builder_emit_specid b target i = emit_decoration b target SpvDecorationSpecId [i]"

definition spirv_builder_emit_location :: "spirv_builder \<Rightarrow> u32 \<Rightarrow> u32 \<Rightarrow> spirv_builder option" where
  "spirv_builder_emit_location b target location = emit_decoration b target SpvDecorationLocation [location]"

definition spirv_builder_emit_component :: "spirv_builder \<Rightarrow> u32 \<Rightarrow> u32 \<Rightarrow> spirv_builder option" where
  "spirv_builder_emit_component b target component = emit_decoration b target SpvDecorationComponent [component]"

definition spirv_builder_emit_builtin :: "spirv_builder \<Rightarrow> u32 \<Rightarrow> u32 \<Rightarrow> spirv_builder option" where
  "spirv_builder_emit_builtin b target builtin = emit_decoration b target SpvDecorationBuiltIn [builtin]"

definition spirv_builder_emit_descriptor_set :: "spirv_builder \<Rightarrow> u32 \<Rightarrow> u32 \<Rightarrow> spirv_builder option" where
  "spirv_builder_emit_descriptor_set b target descriptor_set =
     emit_decoration b target SpvDecorationDescriptorSet [descriptor_set]"

definition spirv_builder_emit_binding :: "spirv_builder \<Rightarrow> u32 \<Rightarrow> u32 \<Rightarrow> spirv_builder option" where
  "spirv_builder_emit_binding b target binding = emit_decoration b target SpvDecorationBinding [binding]"

definition spirv_builder_emit_array_stride :: "spirv_builder \<Rightarrow> u32 \<Rightarrow> u32 \<Rightarrow> spirv_builder option" where
  "spirv_builder_emit_array_stride b target stride = emit_decoration b target SpvDecorationArrayStride [stride]"

definition spirv_builder_emit_offset :: "spirv_builder \<Rightarrow> u32 \<Rightarrow> u32 \<Rightarrow> spirv_builder option" where
  "spirv_builder_emit_offset b target offset = emit_decoration b target SpvDecorationOffset [offset]"

definition spirv_builder_emit_xfb_buffer :: "spirv_builder \<Rightarrow> u32 \<Rightarrow> u32 \<Rightarrow> spirv_builder option" where
  "spirv_builder_emit_xfb_buffer b target buffer = emit_decoration b target SpvDecorationXfbBuffer [buffer]"

definition spirv_builder_emit_xfb_stride :: "spirv_builder \<Rightarrow> u32 \<Rightarrow> u32 \<Rightarrow> spirv_builder option" where
  "spirv_builder_emit_xfb_stride b target stride = emit_decoration b target SpvDecorationXfbStride [stride]"

definition spirv_builder_emit_index :: "spirv_builder \<Rightarrow> u32 \<Rightarrow> u32 \<Rightarrow> spirv_builder option" where
  "spirv_builder_emit_index b target index = emit_decoration b target SpvDecorationIndex [index]"

definition spirv_builder_emit_stream :: "spirv_builder \<Rightarrow> u32 \<Rightarrow> u32 \<Rightarrow> spirv_builder option" where
  "spirv_builder_emit_stream b target stream = emit_decoration b target SpvDecorationStream [stream]"

definition emit_member_decoration :: "spirv_builder \<Rightarrow> u32 \<Rightarrow> u32 \<Rightarrow> u32 \<Rightarrow> u32 list \<Rightarrow> spirv_builder option" where
  "emit_member_decoration b target member decoration extra_operands =
     (let n = 4 + length extra_operands
      in emit_words Decorations (op_word SpvOpMemberDecorate n # target # member # decoration # extra_operands)
           (prepare Decorations n b))"

definition spirv_builder_emit_member_offset :: "spirv_builder \<Rightarrow> u32 \<Rightarrow> u32 \<Rightarrow> u32 \<Rightarrow> spirv_builder option" where
  "spirv_builder_emit_member_offset b target member offset =
     emit_member_decoration b target member SpvDecorationOffset [offset]"

section \<open>Function structure, loads and stores\<close>

definition spirv_builder_emit_vertex :: "spirv_builder \<Rightarrow> u32 \<Rightarrow> spirv_builder option" where
  "spirv_builder_emit_vertex b stream = do {
     let (op, n) = (if stream > 0 then (SpvOpEmitStreamVertex, 2) else (SpvOpEmitVertex, 1))
     in do {
       b \<leftarrow> emit_words Instructions [op_word op n] (prepare Instructions n b);
       if stream \<noteq> 0
       then do {
         (c, b) \<leftarrow> spirv_builder_const_uint b 32 (ucast stream);
         emit_words Instructions [c] b }
       else Some b } }"

definition spirv_builder_end_primitive :: "spirv_builder \<Rightarrow> u32 \<Rightarrow> spirv_builder option" where
  "spirv_builder_end_primitive b stream = do {
     let (op, n) = (if stream > 0 then (SpvOpEndStreamPrimitive, 2) else (SpvOpEndPrimitive, 1))
     in do {
       b \<leftarrow> emit_words Instructions [op_word op n] (prepare Instructions n b);
       if stream \<noteq> 0
       then do {
         (c, b) \<leftarrow> spirv_builder_const_uint b 32 (ucast stream);
         emit_words Instructions [c] b }
       else Some b } }"

definition spirv_builder_emit_undef :: "spirv_builder \<Rightarrow> u32 \<Rightarrow> (u32 \<times> spirv_builder) option" where
  "spirv_builder_emit_undef b result_type = do {
     let (result, b) = spirv_builder_new_id b
     in do {
       b \<leftarrow> emit_words Instructions [op_word SpvOpUndef 3, result_type, result] (prepare Instructions 3 b);
       Some (result, b) } }"

definition spirv_builder_function :: "spirv_builder \<Rightarrow> u32 \<Rightarrow> u32 \<Rightarrow> u32 \<Rightarrow> u32 \<Rightarrow> spirv_builder option" where
  "spirv_builder_function b result return_type function_control function_type =
     emit_words Instructions [op_word SpvOpFunction 5, return_type, result, function_control, function_type]
       (prepare Instructions 5 b)"

definition spirv_builder_function_end :: "spirv_builder \<Rightarrow> spirv_builder option" where
  "spirv_builder_function_end b = emit_words Instructions [op_word SpvOpFunctionEnd 1] (prepare Instructions 1 b)"

definition spirv_builder_label :: "spirv_builder \<Rightarrow> u32 \<Rightarrow> spirv_builder option" where
  "spirv_builder_label b label = emit_words Instructions [op_word SpvOpLabel 2, label] (prepare Instructions 2 b)"

definition spirv_builder_return :: "spirv_builder \<Rightarrow> spirv_builder option" where
  "spirv_builder_return b = emit_words Instructions [op_word SpvOpReturn 1] (prepare Instructions 1 b)"

definition spirv_builder_emit_unop :: "spirv_builder \<Rightarrow> u32 \<Rightarrow> u32 \<Rightarrow> u32 \<Rightarrow> (u32 \<times> spirv_builder) option" where
  "spirv_builder_emit_unop b op result_type operand = do {
     let (result, b) = spirv_builder_new_id b
     in do {
       b \<leftarrow> emit_words Instructions [op_word op 4, result_type, result, operand] (prepare Instructions 4 b);
       Some (result, b) } }"

definition spirv_builder_emit_load :: "spirv_builder \<Rightarrow> u32 \<Rightarrow> u32 \<Rightarrow> (u32 \<times> spirv_builder) option" where
  "spirv_builder_emit_load b result_type pointer = spirv_builder_emit_unop b SpvOpLoad result_type pointer"

definition spirv_builder_emit_store :: "spirv_builder \<Rightarrow> u32 \<Rightarrow> u32 \<Rightarrow> spirv_builder option" where
  "spirv_builder_emit_store b pointer object =
     emit_words Instructions [op_word SpvOpStore 3, pointer, object] (prepare Instructions 3 b)"

definition spirv_builder_emit_atomic_store ::
  "spirv_builder \<Rightarrow> u32 \<Rightarrow> u32 \<Rightarrow> u32 \<Rightarrow> u32 \<Rightarrow> spirv_builder option" where
  "spirv_builder_emit_atomic_store b pointer scope semantics object = do {
     b \<leftarrow> emit_words Instructions [op_word SpvOpAtomicStore 5, pointer] (prepare Instructions 5 b);
     (c, b) \<leftarrow> spirv_builder_const_uint b 32 (ucast scope);
     b \<leftarrow> emit_words Instructions [c] b;
     (c, b) \<leftarrow> spirv_builder_const_uint b 32 (ucast semantics);
     b \<leftarrow> emit_words Instructions [c] b;
     emit_words Instructions [object] b }"

definition spirv_builder_emit_access_chain ::
  "spirv_builder \<Rightarrow> u32 \<Rightarrow> u32 \<Rightarrow> u32 list \<Rightarrow> (u32 \<times> spirv_builder) option" where
  "spirv_builder_emit_access_chain b result_type base indexes = do {
     c_assert (base \<noteq> 0);
     c_assert (result_type \<noteq> 0);
     let (result, b) = spirv_builder_new_id b; n = 4 + length indexes
     in do {
       c_assert (list_all (\<lambda>i. i \<noteq> 0) indexes);
       b \<leftarrow> emit_words Instructions (op_word SpvOpAccessChain n # result_type # result # base # indexes)
              (prepare Instructions n b);
       Some (result, b) } }"

definition spirv_builder_emit_interlock :: "spirv_builder \<Rightarrow> bool \<Rightarrow> spirv_builder option" where
  "spirv_builder_emit_interlock b end_lock =
     emit_words Instructions
       [op_word (if end_lock then SpvOpEndInvocationInterlockEXT else SpvOpBeginInvocationInterlockEXT) 1]
       (prepare Instructions 1 b)"

section \<open>Operations\<close>

definition spirv_builder_emit_unop_const :: "spirv_builder \<Rightarrow> u32 \<Rightarrow> u32 \<Rightarrow> u64 \<Rightarrow> (u32 \<times> spirv_builder) option" where
  "spirv_builder_emit_unop_const b op result_type operand = do {
     let (result, b) = spirv_builder_new_id b
     in do {
       b \<leftarrow> emit_words Instructions [op_word op 4, result_type, result] (prepare Instructions 4 b);
       (c, b) \<leftarrow> spirv_builder_const_uint b 32 operand;
       b \<leftarrow> emit_words Instructions [c] b;
       Some (result, b) } }"

definition spirv_builder_emit_binop :: "spirv_builder \<Rightarrow> u32 \<Rightarrow> u32 \<Rightarrow> u32 \<Rightarrow> u32 \<Rightarrow> (u32 \<times> spirv_builder) option" where
  "spirv_builder_emit_binop b op result_type operand0 operand1 = do {
     let (result, b) = spirv_builder_new_id b
     in do {
       b \<leftarrow> emit_words Instructions [op_word op 5, result_type, result, operand0, operand1] (prepare Instructions 5 b);
       Some (result, b) } }"

definition spirv_builder_emit_triop ::
  "spirv_builder \<Rightarrow> u32 \<Rightarrow> u32 \<Rightarrow> u32 \<Rightarrow> u32 \<Rightarrow> u32 \<Rightarrow> (u32 \<times> spirv_builder) option" where
  "spirv_builder_emit_triop b op result_type operand0 operand1 operand2 = do {
     let (result, b) = spirv_builder_new_id b
     in do {
       b \<leftarrow> emit_words Instructions [op_word op 6, result_type, result, operand0, operand1, operand2]
              (prepare Instructions 6 b);
       Some (result, b) } }"

definition spirv_builder_emit_quadop ::
  "spirv_builder \<Rightarrow> u32 \<Rightarrow> u32 \<Rightarrow> u32 \<Rightarrow> u32 \<Rightarrow> u32 \<Rightarrow> u32 \<Rightarrow> (u32 \<times> spirv_builder) option" where
  "spirv_builder_emit_quadop b op result_type operand0 operand1 operand2 operand3 = do {
     let (result, b) = spirv_builder_new_id b
     in do {
       b \<leftarrow> emit_words Instructions [op_word op 7, result_type, result, operand0, operand1, operand2, operand3]
              (prepare Instructions 7 b);
       Some (result, b) } }"

definition spirv_builder_emit_hexop ::
  "spirv_builder \<Rightarrow> u32 \<Rightarrow> u32 \<Rightarrow> u32 \<Rightarrow> u32 \<Rightarrow> u32 \<Rightarrow> u32 \<Rightarrow> u32 \<Rightarrow> u32 \<Rightarrow> (u32 \<times> spirv_builder) option" where
  "spirv_builder_emit_hexop b op result_type operand0 operand1 operand2 operand3 operand4 operand5 = do {
     let (result, b) = spirv_builder_new_id b
     in do {
       b \<leftarrow> emit_words Instructions
              [op_word op 9, result_type, result, operand0, operand1, operand2, operand3, operand4, operand5]
              (prepare Instructions 9 b);
       Some (result, b) } }"

definition spirv_builder_emit_composite_extract ::
  "spirv_builder \<Rightarrow> u32 \<Rightarrow> u32 \<Rightarrow> u32 list \<Rightarrow> (u32 \<times> spirv_builder) option" where
  "spirv_builder_emit_composite_extract b result_type composite indexes = do {
     let (result, b) = spirv_builder_new_id b; n = 4 + length indexes
     in do {
       c_assert (length indexes > 0);
       b \<leftarrow> emit_words Instructions (op_word SpvOpCompositeExtract n # result_type # result # composite # indexes)
              (prepare Instructions n b);
       Some (result, b) } }"

definition spirv_builder_emit_composite_construct ::
  "spirv_builder \<Rightarrow> u32 \<Rightarrow> u32 list \<Rightarrow> (u32 \<times> spirv_builder) option" where
  "spirv_builder_emit_composite_construct b result_type constituents = do {
     let (result, b) = spirv_builder_new_id b; n = 3 + length constituents
     in do {
       c_assert (length constituents > 0);
       b \<leftarrow> emit_words Instructions (op_word SpvOpCompositeConstruct n # result_type # result # constituents)
              (prepare Instructions n b);
       Some (result, b) } }"

definition spirv_builder_emit_vector_shuffle ::
  "spirv_builder \<Rightarrow> u32 \<Rightarrow> u32 \<Rightarrow> u32 \<Rightarrow> u32 list \<Rightarrow> (u32 \<times> spirv_builder) option" where
  "spirv_builder_emit_vector_shuffle b result_type vector_1 vector_2 components = do {
     let (result, b) = spirv_builder_new_id b; n = 5 + length components
     in do {
       c_assert (length components > 0);
       b \<leftarrow> emit_words Instructions
              (op_word SpvOpVectorShuffle n # result_type # result # vector_1 # vector_2 # components)
              (prepare Instructions n b);
       Some (result, b) } }"

definition spirv_builder_emit_vector_extract ::
  "spirv_builder \<Rightarrow> u32 \<Rightarrow> u32 \<Rightarrow> u32 \<Rightarrow> (u32 \<times> spirv_builder) option" where
  "spirv_builder_emit_vector_extract b result_type vector_1 component = do {
     let (result, b) = spirv_builder_new_id b
     in do {
       b \<leftarrow> emit_words Instructions [op_word SpvOpVectorExtractDynamic 5, result_type, result, vector_1]
              (prepare Instructions 5 b);
       (c, b) \<leftarrow> spirv_builder_const_uint b 32 (ucast component);
       b \<leftarrow> emit_words Instructions [c] b;
       Some (result, b) } }"

definition spirv_builder_emit_vector_insert ::
  "spirv_builder \<Rightarrow> u32 \<Rightarrow> u32 \<Rightarrow> u32 \<Rightarrow> u32 \<Rightarrow> (u32 \<times> spirv_builder) option" where
  "spirv_builder_emit_vector_insert b result_type vector_1 component index = do {
     let (result, b) = spirv_builder_new_id b
     in do {
       b \<leftarrow> emit_words Instructions [op_word SpvOpVectorInsertDynamic 6, result_type, result, vector_1, component]
              (prepare Instructions 6 b);
       (c, b) \<leftarrow> spirv_builder_const_uint b 32 (ucast index);
       b \<leftarrow> emit_words Instructions [c] b;
       Some (result, b) } }"

section \<open>Control flow\<close>

definition spirv_builder_emit_branch :: "spirv_builder \<Rightarrow> u32 \<Rightarrow> spirv_builder option" where
  "spirv_builder_emit_branch b label = emit_words Instructions [op_word SpvOpBranch 2, label] (prepare Instructions 2 b)"

definition spirv_builder_emit_selection_merge :: "spirv_builder \<Rightarrow> u32 \<Rightarrow> u32 \<Rightarrow> spirv_builder option" where
  "spirv_builder_emit_selection_merge b merge_block selection_control =
     emit_words Instructions [op_word SpvOpSelectionMerge 3, merge_block, selection_control] (prepare Instructions 3 b)"

definition spirv_builder_loop_merge :: "spirv_builder \<Rightarrow> u32 \<Rightarrow> u32 \<Rightarrow> u32 \<Rightarrow> spirv_builder option" where
  "spirv_builder_loop_merge b merge_block cont_target loop_control =
     emit_words Instructions [op_word SpvOpLoopMerge 4, merge_block, cont_target, loop_control] (prepare Instructions 4 b)"

definition spirv_builder_emit_branch_conditional :: "spirv_builder \<Rightarrow> u32 \<Rightarrow> u32 \<Rightarrow> u32 \<Rightarrow> spirv_builder option" where
  "spirv_builder_emit_branch_conditional b condition true_label false_label =
     emit_words Instructions [op_word SpvOpBranchConditional 4, condition, true_label, false_label]
       (prepare Instructions 4 b)"

text \<open>The result, and the position of the operands, which are filled in later.\<close>

definition spirv_builder_emit_phi :: "spirv_builder \<Rightarrow> u32 \<Rightarrow> nat \<Rightarrow> (u32 \<times> nat \<times> spirv_builder) option" where
  "spirv_builder_emit_phi b result_type num_vars = do {
     let (result, b) = spirv_builder_new_id b; n = 3 + 2 * num_vars
     in do {
       c_assert (num_vars > 0);
       b \<leftarrow> emit_words Instructions [op_word SpvOpPhi n, result_type, result] (prepare Instructions n b);
       let position = length (sect b Instructions)
       in do {
         b \<leftarrow> emit_words Instructions (replicate (2 * num_vars) 0) b;
         Some (result, position, b) } } }"

definition spirv_builder_set_phi_operand ::
  "spirv_builder \<Rightarrow> nat \<Rightarrow> nat \<Rightarrow> u32 \<Rightarrow> u32 \<Rightarrow> spirv_builder option" where
  "spirv_builder_set_phi_operand b position index variable parent = do {
     ws \<leftarrow> array_set (sect b Instructions) (position + index * 2 + 0) variable;
     ws \<leftarrow> array_set ws (position + index * 2 + 1) parent;
     Some (b\<lparr>bufs := (bufs b)(Instructions := (bufs b Instructions)\<lparr>words := ws\<rparr>)\<rparr>) }"

definition spirv_builder_emit_kill :: "spirv_builder \<Rightarrow> spirv_builder option" where
  "spirv_builder_emit_kill b = emit_words Instructions [op_word SpvOpKill 1] (prepare Instructions 1 b)"

text \<open>C leaves the order of the two argument calls open; \<open>type_first\<close> is the compiler's choice.\<close>

definition spirv_builder_emit_vote :: "bool \<Rightarrow> spirv_builder \<Rightarrow> u32 \<Rightarrow> u32 \<Rightarrow> (u32 \<times> spirv_builder) option" where
  "spirv_builder_emit_vote type_first b op src =
     (if type_first
      then do {
        (t, b) \<leftarrow> spirv_builder_type_bool b;
        (c, b) \<leftarrow> spirv_builder_const_uint b 32 (ucast (SpvScopeSubgroup :: u32));
        spirv_builder_emit_binop b op t c src }
      else do {
        (c, b) \<leftarrow> spirv_builder_const_uint b 32 (ucast (SpvScopeSubgroup :: u32));
        (t, b) \<leftarrow> spirv_builder_type_bool b;
        spirv_builder_emit_binop b op t c src })"

end
