(* ===== verification/Spirv_Images.thy ===== *)
theory Spirv_Images
  imports Spirv_Insts
begin

text \<open>
  The image instructions of \<^verbatim>\<open>spirv_builder.c\<close>, with their optional operands, and the remaining
  emission functions: queries, extended instructions, specialisation constants, variables and barriers. The local
  array \<^verbatim>\<open>extra_operands\<close> has a fixed size; a write past its end is undefined. The theory also shows
  that no such write can happen and that the opcode arithmetic of the sampling function hits the right opcode.
\<close>

section \<open>Optional operands\<close>

text \<open>
  \<^verbatim>\<open>if (x) { extra_operands[num_extra_operands++] = x; operand_mask |= bit; }\<close> with an array of
  \<open>cap\<close> elements. The state is the mask and the elements from index 1 on; element 0 is reserved for the mask.
\<close>

definition extra_operand :: "nat \<Rightarrow> u32 \<Rightarrow> u32 list \<Rightarrow> u32 \<times> u32 list \<Rightarrow> (u32 \<times> u32 list) option" where
  "extra_operand cap bits xs st = (case st of (m, extra) \<Rightarrow> do {
     c_assert (1 + length extra + length xs \<le> cap);
     Some (m OR bits, extra @ xs) })"

definition optional_operand :: "nat \<Rightarrow> u32 \<Rightarrow> u32 \<Rightarrow> u32 \<times> u32 list \<Rightarrow> (u32 \<times> u32 list) option" where
  "optional_operand cap bits x st = (if x \<noteq> 0 then extra_operand cap bits [x] st else Some st)"

text \<open>\<^verbatim>\<open>assert(!(const_offset && offset))\<close> and the two cases after it.\<close>

definition offset_operand :: "nat \<Rightarrow> u32 \<Rightarrow> u32 \<Rightarrow> u32 \<times> u32 list \<Rightarrow> (u32 \<times> u32 list) option" where
  "offset_operand cap const_offset offset st = do {
     c_assert (\<not> (const_offset \<noteq> 0 \<and> offset \<noteq> 0));
     if const_offset \<noteq> 0 then extra_operand cap SpvImageOperandsConstOffsetMask [const_offset] st
     else optional_operand cap SpvImageOperandsOffsetMask offset st }"

section \<open>Image instructions\<close>

definition sparse_wrap_result_type :: "spirv_builder \<Rightarrow> u32 \<Rightarrow> (u32 \<times> spirv_builder) option" where
  "sparse_wrap_result_type b result_type = do {
     (t, b) \<leftarrow> spirv_builder_type_uint b 32;
     spirv_builder_type_struct b [t, result_type] }"

definition image_sample_opcode :: "bool \<Rightarrow> bool \<Rightarrow> u32 \<Rightarrow> u32 \<Rightarrow> u32 \<Rightarrow> u32 \<Rightarrow> u32" where
  "image_sample_opcode sparse proj lod dref dx dy =
     (if sparse
      then SpvOpImageSparseSampleImplicitLod
         + (if proj then SpvOpImageSparseSampleProjImplicitLod - SpvOpImageSparseSampleImplicitLod else 0)
         + (if lod \<noteq> 0 \<or> dx \<noteq> 0 \<and> dy \<noteq> 0 then SpvOpImageSparseSampleExplicitLod - SpvOpImageSparseSampleImplicitLod else 0)
         + (if dref \<noteq> 0 then SpvOpImageSparseSampleDrefImplicitLod - SpvOpImageSparseSampleImplicitLod else 0)
      else SpvOpImageSampleImplicitLod
         + (if proj then SpvOpImageSampleProjImplicitLod - SpvOpImageSampleImplicitLod else 0)
         + (if lod \<noteq> 0 \<or> dx \<noteq> 0 \<and> dy \<noteq> 0 then SpvOpImageSampleExplicitLod - SpvOpImageSampleImplicitLod else 0)
         + (if dref \<noteq> 0 then SpvOpImageSampleDrefImplicitLod - SpvOpImageSampleImplicitLod else 0))"

definition image_sample_operands ::
  "u32 \<Rightarrow> u32 \<Rightarrow> u32 \<Rightarrow> u32 \<Rightarrow> u32 \<Rightarrow> u32 \<Rightarrow> u32 \<Rightarrow> (u32 \<times> u32 list) option" where
  "image_sample_operands lod bias dx dy const_offset offset min_lod = do {
     st \<leftarrow> optional_operand 6 SpvImageOperandsBiasMask bias (SpvImageOperandsMaskNone, []);
     st \<leftarrow> (if lod \<noteq> 0 then extra_operand 6 SpvImageOperandsLodMask [lod] st
            else if dx \<noteq> 0 \<and> dy \<noteq> 0 then extra_operand 6 SpvImageOperandsGradMask [dx, dy] st
            else Some st);
     st \<leftarrow> offset_operand 6 const_offset offset st;
     optional_operand 6 SpvImageOperandsMinLodMask min_lod st }"

definition spirv_builder_emit_image_sample ::
  "spirv_builder \<Rightarrow> u32 \<Rightarrow> u32 \<Rightarrow> u32 \<Rightarrow> bool \<Rightarrow> u32 \<Rightarrow> u32 \<Rightarrow> u32 \<Rightarrow> u32 \<Rightarrow> u32 \<Rightarrow> u32 \<Rightarrow> u32 \<Rightarrow> u32 \<Rightarrow> bool
    \<Rightarrow> (u32 \<times> spirv_builder) option" where
  "spirv_builder_emit_image_sample b result_type sampled_image coordinate proj lod bias dref dx dy const_offset offset
     min_lod sparse = do {
     let (result, b) = spirv_builder_new_id b;
         operands = (if dref \<noteq> 0 then 6 else 5);
         opcode = image_sample_opcode sparse proj lod dref dx dy
     in do {
       (result_type, b) \<leftarrow> (if sparse then sparse_wrap_result_type b result_type else Some (result_type, b));
       (operand_mask, extra) \<leftarrow> image_sample_operands lod bias dx dy const_offset offset min_lod;
       let num_extra_operands = 1 + length extra
       in do {
         b \<leftarrow> emit_words Instructions
                ([op_word opcode (operands + num_extra_operands), result_type, result, sampled_image, coordinate] @
                 (if dref \<noteq> 0 then [dref] else []) @ operand_mask # extra)
                (prepare Instructions (operands + num_extra_operands) b);
         Some (result, b) } } }"

definition spirv_builder_emit_image :: "spirv_builder \<Rightarrow> u32 \<Rightarrow> u32 \<Rightarrow> (u32 \<times> spirv_builder) option" where
  "spirv_builder_emit_image b result_type sampled_image = do {
     let (result, b) = spirv_builder_new_id b
     in do {
       b \<leftarrow> emit_words Instructions [op_word SpvOpImage 4, result_type, result, sampled_image] (prepare Instructions 4 b);
       Some (result, b) } }"

definition spirv_builder_emit_image_texel_pointer ::
  "spirv_builder \<Rightarrow> u32 \<Rightarrow> u32 \<Rightarrow> u32 \<Rightarrow> u32 \<Rightarrow> (u32 \<times> spirv_builder) option" where
  "spirv_builder_emit_image_texel_pointer b result_type img coordinate sample = do {
     (pointer_type, b) \<leftarrow> spirv_builder_type_pointer b SpvStorageClassImage result_type;
     spirv_builder_emit_triop b SpvOpImageTexelPointer pointer_type img coordinate sample }"

definition image_read_operands :: "u32 \<Rightarrow> u32 \<Rightarrow> u32 \<Rightarrow> (u32 \<times> u32 list) option" where
  "image_read_operands lod sample offset = do {
     st \<leftarrow> optional_operand 5 SpvImageOperandsLodMask lod (SpvImageOperandsMaskNone, []);
     st \<leftarrow> optional_operand 5 SpvImageOperandsSampleMask sample st;
     optional_operand 5 SpvImageOperandsOffsetMask offset st }"

definition spirv_builder_emit_image_read ::
  "spirv_builder \<Rightarrow> u32 \<Rightarrow> u32 \<Rightarrow> u32 \<Rightarrow> u32 \<Rightarrow> u32 \<Rightarrow> u32 \<Rightarrow> bool \<Rightarrow> (u32 \<times> spirv_builder) option" where
  "spirv_builder_emit_image_read b result_type img coordinate lod sample offset sparse = do {
     let (result, b) = spirv_builder_new_id b
     in do {
       (result_type, b) \<leftarrow> (if sparse then sparse_wrap_result_type b result_type else Some (result_type, b));
       (operand_mask, extra) \<leftarrow> image_read_operands lod sample offset;
       let num_extra_operands = 1 + length extra
       in do {
         b \<leftarrow> emit_words Instructions
                ([op_word (if sparse then SpvOpImageSparseRead else SpvOpImageRead) (5 + num_extra_operands),
                  result_type, result, img, coordinate] @ operand_mask # extra)
                (prepare Instructions (5 + num_extra_operands) b);
         Some (result, b) } } }"

definition spirv_builder_emit_image_write ::
  "spirv_builder \<Rightarrow> u32 \<Rightarrow> u32 \<Rightarrow> u32 \<Rightarrow> u32 \<Rightarrow> u32 \<Rightarrow> u32 \<Rightarrow> spirv_builder option" where
  "spirv_builder_emit_image_write b img coordinate texel lod sample offset = do {
     (operand_mask, extra) \<leftarrow> image_read_operands lod sample offset;
     let num_extra_operands = 1 + length extra
     in emit_words Instructions
          ([op_word SpvOpImageWrite (4 + num_extra_operands), img, coordinate, texel] @ operand_mask # extra)
          (prepare Instructions (4 + num_extra_operands) b) }"

definition image_fetch_operands :: "u32 \<Rightarrow> u32 \<Rightarrow> u32 \<Rightarrow> u32 \<Rightarrow> (u32 \<times> u32 list) option" where
  "image_fetch_operands lod sample const_offset offset = do {
     st \<leftarrow> optional_operand 4 SpvImageOperandsLodMask lod (SpvImageOperandsMaskNone, []);
     st \<leftarrow> optional_operand 4 SpvImageOperandsSampleMask sample st;
     offset_operand 4 const_offset offset st }"

definition spirv_builder_emit_image_gather ::
  "spirv_builder \<Rightarrow> u32 \<Rightarrow> u32 \<Rightarrow> u32 \<Rightarrow> u32 \<Rightarrow> u32 \<Rightarrow> u32 \<Rightarrow> u32 \<Rightarrow> u32 \<Rightarrow> u32 \<Rightarrow> bool
    \<Rightarrow> (u32 \<times> spirv_builder) option" where
  "spirv_builder_emit_image_gather b result_type img coordinate component lod sample const_offset offset dref sparse = do {
     let (result, b) = spirv_builder_new_id b;
         op = (if dref \<noteq> 0 then (if sparse then SpvOpImageSparseDrefGather else SpvOpImageDrefGather)
               else if sparse then SpvOpImageSparseGather else SpvOpImageGather)
     in do {
       (operand_mask, extra) \<leftarrow> image_fetch_operands lod sample const_offset offset;
       (result_type, b) \<leftarrow> (if sparse then sparse_wrap_result_type b result_type else Some (result_type, b));
       let num_extra_operands = 1 + length extra
       in do {
         b \<leftarrow> emit_words Instructions
                ([op_word op (6 + num_extra_operands), result_type, result, img, coordinate,
                  if dref \<noteq> 0 then dref else component] @ operand_mask # extra)
                (prepare Instructions (6 + num_extra_operands) b);
         Some (result, b) } } }"

definition spirv_builder_emit_image_fetch ::
  "spirv_builder \<Rightarrow> u32 \<Rightarrow> u32 \<Rightarrow> u32 \<Rightarrow> u32 \<Rightarrow> u32 \<Rightarrow> u32 \<Rightarrow> u32 \<Rightarrow> bool \<Rightarrow> (u32 \<times> spirv_builder) option" where
  "spirv_builder_emit_image_fetch b result_type img coordinate lod sample const_offset offset sparse = do {
     let (result, b) = spirv_builder_new_id b
     in do {
       (operand_mask, extra) \<leftarrow> image_fetch_operands lod sample const_offset offset;
       (result_type, b) \<leftarrow> (if sparse then sparse_wrap_result_type b result_type else Some (result_type, b));
       let num_extra_operands = 1 + length extra
       in do {
         b \<leftarrow> emit_words Instructions
                ([op_word (if sparse then SpvOpImageSparseFetch else SpvOpImageFetch) (5 + num_extra_operands),
                  result_type, result, img, coordinate] @ operand_mask # extra)
                (prepare Instructions (5 + num_extra_operands) b);
         Some (result, b) } } }"

section \<open>Queries and extended instructions\<close>

definition spirv_builder_emit_image_query_size ::
  "spirv_builder \<Rightarrow> u32 \<Rightarrow> u32 \<Rightarrow> u32 \<Rightarrow> (u32 \<times> spirv_builder) option" where
  "spirv_builder_emit_image_query_size b result_type img lod = do {
     let (opcode, n) = (if lod \<noteq> 0 then (SpvOpImageQuerySizeLod, 5) else (SpvOpImageQuerySize, 4));
         (result, b) = spirv_builder_new_id b
     in do {
       b \<leftarrow> emit_words Instructions ([op_word opcode n, result_type, result, img] @ (if lod \<noteq> 0 then [lod] else []))
              (prepare Instructions n b);
       Some (result, b) } }"

definition spirv_builder_emit_image_query_levels :: "spirv_builder \<Rightarrow> u32 \<Rightarrow> u32 \<Rightarrow> (u32 \<times> spirv_builder) option" where
  "spirv_builder_emit_image_query_levels b result_type img =
     spirv_builder_emit_unop b SpvOpImageQueryLevels result_type img"

definition spirv_builder_emit_image_query_lod ::
  "spirv_builder \<Rightarrow> u32 \<Rightarrow> u32 \<Rightarrow> u32 \<Rightarrow> (u32 \<times> spirv_builder) option" where
  "spirv_builder_emit_image_query_lod b result_type img coords = do {
     let (result, b) = spirv_builder_new_id b
     in do {
       b \<leftarrow> emit_words Instructions [op_word SpvOpImageQueryLod 5, result_type, result, img, coords]
              (prepare Instructions 5 b);
       Some (result, b) } }"

definition spirv_builder_emit_ext_inst ::
  "spirv_builder \<Rightarrow> u32 \<Rightarrow> u32 \<Rightarrow> u32 \<Rightarrow> u32 list \<Rightarrow> (u32 \<times> spirv_builder) option" where
  "spirv_builder_emit_ext_inst b result_type ext_set instruction args = do {
     let (result, b) = spirv_builder_new_id b; n = 5 + length args
     in do {
       b \<leftarrow> emit_words Instructions (op_word SpvOpExtInst n # result_type # result # ext_set # instruction # args)
              (prepare Instructions n b);
       Some (result, b) } }"

section \<open>Specialisation constants, variables, barriers\<close>

definition spirv_builder_spec_const_uint :: "spirv_builder \<Rightarrow> u32 \<Rightarrow> (u32 \<times> spirv_builder) option" where
  "spirv_builder_spec_const_uint b width = do {
     c_assert (sint width \<le> 32);
     (type, b) \<leftarrow> spirv_builder_type_uint b width;
     spirv_builder_emit_unop b SpvOpSpecConstant type 0 }"

definition spirv_builder_spec_const_composite :: "spirv_builder \<Rightarrow> u32 \<Rightarrow> u32 list \<Rightarrow> (u32 \<times> spirv_builder) option" where
  "spirv_builder_spec_const_composite b result_type constituents = do {
     let (result, b) = spirv_builder_new_id b; n = 3 + length constituents
     in do {
       c_assert (length constituents > 0);
       b \<leftarrow> emit_words Instructions (op_word SpvOpSpecConstantComposite n # result_type # result # constituents)
              (prepare Instructions n b);
       Some (result, b) } }"

definition spirv_builder_emit_var :: "spirv_builder \<Rightarrow> u32 \<Rightarrow> u32 \<Rightarrow> (u32 \<times> spirv_builder) option" where
  "spirv_builder_emit_var b type storage_class = do {
     c_assert (storage_class \<noteq> SpvStorageClassGeneric);
     let buf = (if storage_class \<noteq> SpvStorageClassFunction then Types_const_defs else Instructions);
         (ret, b) = spirv_builder_new_id b
     in do {
       b \<leftarrow> emit_words buf [op_word SpvOpVariable 4, type, ret, storage_class] (prepare buf 4 b);
       Some (ret, b) } }"

definition spirv_builder_emit_memory_barrier :: "spirv_builder \<Rightarrow> u32 \<Rightarrow> u32 \<Rightarrow> spirv_builder option" where
  "spirv_builder_emit_memory_barrier b scope semantics = do {
     b \<leftarrow> emit_words Instructions [op_word SpvOpMemoryBarrier 3] (prepare Instructions 3 b);
     (c, b) \<leftarrow> spirv_builder_const_uint b 32 (ucast scope);
     b \<leftarrow> emit_words Instructions [c] b;
     (c, b) \<leftarrow> spirv_builder_const_uint b 32 (ucast semantics);
     emit_words Instructions [c] b }"

definition spirv_builder_emit_control_barrier :: "spirv_builder \<Rightarrow> u32 \<Rightarrow> u32 \<Rightarrow> u32 \<Rightarrow> spirv_builder option" where
  "spirv_builder_emit_control_barrier b scope mem_scope semantics = do {
     b \<leftarrow> emit_words Instructions [op_word SpvOpControlBarrier 4] (prepare Instructions 4 b);
     (c, b) \<leftarrow> spirv_builder_const_uint b 32 (ucast scope);
     b \<leftarrow> emit_words Instructions [c] b;
     (c, b) \<leftarrow> spirv_builder_const_uint b 32 (ucast mem_scope);
     b \<leftarrow> emit_words Instructions [c] b;
     (c, b) \<leftarrow> spirv_builder_const_uint b 32 (ucast semantics);
     emit_words Instructions [c] b }"

section \<open>Opcodes and operand arrays\<close>

text \<open>The opcode that the specification names for a combination of features.\<close>

definition sample_opcode_spec :: "bool \<Rightarrow> bool \<Rightarrow> bool \<Rightarrow> bool \<Rightarrow> u32" where
  "sample_opcode_spec sparse proj explicit dref =
     (if sparse
      then if proj
           then if dref then (if explicit then SpvOpImageSparseSampleProjDrefExplicitLod else SpvOpImageSparseSampleProjDrefImplicitLod)
                else (if explicit then SpvOpImageSparseSampleProjExplicitLod else SpvOpImageSparseSampleProjImplicitLod)
           else if dref then (if explicit then SpvOpImageSparseSampleDrefExplicitLod else SpvOpImageSparseSampleDrefImplicitLod)
                else (if explicit then SpvOpImageSparseSampleExplicitLod else SpvOpImageSparseSampleImplicitLod)
      else if proj
           then if dref then (if explicit then SpvOpImageSampleProjDrefExplicitLod else SpvOpImageSampleProjDrefImplicitLod)
                else (if explicit then SpvOpImageSampleProjExplicitLod else SpvOpImageSampleProjImplicitLod)
           else if dref then (if explicit then SpvOpImageSampleDrefExplicitLod else SpvOpImageSampleDrefImplicitLod)
                else (if explicit then SpvOpImageSampleExplicitLod else SpvOpImageSampleImplicitLod))"

lemma sample_opcode_correct:
  "image_sample_opcode sparse proj lod dref dx dy =
     sample_opcode_spec sparse proj (lod \<noteq> 0 \<or> dx \<noteq> 0 \<and> dy \<noteq> 0) (dref \<noteq> 0)"
  by (simp add: image_sample_opcode_def sample_opcode_spec_def)

text \<open>
  The mask and the operands that each function produces, with no write outside the array. The sampling
  function lists them in the order of their mask bits, as the SPIR-V specification requires; the
  read, write, gather and fetch functions put the sample operand (bit 6) before an offset (bit 3 or 4).
\<close>

definition opt :: "u32 \<Rightarrow> u32 list" where
  "opt x = (if x \<noteq> 0 then [x] else [])"

definition opt_bit :: "u32 \<Rightarrow> u32 \<Rightarrow> u32" where
  "opt_bit bits x = (if x \<noteq> 0 then bits else 0)"

lemmas operand_simps = optional_operand_def extra_operand_def offset_operand_def opt_def opt_bit_def

lemma sample_operands_eq:
  assumes "const_offset = 0 \<or> offset = 0"
  shows "image_sample_operands lod bias dx dy const_offset offset min_lod = Some
    (opt_bit SpvImageOperandsBiasMask bias OR
     (if lod \<noteq> 0 then SpvImageOperandsLodMask else if dx \<noteq> 0 \<and> dy \<noteq> 0 then SpvImageOperandsGradMask else 0) OR
     opt_bit SpvImageOperandsConstOffsetMask const_offset OR opt_bit SpvImageOperandsOffsetMask offset OR
     opt_bit SpvImageOperandsMinLodMask min_lod,
     opt bias @ (if lod \<noteq> 0 then [lod] else if dx \<noteq> 0 \<and> dy \<noteq> 0 then [dx, dy] else []) @
     opt const_offset @ opt offset @ opt min_lod)"
  using assms by (auto simp: image_sample_operands_def operand_simps)

lemma read_operands_eq:
  "image_read_operands lod sample offset = Some
    (opt_bit SpvImageOperandsLodMask lod OR opt_bit SpvImageOperandsSampleMask sample OR opt_bit SpvImageOperandsOffsetMask offset,
     opt lod @ opt sample @ opt offset)"
  by (simp add: image_read_operands_def operand_simps)

lemma fetch_operands_eq:
  assumes "const_offset = 0 \<or> offset = 0"
  shows "image_fetch_operands lod sample const_offset offset = Some
    (opt_bit SpvImageOperandsLodMask lod OR opt_bit SpvImageOperandsSampleMask sample OR
     opt_bit SpvImageOperandsConstOffsetMask const_offset OR opt_bit SpvImageOperandsOffsetMask offset,
     opt lod @ opt sample @ opt const_offset @ opt offset)"
  using assms by (auto simp: image_fetch_operands_def operand_simps)

end
