(* ===== verification/Spirv_Interning.thy ===== *)
theory Spirv_Interning
  imports Spirv_Types
begin

text \<open>
  The two interning tables of the builder. A type key is used with the number of arguments its
  opcode has, so on the keys that occur the C comparison is equality of opcode and arguments; the
  same holds for constants as long as all constants of one opcode and type have the same number of
  arguments. Both tables are instances of \<open>interning\<close>, and the behaviour of
  \<^verbatim>\<open>get_type_def\<close> and \<^verbatim>\<open>get_const_def\<close> is read off from its laws.
\<close>

section \<open>Keys that occur\<close>

definition type_arity :: "u32 \<Rightarrow> nat" where
  "type_arity op =
     (if op = SpvOpTypeVoid \<or> op = SpvOpTypeBool then 0
      else if op = SpvOpTypeFloat \<or> op = SpvOpTypeSampledImage then 1
      else if op = SpvOpTypeImage then 7
      else 2)"

definition type_key :: "spirv_type ptr \<Rightarrow> bool" where
  "type_key k \<longleftrightarrow> (case k of Ptr t \<Rightarrow> length (ty_args t) = type_arity (ty_op t) | _ \<Rightarrow> False)"

definition const_key :: "(u32 \<Rightarrow> u32 \<Rightarrow> nat) \<Rightarrow> spirv_const ptr \<Rightarrow> bool" where
  "const_key ar k \<longleftrightarrow> (case k of Ptr c \<Rightarrow> length (cn_args c) = ar (cn_op c) (cn_type c) | _ \<Rightarrow> False)"

lemma take_arg_words: "length a = length b \<Longrightarrow> take (length a) (arg_words a) = take (length a) (arg_words b) \<longleftrightarrow> a = b"
  by (simp add: arg_words_def)

lemma type_equals_Ptr:
  assumes "type_key (Ptr a)" "type_key (Ptr b)"
  shows "non_aggregate_type_equals (Ptr a) (Ptr b) \<longleftrightarrow> ty_op a = ty_op b \<and> ty_args a = ty_args b"
proof (cases "ty_op a = ty_op b")
  case True
  then have "length (ty_args a) = length (ty_args b)" using assms by (simp add: type_key_def)
  from take_arg_words [OF this] show ?thesis using True by (simp add: non_aggregate_type_equals_def)
qed (simp add: non_aggregate_type_equals_def)

lemma const_equals_Ptr:
  assumes "const_key ar (Ptr a)" "const_key ar (Ptr b)"
  shows "const_equals (Ptr a) (Ptr b) \<longleftrightarrow> cn_op a = cn_op b \<and> cn_type a = cn_type b \<and> cn_args a = cn_args b"
proof (cases "cn_op a = cn_op b \<and> cn_type a = cn_type b")
  case True
  then have "length (cn_args a) = length (cn_args b)" using assms by (simp add: const_key_def)
  from take_arg_words [OF this] show ?thesis using True by (simp add: const_equals_def)
qed (auto simp: const_equals_def)

lemma type_key_cases: "type_key k \<Longrightarrow> (\<And>t. k = Ptr t \<Longrightarrow> length (ty_args t) = type_arity (ty_op t) \<Longrightarrow> P) \<Longrightarrow> P"
  by (cases k) (auto simp: type_key_def)

lemma const_key_cases: "const_key ar k \<Longrightarrow> (\<And>c. k = Ptr c \<Longrightarrow> length (cn_args c) = ar (cn_op c) (cn_type c) \<Longrightarrow> P) \<Longrightarrow> P"
  by (cases k) (auto simp: const_key_def)

text \<open>The assertions of the two comparison functions hold for the keys of their tables.\<close>

lemma type_equals_assert:
  "type_key (Ptr a) \<Longrightarrow> type_key (Ptr b) \<Longrightarrow> ty_op a = ty_op b \<Longrightarrow> length (ty_args a) = length (ty_args b)"
  by (simp add: type_key_def)

lemma const_equals_assert:
  "const_key ar (Ptr a) \<Longrightarrow> const_key ar (Ptr b) \<Longrightarrow> cn_op a = cn_op b \<Longrightarrow> cn_type a = cn_type b \<Longrightarrow>
   length (cn_args a) = length (cn_args b)"
  by (simp add: const_key_def)

lemma callbacks_by_projection:
  assumes "dk \<noteq> NULL" "\<And>a. D a \<Longrightarrow> a \<noteq> NULL \<and> a \<noteq> dk" "\<And>a. D a \<Longrightarrow> kh a = h (p a)"
    "\<And>a b. D a \<Longrightarrow> D b \<Longrightarrow> ke a b \<longleftrightarrow> p a = p b"
  shows "callbacks_ok dk D kh ke"
  unfolding callbacks_ok_def using assms by auto

fun type_parts :: "spirv_type ptr \<Rightarrow> u32 \<times> u32 list" where
  "type_parts (Ptr t) = (ty_op t, ty_args t)"
| "type_parts _ = (0, [])"

fun const_parts :: "spirv_const ptr \<Rightarrow> u32 \<times> u32 \<times> u32 list" where
  "const_parts (Ptr c) = (cn_op c, cn_type c, cn_args c)"
| "const_parts _ = (0, 0, [])"

lemma type_callbacks: "callbacks_ok Deleted_key_value type_key non_aggregate_type_hash non_aggregate_type_equals"
proof (rule callbacks_by_projection [where p = type_parts
      and h = "\<lambda>(op, args). XXH32 (bytes_of_u32s args) (XXH32 (bytes_of_u32 op) 0)"])
  show "non_aggregate_type_hash a = (case type_parts a of (op, args) \<Rightarrow> XXH32 (bytes_of_u32s args) (XXH32 (bytes_of_u32 op) 0))"
    if "type_key a" for a using that by (rule type_key_cases) (simp add: non_aggregate_type_hash_def)
  show "non_aggregate_type_equals a b \<longleftrightarrow> type_parts a = type_parts b" if "type_key a" "type_key b" for a b
    using that type_equals_Ptr by (cases a; cases b) (simp_all add: type_key_def)
qed (auto simp: type_key_def)

lemma const_callbacks: "callbacks_ok Deleted_key_value (const_key ar) const_hash const_equals"
proof (rule callbacks_by_projection [where p = const_parts
      and h = "\<lambda>(op, type, args). XXH32 (bytes_of_u32s args) (XXH32 (bytes_of_u32 type) (XXH32 (bytes_of_u32 op) 0))"])
  show "const_hash a = (case const_parts a of (op, type, args) \<Rightarrow>
      XXH32 (bytes_of_u32s args) (XXH32 (bytes_of_u32 type) (XXH32 (bytes_of_u32 op) 0)))"
    if "const_key ar a" for a using that by (rule const_key_cases) (simp add: const_hash_def)
  show "const_equals a b \<longleftrightarrow> const_parts a = const_parts b" if "const_key ar a" "const_key ar b" for a b
    using that const_equals_Ptr [of ar] by (cases a; cases b) (simp_all add: const_key_def)
qed (auto simp: const_key_def)

abbreviation type_table_ok :: "(spirv_type, spirv_type) hash_table \<Rightarrow> bool" where
  "type_table_ok \<equiv> ht_ok Deleted_key_value type_key non_aggregate_type_hash non_aggregate_type_equals"

abbreviation const_table_ok :: "(u32 \<Rightarrow> u32 \<Rightarrow> nat) \<Rightarrow> (spirv_const, spirv_const) hash_table \<Rightarrow> bool" where
  "const_table_ok ar \<equiv> ht_ok Deleted_key_value (const_key ar) const_hash const_equals"

interpretation type_interning: interning type_table_ok type_key non_aggregate_type_equals
  present_count "2 ^ 30" ht_lookup ht_find "ht_add (\<lambda>_. True)" "\<lambda>d. unat (ty_type (the d))"
  by (rule hash_table_is_interning [OF type_callbacks])

interpretation const_interning: interning "const_table_ok ar" "const_key ar" const_equals
  present_count "2 ^ 30" ht_lookup ht_find "ht_add (\<lambda>_. True)" "\<lambda>d. unat (cn_result (the d))" for ar
  by (rule hash_table_is_interning [OF const_callbacks])

section \<open>What the tables know\<close>

definition type_lookup :: "spirv_builder \<Rightarrow> u32 \<Rightarrow> u32 list \<Rightarrow> u32 option" where
  "type_lookup b op args = (case b_types b of
     None \<Rightarrow> None
   | Some ht \<Rightarrow> map_option (\<lambda>d. ty_type (the d)) (ht_lookup ht (Ptr \<lparr>ty_op = op, ty_args = args, ty_type = 0\<rparr>)))"

definition const_lookup :: "spirv_builder \<Rightarrow> u32 \<Rightarrow> u32 \<Rightarrow> u32 list \<Rightarrow> u32 option" where
  "const_lookup b op type args = (case b_consts b of
     None \<Rightarrow> None
   | Some ht \<Rightarrow> map_option (\<lambda>d. cn_result (the d))
       (ht_lookup ht (Ptr \<lparr>cn_op = op, cn_type = type, cn_args = args, cn_result = 0\<rparr>)))"

definition with_data :: "('k, 'd) hash_table \<Rightarrow> bool" where
  "with_data ht \<longleftrightarrow> (\<forall>e \<in> set (ht_table ht). entry_is_present ht e \<longrightarrow> he_data e \<noteq> None)"

definition types_valid :: "spirv_builder \<Rightarrow> bool" where
  "types_valid b \<longleftrightarrow> (case b_types b of None \<Rightarrow> True | Some ht \<Rightarrow> type_table_ok ht \<and>
     (\<forall>k. type_key k \<longrightarrow> ht_lookup ht k \<noteq> Some None) \<and> present_count ht \<le> unat (prev_id b))"

definition consts_valid :: "(u32 \<Rightarrow> u32 \<Rightarrow> nat) \<Rightarrow> spirv_builder \<Rightarrow> bool" where
  "consts_valid ar b \<longleftrightarrow> (case b_consts b of None \<Rightarrow> True | Some ht \<Rightarrow> const_table_ok ar ht \<and>
     (\<forall>k. const_key ar k \<longrightarrow> ht_lookup ht k \<noteq> Some None) \<and> present_count ht \<le> unat (prev_id b))"

lemma lookup_updates [simp]:
  "type_lookup (b\<lparr>prev_id := i\<rparr>) = type_lookup b" "const_lookup (b\<lparr>prev_id := i\<rparr>) = const_lookup b"
  "type_lookup (b\<lparr>caps := c\<rparr>) = type_lookup b" "const_lookup (b\<lparr>caps := c\<rparr>) = const_lookup b"
  "type_lookup (b\<lparr>b_consts := k\<rparr>) = type_lookup b" "const_lookup (b\<lparr>b_types := t\<rparr>) = const_lookup b"
  "type_lookup (with_words s n ws b) = type_lookup b" "const_lookup (with_words s n ws b) = const_lookup b"
  by (simp_all add: fun_eq_iff type_lookup_def const_lookup_def)

section \<open>Declaring a type\<close>

lemma new_id_eq [emit_simps]: "spirv_builder_new_id b = (prev_id b + 1, b\<lparr>prev_id := prev_id b + 1\<rparr>)"
  by (simp add: spirv_builder_new_id_def)

lemma get_type_def_hit:
  assumes "types_valid b" "type_lookup b op args = Some rid" "length args = type_arity op"
  shows "get_type_def b op args = Some (rid, b)"
proof -
  let ?key = "\<lparr>ty_op = op, ty_args = args, ty_type = 0\<rparr>"
  obtain ht d where ht: "b_types b = Some ht" "type_table_ok ht" "ht_lookup ht (Ptr ?key) = Some (Some d)" "ty_type d = rid"
  proof -
    obtain ht x where *: "b_types b = Some ht" "ht_lookup ht (Ptr ?key) = Some x" "ty_type (the x) = rid"
      using assms(2) by (auto simp: type_lookup_def split: option.splits)
    moreover have "type_key (Ptr ?key)" using assms(3) by (simp add: type_key_def)
    ultimately show thesis using assms(1) that by (cases x) (auto simp: types_valid_def)
  qed
  have "type_key (Ptr ?key)" using assms(3) by (simp add: type_key_def)
  then have "ht_find ht (Ptr ?key) = Some (Some (Some d))"
    using type_interning.find_contents [OF ht(2)] ht(3) by simp
  then obtain a where "mesa_hash_table_search ht (Ptr ?key) = Some (Some a)" "entry_data ht a = Some d"
    by (auto simp: ht_find_def entry_data_def)
  moreover have "length args \<le> 8" using assms(3) by (simp add: type_arity_def split: if_splits)
  ultimately show ?thesis using ht(1,4) by (simp add: get_type_def_def)
qed

text \<open>The state after a new declaration: one instruction, one id, one table entry.\<close>

definition type_declared :: "spirv_builder \<Rightarrow> u32 \<Rightarrow> u32 list \<Rightarrow> (spirv_type, spirv_type) hash_table \<Rightarrow> spirv_builder" where
  "type_declared b op args ht = (with_words Types_const_defs (2 + length args)
     (encode (op, (prev_id b + 1) # args)) b)\<lparr>prev_id := prev_id b + 1, b_types := Some ht\<rparr>"

lemma get_type_def_miss:
  assumes "ready b" "types_valid b" "type_lookup b op args = None" "length args = type_arity op" "unat (prev_id b) < 2 ^ 30"
  shows "\<exists>ht. get_type_def b op args = Some (prev_id b + 1, type_declared b op args ht) \<and>
    types_valid (type_declared b op args ht) \<and>
    (\<forall>op' args'. length args' = type_arity op' \<longrightarrow> type_lookup (type_declared b op args ht) op' args' =
       (if op' = op \<and> args' = args then Some (prev_id b + 1) else type_lookup b op' args'))"
proof -
  let ?key = "\<lparr>ty_op = op, ty_args = args, ty_type = 0\<rparr>" and ?rid = "prev_id b + 1"
  let ?type = "\<lparr>ty_op = op, ty_args = args, ty_type = prev_id b + 1\<rparr>"
  have k: "type_key (Ptr ?key)" "type_key (Ptr ?type)" using assms(4) by (simp_all add: type_key_def)
  have len: "length args \<le> 8" using assms(4) by (simp add: type_arity_def split: if_splits)
  have al: "mem_ctx b = (\<lambda>_. True)" using assms(1) by (rule ready_alloc)
  have suc: "unat ?rid = Suc (unat (prev_id b))" using assms(5) by (intro unat_succ) simp
  obtain ht where ht: "type_table_ok ht" "\<forall>k. type_key k \<longrightarrow> ht_lookup ht k \<noteq> Some None" "present_count ht \<le> unat (prev_id b)"
    and lk: "\<And>op args. type_lookup b op args = map_option (\<lambda>d. ty_type (the d)) (ht_lookup ht (Ptr \<lparr>ty_op = op, ty_args = args, ty_type = 0\<rparr>))"
    and start: "b_types b = Some ht \<and> mesa_hash_table_search ht (Ptr ?key) = Some None \<or>
      b_types b = None \<and> mesa_hash_table_create (\<lambda>_. True) (Some non_aggregate_type_hash) non_aggregate_type_equals = Some ht"
  proof (cases "b_types b")
    case None
    obtain ht :: "(spirv_type, spirv_type) hash_table" where
      "mesa_hash_table_create (\<lambda>_. True) (Some non_aggregate_type_hash) non_aggregate_type_equals = Some ht"
      "type_table_ok ht" "\<And>k. ht_lookup ht k = None" "present_count ht = 0"
      using create_ok [OF type_callbacks, of "\<lambda>_. True"] by auto
    then show thesis using None that by (simp add: type_lookup_def)
  next
    case (Some ht)
    then have ok: "type_table_ok ht" using assms(2) by (simp add: types_valid_def)
    have "ht_lookup ht (Ptr ?key) = None" using assms(3) Some by (simp add: type_lookup_def)
    then have "mesa_hash_table_search ht (Ptr ?key) = Some None"
      using type_interning.find_contents [OF ok k(1)] by (simp add: ht_find_def)
    then show thesis using Some assms(2) that by (simp add: types_valid_def type_lookup_def)
  qed
  have "present_count ht < 2 ^ 30" using ht(3) assms(5) by simp
  then obtain a ht' where ins: "mesa_hash_table_insert (\<lambda>_. True) ht (Ptr ?type) (Some ?type) = Some (Some a, ht')"
    "he_data (ht_table ht' ! unat a) = Some ?type" "type_table_ok ht'" "present_count ht' \<le> Suc (present_count ht)"
    "\<forall>k'. type_key k' \<longrightarrow> ht_lookup ht' k' = (if non_aggregate_type_equals k' (Ptr ?type) then Some (Some ?type) else ht_lookup ht k')"
    by (rule ht_insert_ok [OF ht(1) k(2)])
  have em: "emit_words Types_const_defs (op_word op (2 + length args) # ?rid # args)
      (prepare Types_const_defs (2 + length args) (b\<lparr>b_types := Some ht, prev_id := ?rid\<rparr>)) =
    Some (with_words Types_const_defs (2 + length args) (encode (op, ?rid # args)) (b\<lparr>b_types := Some ht, prev_id := ?rid\<rparr>))"
    using assms(1) by (subst prepare_emits) (simp_all add: encode_def)
  have "get_type_def b op args = Some (?rid, type_declared b op args ht')"
    using start
  proof
    assume "b_types b = Some ht \<and> mesa_hash_table_search ht (Ptr ?key) = Some None"
    then show ?thesis using len em ins(1,2) al
      by (simp add: get_type_def_def new_id_eq entry_data_def type_declared_def with_words_updates Let_def)
  next
    assume "b_types b = None \<and> mesa_hash_table_create (\<lambda>_. True) (Some non_aggregate_type_hash) non_aggregate_type_equals = Some ht"
    then show ?thesis using len em ins(1,2) al
      by (simp add: get_type_def_def new_id_eq entry_data_def type_declared_def with_words_updates Let_def)
  qed
  moreover have "types_valid (type_declared b op args ht')"
    using ins(3-5) ht suc by (simp add: types_valid_def type_declared_def)
  moreover have "type_lookup (type_declared b op args ht') op' args' =
       (if op' = op \<and> args' = args then Some ?rid else type_lookup b op' args')" if "length args' = type_arity op'" for op' args'
  proof -
    have k': "type_key (Ptr \<lparr>ty_op = op', ty_args = args', ty_type = 0\<rparr>)" using that by (simp add: type_key_def)
    show ?thesis unfolding type_lookup_def [of "type_declared b op args ht'"] lk
      using ins(5) k' type_equals_Ptr [OF k' k(2)] by (simp add: type_declared_def)
  qed
  ultimately show ?thesis by blast
qed

section \<open>Declaring a constant\<close>

lemma get_const_def_hit:
  assumes "consts_valid ar b" "const_lookup b op type args = Some rid" "length args = ar op type" "length args \<le> 8"
  shows "get_const_def b op type args = Some (rid, b)"
proof -
  let ?key = "\<lparr>cn_op = op, cn_type = type, cn_args = args, cn_result = 0\<rparr>"
  obtain ht d where ht: "b_consts b = Some ht" "const_table_ok ar ht" "ht_lookup ht (Ptr ?key) = Some (Some d)" "cn_result d = rid"
  proof -
    obtain ht x where *: "b_consts b = Some ht" "ht_lookup ht (Ptr ?key) = Some x" "cn_result (the x) = rid"
      using assms(2) by (auto simp: const_lookup_def split: option.splits)
    moreover have "const_key ar (Ptr ?key)" using assms(3) by (simp add: const_key_def)
    ultimately show thesis using assms(1) that by (cases x) (auto simp: consts_valid_def)
  qed
  have "const_key ar (Ptr ?key)" using assms(3) by (simp add: const_key_def)
  then have "ht_find ht (Ptr ?key) = Some (Some (Some d))"
    using const_interning.find_contents [OF ht(2)] ht(3) by simp
  then obtain a where "mesa_hash_table_search ht (Ptr ?key) = Some (Some a)" "entry_data ht a = Some d"
    by (auto simp: ht_find_def entry_data_def)
  moreover have "length args \<le> 8" using assms(4) .
  ultimately show ?thesis using ht(1,4) by (simp add: get_const_def_def)
qed

text \<open>The same for constants.\<close>

definition const_declared :: "spirv_builder \<Rightarrow> u32 \<Rightarrow> u32 \<Rightarrow> u32 list \<Rightarrow> (spirv_const, spirv_const) hash_table \<Rightarrow> spirv_builder" where
  "const_declared b op type args ht = (with_words Types_const_defs (3 + length args)
     (encode (op, type # (prev_id b + 1) # args)) b)\<lparr>prev_id := prev_id b + 1, b_consts := Some ht\<rparr>"

lemma get_const_def_miss:
  assumes "ready b" "consts_valid ar b" "const_lookup b op type args = None" "length args = ar op type" "length args \<le> 8" "unat (prev_id b) < 2 ^ 30"
  shows "\<exists>ht. get_const_def b op type args = Some (prev_id b + 1, const_declared b op type args ht) \<and>
    consts_valid ar (const_declared b op type args ht) \<and>
    (\<forall>op' type' args'. length args' = ar op' type' \<longrightarrow> const_lookup (const_declared b op type args ht) op' type' args' =
       (if op' = op \<and> type' = type \<and> args' = args then Some (prev_id b + 1) else const_lookup b op' type' args'))"
proof -
  let ?key = "\<lparr>cn_op = op, cn_type = type, cn_args = args, cn_result = 0\<rparr>" and ?rid = "prev_id b + 1"
  let ?cnst = "\<lparr>cn_op = op, cn_type = type, cn_args = args, cn_result = prev_id b + 1\<rparr>"
  have k: "const_key ar (Ptr ?key)" "const_key ar (Ptr ?cnst)" using assms(4) by (simp_all add: const_key_def)
  have len: "length args \<le> 8" using assms(5) .
  have al: "mem_ctx b = (\<lambda>_. True)" using assms(1) by (rule ready_alloc)
  have suc: "unat ?rid = Suc (unat (prev_id b))" using assms(6) by (intro unat_succ) simp
  obtain ht where ht: "const_table_ok ar ht" "\<forall>k. const_key ar k \<longrightarrow> ht_lookup ht k \<noteq> Some None" "present_count ht \<le> unat (prev_id b)"
    and lk: "\<And>op type args. const_lookup b op type args = map_option (\<lambda>d. cn_result (the d)) (ht_lookup ht (Ptr \<lparr>cn_op = op, cn_type = type, cn_args = args, cn_result = 0\<rparr>))"
    and start: "b_consts b = Some ht \<and> mesa_hash_table_search ht (Ptr ?key) = Some None \<or>
      b_consts b = None \<and> mesa_hash_table_create (\<lambda>_. True) (Some const_hash) const_equals = Some ht"
  proof (cases "b_consts b")
    case None
    obtain ht :: "(spirv_const, spirv_const) hash_table" where
      "mesa_hash_table_create (\<lambda>_. True) (Some const_hash) const_equals = Some ht"
      "const_table_ok ar ht" "\<And>k. ht_lookup ht k = None" "present_count ht = 0"
      using create_ok [OF const_callbacks [of ar], of "\<lambda>_. True"] by auto
    then show thesis using None that by (simp add: const_lookup_def)
  next
    case (Some ht)
    then have ok: "const_table_ok ar ht" using assms(2) by (simp add: consts_valid_def)
    have "ht_lookup ht (Ptr ?key) = None" using assms(3) Some by (simp add: const_lookup_def)
    then have "mesa_hash_table_search ht (Ptr ?key) = Some None"
      using const_interning.find_contents [OF ok k(1)] by (simp add: ht_find_def)
    then show thesis using Some assms(2) that by (simp add: consts_valid_def const_lookup_def)
  qed
  have "present_count ht < 2 ^ 30" using ht(3) assms(6) by simp
  then obtain a ht' where ins: "mesa_hash_table_insert (\<lambda>_. True) ht (Ptr ?cnst) (Some ?cnst) = Some (Some a, ht')"
    "he_data (ht_table ht' ! unat a) = Some ?cnst" "const_table_ok ar ht'" "present_count ht' \<le> Suc (present_count ht)"
    "\<forall>k'. const_key ar k' \<longrightarrow> ht_lookup ht' k' = (if const_equals k' (Ptr ?cnst) then Some (Some ?cnst) else ht_lookup ht k')"
    by (rule ht_insert_ok [OF ht(1) k(2)])
  have em: "emit_words Types_const_defs (op_word op (3 + length args) # type # ?rid # args)
      (prepare Types_const_defs (3 + length args) (b\<lparr>b_consts := Some ht, prev_id := ?rid\<rparr>)) =
    Some (with_words Types_const_defs (3 + length args) (encode (op, type # ?rid # args)) (b\<lparr>b_consts := Some ht, prev_id := ?rid\<rparr>))"
    using assms(1) by (subst prepare_emits) (simp_all add: encode_def numeral_3_eq_3)
  have "get_const_def b op type args = Some (?rid, const_declared b op type args ht')"
    using start
  proof
    assume "b_consts b = Some ht \<and> mesa_hash_table_search ht (Ptr ?key) = Some None"
    then show ?thesis using len em ins(1,2) al
      by (simp add: get_const_def_def new_id_eq entry_data_def const_declared_def with_words_updates Let_def)
  next
    assume "b_consts b = None \<and> mesa_hash_table_create (\<lambda>_. True) (Some const_hash) const_equals = Some ht"
    then show ?thesis using len em ins(1,2) al
      by (simp add: get_const_def_def new_id_eq entry_data_def const_declared_def with_words_updates Let_def)
  qed
  moreover have "consts_valid ar (const_declared b op type args ht')"
    using ins(3-5) ht suc by (simp add: consts_valid_def const_declared_def)
  moreover have "const_lookup (const_declared b op type args ht') op' type' args' =
       (if op' = op \<and> type' = type \<and> args' = args then Some ?rid else const_lookup b op' type' args')" if "length args' = ar op' type'" for op' type' args'
  proof -
    have k': "const_key ar (Ptr \<lparr>cn_op = op', cn_type = type', cn_args = args', cn_result = 0\<rparr>)" using that by (simp add: const_key_def)
    show ?thesis unfolding const_lookup_def [of "const_declared b op type args ht'"] lk
      using ins(5) k' const_equals_Ptr [OF k' k(2)] by (simp add: const_declared_def)
  qed
  ultimately show ?thesis by blast
qed


end
