(* ===== verification/Spirv_Module.thy ===== *)
theory Spirv_Module
  imports Spirv_Images Spirv_Interning
begin

text \<open>
  Assembling the module: \<^verbatim>\<open>spirv_builder_get_num_words\<close> and \<^verbatim>\<open>spirv_builder_get_words\<close>. The words
  written so far are a list; its length is \<^verbatim>\<open>written\<close>.
\<close>

definition caps_size :: "spirv_builder \<Rightarrow> nat" where
  "caps_size b = (case caps b of None \<Rightarrow> 0 | Some s \<Rightarrow> unat (s_entries s * 2))"

definition spirv_builder_get_num_words :: "spirv_builder \<Rightarrow> nat" where
  "spirv_builder_get_num_words b =
     5 + caps_size b +
     length (sect b Extensions) + length (sect b Imports) + length (sect b Memory_model) +
     length (sect b Entry_points) + length (sect b Exec_modes) + length (sect b Debug_names) +
     length (sect b Decorations) + length (sect b Types_const_defs) + length (sect b Instructions)"

text \<open>
  Copying one buffer. The state is what was written, \<^verbatim>\<open>*tcs_vertices_out_word\<close>, and
  \<^verbatim>\<open>find_tcs_vertices_out\<close>.
\<close>

fun copy_buffer :: "bool \<Rightarrow> u32 list \<Rightarrow> nat \<Rightarrow> u32 list \<times> u32 \<times> bool \<Rightarrow> u32 list \<times> u32 \<times> bool" where
  "copy_buffer is_exec_modes [] j st = st"
| "copy_buffer is_exec_modes (w # ws) j (written, tcs, search) =
     (let (tcs, search) =
            (if search \<and> is_exec_modes \<and> tcs = of_nat j then (of_nat (length written), False) else (tcs, search))
      in copy_buffer is_exec_modes ws (j + 1) (written @ [w], tcs, search))"

definition module_sections :: "spv_section list" where
  "module_sections = [Extensions, Imports, Memory_model, Entry_points, Exec_modes, Debug_names, Decorations,
     Types_const_defs, Instructions]"

definition capability_words :: "spirv_builder \<Rightarrow> u32 list" where
  "capability_words b = (case caps b of
     None \<Rightarrow> []
   | Some s \<Rightarrow> concat (map (\<lambda>entry. [op_word SpvOpCapability 2, ucast (uintptr (deleted_key_address b) (se_key entry))])
       (set_foreach s)))"

text \<open>The words written to the caller's array of \<open>capacity\<close> elements, and the updated position word.\<close>

definition spirv_builder_get_words ::
  "spirv_builder \<Rightarrow> nat \<Rightarrow> u32 \<Rightarrow> u32 \<Rightarrow> (u32 list \<times> u32) option" where
  "spirv_builder_get_words b capacity spirv_version tcs_vertices_out_word = do {
     c_assert (capacity \<ge> spirv_builder_get_num_words b);
     let header = [SpvMagicNumber, spirv_version, 0, prev_id b + 1, 0];
         (written, tcs, search) =
           fold (\<lambda>s. copy_buffer (s = Exec_modes) (sect b s) 0) module_sections
             (header @ capability_words b, tcs_vertices_out_word, tcs_vertices_out_word > 0)
     in do {
       c_assert (length written \<le> capacity);
       c_assert (length written = spirv_builder_get_num_words b);
       Some (written, tcs) } }"

section \<open>What is copied\<close>

lemma copy_buffer_words: "fst (copy_buffer em ws j (written, tcs, search)) = written @ ws"
proof (induction ws arbitrary: j written tcs search)
  case (Cons w ws)
  then show ?case by (cases "search \<and> em \<and> tcs = of_nat j") auto
qed simp

lemma copy_buffer_fst [simp]: "fst (copy_buffer em ws j st) = fst st @ ws"
  by (cases st) (simp add: copy_buffer_words)

lemma copy_other:
  "\<not> em \<or> \<not> search \<Longrightarrow> copy_buffer em ws j (written, tcs, search) = (written @ ws, tcs, search)"
  by (induction ws arbitrary: j written) auto

text \<open>The position word is translated when it lies in the execution modes.\<close>

lemma copy_exec_modes:
  assumes "j \<le> unat tcs" "unat tcs < j + length ws"
  shows "copy_buffer True ws j (written, tcs, True) = (written @ ws, of_nat (length written + (unat tcs - j)), False)"
  using assms
proof (induction ws arbitrary: j written)
  case (Cons w ws)
  show ?case
  proof (cases "unat tcs = j")
    case True
    moreover have "of_nat (unat tcs) = tcs" by simp
    ultimately have "tcs = of_nat j" by simp
    then show ?thesis using True by (simp add: copy_other)
  next
    case False
    have "unat (of_nat j :: u32) = j" using Cons.prems(1) unat_u32_less [of tcs] by (simp add: unat_of_nat)
    with False have "tcs \<noteq> of_nat j" by auto
    then show ?thesis using Cons.IH [of "j + 1" "written @ [w]"] Cons.prems False by simp
  qed
qed simp

lemma copy_beyond:
  assumes "j + length ws \<le> unat tcs"
  shows "fst (snd (copy_buffer True ws j (written, tcs, True))) = tcs"
  using assms
proof (induction ws arbitrary: j written)
  case (Cons w ws)
  have "unat (of_nat j :: u32) = j" using Cons.prems unat_u32_less [of tcs] by (simp add: unat_of_nat)
  then have "tcs \<noteq> of_nat j" using Cons.prems by auto
  then show ?case using Cons by simp
qed simp

section \<open>The module\<close>

definition caps_valid :: "spirv_builder \<Rightarrow> bool" where
  "caps_valid b \<longleftrightarrow> (case caps b of None \<Rightarrow> True | Some s \<Rightarrow>
     set_ok u32_key (key_u32_hash (deleted_key_address b)) (key_u32_equals (deleted_key_address b)) s \<and>
     set_count s < 2 ^ 30)"

definition module_header :: "spirv_builder \<Rightarrow> u32 \<Rightarrow> u32 list" where
  "module_header b spirv_version = [SpvMagicNumber, spirv_version, 0, prev_id b + 1, 0]"

definition module_words :: "spirv_builder \<Rightarrow> u32 \<Rightarrow> u32 list" where
  "module_words b spirv_version =
     module_header b spirv_version @ capability_words b @ concat (map (sect b) module_sections)"

definition exec_modes_offset :: "spirv_builder \<Rightarrow> nat" where
  "exec_modes_offset b = 5 + length (capability_words b) +
     length (concat (map (sect b) [Extensions, Imports, Memory_model, Entry_points]))"

lemma length_concat_pairs: "length (concat (map (\<lambda>x. [f x, g x]) xs)) = 2 * length xs"
  by (induction xs) simp_all

lemma length_capability_words:
  assumes "caps_valid b"
  shows "length (capability_words b) = caps_size b"
proof (cases "caps b")
  case (Some s)
  then have ok: "set_ok u32_key (key_u32_hash (deleted_key_address b)) (key_u32_equals (deleted_key_address b)) s"
    "set_count s < 2 ^ 30" using assms by (simp_all add: caps_valid_def)
  have "unat (s_entries s) = set_count s"
    using ht_invD(3) [OF ht_okD(1) [OF ok(1) [unfolded set_ok_def]]] by (simp add: set_count_present)
  then have "unat (s_entries s * 2) = 2 * set_count s" using ok(2) by (simp add: unat_word_ariths)
  moreover have "length (set_foreach s) = set_count s"
    by (simp add: set_foreach_filter [OF set_ok_length [OF ok(1)]] set_count_def)
  ultimately show ?thesis using Some by (simp add: capability_words_def caps_size_def length_concat_pairs)
qed (simp add: capability_words_def caps_size_def)

lemma module_words_length:
  assumes "caps_valid b"
  shows "length (module_words b v) = spirv_builder_get_num_words b"
  using length_capability_words [OF assms]
  by (simp add: module_words_def module_header_def module_sections_def spirv_builder_get_num_words_def)

lemma get_words_eq:
  assumes "caps_valid b" "spirv_builder_get_num_words b \<le> capacity"
  shows "spirv_builder_get_words b capacity v tcs = Some (module_words b v,
    if 0 < tcs \<and> unat tcs < length (sect b Exec_modes) then of_nat (exec_modes_offset b + unat tcs) else tcs)"
proof -
  let ?st = "fold (\<lambda>s. copy_buffer (s = Exec_modes) (sect b s) 0) module_sections
             ([SpvMagicNumber, v, 0, prev_id b + 1, 0] @ capability_words b, tcs, tcs > 0)"
  let ?copy = "\<lambda>s. copy_buffer (s = Exec_modes) (sect b s) 0"
  have "fst (fold ?copy ss st) = fst st @ concat (map (sect b) ss)" for ss st
    by (induction ss arbitrary: st) simp_all
  then have words_eq: "fst ?st = module_words b v" by (simp add: module_words_def module_header_def)
  have keep: "fold ?copy ss (out, t, f) = (out @ concat (map (sect b) ss), t, f)"
    if "Exec_modes \<notin> set ss \<or> \<not> f" for ss out t f
    using that by (induction ss arbitrary: out) (auto simp: copy_other)
  let ?pre = "[Extensions, Imports, Memory_model, Entry_points]"
  let ?post = "[Debug_names, Decorations, Types_const_defs, Instructions]"
  let ?out = "([SpvMagicNumber, v, 0, prev_id b + 1, 0] @ capability_words b) @ concat (map (sect b) ?pre)"
  have split: "?st = fold ?copy ?post (copy_buffer True (sect b Exec_modes) 0 (?out, tcs, tcs > 0))"
  proof -
    have "fold ?copy module_sections st = fold ?copy ?post (copy_buffer True (sect b Exec_modes) 0 (fold ?copy ?pre st))" for st
      by (simp add: module_sections_def)
    then show ?thesis by (simp only: keep list.set simp_thms insert_iff empty_iff spv_section.distinct)
  qed
  have off: "length ?out = exec_modes_offset b" by (simp add: exec_modes_offset_def)
  have post: "fst (snd (fold ?copy ?post (out, t, f))) = t" for out t f by (subst keep) simp_all
  have tcs_eq: "fst (snd ?st) = (if 0 < tcs \<and> unat tcs < length (sect b Exec_modes) then of_nat (exec_modes_offset b + unat tcs) else tcs)"
  proof (cases "0 < tcs \<and> unat tcs < length (sect b Exec_modes)")
    case True
    then have pos: "(tcs > 0) = True" and lt: "unat tcs < 0 + length (sect b Exec_modes)" by simp_all
    show ?thesis
      unfolding split unfolding pos copy_exec_modes [OF le0 lt] off post diff_zero using True by simp
  next
    case False
    show ?thesis
    proof (cases "0 < tcs")
      case True
      with False have "length (sect b Exec_modes) \<le> unat tcs" by simp
      then have "fst (snd (copy_buffer True (sect b Exec_modes) 0 (?out, tcs, True))) = tcs"
        by (rule copy_beyond [of 0, simplified])
      then show ?thesis unfolding split using True False post by (cases "copy_buffer True (sect b Exec_modes) 0 (?out, tcs, True)") simp
    next
      case zero: False
      then show ?thesis unfolding split using post by (simp add: copy_other)
    qed
  qed
  show ?thesis using assms module_words_length [OF assms(1), of v] words_eq tcs_eq
    by (auto simp: spirv_builder_get_words_def Let_def split: prod.split)
qed

end
