(* ===== verification/Spirv_Invariant.thy ===== *)
theory Spirv_Invariant
  imports Spirv_Module
begin

text \<open>
  The invariant of the builder: memory is available, every section is a sequence of whole
  instructions, the ids declared in the type section are pairwise different and within the bound, each
  non-aggregate type and each constant in it was declared exactly once and the interning tables hold
  its id, and all constants of one opcode and type have the same number of words.
\<close>

section \<open>Entries without data\<close>

lemma with_data_lookup: "with_data ht \<Longrightarrow> ht_lookup ht k \<noteq> Some None"
  by (auto simp: with_data_def ht_lookup_def find_Some_iff)

lemma lookup_with_data:
  assumes ok: "ht_ok dk D kh ke ht" and "\<forall>k. D k \<longrightarrow> ht_lookup ht k \<noteq> Some None"
  shows "with_data ht"
  unfolding with_data_def
proof (intro ballI impI)
  note core = ht_okD(2) [OF ok]
  fix e assume "e \<in> set (ht_table ht)" and pr: "entry_is_present ht e"
  then obtain i where i: "i < length (ht_table ht)" "ht_table ht ! i = e" by (auto simp: in_set_conv_nth)
  have D: "D (he_key e)" using ht_coreD(3) [OF core i(1)] i(2) pr by simp
  then have "occurs_at ht (he_key e) i"
    using i pr key_funsD(2) [OF ht_coreD(2) [OF core]] by (simp add: occurs_at_def)
  then have "ht_lookup ht (he_key e) = Some (he_data e)" using ht_lookup_Some_iff [OF core D] i(2) by blast
  then show "he_data e \<noteq> None" using assms(2) D by metis
qed

section \<open>Instructions of a section\<close>

definition stream_ok :: "u32 list \<Rightarrow> bool" where
  "stream_ok ws \<longleftrightarrow> (case decode ws of None \<Rightarrow> False | Some is \<Rightarrow> ws = concat (map encode is) \<and> list_all encodable is)"

definition insts :: "spirv_builder \<Rightarrow> spv_section \<Rightarrow> instruction list" where
  "insts b s = (case decode (sect b s) of Some is \<Rightarrow> is | None \<Rightarrow> [])"

lemma stream_okI:
  assumes "ws = concat (map encode is)" "list_all encodable is"
  shows "stream_ok ws" "decode ws = Some is"
proof -
  show d: "decode ws = Some is" using assms decode_encodes by (simp add: list_all_iff)
  show "stream_ok ws" unfolding stream_ok_def d using assms by simp
qed

lemma stream_ok_append:
  assumes "stream_ok ws" "encodable i"
  shows "stream_ok (ws @ encode i)" "decode (ws @ encode i) = Some (the (decode ws) @ [i])"
proof -
  obtain is' where "decode ws = Some is'" "ws = concat (map encode is')" "list_all encodable is'"
    using assms(1) by (auto simp: stream_ok_def split: option.splits)
  then show "stream_ok (ws @ encode i)" "decode (ws @ encode i) = Some (the (decode ws) @ [i])"
    using stream_okI [of "ws @ encode i" "is' @ [i]"] assms(2) by simp_all
qed

lemma stream_ok_Nil [simp]: "stream_ok []"
  by (simp add: stream_ok_def)

section \<open>Declarations\<close>

definition is_interned_type :: "u32 \<Rightarrow> bool" where
  "is_interned_type op \<longleftrightarrow> op \<in> {SpvOpTypeVoid, SpvOpTypeBool, SpvOpTypeInt, SpvOpTypeFloat, SpvOpTypeVector,
     SpvOpTypeMatrix, SpvOpTypeImage, SpvOpTypeSampledImage, SpvOpTypePointer}"

definition is_const_op :: "u32 \<Rightarrow> bool" where
  "is_const_op op \<longleftrightarrow> op \<in> {SpvOpConstantTrue, SpvOpConstantFalse, SpvOpConstant, SpvOpConstantComposite}"

text \<open>The id an instruction of the type section declares: after the type for constants and variables, else first.\<close>

definition def_id :: "instruction \<Rightarrow> u32" where
  "def_id i = (if is_const_op (fst i) \<or> fst i = SpvOpVariable then snd i ! 1 else snd i ! 0)"

definition value_words :: "u32 \<Rightarrow> nat" where
  "value_words width = (if sint width \<le> 32 then 1 else 2)"

definition const_type_ok :: "spirv_builder \<Rightarrow> u32 \<Rightarrow> u32 \<Rightarrow> nat \<Rightarrow> bool" where
  "const_type_ok b op type n \<longleftrightarrow>
     ((op = SpvOpConstantTrue \<or> op = SpvOpConstantFalse) \<longrightarrow> n = 0) \<and>
     (op = SpvOpConstant \<longrightarrow>
        (\<exists>width sign. type_lookup b SpvOpTypeInt [width, sign] = Some type \<and> n = value_words width) \<or>
        (\<exists>width. type_lookup b SpvOpTypeFloat [width] = Some type \<and> n = value_words width))"

definition decls :: "spirv_builder \<Rightarrow> instruction list" where
  "decls b = insts b Types_const_defs"

definition ids_ok :: "spirv_builder \<Rightarrow> bool" where
  "ids_ok b \<longleftrightarrow> distinct (map def_id (decls b)) \<and> (\<forall>i \<in> set (decls b). 0 < def_id i \<and> def_id i \<le> prev_id b)"

definition types_ok :: "spirv_builder \<Rightarrow> bool" where
  "types_ok b \<longleftrightarrow>
     (\<forall>op ops. (op, ops) \<in> set (decls b) \<longrightarrow> is_interned_type op \<longrightarrow>
        length ops = Suc (type_arity op) \<and> type_lookup b op (tl ops) = Some (hd ops)) \<and>
     (\<forall>op args rid. is_interned_type op \<longrightarrow> length args = type_arity op \<longrightarrow> type_lookup b op args = Some rid \<longrightarrow>
        (op, rid # args) \<in> set (decls b))"

definition consts_ok :: "(u32 \<Rightarrow> u32 \<Rightarrow> nat) \<Rightarrow> spirv_builder \<Rightarrow> bool" where
  "consts_ok ar b \<longleftrightarrow>
     (\<forall>op ops. (op, ops) \<in> set (decls b) \<longrightarrow> is_const_op op \<longrightarrow>
        length ops = 2 + ar op (hd ops) \<and> const_lookup b op (hd ops) (drop 2 ops) = Some (ops ! 1) \<and>
        const_type_ok b op (hd ops) (ar op (hd ops))) \<and>
     (\<forall>op type args rid. is_const_op op \<longrightarrow> length args = ar op type \<longrightarrow> const_lookup b op type args = Some rid \<longrightarrow>
        (op, type # rid # args) \<in> set (decls b)) \<and>
     (\<forall>ht e. b_consts b = Some ht \<longrightarrow> e \<in> set (ht_table ht) \<longrightarrow> entry_is_present ht e \<longrightarrow>
        (\<exists>c. he_key e = Ptr c \<and> is_const_op (cn_op c) \<and> length (cn_args c) = ar (cn_op c) (cn_type c)))"

definition binv :: "(u32 \<Rightarrow> u32 \<Rightarrow> nat) \<Rightarrow> spirv_builder \<Rightarrow> bool" where
  "binv ar b \<longleftrightarrow> ready b \<and> (\<forall>s. stream_ok (sect b s)) \<and> caps_valid b \<and> types_valid b \<and> consts_valid ar b \<and>
     ids_ok b \<and> types_ok b \<and> consts_ok ar b"

lemma binvD:
  assumes "binv ar b"
  shows "ready b" "\<And>s. stream_ok (sect b s)" "caps_valid b" "types_valid b" "consts_valid ar b" "ids_ok b" "types_ok b"
    "consts_ok ar b"
  using assms by (simp_all add: binv_def)

lemma binv_empty: "binv ar (empty_builder (\<lambda>_. True) dka)"
proof -
  let ?b = "empty_builder (\<lambda>_. True) dka"
  have s: "sect ?b s = []" for s by (simp add: empty_builder_def)
  then have "decls ?b = []" by (simp add: decls_def insts_def)
  moreover have "caps ?b = None" "b_types ?b = None" "b_consts ?b = None" by (simp_all add: empty_builder_def)
  ultimately show ?thesis
    by (simp add: binv_def s caps_valid_def types_valid_def consts_valid_def ids_ok_def types_ok_def consts_ok_def
        type_lookup_def const_lookup_def)
qed

section \<open>One more instruction\<close>

lemma caps_valid_cong:
  "deleted_key_address b' = deleted_key_address b \<Longrightarrow> caps b' = caps b \<Longrightarrow> caps_valid b' = caps_valid b"
  unfolding caps_valid_def by (simp only:)

text \<open>
  \<open>b'\<close> differs from \<open>b\<close> by one instruction at the end of section \<open>s\<close>, by the room of that
  section's buffer, and by new ids.
\<close>

definition adds :: "spv_section \<Rightarrow> instruction \<Rightarrow> spirv_builder \<Rightarrow> spirv_builder \<Rightarrow> bool" where
  "adds s i b b' \<longleftrightarrow> ready b' \<and> deleted_key_address b' = deleted_key_address b \<and> caps b' = caps b \<and>
     b_types b' = b_types b \<and> b_consts b' = b_consts b \<and> prev_id b \<le> prev_id b' \<and>
     (\<forall>s'. sect b' s' = (if s' = s then sect b s @ encode i else sect b s'))"

lemma insts_adds:
  assumes "stream_ok (sect b s)" "encodable i" "sect b' s' = (if s' = s then sect b s @ encode i else sect b s')"
  shows "insts b' s' = (if s' = s then insts b s @ [i] else insts b s')"
  using assms stream_ok_append(2) [OF assms(1,2)] by (auto simp: insts_def stream_ok_def split: option.splits)

text \<open>An instruction outside the type section.\<close>

lemma binv_adds_other:
  assumes inv: "binv ar b" and "adds s i b b'" "s \<noteq> Types_const_defs" "encodable i"
  shows "binv ar b'"
proof -
  note I = binvD [OF inv]
  have a: "ready b'" "deleted_key_address b' = deleted_key_address b" "caps b' = caps b" "b_types b' = b_types b"
    "b_consts b' = b_consts b" "prev_id b \<le> prev_id b'"
    "\<And>s'. sect b' s' = (if s' = s then sect b s @ encode i else sect b s')"
    using assms(2) by (simp_all add: adds_def)
  have d: "decls b' = decls b" using a(7) [of Types_const_defs] assms(3) by (simp add: decls_def insts_def)
  have l: "type_lookup b' = type_lookup b" "const_lookup b' = const_lookup b"
    using a(4,5) by (simp_all add: fun_eq_iff type_lookup_def const_lookup_def)
  have le: "unat (prev_id b) \<le> unat (prev_id b')" using a(6) by (simp add: word_le_nat_alt)
  have "stream_ok (sect b' s')" for s' using a(7) I(2) stream_ok_append(1) [OF I(2) assms(4)] by simp
  moreover have "caps_valid b'" using I(3) caps_valid_cong [OF a(2,3)] by simp
  moreover have "types_valid b'" "consts_valid ar b'"
    using I(4,5) a le by (auto simp: types_valid_def consts_valid_def split: option.splits)
  moreover have "ids_ok b'" using I(6) a(6) by (auto simp: ids_ok_def d intro: order_trans)
  moreover have "types_ok b'" using I(7) unfolding types_ok_def d l .
  moreover have "consts_ok ar b'" using I(8) unfolding consts_ok_def const_type_ok_def d l a(5) .
  ultimately show ?thesis using a(1) by (simp add: binv_def)
qed

text \<open>A declaration that the tables do not track, with a new id.\<close>

lemma binv_adds_decl:
  assumes inv: "binv ar b" and "adds Types_const_defs i b b'" "encodable i"
    "\<not> is_interned_type (fst i)" "\<not> is_const_op (fst i)" "def_id i = prev_id b + 1" "prev_id b' = prev_id b + 1"
    "unat (prev_id b) < 2 ^ 30"
  shows "binv ar b'"
proof -
  note I = binvD [OF inv]
  have a: "ready b'" "deleted_key_address b' = deleted_key_address b" "caps b' = caps b" "b_types b' = b_types b"
    "b_consts b' = b_consts b" "\<And>s'. sect b' s' = (if s' = Types_const_defs then sect b Types_const_defs @ encode i else sect b s')"
    using assms(2) by (simp_all add: adds_def)
  have d: "decls b' = decls b @ [i]"
    using insts_adds [OF I(2) [of Types_const_defs] assms(3), of b' Types_const_defs] a(6) by (simp add: decls_def)
  have l: "type_lookup b' = type_lookup b" "const_lookup b' = const_lookup b"
    using a(4,5) by (simp_all add: fun_eq_iff type_lookup_def const_lookup_def)
  have suc: "unat (prev_id b + 1) = Suc (unat (prev_id b))" using assms(8) by (intro unat_succ) simp
  have "stream_ok (sect b' s')" for s' using a(6) I(2) stream_ok_append(1) [OF I(2) assms(3)] by simp
  moreover have "caps_valid b'" using I(3) caps_valid_cong [OF a(2,3)] by simp
  moreover have "types_valid b'" "consts_valid ar b'"
    using I(4,5) a suc assms(7) by (auto simp: types_valid_def consts_valid_def split: option.splits)
  moreover have "ids_ok b'"
    using I(6) suc by (auto simp: ids_ok_def d assms(6,7) word_le_nat_alt word_less_nat_alt)
  moreover have "types_ok b'" "consts_ok ar b'"
    using I(7,8) a(5) assms(4,5) by (auto simp: types_ok_def consts_ok_def d l const_type_ok_def)
  ultimately show ?thesis using a(1) by (simp add: binv_def)
qed

lemma with_words_adds:
  assumes "ready b" "length (snd i) + 1 \<le> n"
  shows "adds s i b (with_words s n (encode i) b)"
  using assms by (auto simp: adds_def encode_def)

section \<open>Types\<close>

lemma plain_type_small: "is_interned_type op \<Longrightarrow> unat op < 2 ^ 16" "is_const_op op \<Longrightarrow> unat op < 2 ^ 16"
  by (auto simp: is_interned_type_def is_const_op_def)

lemma plain_not_const: "is_interned_type op \<Longrightarrow> \<not> is_const_op op" "is_interned_type op \<Longrightarrow> op \<noteq> SpvOpVariable"
  "is_const_op op \<Longrightarrow> \<not> is_interned_type op" "\<not> is_const_op SpvOpVariable"
  by (auto simp: is_interned_type_def is_const_op_def)

lemma type_arity_le: "type_arity op \<le> 7"
  by (simp add: type_arity_def)

lemma type_declared_fields [simp]:
  "caps (type_declared b op args ht) = caps b" "b_consts (type_declared b op args ht) = b_consts b"
  "deleted_key_address (type_declared b op args ht) = deleted_key_address b"
  "b_types (type_declared b op args ht) = Some ht" "prev_id (type_declared b op args ht) = prev_id b + 1"
  "const_lookup (type_declared b op args ht) = const_lookup b"
  "sect (type_declared b op args ht) s =
     (if s = Types_const_defs then sect b Types_const_defs @ encode (op, (prev_id b + 1) # args) else sect b s)"
  by (simp_all add: type_declared_def fun_eq_iff const_lookup_def)

lemma ready_type_declared [simp]: "ready b \<Longrightarrow> ready (type_declared b op args ht)"
  by (simp add: type_declared_def encode_def)

lemma fresh_id:
  assumes "unat (prev_id b) < 2 ^ 30"
  shows "unat (prev_id b + 1) = Suc (unat (prev_id b))" "0 < prev_id b + 1" "prev_id b < prev_id b + 1"
proof -
  show *: "unat (prev_id b + 1) = Suc (unat (prev_id b))" using assms by (intro unat_succ) simp
  show "0 < prev_id b + 1" "prev_id b < prev_id b + 1" using * by (simp_all add: word_less_nat_alt)
qed

lemma ids_ok_append:
  assumes "ids_ok b" "decls b' = decls b @ [i]" "def_id i = prev_id b + 1" "prev_id b' = prev_id b + 1"
    "unat (prev_id b) < 2 ^ 30"
  shows "ids_ok b'"
proof -
  have "def_id j < prev_id b + 1" if "j \<in> set (decls b)" for j
    using assms(1) that fresh_id(3) [OF assms(5)] unfolding ids_ok_def by (meson le_less_trans)
  then show ?thesis using assms fresh_id [OF assms(5)]
    by (fastforce simp: ids_ok_def intro: less_imp_le order_trans)
qed

lemma const_type_ok_mono:
  assumes "const_type_ok b op type n"
    "\<And>p args rid. length args = type_arity p \<Longrightarrow> type_lookup b p args = Some rid \<Longrightarrow> type_lookup b' p args = Some rid"
  shows "const_type_ok b' op type n"
proof -
  have "type_lookup b' SpvOpTypeInt [w, s] = Some type" if "type_lookup b SpvOpTypeInt [w, s] = Some type" for w s
    using that by (intro assms(2)) (simp_all add: type_arity_def)
  moreover have "type_lookup b' SpvOpTypeFloat [w] = Some type" if "type_lookup b SpvOpTypeFloat [w] = Some type" for w
    using that by (intro assms(2)) (simp_all add: type_arity_def)
  ultimately show ?thesis using assms(1) unfolding const_type_ok_def by blast
qed

text \<open>\<^verbatim>\<open>get_type_def\<close> returns, keeps the invariant, and afterwards the table knows the id.\<close>

lemma get_type_def_binv:
  assumes inv: "binv ar b" and op: "is_interned_type op" "length args = type_arity op" and id: "unat (prev_id b) < 2 ^ 30"
  obtains rid b' where "get_type_def b op args = Some (rid, b')" "binv ar b'" "type_lookup b' op args = Some rid"
    "unat (prev_id b') \<le> Suc (unat (prev_id b))" "caps b' = caps b" "prev_id b \<le> prev_id b'"
    "\<forall>s. s \<noteq> Types_const_defs \<longrightarrow> bufs b' s = bufs b s" "\<exists>ds. decls b' = decls b @ ds"
proof (cases "type_lookup b op args")
  case (Some rid)
  note I = binvD [OF inv]
  show thesis using get_type_def_hit [OF I(4) Some op(2)] inv Some by (intro that [of rid b]) simp_all
next
  case None
  note I = binvD [OF inv]
  let ?i = "(op, (prev_id b + 1) # args)"
  obtain ht where ht: "get_type_def b op args = Some (prev_id b + 1, type_declared b op args ht)"
    "types_valid (type_declared b op args ht)"
    "\<And>op' args'. length args' = type_arity op' \<Longrightarrow> type_lookup (type_declared b op args ht) op' args' =
       (if op' = op \<and> args' = args then Some (prev_id b + 1) else type_lookup b op' args')"
    using get_type_def_miss [OF I(1,4) None op(2) id] by blast
  let ?b = "type_declared b op args ht"
  have enc: "encodable ?i"
    using plain_type_small(1) [OF op(1)] op(2) type_arity_le [of op] by (simp add: encodable_def)
  have d: "decls ?b = decls b @ [?i]"
    using insts_adds [OF I(2) [of Types_const_defs] enc, of ?b Types_const_defs] by (simp add: decls_def)
  have mono: "type_lookup ?b o' args' = Some rid'"
    if "length args' = type_arity o'" "type_lookup b o' args' = Some rid'" for o' args' rid'
    using ht(3) [OF that(1)] that(2) None by auto
  have di: "def_id ?i = prev_id b + 1" using plain_not_const(1,2) [OF op(1)] by (simp add: def_id_def)
  have "stream_ok (sect ?b s)" for s using I(2) stream_ok_append(1) [OF I(2) enc] by simp
  moreover have "caps_valid ?b" using I(3) caps_valid_cong [of ?b b] by simp
  moreover have "consts_valid ar ?b"
    using I(5) fresh_id(1) [OF id] by (auto simp: consts_valid_def split: option.splits)
  moreover have "ids_ok ?b" using ids_ok_append [OF I(6) d di _ id] by simp
  moreover have "types_ok ?b"
  proof -
    note T = I(7) [unfolded types_ok_def]
    have "length ops = Suc (type_arity o') \<and> type_lookup ?b o' (tl ops) = Some (hd ops)"
      if "(o', ops) \<in> set (decls ?b)" "is_interned_type o'" for o' ops
    proof (cases "(o', ops) = ?i")
      case True
      then show ?thesis using op(2) ht(3) [OF op(2)] by simp
    next
      case False
      then have "(o', ops) \<in> set (decls b)" using that(1) d by auto
      then have old: "length ops = Suc (type_arity o')" "type_lookup b o' (tl ops) = Some (hd ops)" using T that(2) by blast+
      then show ?thesis using mono [of "tl ops" o'] by simp
    qed
    moreover have "(o', rid # args') \<in> set (decls ?b)"
      if "is_interned_type o'" "length args' = type_arity o'" "type_lookup ?b o' args' = Some rid" for o' args' rid
      using ht(3) [OF that(2)] that T d by (auto split: if_splits)
    ultimately show ?thesis unfolding types_ok_def by blast
  qed
  moreover have "consts_ok ar ?b"
  proof -
    have ct: "const_type_ok ?b o' t n" if "const_type_ok b o' t n" for o' t n
      using that mono by (rule const_type_ok_mono)
    show ?thesis using I(8) ct plain_not_const(1) [OF op(1)] unfolding consts_ok_def d by auto
  qed
  ultimately have "binv ar ?b" using I(1) ht(2) by (simp add: binv_def)
  moreover have "\<exists>ds. decls ?b = decls b @ ds" using d by blast
  ultimately show thesis using ht(1) ht(3) [OF op(2)] fresh_id [OF id]
    by (intro that [of "prev_id b + 1" ?b]) (simp_all add: less_imp_le type_declared_def with_words_def)
qed

section \<open>Constants\<close>

lemma const_declared_fields [simp]:
  "caps (const_declared b op type args ht) = caps b" "b_types (const_declared b op type args ht) = b_types b"
  "deleted_key_address (const_declared b op type args ht) = deleted_key_address b"
  "b_consts (const_declared b op type args ht) = Some ht" "prev_id (const_declared b op type args ht) = prev_id b + 1"
  "type_lookup (const_declared b op type args ht) = type_lookup b"
  "sect (const_declared b op type args ht) s =
     (if s = Types_const_defs then sect b Types_const_defs @ encode (op, type # (prev_id b + 1) # args) else sect b s)"
  by (simp_all add: const_declared_def fun_eq_iff type_lookup_def)

lemma bufs_const_declared [simp]: "s \<noteq> Types_const_defs \<Longrightarrow> bufs (const_declared b op type args ht) s = bufs b s"
  by (simp add: const_declared_def with_words_def)

lemma ready_const_declared [simp]: "ready b \<Longrightarrow> ready (const_declared b op type args ht)"
  by (simp add: const_declared_def encode_def)

text \<open>All constants declared so far with this opcode and type have \<open>n\<close> argument words.\<close>

definition arity_fits :: "spirv_builder \<Rightarrow> u32 \<Rightarrow> u32 \<Rightarrow> nat \<Rightarrow> bool" where
  "arity_fits b op type n \<longleftrightarrow> (\<forall>(o', ops) \<in> set (decls b). o' = op \<and> hd ops = type \<longrightarrow> length ops = 2 + n)"

text \<open>The arity function of the constants is fixed only for the pairs in use, so it can be chosen for a new pair.\<close>

lemma binv_choose_arity:
  assumes inv: "binv ar b" and op: "is_const_op op" and fits: "arity_fits b op type n"
  obtains ar' where "binv ar' b" "ar' op type = n"
proof (cases "\<exists>ops. (op, ops) \<in> set (decls b) \<and> hd ops = type")
  case True
  then obtain ops where ops: "(op, ops) \<in> set (decls b)" "hd ops = type" by blast
  then have "length ops = 2 + n" using fits by (auto simp: arity_fits_def)
  moreover have "length ops = 2 + ar op type" using binvD(8) [OF inv] ops op unfolding consts_ok_def by blast
  ultimately show thesis using inv by (intro that [of ar]) simp_all
next
  case False
  note I = binvD [OF inv]
  define ar' where "ar' = (\<lambda>o' t. if o' = op \<and> t = type then n else ar o' t)"
  note C = I(8) [unfolded consts_ok_def]
  note C1 = C [THEN conjunct1, rule_format] and C2 = C [THEN conjunct2, THEN conjunct1, rule_format]
    and C3 = C [THEN conjunct2, THEN conjunct2, rule_format]
  have same: "ar' o' (hd ops) = ar o' (hd ops)" if "(o', ops) \<in> set (decls b)" for o' ops
    using False that by (auto simp: ar'_def)
  have used: "\<exists>ops. (cn_op c, ops) \<in> set (decls b) \<and> hd ops = cn_type c"
    if e: "b_consts b = Some ht" "e \<in> set (ht_table ht)" "entry_is_present ht e" "he_key e = Ptr c" for ht e c
  proof -
    have c: "is_const_op (cn_op c)" "length (cn_args c) = ar (cn_op c) (cn_type c)" using C3 [OF e(1-3)] e(4) by auto
    have ok: "const_table_ok ar ht" using I(5) e(1) by (simp add: consts_valid_def)
    let ?key = "\<lparr>cn_op = cn_op c, cn_type = cn_type c, cn_args = cn_args c, cn_result = 0\<rparr>"
    have "const_equals (Ptr ?key) (he_key e)" using c(2) by (simp add: e(4) const_equals_Ptr [of ar] const_key_def)
    then have "ht_lookup ht (Ptr ?key) \<noteq> None"
      using e(2,3) ht_okD(5) [OF ok] by (auto simp: ht_lookup_def find_None_iff)
    then obtain rid where "const_lookup b (cn_op c) (cn_type c) (cn_args c) = Some rid"
      using e(1) by (auto simp: const_lookup_def)
    from C2 [OF c this] show ?thesis by force
  qed
  have not_pair: "\<not> (cn_op c = op \<and> cn_type c = type)"
    if e: "b_consts b = Some ht" "e \<in> set (ht_table ht)" "entry_is_present ht e" "he_key e = Ptr c" for ht e c
    using used [OF e] False by auto
  have "consts_valid ar' b"
  proof (cases "b_consts b")
    case (Some ht)
    then have ok: "const_table_ok ar ht" and data: "\<forall>k. const_key ar k \<longrightarrow> ht_lookup ht k \<noteq> Some None"
      and cnt: "present_count ht \<le> unat (prev_id b)"
      using I(5) by (simp_all add: consts_valid_def)
    have "const_key ar' (he_key e)" if e: "e \<in> set (ht_table ht)" "entry_is_present ht e" for e
    proof -
      obtain c where c: "he_key e = Ptr c" "length (cn_args c) = ar (cn_op c) (cn_type c)" using C3 [OF Some e] by blast
      then show ?thesis using not_pair [OF Some e c(1)] by (auto simp: const_key_def ar'_def)
    qed
    then have "const_table_ok ar' ht" using ht_ok_change [OF ok const_callbacks] by blast
    moreover have "ht_lookup ht k \<noteq> Some None" for k using with_data_lookup [OF lookup_with_data [OF ok data]] .
    ultimately show ?thesis using Some cnt by (simp add: consts_valid_def)
  qed (simp add: consts_valid_def)
  moreover have "consts_ok ar' b"
    unfolding consts_ok_def
  proof (intro conjI allI impI)
    fix o' ops assume o: "(o', ops) \<in> set (decls b)" "is_const_op o'"
    show "length ops = 2 + ar' o' (hd ops)" "const_lookup b o' (hd ops) (drop 2 ops) = Some (ops ! 1)"
      "const_type_ok b o' (hd ops) (ar' o' (hd ops))"
      using C1 [OF o] unfolding same [OF o(1)] by blast+
  next
    fix o' t args rid
    assume o: "is_const_op o'" "length args = ar' o' t" "const_lookup b o' t args = Some rid"
    show "(o', t # rid # args) \<in> set (decls b)"
    proof (cases "o' = op \<and> t = type")
      case True
      obtain ht where ht: "b_consts b = Some ht" "ht_lookup ht (Ptr \<lparr>cn_op = op, cn_type = type, cn_args = args, cn_result = 0\<rparr>) \<noteq> None"
        using o(3) True by (auto simp: const_lookup_def split: option.splits)
      have ok: "const_table_ok ar ht" using I(5) ht(1) by (simp add: consts_valid_def)
      obtain e where e: "e \<in> set (ht_table ht)" "entry_is_present ht e"
        "const_equals (Ptr \<lparr>cn_op = op, cn_type = type, cn_args = args, cn_result = 0\<rparr>) (he_key e)"
        using ht(2) ht_okD(5) [OF ok] by (auto simp: ht_lookup_def find_None_iff)
      obtain c where "he_key e = Ptr c" using C3 [OF ht(1) e(1,2)] by blast
      then show ?thesis using e(3) not_pair [OF ht(1) e(1,2)] by (auto simp: const_equals_def split: if_splits)
    next
      case no: False
      then have "ar' o' t = ar o' t" by (auto simp: ar'_def)
      then show ?thesis using C2 [OF o(1) _ o(3)] o(2) by simp
    qed
  next
    fix ht e assume e: "b_consts b = Some ht" "e \<in> set (ht_table ht)" "entry_is_present ht e"
    obtain c where c: "he_key e = Ptr c" "is_const_op (cn_op c)" "length (cn_args c) = ar (cn_op c) (cn_type c)"
      using C3 [OF e] by blast
    then show "\<exists>c. he_key e = Ptr c \<and> is_const_op (cn_op c) \<and> length (cn_args c) = ar' (cn_op c) (cn_type c)"
      using not_pair [OF e c(1)] by (auto simp: ar'_def)
  qed
  ultimately have "binv ar' b" using I by (simp add: binv_def)
  then show thesis by (rule that) (simp add: ar'_def)
qed

text \<open>\<^verbatim>\<open>get_const_def\<close>, with the arity of the constants chosen to fit.\<close>

lemma get_const_def_binv:
  assumes inv: "binv ar b" and op: "is_const_op op" "length args = ar op type" "length args \<le> 8"
    and ct: "const_type_ok b op type (length args)" and id: "unat (prev_id b) < 2 ^ 30"
  obtains rid b' where "get_const_def b op type args = Some (rid, b')" "binv ar b'" "const_lookup b' op type args = Some rid"
    "unat (prev_id b') \<le> Suc (unat (prev_id b))" "caps b' = caps b" "prev_id b \<le> prev_id b'"
    "\<forall>s. s \<noteq> Types_const_defs \<longrightarrow> bufs b' s = bufs b s" "type_lookup b' = type_lookup b" "\<exists>ds. decls b' = decls b @ ds"
proof (cases "const_lookup b op type args")
  case (Some rid)
  note I = binvD [OF inv]
  show thesis using get_const_def_hit [OF I(5) Some op(2,3)] inv Some by (intro that [of rid b]) simp_all
next
  case None
  note I = binvD [OF inv]
  let ?i = "(op, type # (prev_id b + 1) # args)"
  obtain ht where ht: "get_const_def b op type args = Some (prev_id b + 1, const_declared b op type args ht)"
    "consts_valid ar (const_declared b op type args ht)"
    "\<And>op' type' args'. length args' = ar op' type' \<Longrightarrow> const_lookup (const_declared b op type args ht) op' type' args' =
       (if op' = op \<and> type' = type \<and> args' = args then Some (prev_id b + 1) else const_lookup b op' type' args')"
    using get_const_def_miss [OF I(1,5) None op(2,3) id] by blast
  let ?b = "const_declared b op type args ht"
  have enc: "encodable ?i" using plain_type_small(2) [OF op(1)] op(3) by (simp add: encodable_def)
  have d: "decls ?b = decls b @ [?i]"
    using insts_adds [OF I(2) [of Types_const_defs] enc, of ?b Types_const_defs] by (simp add: decls_def)
  have di: "def_id ?i = prev_id b + 1" using op(1) by (simp add: def_id_def)
  note C = I(8) [unfolded consts_ok_def]
  note C1 = C [THEN conjunct1, rule_format] and C2 = C [THEN conjunct2, THEN conjunct1, rule_format]
    and C3 = C [THEN conjunct2, THEN conjunct2, rule_format]
  have "stream_ok (sect ?b s)" for s using I(2) stream_ok_append(1) [OF I(2) enc] by simp
  moreover have "caps_valid ?b" using I(3) caps_valid_cong [of ?b b] by simp
  moreover have "types_valid ?b"
    using I(4) fresh_id(1) [OF id] by (auto simp: types_valid_def split: option.splits)
  moreover have "ids_ok ?b" using ids_ok_append [OF I(6) d di _ id] by simp
  moreover have "types_ok ?b"
    using I(7) plain_not_const(3) [OF op(1)] unfolding types_ok_def d by auto
  moreover have "consts_ok ar ?b"
    unfolding consts_ok_def
  proof (intro conjI allI impI)
    fix o' ops assume o: "(o', ops) \<in> set (decls ?b)" "is_const_op o'"
    have "length ops = 2 + ar o' (hd ops) \<and> const_lookup ?b o' (hd ops) (drop 2 ops) = Some (ops ! 1) \<and>
      const_type_ok ?b o' (hd ops) (ar o' (hd ops))"
    proof (cases "(o', ops) = ?i")
      case True
      then show ?thesis using op(2) ht(3) [OF op(2)] ct by (simp add: const_type_ok_def)
    next
      case False
      then have "(o', ops) \<in> set (decls b)" using o(1) d by auto
      from C1 [OF this o(2)] have old: "length ops = 2 + ar o' (hd ops)"
        "const_lookup b o' (hd ops) (drop 2 ops) = Some (ops ! 1)" "const_type_ok b o' (hd ops) (ar o' (hd ops))" by blast+
      have "length (drop 2 ops) = ar o' (hd ops)" using old(1) by simp
      from ht(3) [OF this] old None show ?thesis by (auto simp: const_type_ok_def)
    qed
    then show "length ops = 2 + ar o' (hd ops)" "const_lookup ?b o' (hd ops) (drop 2 ops) = Some (ops ! 1)"
      "const_type_ok ?b o' (hd ops) (ar o' (hd ops))" by blast+
  next
    fix o' t args' rid
    assume o: "is_const_op o'" "length args' = ar o' t" "const_lookup ?b o' t args' = Some rid"
    show "(o', t # rid # args') \<in> set (decls ?b)"
      using ht(3) [OF o(2)] o C2 [OF o(1,2)] d by (auto split: if_splits)
  next
    fix h e assume e: "b_consts ?b = Some h" "e \<in> set (ht_table h)" "entry_is_present h e"
    have ok: "const_table_ok ar h" using ht(2) e(1) by (simp add: consts_valid_def)
    obtain i where i: "i < length (ht_table h)" "ht_table h ! i = e" using e(2) by (auto simp: in_set_conv_nth)
    have D: "const_key ar (he_key e)" using ht_coreD(3) [OF ht_okD(2) [OF ok] i(1)] i(2) e(3) by simp
    then obtain c where c: "he_key e = Ptr c" "length (cn_args c) = ar (cn_op c) (cn_type c)" by (rule const_key_cases)
    have "occurs_at h (he_key e) i"
      using i e(3) key_funsD(2) [OF ht_coreD(2) [OF ht_okD(2) [OF ok]] D] by (simp add: occurs_at_def)
    then have "ht_lookup h (he_key e) \<noteq> None" using ht_lookup_None_iff [of h "he_key e"] by blast
    moreover have "const_equals (he_key e) (Ptr \<lparr>cn_op = cn_op c, cn_type = cn_type c, cn_args = cn_args c, cn_result = 0\<rparr>)"
      using c by (simp add: const_equals_Ptr [of ar] const_key_def)
    moreover have "const_key ar (Ptr \<lparr>cn_op = cn_op c, cn_type = cn_type c, cn_args = cn_args c, cn_result = 0\<rparr>)"
      using c(2) by (simp add: const_key_def)
    ultimately have "const_lookup ?b (cn_op c) (cn_type c) (cn_args c) \<noteq> None"
      using ht_lookup_cong [OF ok D] e(1) by (simp add: const_lookup_def)
    show "\<exists>c. he_key e = Ptr c \<and> is_const_op (cn_op c) \<and> length (cn_args c) = ar (cn_op c) (cn_type c)"
    proof (cases "cn_op c = op")
      case True
      then show ?thesis using c op(1) by auto
    next
      case False
      then have "const_lookup b (cn_op c) (cn_type c) (cn_args c) \<noteq> None"
        using ht(3) [OF c(2)] \<open>const_lookup ?b (cn_op c) (cn_type c) (cn_args c) \<noteq> None\<close> by simp
      then obtain h0 where h0: "b_consts b = Some h0"
        "ht_lookup h0 (Ptr \<lparr>cn_op = cn_op c, cn_type = cn_type c, cn_args = cn_args c, cn_result = 0\<rparr>) \<noteq> None"
        by (auto simp: const_lookup_def split: option.splits)
      have ok0: "const_table_ok ar h0" using I(5) h0(1) by (simp add: consts_valid_def)
      obtain e0 where e0: "e0 \<in> set (ht_table h0)" "entry_is_present h0 e0"
        "const_equals (Ptr \<lparr>cn_op = cn_op c, cn_type = cn_type c, cn_args = cn_args c, cn_result = 0\<rparr>) (he_key e0)"
        using h0(2) ht_okD(5) [OF ok0] by (auto simp: ht_lookup_def find_None_iff)
      obtain c0 where "he_key e0 = Ptr c0" "is_const_op (cn_op c0)" using C3 [OF h0(1) e0(1,2)] by blast
      then show ?thesis using e0(3) c by (auto simp: const_equals_def split: if_splits)
    qed
  qed
  ultimately have "binv ar ?b" using I(1) ht(2) by (simp add: binv_def)
  moreover have "\<exists>ds. decls ?b = decls b @ ds" using d by blast
  ultimately show thesis using ht(1) ht(3) [OF op(2)] fresh_id [OF id]
    by (intro that [of "prev_id b + 1" ?b]) (simp_all add: less_imp_le)
qed

section \<open>Capabilities\<close>

definition cap_count :: "spirv_builder \<Rightarrow> nat" where
  "cap_count b = (case caps b of None \<Rightarrow> 0 | Some s \<Rightarrow> set_count s)"

definition has_cap :: "spirv_builder \<Rightarrow> u32 \<Rightarrow> bool" where
  "has_cap b c \<longleftrightarrow> (case caps b of None \<Rightarrow> False | Some s \<Rightarrow> set_member s (Ptr (ucast c)))"

lemma cap_key:
  assumes "c \<noteq> (0::u32)"
  shows "uint_key (ucast c :: u64) = Ptr (ucast c)" "u32_key (Ptr (ucast c))"
proof -
  have u: "unat (ucast c :: u64) = unat c" using unat_u32_less [of c] by (simp add: unat_ucast_mod)
  then have nz: "(ucast c :: u64) \<noteq> 0" using assms by (metis unat_0 unat_eq_zero)
  then show "uint_key (ucast c :: u64) = Ptr (ucast c)" by simp
  show "u32_key (Ptr (ucast c))" using nz u unat_u32_less [of c] by (simp add: u32_key_def word_less_nat_alt)
qed

lemma ucast_u32_eq: "(ucast (c::u32) :: u64) = ucast d \<longleftrightarrow> c = d"
proof -
  have u: "unat (ucast c :: u64) = unat c" for c :: u32 using unat_u32_less [of c] by (simp add: unat_ucast_mod)
  show ?thesis using u [of c] u [of d] by (metis word_unat_eq_iff)
qed

lemma emit_cap_ok:
  assumes "ready b" "caps_valid b" "c \<noteq> 0" "cap_count b < 2 ^ 30 - 1"
  obtains s where "spirv_builder_emit_cap b c = Some (b\<lparr>caps := Some s\<rparr>)" "caps_valid (b\<lparr>caps := Some s\<rparr>)"
    "cap_count (b\<lparr>caps := Some s\<rparr>) \<le> Suc (cap_count b)"
    "\<And>c'. c' \<noteq> 0 \<Longrightarrow> has_cap (b\<lparr>caps := Some s\<rparr>) c' \<longleftrightarrow> c' = c \<or> has_cap b c'"
proof -
  let ?d = "deleted_key_address b"
  have al: "mem_ctx b = (\<lambda>_. True)" using assms(1) by (rule ready_alloc)
  obtain s0 where s0: "set_ok u32_key (key_u32_hash ?d) (key_u32_equals ?d) s0" "set_count s0 = cap_count b"
    "\<And>c. has_cap b c \<longleftrightarrow> set_member s0 (Ptr (ucast c))"
    and start: "caps b = Some s0 \<or> caps b = None \<and> mesa_set_create_u32_keys (\<lambda>_. True) ?d = Some s0"
  proof (cases "caps b")
    case None
    obtain s where "mesa_set_create (\<lambda>_. True) (Some (key_u32_hash ?d)) (key_u32_equals ?d) = Some s"
      "set_ok u32_key (key_u32_hash ?d) (key_u32_equals ?d) s" "set_count s = 0" "\<And>k. \<not> set_member s k"
      using set_create_ok [OF u32_callbacks] by blast
    then show thesis using None that by (simp add: mesa_set_create_u32_keys_def cap_count_def has_cap_def)
  next
    case (Some s)
    then show thesis using assms(2) by (intro that [of s]) (simp_all add: caps_valid_def cap_count_def has_cap_def)
  qed
  have lt: "set_count s0 < 2 ^ 30" using s0(2) assms(4) by simp
  obtain s1 where s1: "set_insert (\<lambda>_. True) s0 (Ptr (ucast c)) () = Some s1"
    "set_ok u32_key (key_u32_hash ?d) (key_u32_equals ?d) s1" "set_count s1 \<le> Suc (set_count s0)"
    "\<forall>k'. u32_key k' \<longrightarrow> set_contents s1 k' = (if key_u32_equals ?d k' (Ptr (ucast c)) then Some () else set_contents s0 k')"
    using u32_set.insert_total [OF s0(1) cap_key(2) [OF assms(3)] lt] by blast
  then obtain a where add: "mesa_set_add (\<lambda>_. True) s0 (Ptr (ucast c)) = Some (a, s1)"
    by (auto simp: set_insert_def bind_eq_Some)
  have run: "spirv_builder_emit_cap b c = Some (b\<lparr>caps := Some s1\<rparr>)"
    using start add al cap_key(1) [OF assms(3)] by (auto simp: spirv_builder_emit_cap_def)
  show thesis
  proof (rule that [OF run])
    show "caps_valid (b\<lparr>caps := Some s1\<rparr>)"
      using s1(2,3) s0(2) assms(4) by (simp add: caps_valid_def)
    show "cap_count (b\<lparr>caps := Some s1\<rparr>) \<le> Suc (cap_count b)" using s1(3) s0(2) by (simp add: cap_count_def)
    show "has_cap (b\<lparr>caps := Some s1\<rparr>) c' \<longleftrightarrow> c' = c \<or> has_cap b c'" if "c' \<noteq> 0" for c'
      using s1(4) [rule_format, OF cap_key(2) [OF that]] u32_key_equals [OF cap_key(2) [OF that] cap_key(2) [OF assms(3)]]
        ucast_u32_eq [of c' c] s0(3)
      by (auto simp: has_cap_def set_contents_def split: if_splits)
  qed
qed

lemma binv_caps:
  assumes "binv ar b" "caps_valid (b\<lparr>caps := c\<rparr>)"
  shows "binv ar (b\<lparr>caps := c\<rparr>)"
proof -
  note I = binvD [OF assms(1)]
  have d: "decls (b\<lparr>caps := c\<rparr>) = decls b" by (simp add: decls_def insts_def)
  have "types_valid (b\<lparr>caps := c\<rparr>)" "consts_valid ar (b\<lparr>caps := c\<rparr>)"
    using I(4,5) by (auto simp: types_valid_def consts_valid_def split: option.splits)
  moreover have "ids_ok (b\<lparr>caps := c\<rparr>)" using I(6) by (simp add: ids_ok_def d)
  moreover have "types_ok (b\<lparr>caps := c\<rparr>)" using I(7) by (simp add: types_ok_def d)
  moreover have "const_type_ok (b\<lparr>caps := c\<rparr>) = const_type_ok b" by (simp add: const_type_ok_def fun_eq_iff)
  then have "consts_ok ar (b\<lparr>caps := c\<rparr>)" using I(8) by (simp add: consts_ok_def d)
  ultimately show ?thesis using I assms(2) by (simp add: binv_def)
qed

end
