(* ===== verification/Spirv_Calls.thy ===== *)
theory Spirv_Calls
  imports Spirv_Invariant
begin

text \<open>
  Every function of the builder keeps the invariant. \<open>builder_inv b\<close> is the invariant for some arity
  function of the constants; \<open>next_state k b b'\<close> says that a call led from \<open>b\<close> to a state \<open>b'\<close> that
  satisfies it, took at most \<open>k\<close> ids and capabilities and kept every declaration and capability; \<open>budget k b\<close> leaves room for that many below
  the capacity of the tables. The lemmas go from the primitives to the functions that call others.
\<close>

section \<open>Steps\<close>

definition builder_inv :: "spirv_builder \<Rightarrow> bool" where
  "builder_inv b \<longleftrightarrow> (\<exists>ar. binv ar b)"

definition budget :: "nat \<Rightarrow> spirv_builder \<Rightarrow> bool" where
  "budget k b \<longleftrightarrow> unat (prev_id b) + k < 2 ^ 30 \<and> cap_count b + k < 2 ^ 30 - 1"

definition next_state :: "nat \<Rightarrow> spirv_builder \<Rightarrow> spirv_builder \<Rightarrow> bool" where
  "next_state k b b' \<longleftrightarrow> builder_inv b' \<and> prev_id b \<le> prev_id b' \<and> unat (prev_id b') \<le> unat (prev_id b) + k \<and>
     cap_count b' \<le> cap_count b + k \<and> (\<exists>ds. decls b' = decls b @ ds) \<and> (\<forall>c. c \<noteq> 0 \<longrightarrow> has_cap b c \<longrightarrow> has_cap b' c)"

lemma next_refl: "builder_inv b \<Longrightarrow> next_state k b b"
  by (simp add: next_state_def)

lemma next_trans:
  assumes "next_state k b b1" "next_state l b1 b2" "k + l \<le> m"
  shows "next_state m b b2"
  using assms unfolding next_state_def by auto

lemma next_inv: "next_state k b b' \<Longrightarrow> builder_inv b'"
  by (simp add: next_state_def)

lemma next_budget: "next_state k b b' \<Longrightarrow> budget (k + l) b \<Longrightarrow> budget l b'"
  by (auto simp: next_state_def budget_def)

lemma budget_mono: "budget k b \<Longrightarrow> l \<le> k \<Longrightarrow> budget l b"
  by (auto simp: budget_def)

lemma inv_ready: "builder_inv b \<Longrightarrow> ready b"
  using binvD(1) unfolding builder_inv_def by blast

lemma inv_empty: "builder_inv (empty_builder (\<lambda>_. True) dka)"
  using binv_empty unfolding builder_inv_def by blast

lemma cap_count_cong: "caps b' = caps b \<Longrightarrow> cap_count b' = cap_count b"
  by (simp add: cap_count_def)

lemma has_cap_cong: "caps b' = caps b \<Longrightarrow> has_cap b' = has_cap b"
  by (simp add: has_cap_def fun_eq_iff)

lemma decls_cong: "sect b' Types_const_defs = sect b Types_const_defs \<Longrightarrow> decls b' = decls b"
  by (simp add: decls_def insts_def)

text \<open>A step that leaves capabilities and the type section alone.\<close>

lemma next_stateI:
  assumes "builder_inv b'" "prev_id b \<le> prev_id b'" "unat (prev_id b') \<le> unat (prev_id b) + k" "caps b' = caps b"
    "\<exists>ds. decls b' = decls b @ ds"
  shows "next_state k b b'"
  using assms cap_count_cong [OF assms(4)] has_cap_cong [OF assms(4)] by (simp add: next_state_def)

section \<open>Primitives\<close>

lemma binv_new_id:
  assumes inv: "binv ar b" and id: "unat (prev_id b) < 2 ^ 30"
  shows "binv ar (b\<lparr>prev_id := prev_id b + 1\<rparr>)"
proof -
  let ?b = "b\<lparr>prev_id := prev_id b + 1\<rparr>"
  note I = binvD [OF inv] and f = fresh_id [OF id]
  have d: "decls ?b = decls b" by (simp add: decls_def insts_def)
  have "types_valid ?b" "consts_valid ar ?b"
    using I(4,5) f(1) by (auto simp: types_valid_def consts_valid_def split: option.splits)
  moreover have "ids_ok ?b" using I(6) f(3) by (auto simp: ids_ok_def d intro: order_trans less_imp_le)
  moreover have "types_ok ?b" using I(7) by (simp add: types_ok_def d)
  moreover have "const_type_ok ?b = const_type_ok b" by (simp add: const_type_ok_def fun_eq_iff)
  then have "consts_ok ar ?b" using I(8) by (simp add: consts_ok_def d)
  moreover have "caps_valid ?b" using I(3) caps_valid_cong [of ?b b] by simp
  ultimately show ?thesis using I by (simp add: binv_def)
qed

lemma next_new_id:
  assumes "builder_inv b" "budget 1 b"
  shows "next_state 1 b (b\<lparr>prev_id := prev_id b + 1\<rparr>)"
proof -
  have id: "unat (prev_id b) < 2 ^ 30" using assms(2) by (simp add: budget_def)
  obtain ar where "binv ar b" using assms(1) by (auto simp: builder_inv_def)
  then have "builder_inv (b\<lparr>prev_id := prev_id b + 1\<rparr>)" using binv_new_id [OF _ id] by (auto simp: builder_inv_def)
  then show ?thesis using fresh_id [OF id] decls_cong [of "b\<lparr>prev_id := prev_id b + 1\<rparr>" b]
    by (intro next_stateI) (simp_all add: less_imp_le)
qed

text \<open>An instruction written to a section other than the type section.\<close>

lemma next_emit:
  assumes "builder_inv b" "s \<noteq> Types_const_defs" "encodable i" "length (snd i) < n"
  shows "next_state 0 b (with_words s n (encode i) b)"
proof -
  obtain ar where inv: "binv ar b" using assms(1) by (auto simp: builder_inv_def)
  have "adds s i b (with_words s n (encode i) b)"
    using with_words_adds [OF inv_ready [OF assms(1)]] assms(4) by simp
  then have "binv ar (with_words s n (encode i) b)" using binv_adds_other [OF inv _ assms(2,3)] by blast
  then show ?thesis using decls_cong [of "with_words s n (encode i) b" b] assms(2)
    by (intro next_stateI) (auto simp: builder_inv_def)
qed

lemma emit_inst:
  assumes "builder_inv b" "s \<noteq> Types_const_defs" "ws = encode i" "encodable i" "length ws = n"
  shows "\<exists>b'. emit_words s ws (prepare s n b) = Some b' \<and> next_state 0 b b'"
  using prepare_emits [OF inv_ready [OF assms(1)], of ws n s] next_emit [OF assms(1,2,4), of n] assms(3,5)
  by (simp add: encode_def)

lemma emit_result_inst:
  assumes "builder_inv b" "budget 1 b" "s \<noteq> Types_const_defs" "ws = encode i" "encodable i" "length ws = n"
  shows "\<exists>b'. emit_words s ws (prepare s n (b\<lparr>prev_id := prev_id b + 1\<rparr>)) = Some b' \<and> next_state 1 b b'"
proof -
  note n = next_new_id [OF assms(1,2)]
  obtain b' where "emit_words s ws (prepare s n (b\<lparr>prev_id := prev_id b + 1\<rparr>)) = Some b'"
    "next_state 0 (b\<lparr>prev_id := prev_id b + 1\<rparr>) b'"
    using emit_inst [OF next_inv [OF n] assms(3-)] by blast
  then show ?thesis using next_trans [OF n, of 0 b' 1] by auto
qed

text \<open>A declaration in the type section that is not interned.\<close>

lemma emit_decl:
  assumes "builder_inv b" "budget 1 b" "ws = encode i" "encodable i" "length ws = n"
    "\<not> is_interned_type (fst i)" "\<not> is_const_op (fst i)" "def_id i = prev_id b + 1"
  shows "\<exists>b'. emit_words Types_const_defs ws (prepare Types_const_defs n (b\<lparr>prev_id := prev_id b + 1\<rparr>)) = Some b' \<and>
    next_state 1 b b'"
proof -
  have id: "unat (prev_id b) < 2 ^ 30" using assms(2) by (simp add: budget_def)
  obtain ar where inv: "binv ar b" using assms(1) by (auto simp: builder_inv_def)
  let ?b = "b\<lparr>prev_id := prev_id b + 1\<rparr>" and ?b' = "with_words Types_const_defs n (encode i) (b\<lparr>prev_id := prev_id b + 1\<rparr>)"
  have em: "emit_words Types_const_defs ws (prepare Types_const_defs n ?b) = Some ?b'"
    using prepare_emits [of ?b ws n Types_const_defs] inv_ready [OF assms(1)] assms(3,5) by simp
  have "adds Types_const_defs i b ?b'"
    using inv_ready [OF assms(1)] assms(3,5) fresh_id(3) [OF id] by (auto simp: adds_def less_imp_le)
  then have "binv ar ?b'" using binv_adds_decl [OF inv _ assms(4,6,7,8) _ id, of ?b'] by simp
  moreover have "decls ?b' = decls b @ [i]"
    using insts_adds [OF binvD(2) [OF inv, of Types_const_defs] assms(4), of ?b' Types_const_defs] by (simp add: decls_def)
  ultimately have "next_state 1 b ?b'" using fresh_id [OF id]
    by (intro next_stateI) (auto simp: builder_inv_def less_imp_le)
  then show ?thesis using em by blast
qed

section \<open>Capabilities, types, constants\<close>

lemma next_cap:
  assumes "builder_inv b" "budget 1 b" "c \<noteq> 0"
  shows "\<exists>b'. spirv_builder_emit_cap b c = Some b' \<and> next_state 1 b b' \<and> has_cap b' c"
proof -
  obtain ar where inv: "binv ar b" using assms(1) by (auto simp: builder_inv_def)
  have "cap_count b < 2 ^ 30 - 1" using assms(2) by (simp add: budget_def)
  then obtain s where "spirv_builder_emit_cap b c = Some (b\<lparr>caps := Some s\<rparr>)" "caps_valid (b\<lparr>caps := Some s\<rparr>)"
    "cap_count (b\<lparr>caps := Some s\<rparr>) \<le> Suc (cap_count b)"
    "\<forall>c'. c' \<noteq> 0 \<longrightarrow> has_cap (b\<lparr>caps := Some s\<rparr>) c' \<longleftrightarrow> c' = c \<or> has_cap b c'"
    using emit_cap_ok [OF binvD(1,3) [OF inv] assms(3)] by metis
  then show ?thesis using binv_caps [OF inv] decls_cong [of "b\<lparr>caps := Some s\<rparr>" b] assms(3)
    by (auto simp: next_state_def builder_inv_def)
qed

lemma next_type_def:
  assumes "builder_inv b" "budget 1 b" "is_interned_type op" "length args = type_arity op"
  shows "\<exists>rid b'. get_type_def b op args = Some (rid, b') \<and> next_state 1 b b' \<and> type_lookup b' op args = Some rid \<and>
    (op, rid # args) \<in> set (decls b')"
proof -
  have id: "unat (prev_id b) < 2 ^ 30" using assms(2) by (simp add: budget_def)
  obtain ar where inv: "binv ar b" using assms(1) by (auto simp: builder_inv_def)
  obtain rid b' where r: "get_type_def b op args = Some (rid, b')" "binv ar b'" "type_lookup b' op args = Some rid"
    "unat (prev_id b') \<le> Suc (unat (prev_id b))" "caps b' = caps b" "prev_id b \<le> prev_id b'"
    "\<forall>s. s \<noteq> Types_const_defs \<longrightarrow> bufs b' s = bufs b s" "\<exists>ds. decls b' = decls b @ ds"
    using get_type_def_binv [OF inv assms(3,4) id] .
  moreover have "(op, rid # args) \<in> set (decls b')" using binvD(7) [OF r(2)] assms(3,4) r(3) unfolding types_ok_def by blast
  ultimately show ?thesis using next_stateI [of b' b 1] by (auto simp: builder_inv_def)
qed

lemma next_const_def:
  assumes "builder_inv b" "budget 1 b" "is_const_op op" "length args \<le> 8" "arity_fits b op type (length args)"
    "const_type_ok b op type (length args)"
  shows "\<exists>rid b'. get_const_def b op type args = Some (rid, b') \<and> next_state 1 b b' \<and> const_lookup b' op type args = Some rid \<and>
    (op, type # rid # args) \<in> set (decls b')"
proof -
  have id: "unat (prev_id b) < 2 ^ 30" using assms(2) by (simp add: budget_def)
  obtain ar0 where "binv ar0 b" using assms(1) by (auto simp: builder_inv_def)
  then obtain ar where inv: "binv ar b" and ar: "ar op type = length args"
    using binv_choose_arity [OF _ assms(3,5)] by blast
  obtain rid b' where r: "get_const_def b op type args = Some (rid, b')" "binv ar b'" "const_lookup b' op type args = Some rid"
    "unat (prev_id b') \<le> Suc (unat (prev_id b))" "caps b' = caps b" "prev_id b \<le> prev_id b'"
    "\<forall>s. s \<noteq> Types_const_defs \<longrightarrow> bufs b' s = bufs b s" "type_lookup b' = type_lookup b" "\<exists>ds. decls b' = decls b @ ds"
    using get_const_def_binv [OF inv assms(3) ar [symmetric] assms(4,6) id] .
  moreover have "(op, type # rid # args) \<in> set (decls b')"
    using binvD(8) [OF r(2)] assms(3) ar r(3) unfolding consts_ok_def by metis
  ultimately show ?thesis using next_stateI [of b' b 1] by (auto simp: builder_inv_def)
qed

text \<open>Two non-aggregate types with one id are the same type.\<close>

lemma type_lookup_inj:
  assumes "builder_inv b" "is_interned_type op" "is_interned_type op'" "length args = type_arity op" "length args' = type_arity op'"
    "type_lookup b op args = Some rid" "type_lookup b op' args' = Some rid"
  shows "op = op' \<and> args = args'"
proof -
  obtain ar where inv: "binv ar b" using assms(1) by (auto simp: builder_inv_def)
  have in1: "(op, rid # args) \<in> set (decls b)" and in2: "(op', rid # args') \<in> set (decls b)"
    using binvD(7) [OF inv] assms(2-) unfolding types_ok_def by blast+
  have "def_id (op, rid # args) = def_id (op', rid # args')"
    using plain_not_const(1,2) [OF assms(2)] plain_not_const(1,2) [OF assms(3)] by (simp add: def_id_def)
  then have "(op, rid # args) = (op', rid # args')"
    using binvD(6) [OF inv] in1 in2 unfolding ids_ok_def distinct_map by (meson inj_onD)
  then show ?thesis by simp
qed

text \<open>The number of words of a numeric constant is determined by its type, so it always fits.\<close>

lemma numeric_arity:
  assumes "builder_inv b" "op = SpvOpTypeInt \<and> args = [width, sign] \<or> op = SpvOpTypeFloat \<and> args = [width]"
    "type_lookup b op args = Some type"
  shows "arity_fits b SpvOpConstant type (value_words width)" "const_type_ok b SpvOpConstant type (value_words width)"
proof -
  obtain ar where inv: "binv ar b" using assms(1) by (auto simp: builder_inv_def)
  have plain: "is_interned_type op" "length args = type_arity op"
    using assms(2) by (auto simp: is_interned_type_def type_arity_def)
  show "const_type_ok b SpvOpConstant type (value_words width)"
    using assms(2,3) by (auto simp: const_type_ok_def)
  have "length ops = 2 + value_words width" if o: "(SpvOpConstant, ops) \<in> set (decls b)" "hd ops = type" for ops
  proof -
    have c: "length ops = 2 + ar SpvOpConstant type" "const_type_ok b SpvOpConstant type (ar SpvOpConstant type)"
      using binvD(8) [OF inv] o unfolding consts_ok_def by (auto simp: is_const_op_def)
    then consider w s where "type_lookup b SpvOpTypeInt [w, s] = Some type" "ar SpvOpConstant type = value_words w"
      | w where "type_lookup b SpvOpTypeFloat [w] = Some type" "ar SpvOpConstant type = value_words w"
      by (auto simp: const_type_ok_def)
    then show ?thesis
    proof cases
      case (1 w s)
      have "SpvOpTypeInt = op \<and> [w, s] = args"
        using type_lookup_inj [OF assms(1) _ plain(1) _ plain(2) 1(1) assms(3)] by (simp add: is_interned_type_def type_arity_def)
      then show ?thesis using c(1) 1(2) assms(2) by auto
    next
      case (2 w)
      have "SpvOpTypeFloat = op \<and> [w] = args"
        using type_lookup_inj [OF assms(1) _ plain(1) _ plain(2) 2(1) assms(3)] by (simp add: is_interned_type_def type_arity_def)
      then show ?thesis using c(1) 2(2) assms(2) by auto
    qed
  qed
  then show "arity_fits b SpvOpConstant type (value_words width)" by (auto simp: arity_fits_def)
qed

lemma next_caps_if:
  assumes "builder_inv b" "budget 1 b"
  shows "\<exists>b'. (if width = 8 then spirv_builder_emit_cap b SpvCapabilityInt8
           else if width = (16::u32) then spirv_builder_emit_cap b SpvCapabilityInt16
           else if width = 64 then spirv_builder_emit_cap b SpvCapabilityInt64
           else Some b) = Some b' \<and> next_state 1 b b'"
  using next_cap [OF assms, of SpvCapabilityInt8] next_cap [OF assms, of SpvCapabilityInt16]
    next_cap [OF assms, of SpvCapabilityInt64] next_refl [OF assms(1)] by auto

lemma next_type_uint:
  assumes "builder_inv b" "budget 2 b"
  shows "\<exists>rid b'. spirv_builder_type_uint b width = Some (rid, b') \<and> next_state 2 b b' \<and>
    type_lookup b' SpvOpTypeInt [width, 0] = Some rid \<and> (SpvOpTypeInt, [rid, width, 0]) \<in> set (decls b')"
proof -
  obtain b1 where b1: "(if width = 8 then spirv_builder_emit_cap b SpvCapabilityInt8
           else if width = 16 then spirv_builder_emit_cap b SpvCapabilityInt16
           else if width = 64 then spirv_builder_emit_cap b SpvCapabilityInt64
           else Some b) = Some b1" "next_state 1 b b1"
    using next_caps_if [OF assms(1) budget_mono [OF assms(2)]] by auto
  have "budget 1 b1" using next_budget [OF b1(2), of 1] assms(2) by (simp add: numeral_2_eq_2)
  then obtain rid b2 where "get_type_def b1 SpvOpTypeInt [width, 0] = Some (rid, b2)" "next_state 1 b1 b2"
    "type_lookup b2 SpvOpTypeInt [width, 0] = Some rid" "(SpvOpTypeInt, [rid, width, 0]) \<in> set (decls b2)"
    using next_type_def [OF next_inv [OF b1(2)], of SpvOpTypeInt "[width, 0]"] by (auto simp: is_interned_type_def type_arity_def)
  then show ?thesis using b1 next_trans [OF b1(2), of 1 b2 2] by (auto simp: spirv_builder_type_uint_def)
qed

text \<open>The words of a numeric constant, and an unsigned constant that is declared with its type.\<close>

definition value_of :: "u32 \<Rightarrow> u64 \<Rightarrow> u32 list" where
  "value_of width v = (if sint width \<le> 32 then [ucast v] else [ucast (v AND 0xFFFFFFFF), ucast (drop_bit 32 v)])"

definition declares_uint :: "spirv_builder \<Rightarrow> u32 \<Rightarrow> u64 \<Rightarrow> u32 \<Rightarrow> bool" where
  "declares_uint b width v rid \<longleftrightarrow> (\<exists>t. (SpvOpTypeInt, [t, width, 0]) \<in> set (decls b) \<and>
     (SpvOpConstant, t # rid # value_of width v) \<in> set (decls b))"

lemma declares_uint_next: "declares_uint b width v rid \<Longrightarrow> next_state k b b' \<Longrightarrow> declares_uint b' width v rid"
  by (auto simp: declares_uint_def next_state_def)

lemma next_constant:
  assumes "builder_inv b" "budget 1 b" "op = SpvOpTypeInt \<and> args = [width, sign] \<or> op = SpvOpTypeFloat \<and> args = [width]"
    "type_lookup b op args = Some type" "v32 = ucast v64"
  shows "\<exists>rid b'. (if sint width \<le> 32 then emit_constant_32 b type v32 else emit_constant_64 b type v64) = Some (rid, b') \<and>
    next_state 1 b b' \<and> (SpvOpConstant, type # rid # value_of width v64) \<in> set (decls b')"
proof -
  have op: "is_const_op SpvOpConstant" by (simp add: is_const_op_def)
  note n = numeric_arity [OF assms(1,3,4)]
  show ?thesis
    using next_const_def [OF assms(1,2) op, of "value_of width v64" type] n assms(5)
    by (auto simp: value_of_def value_words_def emit_constant_32_def emit_constant_64_def numeral_2_eq_2 split: if_splits)
qed

lemma next_const_uint:
  assumes "builder_inv b" "budget 4 b" "8 \<le> sint width"
  shows "\<exists>rid b'. spirv_builder_const_uint b width v = Some (rid, b') \<and> next_state 4 b b' \<and> declares_uint b' width v rid"
proof -
  obtain b1 where b1: "(if width = 8 then spirv_builder_emit_cap b SpvCapabilityInt8
           else if width = 16 then spirv_builder_emit_cap b SpvCapabilityInt16
           else if width = 64 then spirv_builder_emit_cap b SpvCapabilityInt64
           else Some b) = Some b1" "next_state 1 b b1"
    using next_caps_if [OF assms(1) budget_mono [OF assms(2)]] by auto
  have "budget 3 b1" using next_budget [OF b1(2)] assms(2) by simp
  then obtain t b2 where b2: "spirv_builder_type_uint b1 width = Some (t, b2)" "next_state 2 b1 b2"
    "type_lookup b2 SpvOpTypeInt [width, 0] = Some t" "(SpvOpTypeInt, [t, width, 0]) \<in> set (decls b2)"
    using next_type_uint [OF next_inv [OF b1(2)], of width] budget_mono by fastforce
  have "budget 1 b2" using next_budget [OF b2(2), of 1] \<open>budget 3 b1\<close> by simp
  then obtain rid b3 where b3: "(if sint width \<le> 32 then emit_constant_32 b2 t (ucast v) else emit_constant_64 b2 t v) = Some (rid, b3)"
    "next_state 1 b2 b3" "(SpvOpConstant, t # rid # value_of width v) \<in> set (decls b3)"
    using next_constant [OF next_inv [OF b2(2)] _ _ b2(3)] by blast
  have "next_state 4 b b3" using next_trans [OF next_trans [OF b1(2) b2(2) order_refl] b3(2)] by simp
  moreover have "declares_uint b3 width v rid" using b2(4) b3(2,3) by (auto simp: declares_uint_def next_state_def)
  ultimately show ?thesis using assms(3) b1(1) b2(1) b3(1) by (auto simp: spirv_builder_const_uint_def)
qed

lemma next_const_int:
  assumes "builder_inv b" "budget 4 b" "16 \<le> sint width"
  shows "\<exists>rid b'. spirv_builder_const_int b width v = Some (rid, b') \<and> next_state 4 b b'"
proof -
  obtain t b2 where b2: "spirv_builder_type_int b width = Some (t, b2)" "next_state 1 b b2"
    "type_lookup b2 SpvOpTypeInt [width, 1] = Some t"
    using next_type_def [OF assms(1) budget_mono [OF assms(2)], of SpvOpTypeInt "[width, 1]"]
    by (auto simp: is_interned_type_def type_arity_def spirv_builder_type_int_def)
  have "budget 1 b2" using next_budget [OF b2(2), of 3] assms(2) budget_mono by fastforce
  then obtain rid b3 where b3: "(if sint width \<le> 32 then emit_constant_32 b2 t (ucast v) else emit_constant_64 b2 t v) = Some (rid, b3)"
    "next_state 1 b2 b3"
    using next_constant [OF next_inv [OF b2(2)] _ _ b2(3)] by blast
  have "next_state 4 b b3" using next_trans [OF b2(2) b3(2)] by simp
  then show ?thesis using assms(3) b2(1) b3(1) by (auto simp: spirv_builder_const_int_def)
qed

lemma bool_arity:
  assumes "builder_inv b" "op = SpvOpConstantTrue \<or> op = SpvOpConstantFalse"
  shows "arity_fits b op type 0" "const_type_ok b op type 0"
proof -
  obtain ar where inv: "binv ar b" using assms(1) by (auto simp: builder_inv_def)
  have "length ops = 2" if o: "(op, ops) \<in> set (decls b)" for ops
    using binvD(8) [OF inv] o assms(2) unfolding consts_ok_def by (auto simp: is_const_op_def const_type_ok_def)
  then show "arity_fits b op type 0" by (auto simp: arity_fits_def)
  show "const_type_ok b op type 0" using assms(2) by (auto simp: const_type_ok_def)
qed

lemma next_const_bool:
  assumes "builder_inv b" "budget 2 b"
  shows "\<exists>rid b'. spirv_builder_const_bool b v = Some (rid, b') \<and> next_state 2 b b'"
proof -
  let ?op = "if v then SpvOpConstantTrue else SpvOpConstantFalse"
  obtain t b1 where b1: "spirv_builder_type_bool b = Some (t, b1)" "next_state 1 b b1"
    using next_type_def [OF assms(1) budget_mono [OF assms(2)], of SpvOpTypeBool "[]"]
    by (auto simp: is_interned_type_def type_arity_def spirv_builder_type_bool_def)
  have "budget 1 b1" using next_budget [OF b1(2), of 1] assms(2) by (simp add: numeral_2_eq_2)
  moreover have "is_const_op ?op" by (simp add: is_const_op_def)
  moreover have "arity_fits b1 ?op t 0" "const_type_ok b1 ?op t 0"
    using bool_arity [OF next_inv [OF b1(2)], of ?op] by simp_all
  ultimately obtain rid b2 where b2: "get_const_def b1 ?op t [] = Some (rid, b2)" "next_state 1 b1 b2"
    using next_const_def [OF next_inv [OF b1(2)], of ?op "[]" t] by auto
  then show ?thesis using b1 next_trans [OF b1(2) b2(2)] by (auto simp: spirv_builder_const_bool_def)
qed

section \<open>Constants inside an instruction\<close>

text \<open>
  While an instruction is being written, its buffer holds a part of it. Interning a constant does not
  read or change that buffer, so it can be moved before the instruction.
\<close>

definition set_insts :: "spirv_buffer \<Rightarrow> spirv_builder \<Rightarrow> spirv_builder" where
  "set_insts buf b = b\<lparr>bufs := (bufs b)(Instructions := buf)\<rparr>"

lemma set_insts_fields [simp]:
  "mem_ctx (set_insts buf b) = mem_ctx b" "deleted_key_address (set_insts buf b) = deleted_key_address b"
  "caps (set_insts buf b) = caps b" "b_types (set_insts buf b) = b_types b" "b_consts (set_insts buf b) = b_consts b"
  "prev_id (set_insts buf b) = prev_id b"
  "(set_insts buf b)\<lparr>caps := c\<rparr> = set_insts buf (b\<lparr>caps := c\<rparr>)"
  "(set_insts buf b)\<lparr>b_types := t\<rparr> = set_insts buf (b\<lparr>b_types := t\<rparr>)"
  "(set_insts buf b)\<lparr>b_consts := k\<rparr> = set_insts buf (b\<lparr>b_consts := k\<rparr>)"
  "(set_insts buf b)\<lparr>prev_id := i\<rparr> = set_insts buf (b\<lparr>prev_id := i\<rparr>)"
  by (simp_all add: set_insts_def)

lemma set_insts_prepare: "s \<noteq> Instructions \<Longrightarrow> prepare s n (set_insts buf b) = set_insts buf (prepare s n b)"
  by (simp add: prepare_def set_insts_def fun_upd_twist)

lemma set_insts_emits:
  "s \<noteq> Instructions \<Longrightarrow> emit_words s ws (set_insts buf b) = map_option (set_insts buf) (emit_words s ws b)"
proof (induction ws arbitrary: b)
  case (Cons w ws)
  have "emit_word s w (set_insts buf b) = map_option (apsnd (set_insts buf)) (emit_word s w b)"
    using Cons.prems by (cases "spirv_buffer_emit_word (bufs b s) w")
      (auto simp: emit_word_def set_insts_def fun_upd_twist)
  then show ?case using Cons by (cases "emit_word s w b") (auto simp: emit_words.simps(2))
qed simp

lemma set_insts_cap: "spirv_builder_emit_cap (set_insts buf b) c = map_option (set_insts buf) (spirv_builder_emit_cap b c)"
  by (simp add: spirv_builder_emit_cap_def Let_def split: Option.bind_split prod.split)

lemma set_insts_type_def:
  "get_type_def (set_insts buf b) op args = map_option (apsnd (set_insts buf)) (get_type_def b op args)"
  by (simp add: get_type_def_def Let_def spirv_builder_new_id_def set_insts_prepare set_insts_emits
      split: Option.bind_split option.split prod.split)

lemma set_insts_const_def:
  "get_const_def (set_insts buf b) op type args = map_option (apsnd (set_insts buf)) (get_const_def b op type args)"
  by (simp add: get_const_def_def Let_def spirv_builder_new_id_def set_insts_prepare set_insts_emits
      split: Option.bind_split option.split prod.split)

lemma bind_commutes:
  assumes "m' = map_option g m" "\<And>x. f (g x) = map_option h (f x)"
  shows "Option.bind m' f = map_option h (Option.bind m f)"
  using assms by (cases m) simp_all

lemma set_insts_if:
  "(if c then map_option h x else map_option h y) = map_option h (if c then x else y)" "Some (set_insts buf b) = map_option (set_insts buf) (Some b)"
  by simp_all

lemma set_insts_type_uint:
  "spirv_builder_type_uint (set_insts buf b) width = map_option (apsnd (set_insts buf)) (spirv_builder_type_uint b width)"
  unfolding spirv_builder_type_uint_def set_insts_cap
  by (rule bind_commutes [where g = "set_insts buf"]) (simp_all only: set_insts_if set_insts_type_def)

lemma set_insts_const_uint:
  "spirv_builder_const_uint (set_insts buf b) width v = map_option (apsnd (set_insts buf)) (spirv_builder_const_uint b width v)"
proof -
  let ?f = "\<lambda>(type, b). if sint width \<le> 32 then emit_constant_32 b type (ucast v) else emit_constant_64 b type v"
  have "?f (apsnd (set_insts buf) x) = map_option (apsnd (set_insts buf)) (?f x)" for x
    by (cases x) (simp add: emit_constant_32_def emit_constant_64_def set_insts_const_def)
  then have k: "Option.bind (spirv_builder_type_uint (set_insts buf b1) width) ?f =
    map_option (apsnd (set_insts buf)) (Option.bind (spirv_builder_type_uint b1 width) ?f)" for b1
    by (rule bind_commutes [OF set_insts_type_uint])
  have "Option.bind (map_option (set_insts buf) m) (\<lambda>b1. Option.bind (spirv_builder_type_uint b1 width) ?f) =
    map_option (apsnd (set_insts buf)) (Option.bind m (\<lambda>b1. Option.bind (spirv_builder_type_uint b1 width) ?f))" for m
    by (rule bind_commutes [OF refl]) (rule k)
  then show ?thesis unfolding spirv_builder_const_uint_def set_insts_cap
    by (cases "8 \<le> sint width")
      (simp_all only: set_insts_if c_assert_def if_True if_False bind.simps option.map_disc_iff option.simps(8))
qed

end
