(* ===== verification/Spirv_Api.thy ===== *)
theory Spirv_Api
  imports Spirv_Calls
begin

text \<open>
  One lemma per function of the builder: on a state that satisfies the invariant, with ids left and arguments
  inside the function's assertions, the call returns and leads to a state that satisfies the invariant again.
\<close>

section \<open>Instructions with a fixed shape\<close>

lemma encode_Cons: "op_word op n # ws = encode (op, ws) \<longleftrightarrow> op_word op n = op_word op (Suc (length ws))"
  by (simp add: encode_def)

lemma emit_simple:
  assumes "builder_inv b" "s \<noteq> Types_const_defs" "unat op < 2 ^ 16" "n = Suc (length ws)" "length ws < 65535"
  shows "\<exists>b'. emit_words s (op_word op n # ws) (prepare s n b) = Some b' \<and> next_state 0 b b'"
  by (rule emit_inst [OF assms(1,2), of _ "(op, ws)"]) (use assms in \<open>simp_all add: encode_def encodable_def\<close>)

lemma emit_result:
  assumes "builder_inv b" "budget 1 b" "s \<noteq> Types_const_defs" "unat op < 2 ^ 16" "n = Suc (length ws)" "length ws < 65535"
  shows "\<exists>b'. emit_words s (op_word op n # ws) (prepare s n (b\<lparr>prev_id := prev_id b + 1\<rparr>)) = Some b' \<and> next_state 1 b b'"
  by (rule emit_result_inst [OF assms(1,2,3), of _ "(op, ws)"]) (use assms in \<open>simp_all add: encode_def encodable_def\<close>)

lemma new_id_pair: "spirv_builder_new_id b = (prev_id b + 1, b\<lparr>prev_id := prev_id b + 1\<rparr>)"
  by (simp add: spirv_builder_new_id_def)

text \<open>The outcome of a call that returns only the builder, and of one that returns an id too.\<close>

definition keeps :: "nat \<Rightarrow> spirv_builder \<Rightarrow> spirv_builder option \<Rightarrow> bool" where
  "keeps k b r \<longleftrightarrow> (\<exists>b'. r = Some b' \<and> next_state k b b')"

definition gives :: "nat \<Rightarrow> spirv_builder \<Rightarrow> (u32 \<times> spirv_builder) option \<Rightarrow> bool" where
  "gives k b r \<longleftrightarrow> (\<exists>rid b'. r = Some (rid, b') \<and> next_state k b b')"

lemma next_mono: "next_state k b b' \<Longrightarrow> k \<le> l \<Longrightarrow> next_state l b b'"
  by (auto simp: next_state_def)

lemma keeps_mono: "keeps k b r \<Longrightarrow> k \<le> l \<Longrightarrow> keeps l b r"
  by (auto simp: keeps_def intro: next_mono)

lemma gives_mono: "gives k b r \<Longrightarrow> k \<le> l \<Longrightarrow> gives l b r"
  by (auto simp: gives_def intro: next_mono)

lemma keeps_simple:
  assumes "builder_inv b" "s \<noteq> Types_const_defs" "unat op < 2 ^ 16" "n = Suc (length ws)" "length ws < 65535"
  shows "keeps 0 b (emit_words s (op_word op n # ws) (prepare s n b))"
  using emit_simple [OF assms] by (auto simp: keeps_def)

lemma gives_result:
  assumes "builder_inv b" "budget 1 b" "s \<noteq> Types_const_defs" "unat op < 2 ^ 16" "n = Suc (length ws)" "length ws < 65535"
  shows "gives 1 b (do {
     b \<leftarrow> emit_words s (op_word op n # ws) (prepare s n (b\<lparr>prev_id := prev_id b + 1\<rparr>));
     Some (r, b) })"
  using emit_result [OF assms] by (auto simp: gives_def)

lemma gives_decl:
  assumes "builder_inv b" "budget 1 b" "unat op < 2 ^ 16" "n = Suc (length ws)" "length ws < 65535"
    "\<not> is_interned_type op" "\<not> is_const_op op" "def_id (op, ws) = prev_id b + 1"
  shows "gives 1 b (do {
     b \<leftarrow> emit_words Types_const_defs (op_word op n # ws) (prepare Types_const_defs n (b\<lparr>prev_id := prev_id b + 1\<rparr>));
     Some (r, b) })"
  using emit_decl [OF assms(1,2), of "op_word op n # ws" "(op, ws)" n] assms(3-)
  by (auto simp: gives_def encode_def encodable_def)

text \<open>Sequencing.\<close>

lemma gives_bind:
  assumes "gives k b r" "\<And>rid b'. r = Some (rid, b') \<Longrightarrow> next_state k b b' \<Longrightarrow> gives l b' (f rid b')" "k + l \<le> m"
  shows "gives m b (do { (rid, b) \<leftarrow> r; f rid b })"
proof -
  obtain rid b' where r: "r = Some (rid, b')" "next_state k b b'" using assms(1) by (auto simp: gives_def)
  obtain rid2 b2 where "f rid b' = Some (rid2, b2)" "next_state l b' b2" using assms(2) [OF r] by (auto simp: gives_def)
  then show ?thesis using r next_trans [OF r(2) _ assms(3)] by (auto simp: gives_def)
qed

lemma keeps_bind:
  assumes "gives k b r" "\<And>rid b'. r = Some (rid, b') \<Longrightarrow> next_state k b b' \<Longrightarrow> keeps l b' (f rid b')" "k + l \<le> m"
  shows "keeps m b (do { (rid, b) \<leftarrow> r; f rid b })"
proof -
  obtain rid b' where r: "r = Some (rid, b')" "next_state k b b'" using assms(1) by (auto simp: gives_def)
  obtain b2 where "f rid b' = Some b2" "next_state l b' b2" using assms(2) [OF r] by (auto simp: keeps_def)
  then show ?thesis using r next_trans [OF r(2) _ assms(3)] by (auto simp: keeps_def)
qed

lemma gives_after:
  assumes "keeps k b r" "\<And>b'. r = Some b' \<Longrightarrow> next_state k b b' \<Longrightarrow> gives l b' (f b')" "k + l \<le> m"
  shows "gives m b (do { b \<leftarrow> r; f b })"
proof -
  obtain b' where r: "r = Some b'" "next_state k b b'" using assms(1) by (auto simp: keeps_def)
  obtain rid2 b2 where "f b' = Some (rid2, b2)" "next_state l b' b2" using assms(2) [OF r] by (auto simp: gives_def)
  then show ?thesis using r next_trans [OF r(2) _ assms(3)] by (auto simp: gives_def)
qed

section \<open>Constants inside an instruction\<close>

lemma const_uint_frame:
  assumes "spirv_builder_const_uint b width v = Some (c, b1)"
  shows "bufs b1 Instructions = bufs b Instructions"
proof -
  have "set_insts (bufs b Instructions) b = b" by (simp add: set_insts_def)
  then have "b1 = set_insts (bufs b Instructions) b1"
    using set_insts_const_uint [of "bufs b Instructions" b width v] assms by simp
  then have "bufs b1 Instructions = bufs (set_insts (bufs b Instructions) b1) Instructions" by (rule arg_cong)
  then show ?thesis by (simp add: set_insts_def)
qed

lemma const_in_inst:
  assumes "builder_inv b" "budget 4 b"
  obtains c b1 where "spirv_builder_const_uint b 32 v = Some (c, b1)" "next_state 4 b b1" "declares_uint b1 32 v c"
    "\<And>n ws. spirv_builder_const_uint (with_words Instructions n ws b) 32 v = Some (c, with_words Instructions n ws b1)"
proof -
  obtain c b1 where c: "spirv_builder_const_uint b 32 v = Some (c, b1)" "next_state 4 b b1" "declares_uint b1 32 v c"
    using next_const_uint [OF assms, of 32 v] by auto
  have mem: "mem_ctx b1 = mem_ctx b"
    using ready_alloc [OF inv_ready [OF assms(1)]] ready_alloc [OF inv_ready [OF next_inv [OF c(2)]]] by simp
  have "spirv_builder_const_uint (with_words Instructions n ws b) 32 v = Some (c, with_words Instructions n ws b1)" for n ws
  proof -
    let ?buf = "(prepared (mem_ctx b) (bufs b Instructions) n)\<lparr>words := sect b Instructions @ ws\<rparr>"
    have "with_words Instructions n ws b = set_insts ?buf b" "with_words Instructions n ws b1 = set_insts ?buf b1"
      using const_uint_frame [OF c(1)] mem by (simp_all add: with_words_def set_insts_def)
    then show ?thesis using set_insts_const_uint [of ?buf b 32 v] c(1) by simp
  qed
  then show thesis using that c by blast
qed

lemma finish_inst:
  assumes "builder_inv b" "s \<noteq> Types_const_defs" "unat op < 2 ^ 16" "n = Suc (length ws)" "length ws < 65535"
  shows "next_state 0 b (with_words s n (op_word op n # ws) b)"
  using next_emit [OF assms(1,2), of "(op, ws)" n] assms(3-) by (simp add: encode_def encodable_def)

section \<open>Instructions with a string\<close>

definition plain_string :: "bool \<Rightarrow> u8 list \<Rightarrow> bool" where
  "plain_string cs str \<longleftrightarrow> list_all (\<lambda>c. char_to_int cs c = ucast c) str"

text \<open>
  The first word is written without its count, which is put in after the string. \<open>f\<close> is the count as a
  function of the length of the string.
\<close>

lemma string_words:
  assumes "ready b" "plain_string cs str" and pos: "pos = length (sect b s)"
  shows "\<exists>buf. do {
      b \<leftarrow> emit_words s (op # ws) (prepare s (Suc (length ws)) b);
      (len, b) \<leftarrow> emit_string cs s str b;
      or_word s pos (push_bit 16 (of_nat (f len))) b } =
    Some (b\<lparr>bufs := (bufs b)(s := buf)\<rparr>) \<and> buf_ok buf \<and>
    words buf = sect b s @ op_word op (f (length (string_literal str))) # ws @ string_literal str"
proof -
  let ?b1 = "with_words s (Suc (length ws)) (op # ws) b"
  have e1: "emit_words s (op # ws) (prepare s (Suc (length ws)) b) = Some ?b1"
    by (rule prepare_emits [OF assms(1)]) simp
  have r1: "ready ?b1" using assms(1) by simp
  obtain buf where buf: "spirv_buffer_emit_string cs (mem_ctx ?b1) (bufs ?b1 s) str = Some (length (string_literal str), buf)"
    "words buf = words (bufs ?b1 s) @ string_literal str" "buf_ok buf"
    using emit_string_literal [of "mem_ctx ?b1" "bufs ?b1 s" str cs] r1 assms(2)
    by (auto simp: ready_def plain_string_def list_all_iff)
  let ?buf = "buf\<lparr>words := (words buf)[length (sect b s) := op_word op (f (length (string_literal str)))]\<rparr>"
  have w: "words buf = sect b s @ op # ws @ string_literal str" using buf(2) by simp
  have "emit_string cs s str ?b1 = Some (length (string_literal str), ?b1\<lparr>bufs := (bufs ?b1)(s := buf)\<rparr>)"
    using buf(1) by (simp add: emit_string_def)
  moreover have "or_word s pos (push_bit 16 (of_nat (f (length (string_literal str))))) (?b1\<lparr>bufs := (bufs ?b1)(s := buf)\<rparr>) =
      Some (b\<lparr>bufs := (bufs b)(s := ?buf)\<rparr>)"
    using w pos by (simp add: or_word_def spirv_buffer_or_word_def op_word_def with_words_def)
  moreover have "words ?buf = sect b s @ op_word op (f (length (string_literal str))) # ws @ string_literal str"
    using w by simp
  ultimately show ?thesis using e1 buf(3) w by (intro exI [of _ ?buf]) (simp add: buf_ok_def)
qed

text \<open>The state after such an instruction, when the words that follow the string are \<open>ws'\<close>.\<close>

lemma next_string_inst:
  assumes "builder_inv b" "s \<noteq> Types_const_defs" "buf_ok buf" "words buf = sect b s @ encode i" "encodable i"
  shows "next_state 0 b (b\<lparr>bufs := (bufs b)(s := buf)\<rparr>)"
proof -
  let ?b = "b\<lparr>bufs := (bufs b)(s := buf)\<rparr>"
  obtain ar where inv: "binv ar b" using assms(1) by (auto simp: builder_inv_def)
  have "adds s i b ?b" using inv_ready [OF assms(1)] assms(3,4) by (auto simp: adds_def ready_def)
  then have "binv ar ?b" using binv_adds_other [OF inv _ assms(2,5)] by blast
  then show ?thesis using decls_cong [of ?b b] assms(2) by (intro next_stateI) (auto simp: builder_inv_def)
qed

lemma keeps_string:
  assumes "builder_inv b" "plain_string cs str" "s \<noteq> Types_const_defs" "unat op < 2 ^ 16"
    "length ws + length str < 60000" "pos = length (sect b s)" "n = Suc (length ws)"
  shows "keeps 0 b (do {
      b \<leftarrow> emit_words s (op # ws) (prepare s n b);
      (len, b) \<leftarrow> emit_string cs s str b;
      or_word s pos (push_bit 16 (of_nat (n + len))) b })"
proof -
  obtain buf where b: "do {
      b \<leftarrow> emit_words s (op # ws) (prepare s n b);
      (len, b) \<leftarrow> emit_string cs s str b;
      or_word s pos (push_bit 16 (of_nat (n + len))) b } = Some (b\<lparr>bufs := (bufs b)(s := buf)\<rparr>)"
    "buf_ok buf" "words buf = sect b s @ op_word op (n + length (string_literal str)) # ws @ string_literal str"
    using string_words [OF inv_ready [OF assms(1)] assms(2,6), of op ws "\<lambda>len. n + len"] assms(7) by blast
  have "words buf = sect b s @ encode (op, ws @ string_literal str)" using b(3) assms(7) by (simp add: encode_def)
  moreover have "encodable (op, ws @ string_literal str)"
    using assms(4,5) by (simp add: encodable_def length_string_literal)
  ultimately show ?thesis unfolding keeps_def b(1) using next_string_inst [OF assms(1,3) b(2)] by blast
qed

lemma bind_string:
  fixes m :: "'a option" and g :: "'a \<Rightarrow> ('b \<times> 'a) option" and h :: "'b \<Rightarrow> 'a \<Rightarrow> 'c option" and k :: "'c \<Rightarrow> 'd option"
  shows "do { b \<leftarrow> m; (len, b) \<leftarrow> g b; b \<leftarrow> h len b; k b } = do { b \<leftarrow> do { b \<leftarrow> m; (len, b) \<leftarrow> g b; h len b }; k b }"
  by (cases m) (auto split: Option.bind_split prod.split)

section \<open>Module-level functions\<close>

lemma keeps_emit_extension:
  assumes "builder_inv b" "plain_string cs name" "length name < 50000"
  shows "keeps 0 b (spirv_builder_emit_extension cs b name)"
  unfolding spirv_builder_emit_extension_def Let_def
  by (rule keeps_string [OF assms(1,2)]) (use assms(3) in simp_all)

lemma keeps_emit_name:
  assumes "builder_inv b" "plain_string cs name" "length name < 50000"
  shows "keeps 0 b (spirv_builder_emit_name cs b target name)"
  unfolding spirv_builder_emit_name_def Let_def
  by (rule keeps_string [OF assms(1,2)]) (use assms(3) in simp_all)

lemma keeps_new_id: "builder_inv b \<Longrightarrow> budget 1 b \<Longrightarrow> keeps 1 b (Some (b\<lparr>prev_id := prev_id b + 1\<rparr>))"
  using next_new_id by (auto simp: keeps_def)

lemma gives_import:
  assumes "builder_inv b" "budget 1 b" "plain_string cs name" "length name < 50000"
  shows "gives 1 b (spirv_builder_import cs b name)"
proof -
  note n = next_new_id [OF assms(1,2)]
  let ?b = "b\<lparr>prev_id := prev_id b + 1\<rparr>"
  let ?pos = "length (sect ?b Imports)"
  let ?m = "do {
      b \<leftarrow> emit_words Imports [SpvOpExtInstImport, prev_id b + 1] (prepare Imports 2 ?b);
      (len, b) \<leftarrow> emit_string cs Imports name b;
      or_word Imports ?pos (push_bit 16 (of_nat (2 + len))) b }"
  have "keeps 0 ?b ?m"
    by (rule keeps_string [OF next_inv [OF n] assms(3)]) (use assms(4) in simp_all)
  then obtain b' where "?m = Some b'" "next_state 0 ?b b'" unfolding keeps_def by blast
  then have "Option.bind ?m (\<lambda>b'. Some (prev_id b + 1, b')) = Some (prev_id b + 1, b')" "next_state 1 b b'"
    using next_trans [OF n, of 0 b' 1] by simp_all
  then show ?thesis unfolding spirv_builder_import_def new_id_pair Let_def split_conv bind_string gives_def by blast
qed

lemma keeps_emit_entry_point:
  assumes "builder_inv b" "plain_string cs name" "length name + length interfaces < 50000"
  shows "keeps 0 b (spirv_builder_emit_entry_point cs b exec_model entry_point name interfaces)"
proof -
  let ?n = "length interfaces" and ?lit = "string_literal name" and ?s = Entry_points and ?pos = "length (sect b Entry_points)"
  have len: "length (sect b ?s) = length (sect b ?s)" by (rule refl)
  obtain buf where b: "do {
      b \<leftarrow> emit_words ?s [SpvOpEntryPoint, exec_model, entry_point] (prepare ?s (Suc (length [exec_model, entry_point])) b);
      (len, b) \<leftarrow> emit_string cs ?s name b;
      or_word ?s ?pos (push_bit 16 (of_nat (3 + len + ?n))) b } =
        Some (b\<lparr>bufs := (bufs b)(?s := buf)\<rparr>)"
    "buf_ok buf" "words buf = sect b ?s @ op_word SpvOpEntryPoint (3 + length ?lit + ?n) # [exec_model, entry_point] @ ?lit"
    using string_words [OF inv_ready [OF assms(1)] assms(2) len, of SpvOpEntryPoint "[exec_model, entry_point]" "\<lambda>len. 3 + len + ?n"]
    by blast
  let ?b1 = "b\<lparr>bufs := (bufs b)(?s := buf)\<rparr>" and ?i = "(SpvOpEntryPoint, [exec_model, entry_point] @ ?lit @ interfaces)"
  have r: "ready ?b1" using inv_ready [OF assms(1)] b(2) by (simp add: ready_def)
  define buf2 where "buf2 = bufs (with_words ?s ?n interfaces ?b1) ?s"
  have eq: "with_words ?s ?n interfaces ?b1 = b\<lparr>bufs := (bufs b)(?s := buf2)\<rparr>" by (simp add: with_words_def buf2_def)
  have "words buf2 = sect b ?s @ encode ?i" using b(3) by (simp add: encode_def numeral_3_eq_3 buf2_def)
  moreover have "buf_ok buf2" using ready_with_words [OF r, of interfaces ?n ?s] by (simp add: ready_def buf2_def)
  moreover have "encodable ?i" using assms(3) by (simp add: encodable_def length_string_literal)
  ultimately have "next_state 0 b (with_words ?s ?n interfaces ?b1)"
    unfolding eq by (intro next_string_inst [OF assms(1)]) simp_all
  moreover have "emit_words ?s interfaces (prepare ?s ?n ?b1) = Some (with_words ?s ?n interfaces ?b1)"
    by (rule prepare_emits [OF r]) simp
  moreover have three: "Suc (length [exec_model, entry_point]) = 3" by simp
  ultimately show ?thesis
    unfolding spirv_builder_emit_entry_point_def Let_def bind_string keeps_def b(1) [unfolded three] bind.simps by blast
qed

section \<open>Fixed instructions\<close>

lemma keeps_module_fixed:
  assumes "builder_inv b"
  shows "keeps 0 b (spirv_builder_emit_source b lang version)"
    "keeps 0 b (spirv_builder_emit_mem_model b addr_model mem_model)"
    "keeps 0 b (spirv_builder_emit_exec_mode_literal3 b entry_point exec_mode p)"
    "keeps 0 b (spirv_builder_emit_exec_mode b entry_point exec_mode)"
    "keeps 0 b (spirv_builder_emit_member_offset b target member offset)"
  using assms by (simp_all add: keeps_simple spirv_builder_emit_source_def spirv_builder_emit_mem_model_def
      spirv_builder_emit_exec_mode_literal3_def spirv_builder_emit_exec_mode_def
      spirv_builder_emit_member_offset_def emit_member_decoration_def split: prod.split)

lemma keeps_decoration:
  "builder_inv b \<Longrightarrow> length extra < 60000 \<Longrightarrow> keeps 0 b (emit_decoration b target decoration extra)"
  unfolding emit_decoration_def Let_def by (rule keeps_simple) simp_all

lemmas decoration_defs = spirv_builder_emit_decoration_def spirv_builder_emit_input_attachment_index_def
  spirv_builder_emit_specid_def spirv_builder_emit_location_def spirv_builder_emit_component_def
  spirv_builder_emit_builtin_def spirv_builder_emit_descriptor_set_def spirv_builder_emit_binding_def
  spirv_builder_emit_array_stride_def spirv_builder_emit_offset_def spirv_builder_emit_xfb_buffer_def
  spirv_builder_emit_xfb_stride_def spirv_builder_emit_index_def spirv_builder_emit_stream_def

lemma gives_exec_mode_literal:
  assumes "builder_inv b"
  shows "gives 0 b (spirv_builder_emit_exec_mode_literal b entry_point exec_mode param)"
proof -
  let ?ws = "[op_word SpvOpExecutionMode 4, entry_point, exec_mode]"
  have e: "emit_words Exec_modes ?ws (prepare Exec_modes 4 b) = Some (with_words Exec_modes 4 ?ws b)"
    "emit_word Exec_modes param (with_words Exec_modes 4 ?ws b) =
       Some (of_nat (length (sect b Exec_modes) + length ?ws), with_words Exec_modes 4 (?ws @ [param]) b)"
    using prepare_emits [OF inv_ready [OF assms]] with_words_emit [OF inv_ready [OF assms], of ?ws 4] by simp_all
  have "next_state 0 b (with_words Exec_modes 4 (?ws @ [param]) b)"
    unfolding append_Cons append_Nil by (rule finish_inst [OF assms]) simp_all
  then show ?thesis unfolding spirv_builder_emit_exec_mode_literal_def e(1) bind.simps e(2) gives_def by blast
qed

lemma keeps_inst_fixed:
  assumes "builder_inv b"
  shows "keeps 0 b (spirv_builder_function b result return_type function_control function_type)"
    "keeps 0 b (spirv_builder_function_end b)" "keeps 0 b (spirv_builder_label b label)" "keeps 0 b (spirv_builder_return b)"
    "keeps 0 b (spirv_builder_emit_store b pointer object)" "keeps 0 b (spirv_builder_emit_interlock b end_lock)"
    "keeps 0 b (spirv_builder_emit_branch b label)"
    "keeps 0 b (spirv_builder_emit_selection_merge b merge_block selection_control)"
    "keeps 0 b (spirv_builder_loop_merge b merge_block cont_target loop_control)"
    "keeps 0 b (spirv_builder_emit_branch_conditional b condition true_label false_label)"
    "keeps 0 b (spirv_builder_emit_kill b)"
  using assms by (simp_all add: keeps_simple spirv_builder_function_def spirv_builder_function_end_def spirv_builder_label_def
      spirv_builder_return_def spirv_builder_emit_store_def spirv_builder_emit_interlock_def spirv_builder_emit_branch_def
      spirv_builder_emit_selection_merge_def spirv_builder_loop_merge_def spirv_builder_emit_branch_conditional_def
      spirv_builder_emit_kill_def)

lemmas op_defs = spirv_builder_emit_unop_def spirv_builder_emit_binop_def spirv_builder_emit_triop_def
  spirv_builder_emit_quadop_def spirv_builder_emit_hexop_def

lemma gives_ops:
  assumes "builder_inv b" "budget 1 b" "unat op < 2 ^ 16"
  shows "gives 1 b (spirv_builder_emit_unop b op type x0)"
    "gives 1 b (spirv_builder_emit_binop b op type x0 x1)"
    "gives 1 b (spirv_builder_emit_triop b op type x0 x1 x2)"
    "gives 1 b (spirv_builder_emit_quadop b op type x0 x1 x2 x3)"
    "gives 1 b (spirv_builder_emit_hexop b op type x0 x1 x2 x3 x4 x5)"
  unfolding op_defs new_id_pair Let_def split_conv
  by (rule gives_result [OF assms(1,2)]; use assms(3) in simp)+

lemma gives_insts:
  assumes "builder_inv b" "budget 1 b"
  shows "gives 1 b (spirv_builder_emit_undef b type)" "gives 1 b (spirv_builder_emit_load b type x0)"
    "gives 1 b (spirv_builder_emit_image b type x0)" "gives 1 b (spirv_builder_emit_image_query_levels b type x0)"
    "gives 1 b (spirv_builder_emit_image_query_lod b type x0 x1)"
    "gives 1 b (spirv_builder_emit_image_query_size b type x0 lod)"
  by (simp_all del: One_nat_def add: gives_ops [OF assms] gives_result [OF assms] Let_def spirv_builder_emit_undef_def spirv_builder_emit_load_def spirv_builder_emit_image_def
      spirv_builder_emit_image_query_levels_def spirv_builder_emit_image_query_lod_def
      spirv_builder_emit_image_query_size_def new_id_pair)

lemma gives_lists:
  assumes "builder_inv b" "budget 1 b" "length xs < 60000"
  shows "base \<noteq> 0 \<Longrightarrow> type \<noteq> 0 \<Longrightarrow> list_all (\<lambda>i. i \<noteq> 0) xs \<Longrightarrow> gives 1 b (spirv_builder_emit_access_chain b type base xs)"
    "xs \<noteq> [] \<Longrightarrow> gives 1 b (spirv_builder_emit_composite_extract b type x0 xs)"
    "xs \<noteq> [] \<Longrightarrow> gives 1 b (spirv_builder_emit_composite_construct b type xs)"
    "xs \<noteq> [] \<Longrightarrow> gives 1 b (spirv_builder_emit_vector_shuffle b type x0 x1 xs)"
    "gives 1 b (spirv_builder_emit_ext_inst b type x0 x1 xs)"
    "xs \<noteq> [] \<Longrightarrow> gives 1 b (spirv_builder_spec_const_composite b type xs)"
  using assms(3)
  by (simp_all del: One_nat_def add: gives_result [OF assms(1,2)] Let_def spirv_builder_emit_access_chain_def spirv_builder_emit_composite_extract_def
      spirv_builder_emit_composite_construct_def spirv_builder_emit_vector_shuffle_def spirv_builder_emit_ext_inst_def
      spirv_builder_spec_const_composite_def new_id_pair)

section \<open>Types and constants\<close>

lemma gives_type_def:
  assumes "builder_inv b" "budget 1 b" "is_interned_type op" "length args = type_arity op"
  shows "gives 1 b (get_type_def b op args)"
  using next_type_def [OF assms] by (auto simp: gives_def)

lemma keeps_cap_if:
  assumes "builder_inv b" "budget 1 b" "c \<noteq> 0" "d \<noteq> 0"
  shows "keeps 1 b (if p then spirv_builder_emit_cap b c else if q then spirv_builder_emit_cap b d else Some b)"
  using next_cap [OF assms(1,2,3)] next_cap [OF assms(1,2,4)] next_refl [OF assms(1)] by (auto simp: keeps_def)

lemma gives_plain_types:
  assumes "builder_inv b" "budget 1 b"
  shows "gives 1 b (spirv_builder_type_void b)" "gives 1 b (spirv_builder_type_bool b)"
    "gives 1 b (spirv_builder_type_int b width)" "gives 1 b (spirv_builder_type_sampled_image b image_type)"
    "gives 1 b (spirv_builder_type_pointer b storage_class type)"
    "1 < count \<Longrightarrow> gives 1 b (spirv_builder_type_vector b type count)"
    "1 < count \<Longrightarrow> gives 1 b (spirv_builder_type_matrix b type count)"
  by (simp_all del: One_nat_def add: gives_type_def [OF assms] is_interned_type_def type_arity_def
      spirv_builder_type_void_def spirv_builder_type_bool_def spirv_builder_type_int_def
      spirv_builder_type_sampled_image_def spirv_builder_type_pointer_def spirv_builder_type_vector_def spirv_builder_type_matrix_def)

lemma gives_type_uint: "builder_inv b \<Longrightarrow> budget 2 b \<Longrightarrow> gives 2 b (spirv_builder_type_uint b width)"
  using next_type_uint [of b width] by (auto simp: gives_def)

lemma budget_after: "next_state k b b' \<Longrightarrow> budget m b \<Longrightarrow> k + l \<le> m \<Longrightarrow> budget l b'"
  by (rule next_budget) (auto intro: budget_mono)

lemma gives_type_float:
  assumes "builder_inv b" "budget 2 b"
  shows "gives 2 b (spirv_builder_type_float b width)"
  unfolding spirv_builder_type_float_def
proof (rule gives_after [OF keeps_cap_if])
  fix b' assume n: "next_state 1 b b'"
  show "gives 1 b' (get_type_def b' SpvOpTypeFloat [width])"
    by (rule gives_type_def [OF next_inv [OF n] budget_after [OF n assms(2)]]) (simp_all add: is_interned_type_def type_arity_def)
qed (use assms budget_mono in auto)

lemma gives_type_image:
  assumes "builder_inv b" "budget 2 b" "sampled < 3"
  shows "gives 2 b (spirv_builder_type_image b sampled_type dim depth arrayed ms sampled image_format)"
proof -
  have "keeps 1 b (if sampled = 2 \<and> ms \<and> dim \<noteq> SpvDimSubpassData
           then spirv_builder_emit_cap b SpvCapabilityStorageImageMultisample else Some b)"
    using next_cap [OF assms(1) budget_mono [OF assms(2)], of SpvCapabilityStorageImageMultisample] next_refl [OF assms(1)]
    by (auto simp: keeps_def)
  then have "gives 2 b (do {
     b \<leftarrow> (if sampled = 2 \<and> ms \<and> dim \<noteq> SpvDimSubpassData
           then spirv_builder_emit_cap b SpvCapabilityStorageImageMultisample else Some b);
     get_type_def b SpvOpTypeImage
       [sampled_type, dim, if depth then 1 else 0, if arrayed then 1 else 0, if ms then 1 else 0, sampled, image_format] })"
  proof (rule gives_after)
    fix b' assume n: "next_state 1 b b'"
    show "gives 1 b' (get_type_def b' SpvOpTypeImage
       [sampled_type, dim, if depth then 1 else 0, if arrayed then 1 else 0, if ms then 1 else 0, sampled, image_format])"
      by (rule gives_type_def [OF next_inv [OF n] budget_after [OF n assms(2)]]) (simp_all add: is_interned_type_def type_arity_def)
  qed simp
  then show ?thesis using assms(3) unfolding spirv_builder_type_image_def by simp
qed

lemma gives_aggregates:
  assumes "builder_inv b" "budget 1 b" "length xs < 60000"
  shows "gives 1 b (spirv_builder_type_runtime_array b t)" "gives 1 b (spirv_builder_type_array b t len)"
    "gives 1 b (spirv_builder_type_struct b xs)" "gives 1 b (spirv_builder_type_function b t xs)"
  using assms(3)
  by (simp_all del: One_nat_def add: gives_decl [OF assms(1,2)] Let_def new_id_pair def_id_def is_interned_type_def is_const_op_def
      spirv_builder_type_runtime_array_def spirv_builder_type_array_def spirv_builder_type_struct_def spirv_builder_type_function_def)

lemma gives_constants:
  assumes "builder_inv b" "budget 4 b"
  shows "gives 4 b (spirv_builder_const_bool b v)"
    "16 \<le> sint width \<Longrightarrow> gives 4 b (spirv_builder_const_int b width i)"
    "8 \<le> sint width \<Longrightarrow> gives 4 b (spirv_builder_const_uint b width i)"
  using next_const_bool [OF assms(1) budget_mono [OF assms(2)], of v] next_const_int [OF assms, of width i]
    next_const_uint [OF assms, of width i] next_mono [of 2 b _ 4] by (auto simp: gives_def)

lemma gives_composite:
  assumes "builder_inv b" "budget 1 b" "length xs \<le> 8" "arity_fits b SpvOpConstantComposite type (length xs)"
  shows "gives 1 b (spirv_builder_const_composite b type xs)"
  using next_const_def [OF assms(1,2) _ assms(3,4)]
  by (auto simp: gives_def spirv_builder_const_composite_def is_const_op_def const_type_ok_def)

lemma gives_spec_const:
  assumes "builder_inv b" "budget 3 b" "sint width \<le> 32"
  shows "gives 3 b (spirv_builder_spec_const_uint b width)"
proof -
  have "gives 3 b (do { (type, b) \<leftarrow> spirv_builder_type_uint b width; spirv_builder_emit_unop b SpvOpSpecConstant type 0 })"
  proof (rule gives_bind [OF gives_type_uint])
    fix rid b' assume n: "next_state 2 b b'"
    show "gives 1 b' (spirv_builder_emit_unop b' SpvOpSpecConstant rid 0)"
      by (rule gives_ops(1) [OF next_inv [OF n] budget_after [OF n assms(2)]]) simp_all
  qed (use assms budget_mono in auto)
  then show ?thesis using assms(3) by (simp add: spirv_builder_spec_const_uint_def)
qed

lemma gives_var:
  assumes "builder_inv b" "budget 1 b" "storage_class \<noteq> SpvStorageClassGeneric"
  shows "gives 1 b (spirv_builder_emit_var b type storage_class)"
  using assms(3) by (cases "storage_class = SpvStorageClassFunction")
    (simp_all del: One_nat_def add: gives_decl [OF assms(1,2)] gives_result [OF assms(1,2)] new_id_pair Let_def def_id_def
      is_interned_type_def is_const_op_def spirv_builder_emit_var_def)

lemma gives_vote:
  assumes "builder_inv b" "budget 6 b" "unat op < 2 ^ 16"
  shows "gives 6 b (spirv_builder_emit_vote type_first b op src)"
proof (cases type_first)
  case True
  have "gives 6 b (do {
        (t, b) \<leftarrow> spirv_builder_type_bool b;
        (c, b) \<leftarrow> spirv_builder_const_uint b 32 (ucast (SpvScopeSubgroup :: u32));
        spirv_builder_emit_binop b op t c src })"
  proof (rule gives_bind [OF gives_plain_types(2)])
    fix t b1 assume n1: "next_state 1 b b1"
    show "gives 5 b1 (do { (c, b) \<leftarrow> spirv_builder_const_uint b1 32 (ucast (SpvScopeSubgroup :: u32));
        spirv_builder_emit_binop b op t c src })"
    proof (rule gives_bind [OF gives_constants(3)])
      fix c b2 assume n2: "next_state 4 b1 b2"
      show "gives 1 b2 (spirv_builder_emit_binop b2 op t c src)"
        by (rule gives_ops(2) [OF next_inv [OF n2] budget_after [OF n2 budget_after [OF n1 assms(2), of 5]] assms(3)]) simp_all
    qed (use budget_after [OF n1 assms(2)] next_inv [OF n1] in simp_all)
  qed (use assms budget_mono in auto)
  then show ?thesis using True by (simp add: spirv_builder_emit_vote_def)
next
  case False
  have "gives 6 b (do {
        (c, b) \<leftarrow> spirv_builder_const_uint b 32 (ucast (SpvScopeSubgroup :: u32));
        (t, b) \<leftarrow> spirv_builder_type_bool b;
        spirv_builder_emit_binop b op t c src })"
  proof (rule gives_bind [OF gives_constants(3)])
    fix c b1 assume n1: "next_state 4 b b1"
    show "gives 2 b1 (do { (t, b) \<leftarrow> spirv_builder_type_bool b1; spirv_builder_emit_binop b op t c src })"
    proof (rule gives_bind [OF gives_plain_types(2)])
      fix t b2 assume n2: "next_state 1 b1 b2"
      show "gives 1 b2 (spirv_builder_emit_binop b2 op t c src)"
        by (rule gives_ops(2) [OF next_inv [OF n2] budget_after [OF n2 budget_after [OF n1 assms(2), of 2]] assms(3)]) simp_all
    qed (use budget_after [OF n1 assms(2)] next_inv [OF n1] in simp_all)
  qed (use assms budget_mono in auto)
  then show ?thesis using False by (simp add: spirv_builder_emit_vote_def)
qed

end
