(* ===== verification/Spirv_Operands.thy ===== *)
theory Spirv_Operands
  imports Spirv_Api
begin

text \<open>
  The functions whose instruction has operands that are computed on the way: 32-bit constants interned between the
  words of the instruction, and the optional operands of image instructions.
\<close>

section \<open>Instructions with constant operands\<close>

text \<open>
  Several functions intern 32-bit constants between the words of one instruction. Their shape: the words
  \<open>ws\<close>, then operands that are plain words or constants.
\<close>

datatype operand = Word u32 | Uint u64

fun emit_operands :: "operand list \<Rightarrow> spirv_builder \<Rightarrow> spirv_builder option" where
  "emit_operands [] b = Some b"
| "emit_operands (Word w # xs) b = do { b \<leftarrow> emit_words Instructions [w] b; emit_operands xs b }"
| "emit_operands (Uint v # xs) b = do {
     (c, b) \<leftarrow> spirv_builder_const_uint b 32 v;
     b \<leftarrow> emit_words Instructions [c] b;
     emit_operands xs b }"

lemma emit_operands_fun:
  "emit_operands [] = Some"
  "emit_operands (Word w # xs) = (\<lambda>b. do { b \<leftarrow> emit_words Instructions [w] b; emit_operands xs b })"
  "emit_operands (Uint v # xs) = (\<lambda>b. do {
     (c, b) \<leftarrow> spirv_builder_const_uint b 32 v;
     b \<leftarrow> emit_words Instructions [c] b;
     emit_operands xs b })"
  by (simp_all add: fun_eq_iff)

text \<open>A word stands for an operand: it is the word, or the id of a declared constant with the value.\<close>

fun stands_for :: "spirv_builder \<Rightarrow> operand \<Rightarrow> u32 \<Rightarrow> bool" where
  "stands_for b (Word x) w \<longleftrightarrow> w = x"
| "stands_for b (Uint v) w \<longleftrightarrow> declares_uint b 32 v w"

lemma stands_for_next: "stands_for b x w \<Longrightarrow> next_state k b b' \<Longrightarrow> stands_for b' x w"
  by (cases x) (auto intro: declares_uint_next)

lemma emit_operands_ok:
  assumes "builder_inv b" "budget (4 * length xs) b" "length ws + length xs \<le> n"
  shows "\<exists>cs b1. emit_operands xs (with_words Instructions n ws b) = Some (with_words Instructions n (ws @ cs) b1) \<and>
    next_state (4 * length xs) b b1 \<and> bufs b1 Instructions = bufs b Instructions \<and> list_all2 (stands_for b1) xs cs"
  using assms
proof (induction xs arbitrary: b ws)
  case Nil
  then show ?case using next_refl by auto
next
  case (Cons x xs)
  show ?case
  proof (cases x)
    case (Word w)
    have e: "emit_words Instructions [w] (with_words Instructions n ws b) = Some (with_words Instructions n (ws @ [w]) b)"
      using Cons.prems(3) by (intro with_words_emits [OF inv_ready [OF Cons.prems(1)]]) simp
    obtain cs b1 where "emit_operands xs (with_words Instructions n (ws @ [w]) b) = Some (with_words Instructions n ((ws @ [w]) @ cs) b1)"
      "next_state (4 * length xs) b b1" "bufs b1 Instructions = bufs b Instructions" "list_all2 (stands_for b1) xs cs"
      using Cons.IH [of b "ws @ [w]"] Cons.prems budget_mono [OF Cons.prems(2)] by auto
    then show ?thesis using e next_mono [of "4 * length xs" b b1] Word by (intro exI [of _ "w # cs"] exI [of _ b1]) simp
  next
    case (Uint v)
    have bd: "budget 4 b" using Cons.prems(2) budget_mono by fastforce
    obtain c b1 where c: "spirv_builder_const_uint b 32 v = Some (c, b1)" "next_state 4 b b1" "declares_uint b1 32 v c"
      "\<And>n ws. spirv_builder_const_uint (with_words Instructions n ws b) 32 v = Some (c, with_words Instructions n ws b1)"
      using const_in_inst [OF Cons.prems(1) bd] by blast
    have e: "emit_words Instructions [c] (with_words Instructions n ws b1) = Some (with_words Instructions n (ws @ [c]) b1)"
      using Cons.prems(3) by (intro with_words_emits [OF inv_ready [OF next_inv [OF c(2)]]]) simp
    have bd1: "budget (4 * length xs) b1" using next_budget [OF c(2), of "4 * length xs"] Cons.prems(2) by simp
    obtain cs b2 where r: "emit_operands xs (with_words Instructions n (ws @ [c]) b1) = Some (with_words Instructions n ((ws @ [c]) @ cs) b2)"
      "next_state (4 * length xs) b1 b2" "bufs b2 Instructions = bufs b1 Instructions" "list_all2 (stands_for b2) xs cs"
      using Cons.IH [OF next_inv [OF c(2)] bd1, of "ws @ [c]"] Cons.prems(3) by auto
    show ?thesis using Uint c(4) [of n ws] e r const_uint_frame [OF c(1)] declares_uint_next [OF c(3) r(2)]
        next_trans [OF c(2) r(2), of "4 * length (x # xs)"]
      by (intro exI [of _ "c # cs"] exI [of _ b2]) simp
  qed
qed

text \<open>The whole instruction: what is appended, and what it refers to.\<close>

lemma const_operands_inst:
  assumes "builder_inv b" "budget (4 * length xs) b" "unat op < 2 ^ 16" "n = Suc (length ws + length xs)" "n < 60000"
  shows "\<exists>cs b1. do { b \<leftarrow> emit_words Instructions (op_word op n # ws) (prepare Instructions n b); emit_operands xs b } = Some b1 \<and>
    next_state (4 * length xs) b b1 \<and> list_all2 (stands_for b1) xs cs \<and>
    insts b1 Instructions = insts b Instructions @ [(op, ws @ cs)]"
proof -
  have e: "emit_words Instructions (op_word op n # ws) (prepare Instructions n b) = Some (with_words Instructions n (op_word op n # ws) b)"
    by (rule prepare_emits [OF inv_ready [OF assms(1)]]) (simp add: assms(4))
  obtain cs b1 where r: "emit_operands xs (with_words Instructions n (op_word op n # ws) b) = Some (with_words Instructions n ((op_word op n # ws) @ cs) b1)"
    "next_state (4 * length xs) b b1" "bufs b1 Instructions = bufs b Instructions" "list_all2 (stands_for b1) xs cs"
    using emit_operands_ok [OF assms(1,2), of "op_word op n # ws" n] assms(4) by auto
  have len: "length cs = length xs" using r(4) by (simp add: list_all2_lengthD)
  let ?b = "with_words Instructions n ((op_word op n # ws) @ cs) b1"
  have f: "next_state 0 b1 ?b"
    unfolding append_Cons by (rule finish_inst [OF next_inv [OF r(2)]]) (use assms(3-) len in simp_all)
  have enc: "encodable (op, ws @ cs)" using assms(3-) len by (simp add: encodable_def)
  obtain ar where "binv ar b1" using next_inv [OF r(2)] by (auto simp: builder_inv_def)
  then have "stream_ok (sect b1 Instructions)" by (rule binvD(2))
  then have "insts ?b Instructions = insts b1 Instructions @ [(op, ws @ cs)]"
    using insts_adds [OF _ enc, of b1 Instructions ?b Instructions] len assms(4) by (simp add: encode_def)
  moreover have "insts b1 Instructions = insts b Instructions" using r(3) by (simp add: insts_def)
  moreover have "list_all2 (stands_for ?b) xs cs" using r(4) stands_for_next [OF _ f] by (auto elim: list_all2_mono)
  ultimately show ?thesis using e r(1) next_trans [OF r(2) f] by (intro exI [of _ cs] exI [of _ ?b]) simp
qed

lemma operand_forms:
  "spirv_builder_emit_atomic_store b pointer scope semantics object = do {
     b \<leftarrow> emit_words Instructions [op_word SpvOpAtomicStore 5, pointer] (prepare Instructions 5 b);
     emit_operands [Uint (ucast scope), Uint (ucast semantics), Word object] b }"
  "spirv_builder_emit_memory_barrier b scope semantics = do {
     b \<leftarrow> emit_words Instructions [op_word SpvOpMemoryBarrier 3] (prepare Instructions 3 b);
     emit_operands [Uint (ucast scope), Uint (ucast semantics)] b }"
  "spirv_builder_emit_control_barrier b scope mem_scope semantics = do {
     b \<leftarrow> emit_words Instructions [op_word SpvOpControlBarrier 4] (prepare Instructions 4 b);
     emit_operands [Uint (ucast scope), Uint (ucast mem_scope), Uint (ucast semantics)] b }"
  "spirv_builder_emit_vertex b stream =
     (if stream = 0 then emit_words Instructions [op_word SpvOpEmitVertex 1] (prepare Instructions 1 b)
      else do {
        b \<leftarrow> emit_words Instructions [op_word SpvOpEmitStreamVertex 2] (prepare Instructions 2 b);
        emit_operands [Uint (ucast stream)] b })"
  "spirv_builder_end_primitive b stream =
     (if stream = 0 then emit_words Instructions [op_word SpvOpEndPrimitive 1] (prepare Instructions 1 b)
      else do {
        b \<leftarrow> emit_words Instructions [op_word SpvOpEndStreamPrimitive 2] (prepare Instructions 2 b);
        emit_operands [Uint (ucast stream)] b })"
  by (simp_all add: emit_operands_fun spirv_builder_emit_atomic_store_def spirv_builder_emit_memory_barrier_def
      spirv_builder_emit_control_barrier_def spirv_builder_emit_vertex_def spirv_builder_end_primitive_def word_neq_0_conv [symmetric])

lemma keeps_operands:
  assumes "builder_inv b" "budget 12 b" "unat op < 2 ^ 16" "n = Suc (length ws + length xs)" "n < 60000" "length xs \<le> 3"
  shows "keeps 12 b (do { b \<leftarrow> emit_words Instructions (op_word op n # ws) (prepare Instructions n b); emit_operands xs b })"
proof -
  have "budget (4 * length xs) b" using assms(2) by (rule budget_mono) (use assms(6) in simp)
  from const_operands_inst [OF assms(1) this assms(3,4,5)] show ?thesis
    using next_mono [of "4 * length xs" b _ 12] assms(6) unfolding keeps_def by fastforce
qed

lemma keeps_const_insts:
  assumes "builder_inv b" "budget 12 b"
  shows "keeps 12 b (spirv_builder_emit_atomic_store b pointer scope semantics object)"
    "keeps 12 b (spirv_builder_emit_memory_barrier b scope semantics)"
    "keeps 12 b (spirv_builder_emit_control_barrier b scope mem_scope semantics)"
    "keeps 12 b (spirv_builder_emit_vertex b stream)" "keeps 12 b (spirv_builder_end_primitive b stream)"
proof -
  have single: "keeps 12 b (emit_words Instructions [op_word op 1] (prepare Instructions 1 b))" if "unat op < 2 ^ 16" for op
    by (rule keeps_mono [OF keeps_simple [OF assms(1)]]) (use that in simp_all)
  show "keeps 12 b (spirv_builder_emit_atomic_store b pointer scope semantics object)"
    "keeps 12 b (spirv_builder_emit_memory_barrier b scope semantics)"
    "keeps 12 b (spirv_builder_emit_control_barrier b scope mem_scope semantics)"
    unfolding operand_forms by (rule keeps_operands [OF assms]; simp)+
  have stream: "keeps 12 b (do { b \<leftarrow> emit_words Instructions [op_word op 2] (prepare Instructions 2 b);
      emit_operands [Uint v] b })" if "unat op < 2 ^ 16" for op v
    by (rule keeps_operands [OF assms that]) simp_all
  show "keeps 12 b (spirv_builder_emit_vertex b stream)" "keeps 12 b (spirv_builder_end_primitive b stream)"
    unfolding operand_forms using single [of SpvOpEmitVertex] single [of SpvOpEndPrimitive]
      stream [of SpvOpEmitStreamVertex] stream [of SpvOpEndStreamPrimitive] by (auto simp del: emit_operands.simps)
qed

text \<open>The same with a result id.\<close>

lemma gives_operands:
  assumes "builder_inv b" "budget 5 b" "unat op < 2 ^ 16" "n = Suc (length ws + 1)" "n < 60000"
  shows "gives 5 b (do {
     b \<leftarrow> emit_words Instructions (op_word op n # ws) (prepare Instructions n (b\<lparr>prev_id := prev_id b + 1\<rparr>));
     (c, b) \<leftarrow> spirv_builder_const_uint b 32 v;
     b \<leftarrow> emit_words Instructions [c] b;
     Some (r, b) })"
proof -
  let ?b = "b\<lparr>prev_id := prev_id b + 1\<rparr>"
  have n: "next_state 1 b ?b" using next_new_id [OF assms(1) budget_mono [OF assms(2)]] by simp
  have "budget (4 * length [Uint v]) ?b" using budget_after [OF n assms(2), of 4] by simp
  from const_operands_inst [OF next_inv [OF n] this assms(3), of n ws] obtain cs b1 where
    r: "do { b \<leftarrow> emit_words Instructions (op_word op n # ws) (prepare Instructions n ?b); emit_operands [Uint v] b } = Some b1"
    "next_state 4 ?b b1"
    using assms(4,5) by auto
  then have "do {
     b \<leftarrow> emit_words Instructions (op_word op n # ws) (prepare Instructions n ?b);
     (c, b) \<leftarrow> spirv_builder_const_uint b 32 v;
     b \<leftarrow> emit_words Instructions [c] b;
     Some (r, b) } = Some (r, b1)"
    by (auto simp: bind_eq_Some split: prod.splits)
  then show ?thesis using next_trans [OF n r(2)] unfolding gives_def by (metis one_plus_numeral order_refl semiring_norm(3))
qed

lemma gives_const_insts:
  assumes "builder_inv b" "budget 5 b"
  shows "unat op < 2 ^ 16 \<Longrightarrow> gives 5 b (spirv_builder_emit_unop_const b op type v)"
    "gives 5 b (spirv_builder_emit_vector_extract b type vector_1 component)"
    "gives 5 b (spirv_builder_emit_vector_insert b type vector_1 component index)"
  unfolding spirv_builder_emit_unop_const_def spirv_builder_emit_vector_extract_def spirv_builder_emit_vector_insert_def
    new_id_pair Let_def split_conv
  by (rule gives_operands [OF assms]; simp)+

section \<open>Images\<close>

lemma gives_sparse_type:
  assumes "builder_inv b" "budget 3 b"
  shows "gives 3 b (if sparse then sparse_wrap_result_type b t else Some (t, b))"
proof -
  have "gives 3 b (sparse_wrap_result_type b t)"
    unfolding sparse_wrap_result_type_def
  proof (rule gives_bind [OF gives_type_uint])
    fix u b' assume n: "next_state 2 b b'"
    show "gives 1 b' (spirv_builder_type_struct b' [u, t])"
      by (rule gives_aggregates(3) [OF next_inv [OF n] budget_after [OF n assms(2)]]) simp_all
  qed (use assms budget_mono in auto)
  then show ?thesis using next_refl [OF assms(1)] by (auto simp: gives_def)
qed

lemma opt_length: "length (opt x) \<le> 1"
  by (simp add: opt_def)

text \<open>An image instruction with a result: the type is wrapped, the operands are collected, the words written.\<close>

lemma gives_image:
  assumes "builder_inv b" "budget 4 b" "unat op < 2 ^ 16" "k \<le> 9" "length extra \<le> 5"
    and g: "\<And>t. g t = op_word op (k + (1 + length extra)) # f t @ m # extra" "\<And>t. Suc (length (f t)) = k"
  shows "gives 4 b (do {
       (t, b) \<leftarrow> (if sparse then sparse_wrap_result_type (b\<lparr>prev_id := prev_id b + 1\<rparr>) result_type
                  else Some (result_type, b\<lparr>prev_id := prev_id b + 1\<rparr>));
       b \<leftarrow> emit_words Instructions (g t) (prepare Instructions (k + (1 + length extra)) b);
       Some (r, b) })"
proof -
  let ?b = "b\<lparr>prev_id := prev_id b + 1\<rparr>" and ?n = "k + (1 + length extra)"
  have n: "next_state 1 b ?b" using next_new_id [OF assms(1) budget_mono [OF assms(2)]] by simp
  have "gives 3 ?b (do {
       (t, b) \<leftarrow> (if sparse then sparse_wrap_result_type ?b result_type else Some (result_type, ?b));
       b \<leftarrow> emit_words Instructions (g t) (prepare Instructions ?n b);
       Some (r, b) })"
  proof (rule gives_bind [OF gives_sparse_type [OF next_inv [OF n] budget_after [OF n assms(2)]]])
    fix t b' assume n': "next_state 3 ?b b'"
    have "keeps 0 b' (emit_words Instructions (g t) (prepare Instructions ?n b'))"
      unfolding g(1) by (rule keeps_simple [OF next_inv [OF n']]) (use assms(3-5) g(2) [of t] in simp_all)
    then show "gives 0 b' (do { b \<leftarrow> emit_words Instructions (g t) (prepare Instructions ?n b'); Some (r, b) })"
      by (auto simp: keeps_def gives_def)
  qed simp_all
  then show ?thesis using next_trans [OF n] by (auto simp: gives_def)
qed

lemma sample_opcode_small: "unat (image_sample_opcode sparse proj lod dref dx dy) < 2 ^ 16"
  by (simp add: sample_opcode_correct sample_opcode_spec_def)

lemma gives_image_sample:
  assumes "builder_inv b" "budget 4 b" "const_offset = 0 \<or> offset = 0"
  shows "gives 4 b (spirv_builder_emit_image_sample b result_type sampled_image coordinate proj lod bias dref dx dy
    const_offset offset min_lod sparse)"
  unfolding spirv_builder_emit_image_sample_def new_id_pair Let_def split_conv sample_operands_eq [OF assms(3)] bind.simps
  by (rule gives_image [OF assms(1,2) sample_opcode_small,
        where f = "\<lambda>t. [t, prev_id b + 1, sampled_image, coordinate] @ (if dref \<noteq> 0 then [dref] else [])"])
    (use assms(3) in \<open>auto simp: opt_def\<close>)

lemma gives_image_read:
  assumes "builder_inv b" "budget 4 b"
  shows "gives 4 b (spirv_builder_emit_image_read b result_type img coordinate lod sample offset sparse)"
  unfolding spirv_builder_emit_image_read_def new_id_pair Let_def split_conv read_operands_eq bind.simps
  by (rule gives_image [OF assms(1,2), where f = "\<lambda>t. [t, prev_id b + 1, img, coordinate]"
        and op = "if sparse then SpvOpImageSparseRead else SpvOpImageRead"]) (auto simp: opt_def)

lemma keeps_image_write:
  assumes "builder_inv b"
  shows "keeps 0 b (spirv_builder_emit_image_write b img coordinate texel lod sample offset)"
  unfolding spirv_builder_emit_image_write_def read_operands_eq bind.simps Let_def split_conv append_Cons append_Nil
  by (rule keeps_simple [OF assms]) (auto simp: opt_def)

lemma gives_image_gather:
  assumes "builder_inv b" "budget 4 b" "const_offset = 0 \<or> offset = 0"
  shows "gives 4 b (spirv_builder_emit_image_gather b result_type img coordinate component lod sample const_offset offset dref sparse)"
  unfolding spirv_builder_emit_image_gather_def new_id_pair Let_def split_conv fetch_operands_eq [OF assms(3)] bind.simps
  by (rule gives_image [OF assms(1,2), where f = "\<lambda>t. [t, prev_id b + 1, img, coordinate, if dref \<noteq> 0 then dref else component]"
        and op = "if dref \<noteq> 0 then (if sparse then SpvOpImageSparseDrefGather else SpvOpImageDrefGather)
               else if sparse then SpvOpImageSparseGather else SpvOpImageGather"]) (use assms(3) in \<open>auto simp: opt_def\<close>)

lemma gives_image_fetch:
  assumes "builder_inv b" "budget 4 b" "const_offset = 0 \<or> offset = 0"
  shows "gives 4 b (spirv_builder_emit_image_fetch b result_type img coordinate lod sample const_offset offset sparse)"
  unfolding spirv_builder_emit_image_fetch_def new_id_pair Let_def split_conv fetch_operands_eq [OF assms(3)] bind.simps
  by (rule gives_image [OF assms(1,2), where f = "\<lambda>t. [t, prev_id b + 1, img, coordinate]"
        and op = "if sparse then SpvOpImageSparseFetch else SpvOpImageFetch"]) (use assms(3) in \<open>auto simp: opt_def\<close>)

lemma gives_texel_pointer:
  assumes "builder_inv b" "budget 2 b"
  shows "gives 2 b (spirv_builder_emit_image_texel_pointer b result_type img coordinate sample)"
  unfolding spirv_builder_emit_image_texel_pointer_def
proof (rule gives_bind [OF gives_plain_types(5)])
  fix t b' assume n: "next_state 1 b b'"
  show "gives 1 b' (spirv_builder_emit_triop b' SpvOpImageTexelPointer t img coordinate sample)"
    by (rule gives_ops(3) [OF next_inv [OF n] budget_after [OF n assms(2)]]) simp_all
qed (use assms budget_mono in auto)

end
