(* ===== verification/Spirv_Phi.thy ===== *)
theory Spirv_Phi
  imports Spirv_Operands
begin

text \<open>
  Phi instructions are written with empty operands, which are filled in when the predecessor blocks are
  known. \<open>phi_slot b position index\<close> says that the two words the caller is about to fill are an
  operand pair of a phi instruction.
\<close>

section \<open>Slots\<close>

definition phi_slot :: "spirv_builder \<Rightarrow> nat \<Rightarrow> nat \<Rightarrow> bool" where
  "phi_slot b position index \<longleftrightarrow> list_ex (\<lambda>k.
     fst (insts b Instructions ! k) = SpvOpPhi \<and>
     position = length (concat (map encode (take k (insts b Instructions)))) + 3 \<and>
     2 * index + 3 < length (snd (insts b Instructions ! k))) [0..<length (insts b Instructions)]"

lemma phi_slotE:
  assumes "phi_slot b position index"
  obtains is1 t r xs is2 where "insts b Instructions = is1 @ (SpvOpPhi, t # r # xs) # is2"
    "position = length (concat (map encode is1)) + 3" "2 * index + 1 < length xs"
proof -
  obtain k where k: "k < length (insts b Instructions)" "fst (insts b Instructions ! k) = SpvOpPhi"
    "position = length (concat (map encode (take k (insts b Instructions)))) + 3"
    "2 * index + 3 < length (snd (insts b Instructions ! k))"
    using assms by (auto simp: phi_slot_def list_ex_iff)
  then obtain t r xs where s: "snd (insts b Instructions ! k) = t # r # xs"
    by (cases "snd (insts b Instructions ! k)"; cases "tl (snd (insts b Instructions ! k))") auto
  have "insts b Instructions = take k (insts b Instructions) @ (SpvOpPhi, t # r # xs) # drop (Suc k) (insts b Instructions)"
    using id_take_nth_drop [OF k(1)] k(2) s by (metis prod.collapse)
  then show thesis by (rule that) (use k(3,4) s in simp_all)
qed

lemma phi_slotI:
  assumes "insts b Instructions = is1 @ (SpvOpPhi, ops) # is2" "position = length (concat (map encode is1)) + 3"
    "2 * index + 3 < length ops"
  shows "phi_slot b position index"
  unfolding phi_slot_def list_ex_iff
  using assms by (intro bexI [of _ "length is1"]) (simp_all add: nth_append)

section \<open>Replacing words of an instruction\<close>

lemma binv_instructions:
  assumes inv: "binv ar b" and buf: "buf_ok buf" "words buf = concat (map encode is)" "list_all encodable is"
  shows "binv ar (b\<lparr>bufs := (bufs b)(Instructions := buf)\<rparr>)"
proof -
  let ?b = "b\<lparr>bufs := (bufs b)(Instructions := buf)\<rparr>"
  note I = binvD [OF inv]
  have d: "decls ?b = decls b" by (simp add: decls_def insts_def)
  have "stream_ok (sect ?b s)" for s using I(2) stream_okI(1) [OF buf(2,3)] by simp
  moreover have "ready ?b" using I(1) buf(1) by (simp add: ready_def)
  moreover have "caps_valid ?b" using I(3) caps_valid_cong [of ?b b] by simp
  moreover have "types_valid ?b" "consts_valid ar ?b"
    using I(4,5) by (auto simp: types_valid_def consts_valid_def split: option.splits)
  moreover have "ids_ok ?b" using I(6) by (simp add: ids_ok_def d)
  moreover have "types_ok ?b" "consts_ok ar ?b"
  proof -
    have l: "type_lookup ?b = type_lookup b" "const_lookup ?b = const_lookup b"
      by (simp_all add: fun_eq_iff type_lookup_def const_lookup_def)
    have "const_type_ok ?b = const_type_ok b" by (simp add: fun_eq_iff const_type_ok_def l)
    then show "types_ok ?b" "consts_ok ar ?b" using I(7,8) by (simp_all add: types_ok_def consts_ok_def d l)
  qed
  ultimately show ?thesis by (simp add: binv_def)
qed

lemma sect_insts:
  assumes "builder_inv b"
  shows "sect b s = concat (map encode (insts b s))" "list_all encodable (insts b s)"
proof -
  obtain ar where "binv ar b" using assms by (auto simp: builder_inv_def)
  then have "stream_ok (sect b s)" by (rule binvD(2))
  then show "sect b s = concat (map encode (insts b s))" "list_all encodable (insts b s)"
    by (auto simp: stream_ok_def insts_def split: option.splits)
qed

lemma encode_update:
  "i < length ops \<Longrightarrow> (encode (op, ops))[Suc i := v] = encode (op, ops[i := v])"
  by (simp add: encode_def)

lemma set_phi_operand_ok:
  assumes "builder_inv b" "insts b Instructions = is1 @ (SpvOpPhi, t # r # xs) # is2"
    "position = length (concat (map encode is1)) + 3" "2 * index + 1 < length xs"
  shows "\<exists>b'. spirv_builder_set_phi_operand b position index variable parent = Some b' \<and> next_state 0 b b' \<and>
    insts b' Instructions = is1 @ (SpvOpPhi, t # r # xs[2 * index := variable, 2 * index + 1 := parent]) # is2"
proof -
  let ?l = "length (concat (map encode is1))" and ?ops = "t # r # xs"
  let ?i = "Suc (Suc (2 * index))" and ?j = "Suc (Suc (Suc (2 * index)))"
  let ?is = "is1 @ (SpvOpPhi, t # r # xs[2 * index := variable, 2 * index + 1 := parent]) # is2"
  have w: "sect b Instructions = concat (map encode is1) @ encode (SpvOpPhi, ?ops) @ concat (map encode is2)"
    and enc: "list_all encodable (insts b Instructions)"
    using sect_insts [OF assms(1), of Instructions] assms(2) by simp_all
  have len: "position + index * 2 + 1 < length (sect b Instructions)" using assms(3,4) w by (simp add: encode_def)
  have upd: "(sect b Instructions)[position + index * 2 := variable, position + index * 2 + 1 := parent] = concat (map encode ?is)"
  proof -
    have "position + index * 2 = ?l + Suc ?i" "position + index * 2 + 1 = ?l + Suc ?j" using assms(3) by simp_all
    moreover have "Suc ?i < length (encode (SpvOpPhi, ?ops))" "Suc ?j < length (encode (SpvOpPhi, ?ops))"
      using assms(4) by (simp_all add: encode_def)
    ultimately show ?thesis unfolding w using assms(4) by (simp add: list_update_append encode_def mult.commute)
  qed
  let ?b = "b\<lparr>bufs := (bufs b)(Instructions := (bufs b Instructions)\<lparr>words := concat (map encode ?is)\<rparr>)\<rparr>"
  have run: "spirv_builder_set_phi_operand b position index variable parent = Some ?b"
    using len upd by (simp add: spirv_builder_set_phi_operand_def)
  have eok: "list_all encodable ?is" using enc assms(2) by (auto simp: encodable_def)
  have bok: "buf_ok ((bufs b Instructions)\<lparr>words := concat (map encode ?is)\<rparr>)"
    using inv_ready [OF assms(1)] upd [symmetric] by (simp add: ready_def buf_ok_def)
  obtain ar where "binv ar b" using assms(1) by (auto simp: builder_inv_def)
  then have "binv ar ?b" using binv_instructions [OF _ bok _ eok] by simp
  then have "next_state 0 b ?b" using decls_cong [of ?b b] by (intro next_stateI) (auto simp: builder_inv_def)
  moreover have "insts ?b Instructions = ?is" using stream_okI(2) [OF refl eok] by (simp add: insts_def)
  ultimately show ?thesis using run by blast
qed

lemma keeps_set_phi_operand:
  assumes "builder_inv b" "phi_slot b position index"
  shows "keeps 0 b (spirv_builder_set_phi_operand b position index variable parent)"
  using assms(2)
proof (rule phi_slotE)
  fix is1 t r xs is2
  assume "insts b Instructions = is1 @ (SpvOpPhi, t # r # xs) # is2" "position = length (concat (map encode is1)) + 3"
    "2 * index + 1 < length xs"
  then show ?thesis using set_phi_operand_ok [OF assms(1)] unfolding keeps_def by blast
qed

section \<open>Writing a phi instruction\<close>

lemma emit_phi_ok:
  assumes "builder_inv b" "budget 1 b" "0 < num_vars" "num_vars < 30000"
  shows "\<exists>b'. spirv_builder_emit_phi b type num_vars = Some (prev_id b + 1, length (sect b Instructions) + 3, b') \<and>
    next_state 1 b b' \<and>
    insts b' Instructions = insts b Instructions @ [(SpvOpPhi, type # (prev_id b + 1) # replicate (2 * num_vars) 0)]"
proof -
  let ?b = "b\<lparr>prev_id := prev_id b + 1\<rparr>" and ?n = "3 + 2 * num_vars" and ?z = "replicate (2 * num_vars) (0::u32)"
  let ?h = "[op_word SpvOpPhi ?n, type, prev_id b + 1]" and ?i = "(SpvOpPhi, type # (prev_id b + 1) # ?z)"
  note n = next_new_id [OF assms(1,2)]
  have r: "ready ?b" using inv_ready [OF assms(1)] by simp
  let ?b' = "with_words Instructions ?n (?h @ ?z) ?b"
  have run: "spirv_builder_emit_phi b type num_vars = Some (prev_id b + 1, length (sect b Instructions) + 3, ?b')"
    using assms(3) prepare_emits [OF r, of ?h ?n Instructions] with_words_emits [OF r, of ?h ?z ?n Instructions]
    by (simp add: spirv_builder_emit_phi_def new_id_pair Let_def)
  have f: "next_state 0 ?b ?b'"
    unfolding append_Cons append_Nil by (rule finish_inst [OF next_inv [OF n]]) (use assms(4) in simp_all)
  have enc: "encodable ?i" using assms(4) by (simp add: encodable_def)
  obtain ar where "binv ar ?b" using next_inv [OF n] by (auto simp: builder_inv_def)
  then have "stream_ok (sect ?b Instructions)" by (rule binvD(2))
  moreover have "?h @ ?z = encode ?i" by (simp add: encode_def numeral_3_eq_3)
  ultimately have "insts ?b' Instructions = insts ?b Instructions @ [?i]"
    using insts_adds [OF _ enc, of ?b Instructions ?b' Instructions] by simp
  moreover have "insts ?b Instructions = insts b Instructions" by (simp add: insts_def)
  ultimately show ?thesis using run next_trans [OF n f, of 1] by auto
qed

lemma emit_phi_slots:
  assumes "builder_inv b" "insts b' Instructions = insts b Instructions @ [(SpvOpPhi, type # r # replicate (2 * num_vars) 0)]"
    "index < num_vars"
  shows "phi_slot b' (length (sect b Instructions) + 3) index"
  using assms(2,3) sect_insts(1) [OF assms(1), of Instructions] by (intro phi_slotI [OF assms(2)]) simp_all

end
