(* ===== verification/Spirv_Reach.thy ===== *)
theory Spirv_Reach
  imports Spirv_Phi
begin

text \<open>
  The builder as a state machine: a datatype of all calls of its interface, the function that executes a call,
  the conditions under which the assertions of the C functions hold, and the states a client can reach. \<open>cs\<close> is
  the signedness of \<^verbatim>\<open>char\<close> and \<open>tf\<close> the order in which the compiler evaluates arguments. The ids that calls
  return are dropped: the arguments of later calls are arbitrary, so every use a client makes of them is covered.
\<close>

section \<open>Calls\<close>

datatype module_call =
    New_id
  | Emit_cap u32
  | Emit_extension "u8 list"
  | Emit_source u32 u32
  | Emit_mem_model u32 u32
  | Emit_entry_point u32 u32 "u8 list" "u32 list"
  | Emit_exec_mode_literal u32 u32 u32
  | Emit_exec_mode_literal3 u32 u32 "u32 \<times> u32 \<times> u32"
  | Emit_exec_mode u32 u32
  | Emit_name u32 "u8 list"
  | Import "u8 list"
  | Emit_decoration u32 u32
  | Emit_input_attachment_index u32 u32
  | Emit_specid u32 u32
  | Emit_location u32 u32
  | Emit_component u32 u32
  | Emit_builtin u32 u32
  | Emit_descriptor_set u32 u32
  | Emit_binding u32 u32
  | Emit_array_stride u32 u32
  | Emit_offset u32 u32
  | Emit_xfb_buffer u32 u32
  | Emit_xfb_stride u32 u32
  | Emit_index u32 u32
  | Emit_stream u32 u32
  | Emit_member_offset u32 u32 u32

datatype type_call =
    Type_void
  | Type_bool
  | Type_int u32
  | Type_uint u32
  | Type_float u32
  | Type_image u32 u32 bool bool bool u32 u32
  | Type_sampled_image u32
  | Type_pointer u32 u32
  | Type_vector u32 u32
  | Type_matrix u32 u32
  | Type_runtime_array u32
  | Type_array u32 u32
  | Type_struct "u32 list"
  | Type_function u32 "u32 list"
  | Const_bool bool
  | Const_int u32 u64
  | Const_uint u32 u64
  | Const_composite u32 "u32 list"
  | Spec_const_uint u32
  | Spec_const_composite u32 "u32 list"
  | Emit_var u32 u32

datatype inst_call =
    Emit_vertex u32
  | End_primitive u32
  | Emit_undef u32
  | Function_begin u32 u32 u32 u32
  | Function_end
  | Label u32
  | Return
  | Emit_load u32 u32
  | Emit_store u32 u32
  | Emit_atomic_store u32 u32 u32 u32
  | Emit_access_chain u32 u32 "u32 list"
  | Emit_interlock bool
  | Emit_unop_const u32 u32 u64
  | Emit_unop u32 u32 u32
  | Emit_binop u32 u32 u32 u32
  | Emit_triop u32 u32 u32 u32 u32
  | Emit_quadop u32 u32 u32 u32 u32 u32
  | Emit_hexop u32 u32 u32 u32 u32 u32 u32 u32
  | Emit_composite_extract u32 u32 "u32 list"
  | Emit_composite_construct u32 "u32 list"
  | Emit_vector_shuffle u32 u32 u32 "u32 list"
  | Emit_vector_extract u32 u32 u32
  | Emit_vector_insert u32 u32 u32 u32
  | Emit_branch u32
  | Emit_selection_merge u32 u32
  | Loop_merge u32 u32 u32
  | Emit_branch_conditional u32 u32 u32
  | Emit_phi u32 nat
  | Set_phi_operand nat nat u32 u32
  | Emit_kill
  | Emit_vote u32 u32
  | Emit_memory_barrier u32 u32
  | Emit_control_barrier u32 u32 u32
  | Emit_ext_inst u32 u32 u32 "u32 list"

datatype image_call =
    Emit_image_sample u32 u32 u32 bool u32 u32 u32 u32 u32 u32 u32 u32 bool
  | Emit_image u32 u32
  | Emit_image_texel_pointer u32 u32 u32 u32
  | Emit_image_read u32 u32 u32 u32 u32 u32 bool
  | Emit_image_write u32 u32 u32 u32 u32 u32
  | Emit_image_gather u32 u32 u32 u32 u32 u32 u32 u32 u32 bool
  | Emit_image_fetch u32 u32 u32 u32 u32 u32 u32 bool
  | Emit_image_query_size u32 u32 u32
  | Emit_image_query_levels u32 u32
  | Emit_image_query_lod u32 u32 u32

datatype call = Module module_call | Type type_call | Inst inst_call | Image image_call

fun exec_module :: "bool \<Rightarrow> module_call \<Rightarrow> spirv_builder \<Rightarrow> spirv_builder option" where
  "exec_module cs New_id b = Some (snd (spirv_builder_new_id b))"
| "exec_module cs (Emit_cap cap) b = spirv_builder_emit_cap b cap"
| "exec_module cs (Emit_extension name) b = spirv_builder_emit_extension cs b name"
| "exec_module cs (Emit_source lang version) b = spirv_builder_emit_source b lang version"
| "exec_module cs (Emit_mem_model addr_model mem_model) b = spirv_builder_emit_mem_model b addr_model mem_model"
| "exec_module cs (Emit_entry_point exec_model entry_point name interfaces) b = spirv_builder_emit_entry_point cs b exec_model entry_point name interfaces"
| "exec_module cs (Emit_exec_mode_literal entry_point exec_mode param) b = map_option snd (spirv_builder_emit_exec_mode_literal b entry_point exec_mode param)"
| "exec_module cs (Emit_exec_mode_literal3 entry_point exec_mode param) b = spirv_builder_emit_exec_mode_literal3 b entry_point exec_mode param"
| "exec_module cs (Emit_exec_mode entry_point exec_mode) b = spirv_builder_emit_exec_mode b entry_point exec_mode"
| "exec_module cs (Emit_name target name) b = spirv_builder_emit_name cs b target name"
| "exec_module cs (Import name) b = map_option snd (spirv_builder_import cs b name)"
| "exec_module cs (Emit_decoration target x) b = spirv_builder_emit_decoration b target x"
| "exec_module cs (Emit_input_attachment_index target x) b = spirv_builder_emit_input_attachment_index b target x"
| "exec_module cs (Emit_specid target x) b = spirv_builder_emit_specid b target x"
| "exec_module cs (Emit_location target x) b = spirv_builder_emit_location b target x"
| "exec_module cs (Emit_component target x) b = spirv_builder_emit_component b target x"
| "exec_module cs (Emit_builtin target x) b = spirv_builder_emit_builtin b target x"
| "exec_module cs (Emit_descriptor_set target x) b = spirv_builder_emit_descriptor_set b target x"
| "exec_module cs (Emit_binding target x) b = spirv_builder_emit_binding b target x"
| "exec_module cs (Emit_array_stride target x) b = spirv_builder_emit_array_stride b target x"
| "exec_module cs (Emit_offset target x) b = spirv_builder_emit_offset b target x"
| "exec_module cs (Emit_xfb_buffer target x) b = spirv_builder_emit_xfb_buffer b target x"
| "exec_module cs (Emit_xfb_stride target x) b = spirv_builder_emit_xfb_stride b target x"
| "exec_module cs (Emit_index target x) b = spirv_builder_emit_index b target x"
| "exec_module cs (Emit_stream target x) b = spirv_builder_emit_stream b target x"
| "exec_module cs (Emit_member_offset target member offset) b = spirv_builder_emit_member_offset b target member offset"

fun module_ok :: "bool \<Rightarrow> module_call \<Rightarrow> spirv_builder \<Rightarrow> bool" where
  "module_ok cs (Emit_cap cap) b \<longleftrightarrow> cap \<noteq> 0"
| "module_ok cs (Emit_extension name) b \<longleftrightarrow> plain_string cs name \<and> length name < 50000"
| "module_ok cs (Emit_entry_point exec_model entry_point name interfaces) b \<longleftrightarrow> plain_string cs name \<and> length name + length interfaces < 50000"
| "module_ok cs (Emit_name target name) b \<longleftrightarrow> plain_string cs name \<and> length name < 50000"
| "module_ok cs (Import name) b \<longleftrightarrow> plain_string cs name \<and> length name < 50000"
| "module_ok cs _ _ \<longleftrightarrow> True"

fun exec_type :: "type_call \<Rightarrow> spirv_builder \<Rightarrow> spirv_builder option" where
  "exec_type Type_void b = map_option snd (spirv_builder_type_void b)"
| "exec_type Type_bool b = map_option snd (spirv_builder_type_bool b)"
| "exec_type (Type_int width) b = map_option snd (spirv_builder_type_int b width)"
| "exec_type (Type_uint width) b = map_option snd (spirv_builder_type_uint b width)"
| "exec_type (Type_float width) b = map_option snd (spirv_builder_type_float b width)"
| "exec_type (Type_image sampled_type dim depth arrayed ms sampled image_format) b = map_option snd (spirv_builder_type_image b sampled_type dim depth arrayed ms sampled image_format)"
| "exec_type (Type_sampled_image image_type) b = map_option snd (spirv_builder_type_sampled_image b image_type)"
| "exec_type (Type_pointer storage_class type) b = map_option snd (spirv_builder_type_pointer b storage_class type)"
| "exec_type (Type_vector type count) b = map_option snd (spirv_builder_type_vector b type count)"
| "exec_type (Type_matrix type count) b = map_option snd (spirv_builder_type_matrix b type count)"
| "exec_type (Type_runtime_array type) b = map_option snd (spirv_builder_type_runtime_array b type)"
| "exec_type (Type_array type len) b = map_option snd (spirv_builder_type_array b type len)"
| "exec_type (Type_struct members) b = map_option snd (spirv_builder_type_struct b members)"
| "exec_type (Type_function return_type params) b = map_option snd (spirv_builder_type_function b return_type params)"
| "exec_type (Const_bool val) b = map_option snd (spirv_builder_const_bool b val)"
| "exec_type (Const_int width val) b = map_option snd (spirv_builder_const_int b width val)"
| "exec_type (Const_uint width val) b = map_option snd (spirv_builder_const_uint b width val)"
| "exec_type (Const_composite type constituents) b = map_option snd (spirv_builder_const_composite b type constituents)"
| "exec_type (Spec_const_uint width) b = map_option snd (spirv_builder_spec_const_uint b width)"
| "exec_type (Spec_const_composite type constituents) b = map_option snd (spirv_builder_spec_const_composite b type constituents)"
| "exec_type (Emit_var type storage_class) b = map_option snd (spirv_builder_emit_var b type storage_class)"

fun type_ok :: "type_call \<Rightarrow> spirv_builder \<Rightarrow> bool" where
  "type_ok (Type_image sampled_type dim depth arrayed ms sampled image_format) b \<longleftrightarrow> sampled < 3"
| "type_ok (Type_vector type count) b \<longleftrightarrow> 1 < count"
| "type_ok (Type_matrix type count) b \<longleftrightarrow> 1 < count"
| "type_ok (Type_struct members) b \<longleftrightarrow> length members < 60000"
| "type_ok (Type_function return_type params) b \<longleftrightarrow> length params < 60000"
| "type_ok (Const_int width val) b \<longleftrightarrow> 16 \<le> sint width"
| "type_ok (Const_uint width val) b \<longleftrightarrow> 8 \<le> sint width"
| "type_ok (Const_composite type constituents) b \<longleftrightarrow> length constituents \<le> 8 \<and> arity_fits b SpvOpConstantComposite type (length constituents)"
| "type_ok (Spec_const_uint width) b \<longleftrightarrow> sint width \<le> 32"
| "type_ok (Spec_const_composite type constituents) b \<longleftrightarrow> constituents \<noteq> [] \<and> length constituents < 60000"
| "type_ok (Emit_var type storage_class) b \<longleftrightarrow> storage_class \<noteq> SpvStorageClassGeneric"
| "type_ok _ _ \<longleftrightarrow> True"

fun exec_inst :: "bool \<Rightarrow> inst_call \<Rightarrow> spirv_builder \<Rightarrow> spirv_builder option" where
  "exec_inst tf (Emit_vertex strm) b = spirv_builder_emit_vertex b strm"
| "exec_inst tf (End_primitive strm) b = spirv_builder_end_primitive b strm"
| "exec_inst tf (Emit_undef type) b = map_option snd (spirv_builder_emit_undef b type)"
| "exec_inst tf (Function_begin result return_type control function_type) b = spirv_builder_function b result return_type control function_type"
| "exec_inst tf Function_end b = spirv_builder_function_end b"
| "exec_inst tf (Label label) b = spirv_builder_label b label"
| "exec_inst tf Return b = spirv_builder_return b"
| "exec_inst tf (Emit_load type pointer) b = map_option snd (spirv_builder_emit_load b type pointer)"
| "exec_inst tf (Emit_store pointer object) b = spirv_builder_emit_store b pointer object"
| "exec_inst tf (Emit_atomic_store pointer scope semantics object) b = spirv_builder_emit_atomic_store b pointer scope semantics object"
| "exec_inst tf (Emit_access_chain type base indexes) b = map_option snd (spirv_builder_emit_access_chain b type base indexes)"
| "exec_inst tf (Emit_interlock end_lock) b = spirv_builder_emit_interlock b end_lock"
| "exec_inst tf (Emit_unop_const op type operand) b = map_option snd (spirv_builder_emit_unop_const b op type operand)"
| "exec_inst tf (Emit_unop op type x0) b = map_option snd (spirv_builder_emit_unop b op type x0)"
| "exec_inst tf (Emit_binop op type x0 x1) b = map_option snd (spirv_builder_emit_binop b op type x0 x1)"
| "exec_inst tf (Emit_triop op type x0 x1 x2) b = map_option snd (spirv_builder_emit_triop b op type x0 x1 x2)"
| "exec_inst tf (Emit_quadop op type x0 x1 x2 x3) b = map_option snd (spirv_builder_emit_quadop b op type x0 x1 x2 x3)"
| "exec_inst tf (Emit_hexop op type x0 x1 x2 x3 x4 x5) b = map_option snd (spirv_builder_emit_hexop b op type x0 x1 x2 x3 x4 x5)"
| "exec_inst tf (Emit_composite_extract type composite indexes) b = map_option snd (spirv_builder_emit_composite_extract b type composite indexes)"
| "exec_inst tf (Emit_composite_construct type constituents) b = map_option snd (spirv_builder_emit_composite_construct b type constituents)"
| "exec_inst tf (Emit_vector_shuffle type v1 v2 components) b = map_option snd (spirv_builder_emit_vector_shuffle b type v1 v2 components)"
| "exec_inst tf (Emit_vector_extract type v1 component) b = map_option snd (spirv_builder_emit_vector_extract b type v1 component)"
| "exec_inst tf (Emit_vector_insert type v1 component index) b = map_option snd (spirv_builder_emit_vector_insert b type v1 component index)"
| "exec_inst tf (Emit_branch label) b = spirv_builder_emit_branch b label"
| "exec_inst tf (Emit_selection_merge merge_block control) b = spirv_builder_emit_selection_merge b merge_block control"
| "exec_inst tf (Loop_merge merge_block cont_target control) b = spirv_builder_loop_merge b merge_block cont_target control"
| "exec_inst tf (Emit_branch_conditional condition true_label false_label) b = spirv_builder_emit_branch_conditional b condition true_label false_label"
| "exec_inst tf (Emit_phi type num_vars) b = map_option (snd \<circ> snd) (spirv_builder_emit_phi b type num_vars)"
| "exec_inst tf (Set_phi_operand position index variable parent) b = spirv_builder_set_phi_operand b position index variable parent"
| "exec_inst tf Emit_kill b = spirv_builder_emit_kill b"
| "exec_inst tf (Emit_vote op src) b = map_option snd (spirv_builder_emit_vote tf b op src)"
| "exec_inst tf (Emit_memory_barrier scope semantics) b = spirv_builder_emit_memory_barrier b scope semantics"
| "exec_inst tf (Emit_control_barrier scope mem_scope semantics) b = spirv_builder_emit_control_barrier b scope mem_scope semantics"
| "exec_inst tf (Emit_ext_inst type ext_set inst args) b = map_option snd (spirv_builder_emit_ext_inst b type ext_set inst args)"

fun inst_ok :: "inst_call \<Rightarrow> spirv_builder \<Rightarrow> bool" where
  "inst_ok (Emit_access_chain type base indexes) b \<longleftrightarrow> base \<noteq> 0 \<and> type \<noteq> 0 \<and> list_all (\<lambda>i. i \<noteq> 0) indexes \<and> length indexes < 60000"
| "inst_ok (Emit_unop_const op type operand) b \<longleftrightarrow> unat op < 2 ^ 16"
| "inst_ok (Emit_unop op type x0) b \<longleftrightarrow> unat op < 2 ^ 16"
| "inst_ok (Emit_binop op type x0 x1) b \<longleftrightarrow> unat op < 2 ^ 16"
| "inst_ok (Emit_triop op type x0 x1 x2) b \<longleftrightarrow> unat op < 2 ^ 16"
| "inst_ok (Emit_quadop op type x0 x1 x2 x3) b \<longleftrightarrow> unat op < 2 ^ 16"
| "inst_ok (Emit_hexop op type x0 x1 x2 x3 x4 x5) b \<longleftrightarrow> unat op < 2 ^ 16"
| "inst_ok (Emit_composite_extract type composite indexes) b \<longleftrightarrow> indexes \<noteq> [] \<and> length indexes < 60000"
| "inst_ok (Emit_composite_construct type constituents) b \<longleftrightarrow> constituents \<noteq> [] \<and> length constituents < 60000"
| "inst_ok (Emit_vector_shuffle type v1 v2 components) b \<longleftrightarrow> components \<noteq> [] \<and> length components < 60000"
| "inst_ok (Emit_phi type num_vars) b \<longleftrightarrow> 0 < num_vars \<and> num_vars < 30000"
| "inst_ok (Set_phi_operand position index variable parent) b \<longleftrightarrow> phi_slot b position index"
| "inst_ok (Emit_vote op src) b \<longleftrightarrow> unat op < 2 ^ 16"
| "inst_ok (Emit_ext_inst type ext_set inst args) b \<longleftrightarrow> length args < 60000"
| "inst_ok _ _ \<longleftrightarrow> True"

fun exec_image :: "image_call \<Rightarrow> spirv_builder \<Rightarrow> spirv_builder option" where
  "exec_image (Emit_image_sample type sampled_image coordinate proj lod bias dref dx dy const_offset offset min_lod sparse) b = map_option snd (spirv_builder_emit_image_sample b type sampled_image coordinate proj lod bias dref dx dy const_offset offset min_lod sparse)"
| "exec_image (Emit_image type sampled_image) b = map_option snd (spirv_builder_emit_image b type sampled_image)"
| "exec_image (Emit_image_texel_pointer type img coordinate sample) b = map_option snd (spirv_builder_emit_image_texel_pointer b type img coordinate sample)"
| "exec_image (Emit_image_read type img coordinate lod sample offset sparse) b = map_option snd (spirv_builder_emit_image_read b type img coordinate lod sample offset sparse)"
| "exec_image (Emit_image_write img coordinate texel lod sample offset) b = spirv_builder_emit_image_write b img coordinate texel lod sample offset"
| "exec_image (Emit_image_gather type img coordinate component lod sample const_offset offset dref sparse) b = map_option snd (spirv_builder_emit_image_gather b type img coordinate component lod sample const_offset offset dref sparse)"
| "exec_image (Emit_image_fetch type img coordinate lod sample const_offset offset sparse) b = map_option snd (spirv_builder_emit_image_fetch b type img coordinate lod sample const_offset offset sparse)"
| "exec_image (Emit_image_query_size type img lod) b = map_option snd (spirv_builder_emit_image_query_size b type img lod)"
| "exec_image (Emit_image_query_levels type img) b = map_option snd (spirv_builder_emit_image_query_levels b type img)"
| "exec_image (Emit_image_query_lod type img coords) b = map_option snd (spirv_builder_emit_image_query_lod b type img coords)"

fun image_ok :: "image_call \<Rightarrow> spirv_builder \<Rightarrow> bool" where
  "image_ok (Emit_image_sample type sampled_image coordinate proj lod bias dref dx dy const_offset offset min_lod sparse) b \<longleftrightarrow> const_offset = 0 \<or> offset = 0"
| "image_ok (Emit_image_gather type img coordinate component lod sample const_offset offset dref sparse) b \<longleftrightarrow> const_offset = 0 \<or> offset = 0"
| "image_ok (Emit_image_fetch type img coordinate lod sample const_offset offset sparse) b \<longleftrightarrow> const_offset = 0 \<or> offset = 0"
| "image_ok _ _ \<longleftrightarrow> True"

fun exec_call :: "bool \<Rightarrow> bool \<Rightarrow> call \<Rightarrow> spirv_builder \<Rightarrow> spirv_builder option" where
  "exec_call cs tf (Module c) b = exec_module cs c b"
| "exec_call cs tf (Type c) b = exec_type c b"
| "exec_call cs tf (Inst c) b = exec_inst tf c b"
| "exec_call cs tf (Image c) b = exec_image c b"

fun call_ok :: "bool \<Rightarrow> call \<Rightarrow> spirv_builder \<Rightarrow> bool" where
  "call_ok cs (Module c) b = module_ok cs c b"
| "call_ok cs (Type c) b = type_ok c b"
| "call_ok cs (Inst c) b = inst_ok c b"
| "call_ok cs (Image c) b = image_ok c b"

section \<open>Every call returns and keeps the invariant\<close>

lemma keeps_lift: "keeps k b r \<Longrightarrow> k \<le> 12 \<Longrightarrow> keeps 12 b r" and gives_lift: "gives k b r' \<Longrightarrow> k \<le> 12 \<Longrightarrow> keeps 12 b (map_option snd r')"
  by (auto simp: keeps_def gives_def intro: next_mono)

lemma exec_module_keeps:
  assumes inv: "builder_inv b" and bud: "budget 12 b" and ok: "module_ok cs c b"
  shows "keeps 12 b (exec_module cs c b)"
proof -
  note b1 = budget_mono [OF bud, of 1, simplified]
  have cap: "keeps 1 b (spirv_builder_emit_cap b x)" if "x \<noteq> 0" for x
    using next_cap [OF inv budget_mono [OF bud] that] by (auto simp: keeps_def)
  have dec: "keeps 12 b (emit_decoration b t d [])" "keeps 12 b (emit_decoration b t d [x])" for t d x
    using keeps_lift [OF keeps_decoration [OF inv]] by simp_all
  show ?thesis using ok
    by (cases c) (auto simp: decoration_defs new_id_pair dec intro!: keeps_lift [OF keeps_new_id [OF inv]] keeps_lift [OF cap]
        keeps_lift [OF keeps_emit_extension [OF inv]] keeps_lift [OF keeps_emit_name [OF inv]]
        keeps_lift [OF keeps_emit_entry_point [OF inv]] gives_lift [OF gives_import [OF inv]]
        gives_lift [OF gives_exec_mode_literal [OF inv]] keeps_lift [OF keeps_module_fixed(1) [OF inv]]
        keeps_lift [OF keeps_module_fixed(2) [OF inv]] keeps_lift [OF keeps_module_fixed(3) [OF inv]]
        keeps_lift [OF keeps_module_fixed(4) [OF inv]] keeps_lift [OF keeps_module_fixed(5) [OF inv]] b1)
qed

lemma exec_type_keeps:
  assumes inv: "builder_inv b" and bud: "budget 12 b" and ok: "type_ok c b"
  shows "keeps 12 b (exec_type c b)"
proof -
  have b: "budget 1 b" "budget 2 b" "budget 3 b" "budget 4 b" using bud by (simp_all add: budget_def)
  note p = gives_plain_types [OF inv b(1)] and a = gives_aggregates [OF inv b(1)] and k = gives_constants [OF inv b(4)]
  show ?thesis using ok
    by (cases c) (auto intro!: gives_lift [OF p(1)] gives_lift [OF p(2)] gives_lift [OF p(3)] gives_lift [OF p(4)]
        gives_lift [OF p(5)] gives_lift [OF p(6)] gives_lift [OF p(7)] gives_lift [OF gives_type_uint [OF inv b(2)]]
        gives_lift [OF gives_type_float [OF inv b(2)]] gives_lift [OF gives_type_image [OF inv b(2)]]
        gives_lift [OF a(1) [of "[]"]] gives_lift [OF a(2) [of "[]"]] gives_lift [OF a(3)] gives_lift [OF a(4)]
        gives_lift [OF k(1)] gives_lift [OF k(2)] gives_lift [OF k(3)] gives_lift [OF gives_composite [OF inv b(1)]]
        gives_lift [OF gives_spec_const [OF inv b(3)]] gives_lift [OF gives_lists(6) [OF inv b(1)]]
        gives_lift [OF gives_var [OF inv b(1)]])
qed

lemma exec_image_keeps:
  assumes inv: "builder_inv b" and bud: "budget 12 b" and ok: "image_ok c b"
  shows "keeps 12 b (exec_image c b)"
proof -
  have b: "budget 1 b" "budget 2 b" "budget 4 b" using bud by (simp_all add: budget_def)
  note i = gives_insts [OF inv b(1)]
  show ?thesis using ok
    by (cases c) (auto intro!: gives_lift [OF i(3)] gives_lift [OF i(4)] gives_lift [OF i(5)] gives_lift [OF i(6)]
        gives_lift [OF gives_image_sample [OF inv b(3)]] gives_lift [OF gives_texel_pointer [OF inv b(2)]]
        gives_lift [OF gives_image_read [OF inv b(3)]] keeps_lift [OF keeps_image_write [OF inv]]
        gives_lift [OF gives_image_gather [OF inv b(3)]] gives_lift [OF gives_image_fetch [OF inv b(3)]])
qed

lemma exec_inst_keeps:
  assumes inv: "builder_inv b" and bud: "budget 12 b" and ok: "inst_ok c b"
  shows "keeps 12 b (exec_inst tf c b)"
proof -
  have b: "budget 1 b" "budget 5 b" "budget 6 b" using bud by (simp_all add: budget_def)
  note i = gives_insts [OF inv b(1)] and f = keeps_inst_fixed [OF inv] and o = gives_ops [OF inv b(1)]
    and l = gives_lists [OF inv b(1)] and c = keeps_const_insts [OF inv bud] and g = gives_const_insts [OF inv b(2)]
  have phi: "keeps 1 b (map_option (snd \<circ> snd) (spirv_builder_emit_phi b type num_vars))"
    if "0 < num_vars" "num_vars < 30000" for type num_vars
    using emit_phi_ok [OF inv b(1) that, of type] by (auto simp: keeps_def)
  show ?thesis using ok
    by (cases c) (auto simp: keeps_lift [OF f(1)] keeps_lift [OF f(2)] keeps_lift [OF f(3)] keeps_lift [OF f(4)] keeps_lift [OF f(5)]
        keeps_lift [OF f(6)] keeps_lift [OF f(7)] keeps_lift [OF f(8)] keeps_lift [OF f(9)] keeps_lift [OF f(10)]
        keeps_lift [OF f(11)] c gives_lift [OF i(1)] gives_lift [OF i(2)] gives_lift [OF o(1)] gives_lift [OF o(2)]
        gives_lift [OF o(3)] gives_lift [OF o(4)] gives_lift [OF o(5)] gives_lift [OF l(1)] gives_lift [OF l(2)]
        gives_lift [OF l(3)] gives_lift [OF l(4)] gives_lift [OF l(5)] gives_lift [OF g(1)] gives_lift [OF g(2)]
        gives_lift [OF g(3)] keeps_lift [OF phi] keeps_lift [OF keeps_set_phi_operand [OF inv]]
        gives_lift [OF gives_vote [OF inv b(3)]])
qed

lemma exec_call_keeps:
  assumes "builder_inv b" "budget 12 b" "call_ok cs c b"
  shows "keeps 12 b (exec_call cs tf c b)"
  using assms exec_module_keeps exec_type_keeps exec_inst_keeps exec_image_keeps by (cases c) auto

section \<open>Reachable states\<close>

text \<open>A client step: a call whose assertions hold, with ids left.\<close>

inductive spirv_step :: "bool \<Rightarrow> bool \<Rightarrow> spirv_builder \<Rightarrow> spirv_builder \<Rightarrow> bool" for cs tf where
  call: "call_ok cs c b \<Longrightarrow> budget 12 b \<Longrightarrow> exec_call cs tf c b = Some b' \<Longrightarrow> spirv_step cs tf b b'"

inductive reachable :: "bool \<Rightarrow> bool \<Rightarrow> u64 \<Rightarrow> spirv_builder \<Rightarrow> bool" for cs tf dka where
  start: "reachable cs tf dka (empty_builder (\<lambda>_. True) dka)"
| step: "reachable cs tf dka b \<Longrightarrow> spirv_step cs tf b b' \<Longrightarrow> reachable cs tf dka b'"

inductive_cases spirv_stepE: "spirv_step cs tf b b'"

lemma step_next:
  assumes "builder_inv b" "spirv_step cs tf b b'"
  shows "next_state 12 b b'"
  using assms(2)
proof (rule spirv_stepE)
  fix c assume "call_ok cs c b" "budget 12 b" "exec_call cs tf c b = Some b'"
  then show ?thesis using exec_call_keeps [OF assms(1), of cs c tf] by (simp add: keeps_def)
qed

lemma reachable_inv: "reachable cs tf dka b \<Longrightarrow> builder_inv b"
  by (induction rule: reachable.induct) (auto intro: inv_empty next_inv step_next)

text \<open>Sequences of calls.\<close>

fun calls_ok :: "bool \<Rightarrow> bool \<Rightarrow> call list \<Rightarrow> spirv_builder \<Rightarrow> bool" where
  "calls_ok cs tf [] b \<longleftrightarrow> True"
| "calls_ok cs tf (c # cl) b \<longleftrightarrow> call_ok cs c b \<and>
     (case exec_call cs tf c b of None \<Rightarrow> True | Some b' \<Rightarrow> calls_ok cs tf cl b')"

fun exec_calls :: "bool \<Rightarrow> bool \<Rightarrow> call list \<Rightarrow> spirv_builder \<Rightarrow> spirv_builder option" where
  "exec_calls cs tf [] b = Some b"
| "exec_calls cs tf (c # cl) b = do { b \<leftarrow> exec_call cs tf c b; exec_calls cs tf cl b }"

lemma exec_calls_reach:
  assumes "reachable cs tf dka b" "calls_ok cs tf cl b" "budget (12 * length cl) b"
  shows "\<exists>b'. exec_calls cs tf cl b = Some b' \<and> reachable cs tf dka b' \<and> next_state (12 * length cl) b b'"
  using assms
proof (induction cl arbitrary: b)
  case Nil
  then show ?case using next_refl [OF reachable_inv] by auto
next
  case (Cons c cl)
  have b12: "budget 12 b" by (rule budget_mono [OF Cons.prems(3)]) simp
  obtain b1 where b1: "exec_call cs tf c b = Some b1" "next_state 12 b b1"
    using exec_call_keeps [OF reachable_inv [OF Cons.prems(1)] b12, of cs c tf] Cons.prems(2) by (auto simp: keeps_def)
  have "reachable cs tf dka b1"
    using Cons.prems(1,2) b12 b1(1) by (auto intro!: reachable.step [of _ _ _ b] spirv_step.call [of _ c])
  moreover have "budget (12 * length cl) b1" using next_budget [OF b1(2), of "12 * length cl"] Cons.prems(3) by simp
  ultimately obtain b2 where "exec_calls cs tf cl b1 = Some b2" "reachable cs tf dka b2" "next_state (12 * length cl) b1 b2"
    using Cons.IH [of b1] Cons.prems(2) b1(1) by auto
  then show ?case using b1 next_trans [OF b1(2), of "12 * length cl" b2] by auto
qed

end
