(* ===== verification/Spirv_Results.thy ===== *)
theory Spirv_Results
  imports Spirv_Reach Table_Runs
begin

text \<open>
  What the invariant says about the module: declarations are unique, ids are fresh and below the bound of the header,
  ids that were handed out stay valid, and the assembled words decode to the instructions of the sections.
\<close>

section \<open>Unique declarations\<close>

lemma map_distinct_id:
  assumes "distinct (map f xs)" "\<And>x y. x \<in> set xs \<Longrightarrow> y \<in> set xs \<Longrightarrow> g x = g y \<Longrightarrow> f x = f y"
  shows "distinct (map g xs)"
proof -
  have "distinct xs" using assms(1) by (simp add: distinct_map)
  moreover have "inj_on g (set xs)"
    using assms(2) inj_onD [OF conjunct2 [OF assms(1) [unfolded distinct_map]]] by (intro inj_onI) metis
  ultimately show ?thesis by (simp add: distinct_map)
qed

lemma unique_types:
  assumes "builder_inv b"
  shows "distinct (map (\<lambda>(op, ops). (op, tl ops)) (filter (\<lambda>i. is_interned_type (fst i)) (decls b)))"
proof -
  obtain ar where inv: "binv ar b" using assms by (auto simp: builder_inv_def)
  have d: "distinct (map def_id (filter (\<lambda>i. is_interned_type (fst i)) (decls b)))"
    using binvD(6) [OF inv] by (simp add: ids_ok_def List.distinct_map_filter)
  show ?thesis
  proof (rule map_distinct_id [OF d])
    fix x y
    assume x: "x \<in> set (filter (\<lambda>i. is_interned_type (fst i)) (decls b))" and y: "y \<in> set (filter (\<lambda>i. is_interned_type (fst i)) (decls b))"
      and eq: "(case x of (op, ops) \<Rightarrow> (op, tl ops)) = (case y of (op, ops) \<Rightarrow> (op, tl ops))"
    obtain op ops op' ops' where xy: "x = (op, ops)" "y = (op', ops')" by (cases x, cases y)
    have "type_lookup b op (tl ops) = Some (hd ops)" "type_lookup b op' (tl ops') = Some (hd ops')"
      "length ops = Suc (type_arity op)" "length ops' = Suc (type_arity op')"
      using x y binvD(7) [OF inv] unfolding types_ok_def xy by auto
    then show "def_id x = def_id y"
      using eq x plain_not_const(1,2) unfolding xy by (cases ops; cases ops') (auto simp: def_id_def)
  qed
qed

lemma unique_consts:
  assumes "builder_inv b"
  shows "distinct (map (\<lambda>(op, ops). (op, hd ops, drop 2 ops)) (filter (\<lambda>i. is_const_op (fst i)) (decls b)))"
proof -
  obtain ar where inv: "binv ar b" using assms by (auto simp: builder_inv_def)
  have d: "distinct (map def_id (filter (\<lambda>i. is_const_op (fst i)) (decls b)))"
    using binvD(6) [OF inv] by (simp add: ids_ok_def List.distinct_map_filter)
  show ?thesis
  proof (rule map_distinct_id [OF d])
    fix x y
    assume x: "x \<in> set (filter (\<lambda>i. is_const_op (fst i)) (decls b))" and y: "y \<in> set (filter (\<lambda>i. is_const_op (fst i)) (decls b))"
      and eq: "(case x of (op, ops) \<Rightarrow> (op, hd ops, drop 2 ops)) = (case y of (op, ops) \<Rightarrow> (op, hd ops, drop 2 ops))"
    obtain op ops op' ops' where xy: "x = (op, ops)" "y = (op', ops')" by (cases x, cases y)
    have "const_lookup b op (hd ops) (drop 2 ops) = Some (ops ! 1)" "const_lookup b op' (hd ops') (drop 2 ops') = Some (ops' ! 1)"
      using x y binvD(8) [OF inv] unfolding consts_ok_def xy by auto
    then show "def_id x = def_id y" using eq x y unfolding xy by (auto simp: def_id_def)
  qed
qed

section \<open>Ids that were handed out stay valid\<close>

lemma declared_type_again:
  assumes "builder_inv b" "is_interned_type op" "length args = type_arity op" "(op, rid # args) \<in> set (decls b)"
  shows "get_type_def b op args = Some (rid, b)"
proof -
  obtain ar where inv: "binv ar b" using assms(1) by (auto simp: builder_inv_def)
  have "type_lookup b op args = Some rid" using binvD(7) [OF inv] assms(2,4) unfolding types_ok_def by fastforce
  then show ?thesis using get_type_def_hit [OF binvD(4) [OF inv]] assms(3) by simp
qed

lemma declared_const_again:
  assumes "builder_inv b" "is_const_op op" "length args \<le> 8" "(op, type # rid # args) \<in> set (decls b)"
  shows "get_const_def b op type args = Some (rid, b)"
proof -
  obtain ar where inv: "binv ar b" using assms(1) by (auto simp: builder_inv_def)
  have "length args = ar op type" "const_lookup b op type args = Some rid"
    using binvD(8) [OF inv] assms(2,4) unfolding consts_ok_def by fastforce+
  then show ?thesis using get_const_def_hit [OF binvD(5) [OF inv]] assms(3) by simp
qed

lemma steps_next:
  assumes "(spirv_step cs tf)\<^sup>*\<^sup>* b b'" "builder_inv b"
  shows "builder_inv b' \<and> (\<exists>ds. decls b' = decls b @ ds) \<and> (\<forall>c. c \<noteq> 0 \<longrightarrow> has_cap b c \<longrightarrow> has_cap b' c)"
  using assms
proof (induction rule: rtranclp_induct)
  case (step y z)
  then show ?case using step_next [of y cs tf z] by (auto simp: next_state_def)
qed simp

section \<open>Capabilities\<close>

text \<open>The capabilities in the order in which the module lists them.\<close>

definition cap_list :: "spirv_builder \<Rightarrow> u32 list" where
  "cap_list b = (case caps b of None \<Rightarrow> [] | Some s \<Rightarrow> map (\<lambda>e. ucast (uintptr (deleted_key_address b) (se_key e))) (set_foreach s))"

definition capability_insts :: "spirv_builder \<Rightarrow> instruction list" where
  "capability_insts b = map (\<lambda>c. (SpvOpCapability, [c])) (cap_list b)"

lemma capability_words_encode: "capability_words b = concat (map encode (capability_insts b))"
  by (simp add: capability_words_def capability_insts_def cap_list_def encode_def comp_def numeral_2_eq_2 split: option.split)

lemma u32_key_elim:
  assumes "u32_key k"
  obtains c :: u32 where "k = Ptr (ucast c)" "c \<noteq> 0" "\<And>d. ucast (uintptr d k) = c"
proof -
  obtain w where w: "k = Ptr w" "w \<noteq> 0" "w < 2 ^ 32" using assms by (cases k) (auto simp: u32_key_def)
  have "(ucast (ucast w :: u32) :: u64) = w"
    using w(3) by (simp add: word_unat_eq_iff unat_ucast_mod word_less_nat_alt)
  then show thesis using w by (intro that [of "ucast w"]) auto
qed

lemma set_foreach_contents:
  assumes ok: "set_ok D kh ke s"
  shows "distinct (map se_key (set_foreach s))" "e \<in> set (set_foreach s) \<Longrightarrow> D (se_key e) \<and> set_member s (se_key e)"
    "D k \<Longrightarrow> set_member s k \<Longrightarrow> \<exists>e \<in> set (set_foreach s). ke k (se_key e)"
proof -
  note f = foreach_contents [OF ok [unfolded set_ok_def], folded set_foreach_sim [OF set_ok_length [OF ok]]]
  have key: "he_key (as_entry x) = se_key x" for x by (simp add: as_entry_def)
  show "distinct (map se_key (set_foreach s))" using f(1) by (simp add: key comp_def)
  show "D (se_key e) \<and> set_member s (se_key e)" if "e \<in> set (set_foreach s)"
    using f(3) [of "as_entry e"] that by (auto simp: key set_member_lookup)
  show "\<exists>e \<in> set (set_foreach s). ke k (se_key e)" if "D k" "set_member s k"
    using f(4) [OF that(1)] that(2) by (fastforce simp: key set_member_lookup)
qed

lemma cap_list_members:
  assumes "builder_inv b"
  shows "distinct (cap_list b)" "\<And>c. c \<in> set (cap_list b) \<longleftrightarrow> c \<noteq> 0 \<and> has_cap b c"
proof -
  let ?d = "deleted_key_address b"
  obtain ar where "binv ar b" using assms by (auto simp: builder_inv_def)
  then have cv: "caps_valid b" by (rule binvD(3))
  have "distinct (cap_list b) \<and> (\<forall>c. c \<in> set (cap_list b) \<longleftrightarrow> c \<noteq> 0 \<and> has_cap b c)"
  proof (cases "caps b")
    case None
    then show ?thesis by (simp add: cap_list_def has_cap_def)
  next
    case (Some s)
    have ok: "set_ok u32_key (key_u32_hash ?d) (key_u32_equals ?d) s" using cv Some by (simp add: caps_valid_def)
    note f = set_foreach_contents [OF ok]
    have inj: "inj_on (\<lambda>k. ucast (uintptr ?d k) :: u32) (se_key ` set (set_foreach s))"
      by (rule inj_onI) (use f(2) u32_key_equals [where dkv = ?d] in \<open>force simp: key_u32_equals_def\<close>)
    have "cap_list b = map (\<lambda>k. ucast (uintptr ?d k)) (map se_key (set_foreach s))" using Some by (simp add: cap_list_def)
    then have "distinct (cap_list b)" using f(1) inj by (simp only: distinct_map set_map simp_thms)
    moreover have "c \<in> set (cap_list b) \<longleftrightarrow> c \<noteq> 0 \<and> has_cap b c" for c
    proof
      assume "c \<in> set (cap_list b)"
      then obtain e where e: "e \<in> set (set_foreach s)" "c = ucast (uintptr ?d (se_key e))" using Some by (auto simp: cap_list_def)
      then show "c \<noteq> 0 \<and> has_cap b c" using f(2) [OF e(1)] Some by (auto simp: has_cap_def elim!: u32_key_elim)
    next
      assume c: "c \<noteq> 0 \<and> has_cap b c"
      then obtain e where e: "e \<in> set (set_foreach s)" "key_u32_equals ?d (Ptr (ucast c)) (se_key e)"
        using f(3) [OF cap_key(2) [of c]] Some by (auto simp: has_cap_def)
      have "se_key e = Ptr (ucast c)" using e(2) u32_key_equals [of "Ptr (ucast c)" "se_key e" ?d] cap_key(2) [of c] c f(2) [OF e(1)] by simp
      then have "ucast (uintptr ?d (se_key e)) = c" using unat_u32_less [of c] by (simp add: word_unat_eq_iff unat_ucast_mod)
      then show "c \<in> set (cap_list b)" using e(1) Some by (force simp: cap_list_def)
    qed
    ultimately show ?thesis by blast
  qed
  then show "distinct (cap_list b)" "\<And>c. c \<in> set (cap_list b) \<longleftrightarrow> c \<noteq> 0 \<and> has_cap b c" by blast+
qed

section \<open>The assembled module\<close>

lemma module_decodes:
  assumes "builder_inv b"
  shows "decode (drop 5 (module_words b v)) = Some (capability_insts b @ concat (map (insts b) module_sections))"
proof -
  let ?is = "capability_insts b @ concat (map (insts b) module_sections)"
  have sections: "concat (map (sect b) ss) = concat (map encode (concat (map (insts b) ss)))" for ss
    by (induction ss) (simp_all add: sect_insts(1) [OF assms])
  have "drop 5 (module_words b v) = concat (map encode ?is)"
    by (simp add: module_words_def module_header_def capability_words_encode sections)
  moreover have "\<forall>i \<in> set ?is. encodable i"
    using sect_insts(2) [OF assms] by (auto simp: list_all_iff capability_insts_def encodable_def)
  ultimately show ?thesis by (simp only: decode_encodes)
qed

section \<open>Interning again\<close>

lemma declares_uint_unique:
  assumes "builder_inv b" "declares_uint b width v r" "declares_uint b width v r'"
  shows "r = r'"
proof -
  obtain ar where inv: "binv ar b" using assms(1) by (auto simp: builder_inv_def)
  obtain t t' where t: "(SpvOpTypeInt, [t, width, 0]) \<in> set (decls b)" "(SpvOpConstant, t # r # value_of width v) \<in> set (decls b)"
    and t': "(SpvOpTypeInt, [t', width, 0]) \<in> set (decls b)" "(SpvOpConstant, t' # r' # value_of width v) \<in> set (decls b)"
    using assms(2,3) by (auto simp: declares_uint_def)
  have ty: "is_interned_type SpvOpTypeInt" and cn: "is_const_op SpvOpConstant" by (simp_all add: is_interned_type_def is_const_op_def)
  note type = binvD(7) [OF inv, unfolded types_ok_def, THEN conjunct1, rule_format, OF _ ty]
  have "t = t'" using type [OF t(1)] type [OF t'(1)] by simp
  moreover note const = binvD(8) [OF inv, unfolded consts_ok_def, THEN conjunct1, rule_format, OF _ cn]
  ultimately show ?thesis using const [OF t(2)] const [OF t'(2)] by simp
qed

lemma steps_declares_uint:
  assumes "(spirv_step cs tf)\<^sup>*\<^sup>* b b'" "builder_inv b" "declares_uint b width v r"
  shows "declares_uint b' width v r"
  using steps_next [OF assms(1,2)] assms(3) by (auto simp: declares_uint_def)

lemma emit_cap_decls: "spirv_builder_emit_cap b c = Some b' \<Longrightarrow> decls b' = decls b"
  by (auto simp: spirv_builder_emit_cap_def bind_eq_Some Let_def intro!: decls_cong split: if_splits)

lemma caps_if_decls:
  assumes "(if width = 8 then spirv_builder_emit_cap b SpvCapabilityInt8
           else if width = (16::u32) then spirv_builder_emit_cap b SpvCapabilityInt16
           else if width = 64 then spirv_builder_emit_cap b SpvCapabilityInt64
           else Some b) = Some b'"
  shows "decls b' = decls b"
  using assms emit_cap_decls by (auto split: if_splits)

text \<open>A declared constant is found again; only the capabilities may be written anew.\<close>

lemma const_uint_declared:
  assumes "builder_inv b" "budget 4 b" "8 \<le> sint width" "declares_uint b width v rid"
  shows "\<exists>b'. spirv_builder_const_uint b width v = Some (rid, b') \<and> decls b' = decls b"
proof -
  obtain t where t: "(SpvOpTypeInt, t # [width, 0]) \<in> set (decls b)" "(SpvOpConstant, t # rid # value_of width v) \<in> set (decls b)"
    using assms(4) by (auto simp: declares_uint_def)
  obtain b1 where b1: "(if width = 8 then spirv_builder_emit_cap b SpvCapabilityInt8
           else if width = 16 then spirv_builder_emit_cap b SpvCapabilityInt16
           else if width = 64 then spirv_builder_emit_cap b SpvCapabilityInt64
           else Some b) = Some b1" "next_state 1 b b1"
    using next_caps_if [OF assms(1) budget_mono [OF assms(2)]] by auto
  have "budget 1 b1" using next_budget [OF b1(2), of 1] budget_mono [OF assms(2), of "1 + 1"] by simp
  then obtain b2 where b2: "(if width = 8 then spirv_builder_emit_cap b1 SpvCapabilityInt8
           else if width = 16 then spirv_builder_emit_cap b1 SpvCapabilityInt16
           else if width = 64 then spirv_builder_emit_cap b1 SpvCapabilityInt64
           else Some b1) = Some b2" "next_state 1 b1 b2"
    using next_caps_if [OF next_inv [OF b1(2)]] by auto
  have d: "decls b2 = decls b" using caps_if_decls [OF b1(1)] caps_if_decls [OF b2(1)] by simp
  have "get_type_def b2 SpvOpTypeInt [width, 0] = Some (t, b2)"
    by (rule declared_type_again [OF next_inv [OF b2(2)]]) (use t(1) d in \<open>simp_all add: is_interned_type_def type_arity_def\<close>)
  then have ty: "spirv_builder_type_uint b1 width = Some (t, b2)" using b2(1) by (simp add: spirv_builder_type_uint_def)
  have "get_const_def b2 SpvOpConstant t (value_of width v) = Some (rid, b2)"
    by (rule declared_const_again [OF next_inv [OF b2(2)]]) (use t(2) d in \<open>simp_all add: is_const_op_def value_of_def\<close>)
  then show ?thesis using b1(1) ty d assms(3)
    by (auto simp: spirv_builder_const_uint_def value_of_def emit_constant_32_def emit_constant_64_def split: if_splits)
qed

section \<open>Names\<close>

lemma emit_name_inst:
  assumes "builder_inv b" "plain_string cs name" "length name < 50000"
  shows "\<exists>b'. spirv_builder_emit_name cs b target name = Some b' \<and> builder_inv b' \<and>
    insts b' Debug_names = insts b Debug_names @ [(SpvOpName, target # string_literal name)]"
proof -
  let ?i = "(SpvOpName, target # string_literal name)" and ?n = "length (string_literal name)"
  obtain buf where b: "spirv_builder_emit_name cs b target name = Some (b\<lparr>bufs := (bufs b)(Debug_names := buf)\<rparr>)"
    "buf_ok buf" "words buf = sect b Debug_names @ op_word SpvOpName (2 + ?n) # [target] @ string_literal name"
    using string_words [OF inv_ready [OF assms(1)] assms(2) refl, of Debug_names SpvOpName "[target]" "\<lambda>len. 2 + len"]
    unfolding spirv_builder_emit_name_def Let_def by (auto simp: numeral_2_eq_2)
  have w: "words buf = sect b Debug_names @ encode ?i" using b(3) by (simp add: encode_def numeral_2_eq_2)
  have enc: "encodable ?i" using assms(3) by (simp add: encodable_def length_string_literal)
  note n = next_inv [OF next_string_inst [OF assms(1) _ b(2) w enc]]
  have "words buf = concat (map encode (insts b Debug_names @ [?i]))" using w sect_insts(1) [OF assms(1)] by simp
  then have "decode (words buf) = Some (insts b Debug_names @ [?i])"
    using decode_encodes [of "insts b Debug_names @ [?i]"] sect_insts(2) [OF assms(1)] enc by (auto simp: list_all_iff)
  then show ?thesis using b(1) n by (simp add: insts_def)
qed

section \<open>Reading image operands\<close>

text \<open>
  A reader of an image instruction goes through the bits of the mask from the lowest and takes the operands of each
  bit that is set: two ids for the gradients, one for the others.
\<close>

definition operand_sizes :: "(u32 \<times> nat) list" where
  "operand_sizes = [(SpvImageOperandsBiasMask, 1), (SpvImageOperandsLodMask, 1), (SpvImageOperandsGradMask, 2),
     (SpvImageOperandsConstOffsetMask, 1), (SpvImageOperandsOffsetMask, 1), (32, 1), (SpvImageOperandsSampleMask, 1),
     (SpvImageOperandsMinLodMask, 1)]"

fun read_operands :: "(u32 \<times> nat) list \<Rightarrow> u32 \<Rightarrow> u32 list \<Rightarrow> (u32 \<times> u32 list) list" where
  "read_operands [] m ws = []"
| "read_operands ((bits, n) # sizes) m ws =
     (if m AND bits \<noteq> 0 then (bits, take n ws) # read_operands sizes m (drop n ws) else read_operands sizes m ws)"

section \<open>Emitting a list of words\<close>

fun emit_all :: "u32 list \<Rightarrow> spirv_buffer \<Rightarrow> spirv_buffer option" where
  "emit_all [] buf = Some buf"
| "emit_all (w # ws) buf = do { (pos, buf) \<leftarrow> spirv_buffer_emit_word buf w; emit_all ws buf }"

lemma emit_all_fits:
  assumes "num_words buf + length ws \<le> room buf"
  shows "emit_all ws buf = Some (buf\<lparr>words := words buf @ ws\<rparr>)"
  using assms by (induction ws arbitrary: buf) (simp_all add: emit_word_append)

end
