(* ===== verification/Spirv_Properties.thy ===== *)
theory Spirv_Properties
  imports Spirv_Results
begin

text \<open>
  The properties of the SPIR-V builder: client call sequences, the declarations and ids of the module, the words that
  are handed out, and the single instructions whose emission is not straight-line.
\<close>

section \<open>Call sequences\<close>

text \<open>A client that declares a type, two constants and a capability; used as the concrete input below.\<close>

definition demo_calls :: "call list" where
  "demo_calls = [Type (Type_uint 32), Type (Const_uint 32 7), Module (Emit_cap 1), Type (Const_uint 32 9), Type (Const_uint 32 7)]"

lemma budget_empty: "k < 2 ^ 30 - 1 \<Longrightarrow> budget k (empty_builder al dka)"
  by (simp add: budget_def cap_count_def empty_builder_def)

lemma demo_calls_ok: "calls_ok cs tf demo_calls b"
  by (auto simp: demo_calls_def split: option.split)

lemma demo_reach:
  obtains b where "exec_calls cs tf demo_calls (empty_builder (\<lambda>_. True) dka) = Some b" "reachable cs tf dka b"
    "budget 100 b"
proof -
  let ?b0 = "empty_builder (\<lambda>_. True) dka"
  have bud: "budget 160 ?b0" "budget (12 * length demo_calls) ?b0" by (rule budget_empty; simp add: demo_calls_def)+
  obtain b where b: "exec_calls cs tf demo_calls ?b0 = Some b" "reachable cs tf dka b" "next_state (12 * length demo_calls) ?b0 b"
    using exec_calls_reach [OF reachable.start demo_calls_ok bud(2)] by blast
  have "budget 100 b" using next_budget [OF b(3), of 100] bud(1) by (simp add: demo_calls_def)
  then show thesis using that b by blast
qed

text \<open>
  C1: whatever sequence of calls a client makes within the assertions of the interface, starting from an empty builder, every
  call returns, and the words of the module consist of the header and of whole instructions: a reader that splits them by
  their word counts gets the capabilities and then the instructions of the nine sections in their order.
\<close>

theorem call_sequence_makes_module:
  assumes "calls_ok cs tf cl (empty_builder (\<lambda>_. True) dka)" "12 * length cl < 2 ^ 30 - 1"
  shows "\<exists>b ws. exec_calls cs tf cl (empty_builder (\<lambda>_. True) dka) = Some b \<and>
    spirv_builder_get_words b (spirv_builder_get_num_words b) version 0 = Some (ws, 0) \<and>
    take 5 ws = [SpvMagicNumber, version, 0, prev_id b + 1, 0] \<and>
    decode (drop 5 ws) = Some (capability_insts b @ concat (map (insts b) module_sections))"
proof -
  obtain b where b: "exec_calls cs tf cl (empty_builder (\<lambda>_. True) dka) = Some b" "reachable cs tf dka b"
    using exec_calls_reach [OF reachable.start assms(1) budget_empty [OF assms(2)]] by blast
  note inv = reachable_inv [OF b(2)]
  then have "caps_valid b" using binvD(3) by (auto simp: builder_inv_def)
  then show ?thesis
    using b(1) get_words_eq [of b "spirv_builder_get_num_words b" version 0] module_decodes [OF inv]
    by (intro exI [of _ b] exI [of _ "module_words b version"]) (simp add: module_words_def module_header_def)
qed

theorem call_sequence_makes_module_witness:
  "\<exists>b ws. exec_calls False True demo_calls (empty_builder (\<lambda>_. True) 8) = Some b \<and>
    spirv_builder_get_words b (spirv_builder_get_num_words b) 65536 0 = Some (ws, 0) \<and>
    take 5 ws = [SpvMagicNumber, 65536, 0, prev_id b + 1, 0] \<and>
    decode (drop 5 ws) = Some (capability_insts b @ concat (map (insts b) module_sections))"
  by (rule call_sequence_makes_module [OF demo_calls_ok]) (simp add: demo_calls_def)

text \<open>
  C8: every call that a client may make in a reachable state returns and leads to a state that satisfies the invariant of the
  builder.
\<close>

theorem reachable_call_returns:
  assumes "reachable cs tf dka b" "call_ok cs c b" "budget 12 b"
  shows "\<exists>b'. exec_call cs tf c b = Some b' \<and> builder_inv b' \<and> prev_id b \<le> prev_id b'"
  using exec_call_keeps [OF reachable_inv [OF assms(1)] assms(3,2)] by (auto simp: keeps_def next_state_def)

theorem reachable_call_returns_witness:
  "\<exists>b'. exec_call False True (Inst (Emit_vertex 3)) (empty_builder (\<lambda>_. True) 8) = Some b' \<and> builder_inv b' \<and>
    prev_id (empty_builder (\<lambda>_. True) 8) \<le> prev_id b'"
  by (rule reachable_call_returns [OF reachable.start]) (simp_all add: budget_empty)

section \<open>Declarations\<close>

text \<open>
  C9: in every reachable state no two declarations of types that the builder interns (void, bool, int, float, vector, matrix, pointer,
  image and sampled image types) have the same opcode and operands. Arrays and structures may be declared repeatedly; function types,
  which may not, are not interned by the code and are left out.
\<close>

theorem reachable_unique_types:
  assumes "reachable cs tf dka b"
  shows "distinct (map (\<lambda>(op, ops). (op, tl ops)) (filter (\<lambda>i. is_interned_type (fst i)) (decls b)))"
  by (rule unique_types [OF reachable_inv [OF assms]])

theorem reachable_unique_types_witness:
  "\<exists>b. exec_calls False True demo_calls (empty_builder (\<lambda>_. True) 8) = Some b \<and>
    distinct (map (\<lambda>(op, ops). (op, tl ops)) (filter (\<lambda>i. is_interned_type (fst i)) (decls b)))"
proof -
  obtain b where b: "exec_calls False True demo_calls (empty_builder (\<lambda>_. True) 8) = Some b" "reachable False True 8 b"
    using demo_reach [of False True 8] by blast
  show ?thesis using b(1) reachable_unique_types [OF b(2)] by blast
qed

text \<open>C12: in every reachable state no two constants have the same opcode, type and value.\<close>

theorem reachable_unique_consts:
  assumes "reachable cs tf dka b"
  shows "distinct (map (\<lambda>(op, ops). (op, hd ops, drop 2 ops)) (filter (\<lambda>i. is_const_op (fst i)) (decls b)))"
  by (rule unique_consts [OF reachable_inv [OF assms]])

theorem reachable_unique_consts_witness:
  "\<exists>b. exec_calls False True demo_calls (empty_builder (\<lambda>_. True) 8) = Some b \<and>
    distinct (map (\<lambda>(op, ops). (op, hd ops, drop 2 ops)) (filter (\<lambda>i. is_const_op (fst i)) (decls b)))"
proof -
  obtain b where b: "exec_calls False True demo_calls (empty_builder (\<lambda>_. True) 8) = Some b" "reachable False True 8 b"
    using demo_reach [of False True 8] by blast
  show ?thesis using b(1) reachable_unique_consts [OF b(2)] by blast
qed

text \<open>
  C20: the ids that the declarations define are different from each other and from zero, and below the bound in the fourth word
  of the module.
\<close>

theorem reachable_ids_below_bound:
  assumes "reachable cs tf dka b" "spirv_builder_get_words b capacity version tcs = Some (ws, tcs')" "budget 1 b"
  shows "distinct (map def_id (decls b)) \<and> (\<forall>i \<in> set (decls b). 0 < def_id i \<and> def_id i < ws ! 3)"
proof -
  obtain ar where inv: "binv ar b" using reachable_inv [OF assms(1)] by (auto simp: builder_inv_def)
  have cap: "spirv_builder_get_num_words b \<le> capacity"
    using assms(2) by (auto simp: spirv_builder_get_words_def c_assert_def split: if_splits)
  have "ws = module_words b version" using get_words_eq [OF binvD(3) [OF inv] cap] assms(2) by simp
  then have "ws ! 3 = prev_id b + 1" by (simp add: module_words_def module_header_def)
  moreover have "prev_id b < prev_id b + 1" using fresh_id(3) [of b] assms(3) by (simp add: budget_def)
  ultimately show ?thesis using binvD(6) [OF inv] by (auto simp: ids_ok_def)
qed

theorem reachable_ids_below_bound_witness:
  "\<exists>b ws. exec_calls False True demo_calls (empty_builder (\<lambda>_. True) 8) = Some b \<and>
    spirv_builder_get_words b (spirv_builder_get_num_words b) 65536 0 = Some (ws, 0) \<and>
    distinct (map def_id (decls b)) \<and> (\<forall>i \<in> set (decls b). 0 < def_id i \<and> def_id i < ws ! 3)"
proof -
  obtain b where b: "exec_calls False True demo_calls (empty_builder (\<lambda>_. True) 8) = Some b" "reachable False True 8 b" "budget 100 b"
    using demo_reach [of False True 8] by blast
  have "caps_valid b" using reachable_inv [OF b(2)] binvD(3) by (auto simp: builder_inv_def)
  then have w: "spirv_builder_get_words b (spirv_builder_get_num_words b) 65536 0 = Some (module_words b 65536, 0)"
    using get_words_eq [of b "spirv_builder_get_num_words b" 65536 0] by simp
  show ?thesis using b(1) w reachable_ids_below_bound [OF b(2) w budget_mono [OF b(3)]] by auto
qed

text \<open>
  C21: a type that was declared once keeps its id: after any further calls the same request returns the same id and
  changes nothing.
\<close>

theorem type_id_is_stable:
  assumes "reachable cs tf dka b" "budget 1 b" "is_interned_type op" "length args = type_arity op"
    and "get_type_def b op args = Some (rid, b1)" "(spirv_step cs tf)\<^sup>*\<^sup>* b1 b2"
  shows "get_type_def b2 op args = Some (rid, b2)"
proof -
  obtain rid' b' where n: "get_type_def b op args = Some (rid', b')" "next_state 1 b b'" "(op, rid' # args) \<in> set (decls b')"
    using next_type_def [OF reachable_inv [OF assms(1)] assms(2-4)] by blast
  then have n: "next_state 1 b b1" "(op, rid # args) \<in> set (decls b1)" using assms(5) by simp_all
  note s = steps_next [OF assms(6) next_inv [OF n(1)]]
  then have "(op, rid # args) \<in> set (decls b2)" using n(2) by auto
  then show ?thesis using declared_type_again s assms(3,4) by blast
qed

theorem type_id_is_stable_witness:
  "\<exists>b. exec_calls False True demo_calls (empty_builder (\<lambda>_. True) 8) = Some b \<and>
    (\<exists>rid b1. get_type_def b SpvOpTypeFloat [32] = Some (rid, b1) \<and> get_type_def b1 SpvOpTypeFloat [32] = Some (rid, b1))"
proof -
  obtain b where b: "exec_calls False True demo_calls (empty_builder (\<lambda>_. True) 8) = Some b" "reachable False True 8 b" "budget 100 b"
    using demo_reach [of False True 8] by blast
  have b1: "budget 1 b" and t: "is_interned_type SpvOpTypeFloat" "length [32 :: u32] = type_arity SpvOpTypeFloat"
    using budget_mono [OF b(3)] by (simp_all add: is_interned_type_def type_arity_def)
  obtain rid b' where g: "get_type_def b SpvOpTypeFloat [32] = Some (rid, b')"
    using next_type_def [OF reachable_inv [OF b(2)] b1 t] by blast
  show ?thesis using b(1) g type_id_is_stable [OF b(2) b1 t g rtranclp.rtrancl_refl] by blast
qed

text \<open>
  An unsigned constant keeps its id: whenever the same value is requested again, after any further calls, the builder
  returns the id it returned first.
\<close>

theorem const_uint_id_is_stable:
  assumes "reachable cs tf dka b" "budget 4 b" "8 \<le> sint width"
    and "spirv_builder_const_uint b width v = Some (rid, b1)" "(spirv_step cs tf)\<^sup>*\<^sup>* b1 b2" "budget 4 b2"
  shows "\<exists>b3. spirv_builder_const_uint b2 width v = Some (rid, b3) \<and> decls b3 = decls b2"
proof -
  have n: "next_state 4 b b1" "declares_uint b1 width v rid"
    using next_const_uint [OF reachable_inv [OF assms(1)] assms(2,3), of v] assms(4) by auto
  have inv2: "builder_inv b2" using steps_next [OF assms(5) next_inv [OF n(1)]] by blast
  have d2: "declares_uint b2 width v rid" by (rule steps_declares_uint [OF assms(5) next_inv [OF n(1)] n(2)])
  show ?thesis by (rule const_uint_declared [OF inv2 assms(6,3) d2])
qed

section \<open>Capabilities and words\<close>

text \<open>
  C22: the module lists every capability once: after \<^verbatim>\<open>spirv_builder_emit_cap\<close> the list has the requested capability,
  the ones it had before and no other.
\<close>

theorem emit_cap_lists_once:
  assumes "reachable cs tf dka b" "budget 1 b" "c \<noteq> 0"
  shows "\<exists>b'. spirv_builder_emit_cap b c = Some b' \<and> distinct (cap_list b') \<and> set (cap_list b') = insert c (set (cap_list b))"
proof -
  note inv = reachable_inv [OF assms(1)]
  obtain ar where "binv ar b" using inv by (auto simp: builder_inv_def)
  then have v: "ready b" "caps_valid b" by (rule binvD)+
  have cc: "cap_count b < 2 ^ 30 - 1" using assms(2) by (simp add: budget_def)
  obtain s where s: "spirv_builder_emit_cap b c = Some (b\<lparr>caps := Some s\<rparr>)"
    "\<And>c'. c' \<noteq> 0 \<Longrightarrow> has_cap (b\<lparr>caps := Some s\<rparr>) c' \<longleftrightarrow> c' = c \<or> has_cap b c'"
    using emit_cap_ok [OF v assms(3) cc] by metis
  obtain b' where "spirv_builder_emit_cap b c = Some b'" "next_state 1 b b'" using next_cap [OF inv assms(2,3)] by blast
  then have inv': "builder_inv (b\<lparr>caps := Some s\<rparr>)" using s(1) next_inv by simp
  have "set (cap_list (b\<lparr>caps := Some s\<rparr>)) = insert c (set (cap_list b))"
    using cap_list_members(2) [OF inv'] cap_list_members(2) [OF inv] s(2) assms(3) by auto
  then show ?thesis using s(1) cap_list_members(1) [OF inv'] by auto
qed

theorem emit_cap_lists_once_witness:
  "\<exists>b'. spirv_builder_emit_cap (empty_builder (\<lambda>_. True) 8) SpvCapabilityInt64 = Some b' \<and> distinct (cap_list b') \<and>
    set (cap_list b') = insert SpvCapabilityInt64 (set (cap_list (empty_builder (\<lambda>_. True) 8)))"
  by (rule emit_cap_lists_once [OF reachable.start]) (simp_all add: budget_empty)

lemma nth_block: "i < length ys \<Longrightarrow> (xs @ ys @ zs) ! (length xs + i) = ys ! i"
  by (simp add: nth_append)

text \<open>
  C23: the caller's array receives exactly \<^verbatim>\<open>spirv_builder_get_num_words\<close> words. A position inside the execution modes
  that the caller passes in is translated to the index of the same word in the module, any other is returned unchanged.
\<close>

theorem get_words_translates_position:
  assumes "reachable cs tf dka b" "spirv_builder_get_num_words b \<le> capacity" "capacity < 2 ^ 32"
  shows "\<exists>ws tcs'. spirv_builder_get_words b capacity version tcs = Some (ws, tcs') \<and>
    length ws = spirv_builder_get_num_words b \<and>
    (if 0 < tcs \<and> unat tcs < length (sect b Exec_modes)
     then unat tcs' < length ws \<and> ws ! unat tcs' = sect b Exec_modes ! unat tcs else tcs' = tcs)"
proof -
  have cv: "caps_valid b" using reachable_inv [OF assms(1)] binvD(3) by (auto simp: builder_inv_def)
  note w = get_words_eq [OF cv assms(2), of version tcs] and l = module_words_length [OF cv, of version]
  let ?pre = "module_header b version @ capability_words b @ concat (map (sect b) [Extensions, Imports, Memory_model, Entry_points])"
  have split: "module_words b version = ?pre @ sect b Exec_modes @ concat (map (sect b) [Debug_names, Decorations, Types_const_defs, Instructions])"
    by (simp add: module_words_def module_sections_def)
  have off: "exec_modes_offset b = length ?pre" by (simp add: exec_modes_offset_def module_header_def)
  have in_range: "exec_modes_offset b + unat tcs < length (module_words b version)" if "unat tcs < length (sect b Exec_modes)"
    unfolding split off using that by simp
  have "ws ! (exec_modes_offset b + unat tcs) = sect b Exec_modes ! unat tcs"
    if "unat tcs < length (sect b Exec_modes)" "ws = module_words b version" for ws
    unfolding that(2) split off by (rule nth_block [OF that(1)])
  moreover have "unat (of_nat (exec_modes_offset b + unat tcs) :: u32) = exec_modes_offset b + unat tcs"
    if "unat tcs < length (sect b Exec_modes)"
    using in_range [OF that] l assms(2,3) by (simp add: unat_of_nat del: of_nat_add)
  ultimately show ?thesis using w l in_range by (auto simp del: of_nat_add)
qed

theorem get_words_translates_position_witness:
  "\<exists>b ws tcs'. exec_calls False True [Module (Emit_exec_mode_literal3 4 0 (3, 5, 6))] (empty_builder (\<lambda>_. True) 8) = Some b \<and>
    spirv_builder_get_words b (spirv_builder_get_num_words b) 65536 3 = Some (ws, tcs') \<and> ws ! unat tcs' = 3"
proof -
  let ?b0 = "empty_builder (\<lambda>_. True) 8" and ?c = "[Module (Emit_exec_mode_literal3 4 0 (3, 5, 6))]"
  have bud: "budget (12 * length ?c) ?b0" by (rule budget_empty) simp
  have ok: "calls_ok False True ?c ?b0" by (simp split: option.split)
  obtain b where b: "exec_calls False True ?c ?b0 = Some b" "reachable False True 8 b"
    using exec_calls_reach [OF reachable.start ok bud] by blast
  have "exec_calls False True ?c ?b0 = Some (with_words Exec_modes 6 [op_word SpvOpExecutionMode 6, 4, 0, 3, 5, 6] ?b0)"
    using prepare_emits [of ?b0 "[op_word SpvOpExecutionMode 6, 4, 0, 3, 5, 6]" 6 Exec_modes]
    by (simp add: spirv_builder_emit_exec_mode_literal3_def)
  then have s: "sect b Exec_modes = [op_word SpvOpExecutionMode 6, 4, 0, 3, 5, 6]" "caps b = None" "\<And>s. s \<noteq> Exec_modes \<Longrightarrow> sect b s = []"
    using b(1) by (auto simp: empty_builder_def)
  have n: "spirv_builder_get_num_words b < 2 ^ 32" by (simp add: spirv_builder_get_num_words_def caps_size_def s)
  show ?thesis using b(1) get_words_translates_position [OF b(2) order_refl n, of 65536 3] by (auto simp: s(1))
qed

section \<open>Instructions\<close>

text \<open>
  C25: an atomic store whose scope and semantics are constants that have to be interned between the words of the instruction
  still appends exactly one instruction, whose operands are the pointer, the ids of declared constants with these values, and
  the object.
\<close>

theorem atomic_store_is_one_instruction:
  assumes "reachable cs tf dka b" "budget 12 b"
  shows "\<exists>b' s m. spirv_builder_emit_atomic_store b pointer scope semantics object = Some b' \<and>
    insts b' Instructions = insts b Instructions @ [(SpvOpAtomicStore, [pointer, s, m, object])] \<and>
    declares_uint b' 32 (ucast scope) s \<and> declares_uint b' 32 (ucast semantics) m"
proof -
  let ?xs = "[Uint (ucast scope), Uint (ucast semantics), Word object]"
  have bud: "budget (4 * length ?xs) b" using assms(2) by simp
  have n: "5 = Suc (length [pointer] + length ?xs)" by simp
  obtain ops b1 where r: "do { b \<leftarrow> emit_words Instructions [op_word SpvOpAtomicStore 5, pointer] (prepare Instructions 5 b); emit_operands ?xs b } = Some b1"
    "list_all2 (stands_for b1) ?xs ops" "insts b1 Instructions = insts b Instructions @ [(SpvOpAtomicStore, [pointer] @ ops)]"
    using const_operands_inst [OF reachable_inv [OF assms(1)] bud _ n, of SpvOpAtomicStore] by auto
  then show ?thesis unfolding operand_forms by (auto simp: list_all2_Cons1 simp del: emit_operands.simps)
qed

theorem atomic_store_is_one_instruction_witness:
  "\<exists>b' s m. spirv_builder_emit_atomic_store (empty_builder (\<lambda>_. True) 8) 5 1 64 6 = Some b' \<and>
    insts b' Instructions = insts (empty_builder (\<lambda>_. True) 8) Instructions @ [(SpvOpAtomicStore, [5, s, m, 6])] \<and>
    declares_uint b' 32 (ucast (1 :: u32)) s \<and> declares_uint b' 32 (ucast (64 :: u32)) m"
  by (rule atomic_store_is_one_instruction [OF reachable.start]) (simp add: budget_empty)

text \<open>
  C24: the position that \<^verbatim>\<open>spirv_builder_emit_phi\<close> returns serves to fill in the operands: it appends a phi with
  empty operands, and setting operand pair \<open>index\<close> at that position changes exactly the two words of the pair.
\<close>

theorem phi_operands_are_set:
  assumes "reachable cs tf dka b" "budget 1 b" "0 < num_vars" "num_vars < 30000" "index < num_vars"
  shows "\<exists>r pos b1 b2. spirv_builder_emit_phi b type num_vars = Some (r, pos, b1) \<and>
    spirv_builder_set_phi_operand b1 pos index variable parent = Some b2 \<and>
    insts b2 Instructions = insts b Instructions @
      [(SpvOpPhi, type # r # (replicate (2 * num_vars) 0)[2 * index := variable, 2 * index + 1 := parent])]"
proof -
  note inv = reachable_inv [OF assms(1)]
  obtain b1 where b1: "spirv_builder_emit_phi b type num_vars = Some (prev_id b + 1, length (sect b Instructions) + 3, b1)"
    "next_state 1 b b1" "insts b1 Instructions = insts b Instructions @ [(SpvOpPhi, type # (prev_id b + 1) # replicate (2 * num_vars) 0)]"
    using emit_phi_ok [OF inv assms(2-4)] by blast
  have pos: "length (sect b Instructions) + 3 = length (concat (map encode (insts b Instructions))) + 3"
    using sect_insts(1) [OF inv, of Instructions] by simp
  have len: "2 * index + 1 < length (replicate (2 * num_vars) (0 :: u32))" using assms(5) by simp
  from set_phi_operand_ok [OF next_inv [OF b1(2)] b1(3) pos len, of variable parent] b1(1) show ?thesis by blast
qed

theorem phi_operands_are_set_witness:
  "\<exists>r pos b1 b2. spirv_builder_emit_phi (empty_builder (\<lambda>_. True) 8) 5 2 = Some (r, pos, b1) \<and>
    spirv_builder_set_phi_operand b1 pos 1 7 9 = Some b2 \<and>
    insts b2 Instructions = insts (empty_builder (\<lambda>_. True) 8) Instructions @
      [(SpvOpPhi, 5 # r # (replicate (2 * 2) 0)[2 * 1 := 7, 2 * 1 + 1 := 9])]"
  by (rule phi_operands_are_set [OF reachable.start]) (simp_all add: budget_empty)

text \<open>
  C26: a name without a zero byte, emitted where characters are unsigned or below 128, is one instruction, and reading its
  literal up to the terminator gives the name back.
\<close>

theorem emitted_name_reads_back:
  assumes "reachable cs tf dka b" "length name < 50000" "\<forall>c \<in> set name. c \<noteq> 0 \<and> (cs \<longrightarrow> c < 128)"
  shows "\<exists>b' lit. spirv_builder_emit_name cs b target name = Some b' \<and>
    insts b' Debug_names = insts b Debug_names @ [(SpvOpName, target # lit)] \<and> read_string lit = name"
proof -
  have "plain_string cs name" using assms(3) char_to_int_plain by (auto simp: plain_string_def list_all_iff)
  from emit_name_inst [OF reachable_inv [OF assms(1)] this assms(2), of target]
  show ?thesis using read_string_literal [of name] assms(3) by auto
qed

theorem emitted_name_reads_back_witness:
  "\<exists>b' lit. spirv_builder_emit_name True (empty_builder (\<lambda>_. True) 8) 4 [109, 97, 105, 110, 48] = Some b' \<and>
    insts b' Debug_names = insts (empty_builder (\<lambda>_. True) 8) Debug_names @ [(SpvOpName, 4 # lit)] \<and>
    read_string lit = [109, 97, 105, 110, 48]"
  by (rule emitted_name_reads_back [OF reachable.start]) simp_all

text \<open>
  C28: the opcode that \<^verbatim>\<open>spirv_builder_emit_image_sample\<close> computes by adding differences is the one of the sixteen
  sampling instructions that fits the arguments.
\<close>

theorem image_sample_opcode_correct:
  "image_sample_opcode sparse proj lod dref dx dy =
     sample_opcode_spec sparse proj (\<not> (lod = 0 \<and> (dx = 0 \<or> dy = 0))) (dref \<noteq> 0)"
  by (simp add: sample_opcode_correct)

text \<open>
  C27: the operands of a sampling instruction fit their array of six, and a reader that goes through the bits of the mask
  gets each argument under its own bit.
\<close>

theorem sample_operands_read_back:
  assumes "const_offset = 0 \<or> offset = 0"
  shows "\<exists>m ws. image_sample_operands lod bias dx dy const_offset offset min_lod = Some (m, ws) \<and> length ws < 6 \<and>
    read_operands operand_sizes m ws =
      (if bias \<noteq> 0 then [(SpvImageOperandsBiasMask, [bias])] else []) @
      (if lod \<noteq> 0 then [(SpvImageOperandsLodMask, [lod])]
       else if dx \<noteq> 0 \<and> dy \<noteq> 0 then [(SpvImageOperandsGradMask, [dx, dy])] else []) @
      (if const_offset \<noteq> 0 then [(SpvImageOperandsConstOffsetMask, [const_offset])] else []) @
      (if offset \<noteq> 0 then [(SpvImageOperandsOffsetMask, [offset])] else []) @
      (if min_lod \<noteq> 0 then [(SpvImageOperandsMinLodMask, [min_lod])] else [])"
  unfolding sample_operands_eq [OF assms]
  by (cases "bias = 0"; cases "lod = 0"; cases "dx \<noteq> 0 \<and> dy \<noteq> 0"; cases "const_offset = 0"; cases "offset = 0"; cases "min_lod = 0")
    (use assms in \<open>simp_all add: opt_def opt_bit_def operand_sizes_def\<close>)

theorem sample_operands_read_back_witness:
  "\<exists>m ws. image_sample_operands 0 3 4 5 6 0 7 = Some (m, ws) \<and> length ws < 6 \<and>
    read_operands operand_sizes m ws = [(SpvImageOperandsBiasMask, [3]), (SpvImageOperandsGradMask, [4, 5]),
      (SpvImageOperandsConstOffsetMask, [6]), (SpvImageOperandsMinLodMask, [7])]"
  using sample_operands_read_back [of 6 0 0 3 4 5 7] by simp

text \<open>
  C35: the read instruction puts the sample before the offset although the offset has the lower bit, so with both a reader
  takes the sample for the offset and the offset for the sample.
\<close>

theorem read_operands_are_swapped:
  assumes "sample \<noteq> 0" "offset \<noteq> 0"
  shows "\<exists>m ws. image_read_operands lod sample offset = Some (m, ws) \<and>
    read_operands operand_sizes m ws = (if lod \<noteq> 0 then [(SpvImageOperandsLodMask, [lod])] else []) @
      [(SpvImageOperandsOffsetMask, [sample]), (SpvImageOperandsSampleMask, [offset])]"
  unfolding read_operands_eq using assms
  by (cases "lod = 0") (simp_all add: opt_def opt_bit_def operand_sizes_def)

theorem read_operands_are_swapped_witness:
  "\<exists>m ws. image_read_operands 0 3 4 = Some (m, ws) \<and>
    read_operands operand_sizes m ws = [(SpvImageOperandsOffsetMask, [3]), (SpvImageOperandsSampleMask, [4])]"
  using read_operands_are_swapped [of 3 4 0] by simp

section \<open>Failures\<close>

text \<open>
  When memory for the buffer cannot be had, the first word that is emitted hits the assertion, because no caller looks at
  the result of \<^verbatim>\<open>spirv_buffer_prepare\<close>; emitted words are never written out of bounds.
\<close>

theorem failed_prepare_hits_assertion:
  assumes "\<not> fst (spirv_buffer_prepare alloc buf n)" "num_words buf = room buf"
  shows "spirv_buffer_emit_word (snd (spirv_buffer_prepare alloc buf n)) w = None"
  using prepare_failed [OF assms(1)] assms(2) by (simp add: spirv_buffer_emit_word_def c_assert_def)

text \<open>
  After a successful prepare the requested words can be emitted one after the other and the buffer holds them behind the
  old ones; the capacity never shrinks.
\<close>

theorem prepared_words_fit:
  assumes "fst (spirv_buffer_prepare alloc buf (length ws))"
  shows "\<exists>buf'. emit_all ws (snd (spirv_buffer_prepare alloc buf (length ws))) = Some buf' \<and>
    words buf' = words buf @ ws \<and> room buf \<le> room buf' \<and> buf_ok buf'"
  using emit_all_fits [of "prepared alloc buf (length ws)" ws] prepare_room [OF assms] prepare_mono [of buf alloc "length ws"]
  by (simp add: buf_ok_def)

end
