(* ===== verification/Vma.thy ===== *)
theory Vma
  imports Prelude
begin

text \<open>
  The address space allocator of \<^verbatim>\<open>vma.c\<close>. A heap is the list of its holes from high to low addresses.
  Addresses are 64-bit words, and the topmost hole may end at \<open>2\<^sup>6\<^sup>4\<close>, where its end wraps to zero. The allocation of
  list nodes is the parameter \<open>calloc_ok\<close>: the code uses the result of \<^verbatim>\<open>calloc\<close> unchecked, so a failure is
  undefined behaviour. The assertions of debug builds are part of the model. \<^verbatim>\<open>util_vma_heap_finish\<close> and
  \<^verbatim>\<open>util_vma_heap_print\<close> only release memory and print.
\<close>

section \<open>Holes\<close>

record util_vma_hole =
  hole_offset :: u64
  hole_size :: u64

record util_vma_heap =
  holes :: "util_vma_hole list"
  alloc_high :: bool

fun validate_loop :: "bool \<Rightarrow> u64 \<Rightarrow> util_vma_hole list \<Rightarrow> unit option" where
  "validate_loop topmost prev_offset [] = Some ()"
| "validate_loop topmost prev_offset (h # hs) = do {
     c_assert (hole_offset h > 0);
     c_assert (hole_size h > 0);
     c_assert (if topmost
       then hole_size h + hole_offset h = 0 \<or> hole_size h + hole_offset h > hole_offset h
       else hole_size h + hole_offset h > hole_offset h \<and> hole_size h + hole_offset h < prev_offset);
     validate_loop False (hole_offset h) hs }"

definition util_vma_heap_validate :: "util_vma_heap \<Rightarrow> unit option" where
  "util_vma_heap_validate heap = validate_loop True 0 (holes heap)"

text \<open>What takes the place of a hole when a range is cut out of it, from high to low.\<close>

definition util_vma_hole_alloc :: "bool \<Rightarrow> util_vma_hole \<Rightarrow> u64 \<Rightarrow> u64 \<Rightarrow> util_vma_hole list option" where
  "util_vma_hole_alloc calloc_ok hole offset sz = do {
     c_assert (hole_offset hole \<le> offset);
     c_assert (hole_size hole \<ge> offset - hole_offset hole + sz);
     if offset = hole_offset hole \<and> sz = hole_size hole then Some []
     else do {
       c_assert (offset - hole_offset hole \<le> hole_size hole - sz);
       let waste = (hole_size hole - sz) - (offset - hole_offset hole)
       in if waste = 0 then Some [hole\<lparr>hole_size := hole_size hole - sz\<rparr>]
          else if offset = hole_offset hole
          then Some [hole\<lparr>hole_offset := hole_offset hole + sz, hole_size := hole_size hole - sz\<rparr>]
          else do {
            c_assert calloc_ok;
            Some [\<lparr>hole_offset = offset + sz, hole_size = waste\<rparr>, hole\<lparr>hole_size := offset - hole_offset hole\<rparr>] } } }"

section \<open>Allocation\<close>

text \<open>The offset at which a hole takes the range, \<open>None\<close> where the loop continues.\<close>

definition high_fit :: "u64 \<Rightarrow> u64 \<Rightarrow> util_vma_hole \<Rightarrow> u64 option" where
  "high_fit sz alignment hole =
     (if sz > hole_size hole then None
      else let offset = (hole_size hole - sz) + hole_offset hole;
               offset = (offset div alignment) * alignment
           in if offset < hole_offset hole then None else Some offset)"

definition low_fit :: "u64 \<Rightarrow> u64 \<Rightarrow> util_vma_hole \<Rightarrow> u64 option" where
  "low_fit sz alignment hole =
     (if sz > hole_size hole then None
      else let offset = hole_offset hole; misalign = offset mod alignment
           in if misalign \<noteq> 0
              then let pad = alignment - misalign in if pad > hole_size hole - sz then None else Some (offset + pad)
              else Some offset)"

fun alloc_loop :: "(util_vma_hole \<Rightarrow> u64 option) \<Rightarrow> (util_vma_hole \<Rightarrow> u64 \<Rightarrow> util_vma_hole list option) \<Rightarrow>
    util_vma_hole list \<Rightarrow> (u64 option \<times> util_vma_hole list) option" where
  "alloc_loop fit take_from [] = Some (None, [])"
| "alloc_loop fit take_from (h # hs) = (case fit h of
     None \<Rightarrow> do { (r, hs') \<leftarrow> alloc_loop fit take_from hs; Some (r, h # hs') }
   | Some offset \<Rightarrow> do { new \<leftarrow> take_from h offset; Some (Some offset, new @ hs) })"

text \<open>Low addresses are searched from the end of the list.\<close>

definition util_vma_heap_alloc :: "bool \<Rightarrow> util_vma_heap \<Rightarrow> u64 \<Rightarrow> u64 \<Rightarrow> (u64 \<times> util_vma_heap) option" where
  "util_vma_heap_alloc calloc_ok heap sz alignment = do {
     c_assert (sz > 0);
     c_assert (alignment > 0);
     util_vma_heap_validate heap;
     (r, hs) \<leftarrow>
       (if alloc_high heap
        then alloc_loop (high_fit sz alignment) (\<lambda>h offset. util_vma_hole_alloc calloc_ok h offset sz) (holes heap)
        else map_option (apsnd rev) (alloc_loop (low_fit sz alignment)
               (\<lambda>h offset. map_option rev (util_vma_hole_alloc calloc_ok h offset sz)) (rev (holes heap))));
     case r of
       None \<Rightarrow> Some (0, heap)
     | Some offset \<Rightarrow> do {
         util_vma_heap_validate (heap\<lparr>holes := hs\<rparr>);
         Some (offset, heap\<lparr>holes := hs\<rparr>) } }"

fun alloc_addr_loop :: "bool \<Rightarrow> u64 \<Rightarrow> u64 \<Rightarrow> util_vma_hole list \<Rightarrow> (bool \<times> util_vma_hole list) option" where
  "alloc_addr_loop calloc_ok offset sz [] = Some (False, [])"
| "alloc_addr_loop calloc_ok offset sz (h # hs) =
     (if hole_offset h > offset then do { (r, hs') \<leftarrow> alloc_addr_loop calloc_ok offset sz hs; Some (r, h # hs') }
      else if hole_size h < offset - hole_offset h + sz then Some (False, h # hs)
      else do { new \<leftarrow> util_vma_hole_alloc calloc_ok h offset sz; Some (True, new @ hs) })"

definition util_vma_heap_alloc_addr :: "bool \<Rightarrow> util_vma_heap \<Rightarrow> u64 \<Rightarrow> u64 \<Rightarrow> (bool \<times> util_vma_heap) option" where
  "util_vma_heap_alloc_addr calloc_ok heap offset sz = do {
     c_assert (offset > 0);
     c_assert (sz > 0);
     c_assert (offset + sz = 0 \<or> offset + sz > offset);
     (r, hs) \<leftarrow> alloc_addr_loop calloc_ok offset sz (holes heap);
     Some (r, heap\<lparr>holes := hs\<rparr>) }"

section \<open>Freeing\<close>

text \<open>
  The holes above the offset and the others; \<^verbatim>\<open>high_hole\<close> is the last of the former and \<^verbatim>\<open>low_hole\<close> the first of the latter.
\<close>

fun find_holes :: "u64 \<Rightarrow> util_vma_hole list \<Rightarrow> util_vma_hole list \<Rightarrow> util_vma_hole list \<times> util_vma_hole list" where
  "find_holes offset higher [] = (higher, [])"
| "find_holes offset higher (h # hs) =
     (if hole_offset h \<le> offset then (higher, h # hs) else find_holes offset (higher @ [h]) hs)"

definition util_vma_heap_free :: "bool \<Rightarrow> util_vma_heap \<Rightarrow> u64 \<Rightarrow> u64 \<Rightarrow> util_vma_heap option" where
  "util_vma_heap_free calloc_ok heap offset sz = do {
     c_assert (offset > 0);
     c_assert (sz > 0);
     c_assert (offset + sz = 0 \<or> offset + sz > offset);
     util_vma_heap_validate heap;
     let (higher, lower) = find_holes offset [] (holes heap);
         high_adjacent = (higher \<noteq> [] \<and> offset + sz = hole_offset (last higher));
         low_adjacent = (lower \<noteq> [] \<and> hole_offset (hd lower) + hole_size (hd lower) = offset)
     in do {
       c_assert (higher \<noteq> [] \<longrightarrow> offset + sz \<le> hole_offset (last higher));
       c_assert (lower \<noteq> [] \<longrightarrow> hole_offset (hd lower) + hole_size (hd lower) > hole_offset (hd lower));
       c_assert (lower \<noteq> [] \<longrightarrow> hole_offset (hd lower) + hole_size (hd lower) \<le> offset);
       hs \<leftarrow>
         (if low_adjacent \<and> high_adjacent
          then Some (butlast higher @
            (hd lower)\<lparr>hole_size := hole_size (hd lower) + (sz + hole_size (last higher))\<rparr> # tl lower)
          else if low_adjacent
          then Some (higher @ (hd lower)\<lparr>hole_size := hole_size (hd lower) + sz\<rparr> # tl lower)
          else if high_adjacent
          then Some (butlast higher @ (last higher)\<lparr>hole_offset := offset, hole_size := hole_size (last higher) + sz\<rparr> # lower)
          else do { c_assert calloc_ok; Some (higher @ \<lparr>hole_offset = offset, hole_size = sz\<rparr> # lower) });
       util_vma_heap_validate (heap\<lparr>holes := hs\<rparr>);
       Some (heap\<lparr>holes := hs\<rparr>) } }"

definition util_vma_heap_init :: "bool \<Rightarrow> util_vma_heap \<Rightarrow> u64 \<Rightarrow> u64 \<Rightarrow> util_vma_heap option" where
  "util_vma_heap_init calloc_ok heap start sz = do {
     heap \<leftarrow> util_vma_heap_free calloc_ok (heap\<lparr>holes := []\<rparr>) start sz;
     Some (heap\<lparr>alloc_high := True\<rparr>) }"

section \<open>Ranges in natural numbers\<close>

abbreviation lo :: "util_vma_hole \<Rightarrow> nat" where
  "lo h \<equiv> unat (hole_offset h)"

abbreviation hi :: "util_vma_hole \<Rightarrow> nat" where
  "hi h \<equiv> unat (hole_offset h) + unat (hole_size h)"

fun holes_ok :: "nat \<Rightarrow> util_vma_hole list \<Rightarrow> bool" where
  "holes_ok limit [] \<longleftrightarrow> True"
| "holes_ok limit (h # hs) \<longleftrightarrow> 0 < lo h \<and> lo h < hi h \<and> hi h < limit \<and> holes_ok (lo h) hs"

definition heap_ok :: "util_vma_heap \<Rightarrow> bool" where
  "heap_ok heap \<longleftrightarrow> holes_ok (2 ^ 64 + 1) (holes heap)"

definition covered :: "util_vma_hole list \<Rightarrow> nat set" where
  "covered hs = (\<Union>h \<in> set hs. {lo h..<hi h})"

abbreviation free_set :: "util_vma_heap \<Rightarrow> nat set" where
  "free_set heap \<equiv> covered (holes heap)"

lemma covered_simps [simp]:
  "covered [] = {}" "covered (h # hs) = {lo h..<hi h} \<union> covered hs" "covered (xs @ ys) = covered xs \<union> covered ys"
  "covered (rev xs) = covered xs"
  by (auto simp: covered_def)

text \<open>Ends of ranges as words.\<close>

lemma range_end:
  fixes a s :: u64
  assumes "0 < s"
  shows "a + s > a \<longleftrightarrow> unat a + unat s < 2 ^ 64" "a + s = 0 \<longleftrightarrow> unat a + unat s = 2 ^ 64"
    "unat a + unat s < 2 ^ 64 \<Longrightarrow> unat (a + s) = unat a + unat s"
proof -
  have s: "0 < unat s" using assms by (simp add: word_less_nat_alt)
  note l = unat_u64_less [of a] unat_u64_less [of s]
  show no_wrap: "unat (a + s) = unat a + unat s" if "unat a + unat s < 2 ^ 64"
    using that by (simp add: unat_word_ariths)
  have wrap: "unat (a + s) = unat a + unat s - 2 ^ 64" if "2 ^ 64 \<le> unat a + unat s"
    using that l by (simp add: unat_word_ariths mod_if [of "_ + _"])
  show "a + s > a \<longleftrightarrow> unat a + unat s < 2 ^ 64"
    using no_wrap wrap s l by (cases "unat a + unat s < 2 ^ 64") (auto simp: word_less_nat_alt)
  have "a + s = 0 \<longleftrightarrow> unat (a + s) = 0" by (simp add: unat_eq_0)
  then show "a + s = 0 \<longleftrightarrow> unat a + unat s = 2 ^ 64"
    using no_wrap wrap s by (cases "unat a + unat s < 2 ^ 64") auto
qed

lemma word_pos: "0 < (x :: u64) \<longleftrightarrow> 0 < unat x"
  by (simp add: word_less_nat_alt)

lemma validate_below: "validate_loop False prev hs = Some () \<longleftrightarrow> holes_ok (unat prev) hs"
proof (induction hs arbitrary: prev)
  case (Cons h hs)
  have "(hole_size h + hole_offset h > hole_offset h \<and> hole_size h + hole_offset h < prev) \<longleftrightarrow> hi h < unat prev" if "0 < hole_size h"
    using range_end(1,3) [OF that, of "hole_offset h"] unat_u64_less [of prev]
    by (auto simp: add.commute word_less_nat_alt)
  then show ?case using Cons by (auto simp: bind_eq_Some word_pos)
qed simp

lemma validate_topmost: "validate_loop True p hs = Some () \<longleftrightarrow> holes_ok (2 ^ 64 + 1) hs"
proof (cases hs)
  case (Cons h hs')
  have "(hole_size h + hole_offset h = 0 \<or> hole_size h + hole_offset h > hole_offset h) \<longleftrightarrow> hi h < 2 ^ 64 + 1" if "0 < hole_size h"
    using range_end(1,2) [OF that, of "hole_offset h"] by (auto simp: add.commute)
  then show ?thesis using validate_below Cons by (auto simp: bind_eq_Some word_pos)
qed simp

lemma validate_iff: "util_vma_heap_validate heap = Some () \<longleftrightarrow> heap_ok heap"
  by (simp add: util_vma_heap_validate_def heap_ok_def validate_topmost)

section \<open>Cutting a range out of a hole\<close>

lemma holes_ok_mono: "holes_ok l hs \<Longrightarrow> l \<le> l' \<Longrightarrow> holes_ok l' hs"
  by (cases hs) auto

lemma holes_ok_less: "holes_ok l hs \<Longrightarrow> a \<in> covered hs \<Longrightarrow> 0 < a \<and> Suc a < l"
proof (induction hs arbitrary: l)
  case (Cons h hs)
  then show ?case by (cases "a \<in> covered hs") (fastforce simp: less_diff_conv)+
qed simp

lemma unat_sub64: "(b :: u64) \<le> a \<Longrightarrow> unat (a - b) = unat a - unat b"
  by (simp add: unat_sub_if' word_le_nat_alt)

lemma hole_alloc_ok:
  assumes "holes_ok limit (h # hs)" "limit \<le> 2 ^ 64 + 1" "0 < sz" "lo h \<le> unat offset" "unat offset + unat sz \<le> hi h"
  shows "\<exists>new. util_vma_hole_alloc True h offset sz = Some new \<and> holes_ok limit (new @ hs) \<and>
    covered (new @ hs) = covered (h # hs) - {unat offset..<unat offset + unat sz}"
proof -
  have o: "hole_offset h \<le> offset" using assms(4) by (simp add: word_le_nat_alt)
  note d = unat_sub64 [OF o]
  have s: "sz \<le> hole_size h" using assms(4,5) by (simp add: word_le_nat_alt)
  note e = unat_sub64 [OF s] and szp = assms(3) [unfolded word_pos]
  have k: "0 < lo h" "hi h < limit" "holes_ok (lo h) hs" using assms(1) by auto
  have sum: "unat (offset - hole_offset h + sz) = unat offset - lo h + unat sz"
    using d assms(4,5) unat_u64_less [of "hole_size h"] by (simp add: unat_word_ariths)
  have le: "offset - hole_offset h \<le> hole_size h - sz" using d e assms(4,5) by (simp add: word_le_nat_alt)
  have w: "unat (hole_size h - sz - (offset - hole_offset h)) = hi h - (unat offset + unat sz)"
    using unat_sub64 [OF le] d e assms(4,5) by simp
  have w0: "hole_size h - sz = offset - hole_offset h \<longleftrightarrow> unat offset + unat sz = hi h"
    using d e assms(4,5) by (auto simp: word_unat_eq_iff)
  have off: "offset = hole_offset h \<longleftrightarrow> unat offset = lo h" and szeq: "sz = hole_size h \<longleftrightarrow> unat sz = unat (hole_size h)"
    by (simp_all add: word_unat_eq_iff)
  have below: "a < lo h" if "a \<in> covered hs" for a using holes_ok_less [OF k(3) that] by simp
  have pre: "hole_size h \<ge> offset - hole_offset h + sz" using sum assms(4,5) by (simp add: word_le_nat_alt)
  note defs = util_vma_hole_alloc_def o pre le w0 off szeq
  have noend: "unat (offset + sz) = unat offset + unat sz" if "unat offset + unat sz \<noteq> hi h"
    using that assms(2,5) k(2) by (intro range_end(3) [OF assms(3)]) simp
  have noend': "unat (hole_offset h + sz) = lo h + unat sz" if "unat offset + unat sz \<noteq> hi h" "unat offset = lo h"
    using that assms(2,5) k(2) by (intro range_end(3) [OF assms(3)]) simp
  consider "unat offset = lo h" "unat sz = unat (hole_size h)" | "unat offset + unat sz = hi h" "unat offset \<noteq> lo h"
    | "unat offset + unat sz \<noteq> hi h" "unat offset = lo h" | "unat offset + unat sz \<noteq> hi h" "unat offset \<noteq> lo h"
    by fastforce
  then show ?thesis
  proof cases
    case 1
    then have "util_vma_hole_alloc True h offset sz = Some []" by (simp add: defs)
    then show ?thesis using 1 below holes_ok_mono [OF k(3)] k(2) by (fastforce intro!: exI [of _ "[]"])
  next
    case 2
    then have "util_vma_hole_alloc True h offset sz = Some [h\<lparr>hole_size := hole_size h - sz\<rparr>]" by (auto simp: defs)
    then show ?thesis using 2 below k szp e assms(4)
      by (intro exI [of _ "[h\<lparr>hole_size := hole_size h - sz\<rparr>]"]) (fastforce simp: e)
  next
    case 3
    then have "util_vma_hole_alloc True h offset sz = Some [h\<lparr>hole_offset := hole_offset h + sz, hole_size := hole_size h - sz\<rparr>]"
      by (auto simp: defs Let_def)
    then show ?thesis using 3 below k szp e noend' assms(4,5) holes_ok_mono [OF k(3), of "lo h + unat sz"]
      by (intro exI [of _ "[h\<lparr>hole_offset := hole_offset h + sz, hole_size := hole_size h - sz\<rparr>]"]) (auto simp: e dest: below)
  next
    case 4
    let ?new = "[\<lparr>hole_offset = offset + sz, hole_size = hole_size h - sz - (offset - hole_offset h)\<rparr>, h\<lparr>hole_size := offset - hole_offset h\<rparr>]"
    have "util_vma_hole_alloc True h offset sz = Some ?new" using 4 by (auto simp: defs Let_def)
    then show ?thesis using 4 below k szp w d noend assms(4,5) by (intro exI [of _ ?new]) (auto dest: below)
  qed
qed

end
