(* ===== verification/Vma_Correct.thy ===== *)
theory Vma_Correct
  imports Vma
begin

text \<open>
  What the address space allocator guarantees: allocation takes the highest or lowest aligned range that is free and only that
  range, allocation at an address succeeds exactly when the range is free, and freeing gives a range back, with every
  overlap caught by an assertion.
\<close>

section \<open>Ranges and holes\<close>

definition fits :: "nat set \<Rightarrow> nat \<Rightarrow> nat \<Rightarrow> nat \<Rightarrow> bool" where
  "fits F s al a \<longleftrightarrow> al dvd a \<and> {a..<a + s} \<subseteq> F"

abbreviation in_hole :: "util_vma_hole \<Rightarrow> nat \<Rightarrow> nat \<Rightarrow> bool" where
  "in_hole h a s \<equiv> lo h \<le> a \<and> a + s \<le> hi h"

text \<open>Two holes never touch, so a free range lies inside one hole.\<close>

lemma range_in_holes:
  assumes "holes_ok l (h # hs)" "0 < s"
  shows "{a..<a + s} \<subseteq> covered (h # hs) \<longleftrightarrow> in_hole h a s \<or> {a..<a + s} \<subseteq> covered hs"
proof
  assume sub: "{a..<a + s} \<subseteq> covered (h # hs)"
  have ok: "holes_ok (lo h) hs" "0 < lo h" using assms(1) by auto
  have gap: "lo h - 1 \<notin> covered (h # hs)" using holes_ok_less [OF ok(1), of "lo h - 1"] ok(2) by auto
  then have "\<not> (a \<le> lo h - 1 \<and> lo h - 1 < a + s)" using sub by (auto simp del: covered_simps)
  then consider "lo h \<le> a" | "a + s < lo h + 1" "a < lo h" using ok(2) by linarith
  then show "in_hole h a s \<or> {a..<a + s} \<subseteq> covered hs"
  proof cases
    case 1
    have "a + s - 1 \<in> covered (h # hs)" using sub assms(2) by (auto simp del: covered_simps)
    moreover have "a + s - 1 \<notin> covered hs" using holes_ok_less [OF ok(1), of "a + s - 1"] 1 assms(2) by auto
    ultimately show ?thesis using 1 assms(2) by auto
  next
    case 2
    then show ?thesis using sub by fastforce
  qed
qed auto

lemma fits_Cons:
  assumes "holes_ok l (h # hs)" "0 < s"
  shows "fits (covered (h # hs)) s al a \<longleftrightarrow> al dvd a \<and> in_hole h a s \<or> fits (covered hs) s al a"
  using range_in_holes [OF assms] by (auto simp: fits_def simp del: covered_simps)

lemma fits_below:
  assumes "holes_ok l hs" "0 < s" "fits (covered hs) s al a"
  shows "0 < a" "a + s < l"
proof -
  have "a \<in> covered hs" "a + s - 1 \<in> covered hs" using assms(2,3) by (auto simp: fits_def)
  then show "0 < a" "a + s < l" using holes_ok_less [OF assms(1)] assms(2) by fastforce+
qed

section \<open>Where a hole takes a range\<close>

lemma unat_align_down: "unat ((x div al) * al :: u64) = unat x div unat al * unat al"
proof -
  have "unat x div unat al * unat al \<le> unat x" by (rule div_times_less_eq_dividend)
  then have "unat x div unat al * unat al < 18446744073709551616" using unat_u64_less [of x] by linarith
  then show ?thesis by (simp add: unat_word_ariths(2) unat_div_distrib)
qed

lemma high_fit_spec:
  assumes "holes_ok l (h # hs)" "l \<le> 2 ^ 64 + 1" "0 < sz" "0 < al"
  shows "case high_fit sz al h of None \<Rightarrow> \<forall>a. unat al dvd a \<longrightarrow> \<not> in_hole h a (unat sz)
    | Some p \<Rightarrow> unat al dvd unat p \<and> in_hole h (unat p) (unat sz) \<and>
        (\<forall>a. unat al dvd a \<longrightarrow> in_hole h a (unat sz) \<longrightarrow> a \<le> unat p)"
proof (cases "sz > hole_size h")
  case True
  then show ?thesis by (auto simp: high_fit_def word_less_nat_alt)
next
  case False
  then have s: "sz \<le> hole_size h" by simp
  let ?top = "(hole_size h - sz) + hole_offset h"
  have le: "unat sz \<le> unat (hole_size h)" and pos: "0 < unat sz" "0 < unat al"
    using s assms(3,4) by (simp_all add: word_le_nat_alt word_pos)
  have t: "unat ?top = hi h - unat sz"
  proof -
    have "unat (hole_size h - sz) + lo h = hi h - unat sz" using unat_sub64 [OF s] le by simp
    moreover have "hi h \<le> 18446744073709551616" using assms(1,2) by simp
    then have "hi h - unat sz < 18446744073709551616" using pos(1) by linarith
    ultimately show ?thesis by (simp add: unat_word_ariths(1))
  qed
  let ?o = "(?top div al) * al"
  have o: "unat ?o = (hi h - unat sz) div unat al * unat al" using unat_align_down [of ?top al] t by simp
  have o_le: "unat ?o \<le> hi h - unat sz" unfolding o by (rule div_times_less_eq_dividend)
  have max: "a \<le> unat ?o" if "unat al dvd a" "a + unat sz \<le> hi h" for a
  proof -
    have "a \<le> hi h - unat sz" using that(2) by simp
    then have "a div unat al * unat al \<le> (hi h - unat sz) div unat al * unat al" by (intro mult_right_mono div_le_mono) simp_all
    then show ?thesis using that(1) o by simp
  qed
  have r: "high_fit sz al h = (if ?o < hole_offset h then None else Some ?o)" using False by (simp add: high_fit_def Let_def)
  show ?thesis
  proof (cases "?o < hole_offset h")
    case True
    then show ?thesis using r max by (fastforce simp: word_less_nat_alt)
  next
    case False
    then have "lo h \<le> unat ?o" by (simp only: word_less_nat_alt not_less)
    moreover have "unat ?o + unat sz \<le> hi h" using o_le le by simp
    moreover have "unat al dvd unat ?o" unfolding o by simp
    ultimately show ?thesis unfolding r using False max by auto
  qed
qed

lemma low_fit_spec:
  assumes "holes_ok l (h # hs)" "l \<le> 2 ^ 64 + 1" "0 < sz" "0 < al"
  shows "case low_fit sz al h of None \<Rightarrow> \<forall>a. unat al dvd a \<longrightarrow> \<not> in_hole h a (unat sz)
    | Some p \<Rightarrow> unat al dvd unat p \<and> in_hole h (unat p) (unat sz) \<and>
        (\<forall>a. unat al dvd a \<longrightarrow> in_hole h a (unat sz) \<longrightarrow> unat p \<le> a)"
proof (cases "sz > hole_size h")
  case True
  then show ?thesis by (auto simp: low_fit_def word_less_nat_alt)
next
  case False
  then have s: "sz \<le> hole_size h" by simp
  have le: "unat sz \<le> unat (hole_size h)" and pos: "0 < unat sz" "0 < unat al"
    using s assms(3,4) by (simp_all add: word_le_nat_alt word_pos)
  let ?m = "hole_offset h mod al"
  have m: "unat ?m = lo h mod unat al" by (rule unat_mod_distrib)
  have m_le: "?m \<le> al" using m pos(2) by (simp add: word_le_nat_alt less_imp_le)
  show ?thesis
  proof (cases "?m = 0")
    case True
    then have "unat al dvd lo h" using m by (simp add: dvd_eq_mod_eq_0 unat_eq_0)
    moreover have "low_fit sz al h = Some (hole_offset h)" using False True by (simp add: low_fit_def)
    ultimately show ?thesis using le by simp
  next
    case mis: False
    then have mpos: "0 < lo h mod unat al" using m by (metis gr0I unat_eq_0)
    let ?pad = "al - ?m" and ?q = "lo h div unat al"
    have pad: "unat ?pad = unat al - lo h mod unat al" using unat_sub64 [OF m_le] m by simp
    have next_mult: "lo h + unat ?pad = (?q + 1) * unat al"
    proof -
      have "lo h = ?q * unat al + lo h mod unat al" "(?q + 1) * unat al = ?q * unat al + unat al" by simp_all
      then show ?thesis using pad mod_less_divisor [OF pos(2), of "lo h"] by linarith
    qed
    have least: "lo h + unat ?pad \<le> a" if dv: "unat al dvd a" and ge: "lo h \<le> a" for a
    proof -
      obtain k where k: "a = unat al * k" using dv unfolding dvd_def by blast
      have "?q < k"
      proof (rule ccontr)
        assume "\<not> ?q < k"
        then have "unat al * k \<le> unat al * ?q" by (intro mult_left_mono) simp_all
        then have "lo h mod unat al = 0" using ge k mult_div_mod_eq [of "unat al" "lo h"] by linarith
        then show False using mpos by simp
      qed
      then have "(?q + 1) * unat al \<le> k * unat al" by (intro mult_right_mono) simp_all
      then show ?thesis using next_mult k by (simp add: mult.commute)
    qed
    have r: "low_fit sz al h = (if ?pad > hole_size h - sz then None else Some (hole_offset h + ?pad))"
      using False mis by (simp add: low_fit_def Let_def)
    have cmp: "?pad > hole_size h - sz \<longleftrightarrow> hi h < lo h + unat ?pad + unat sz"
      using unat_sub64 [OF s] le by (auto simp: word_less_nat_alt)
    show ?thesis
    proof (cases "?pad > hole_size h - sz")
      case True
      then show ?thesis using r cmp least by fastforce
    next
      case fit: False
      have sum: "unat (hole_offset h + ?pad) = lo h + unat ?pad"
        using fit cmp assms(1,2) pos(1) by (simp add: unat_word_ariths)
      have "unat al dvd lo h + unat ?pad" unfolding next_mult by simp
      then show ?thesis unfolding r using fit cmp sum least by auto
    qed
  qed
qed

section \<open>Allocation\<close>

lemma high_loop:
  assumes "holes_ok l hs" "l \<le> 2 ^ 64 + 1" "0 < sz" "0 < al"
  shows "\<exists>r hs'. alloc_loop (high_fit sz al) (\<lambda>h offset. util_vma_hole_alloc True h offset sz) hs = Some (r, hs') \<and>
    (case r of None \<Rightarrow> \<forall>a. \<not> fits (covered hs) (unat sz) (unat al) a
     | Some p \<Rightarrow> fits (covered hs) (unat sz) (unat al) (unat p) \<and>
         (\<forall>a. fits (covered hs) (unat sz) (unat al) a \<longrightarrow> a \<le> unat p) \<and>
         holes_ok l hs' \<and> covered hs' = covered hs - {unat p..<unat p + unat sz})"
  using assms(1,2)
proof (induction hs arbitrary: l)
  case Nil
  then show ?case using assms(3) by (simp add: fits_def word_pos)
next
  case (Cons h hs)
  have s: "0 < unat sz" using assms(3) by (simp add: word_pos)
  note f = fits_Cons [OF Cons.prems(1) s, of "unat al"]
  have tail: "holes_ok (lo h) hs" "lo h \<le> 2 ^ 64 + 1" using Cons.prems by auto
  show ?case
  proof (cases "high_fit sz al h")
    case None
    obtain r hs' where r: "alloc_loop (high_fit sz al) (\<lambda>h offset. util_vma_hole_alloc True h offset sz) hs = Some (r, hs')"
      "case r of None \<Rightarrow> \<forall>a. \<not> fits (covered hs) (unat sz) (unat al) a
       | Some p \<Rightarrow> fits (covered hs) (unat sz) (unat al) (unat p) \<and>
         (\<forall>a. fits (covered hs) (unat sz) (unat al) a \<longrightarrow> a \<le> unat p) \<and>
         holes_ok (lo h) hs' \<and> covered hs' = covered hs - {unat p..<unat p + unat sz}"
      using Cons.IH [OF tail] by blast
    have no: "\<not> (unat al dvd a \<and> in_hole h a (unat sz))" for a
      using high_fit_spec [OF Cons.prems assms(3,4)] None by simp
    have keep: "{lo h..<hi h} - {unat p..<unat p + unat sz} = {lo h..<hi h}" if "fits (covered hs) (unat sz) (unat al) (unat p)" for p
      using fits_below(2) [OF tail(1) s that] by auto
    show ?thesis using r None f no Cons.prems(1) keep
      by (cases r) (auto simp: Un_Diff simp del: covered_simps(2) simp add: covered_simps(2) [of h hs'] covered_simps(2) [of h hs])
  next
    case (Some p)
    then have p: "unat al dvd unat p" "in_hole h (unat p) (unat sz)" "\<And>a. unat al dvd a \<Longrightarrow> in_hole h a (unat sz) \<Longrightarrow> a \<le> unat p"
      using high_fit_spec [OF Cons.prems assms(3,4)] by auto
    obtain new where new: "util_vma_hole_alloc True h p sz = Some new" "holes_ok l (new @ hs)"
      "covered (new @ hs) = covered (h # hs) - {unat p..<unat p + unat sz}"
      using hole_alloc_ok [OF Cons.prems assms(3), of p] p(2) by blast
    have "a \<le> unat p" if "fits (covered hs) (unat sz) (unat al) a" for a
      using fits_below(2) [OF tail(1) s that] p(2) by simp
    then show ?thesis using Some new f p by (auto simp del: covered_simps)
  qed
qed

text \<open>The search from the end of the list.\<close>

lemma alloc_loop_none: "alloc_loop fit take_from hs = Some (None, hs') \<Longrightarrow> hs' = hs"
  by (induction hs arbitrary: hs') (auto simp: bind_eq_Some split: option.splits)

lemma alloc_loop_snoc:
  "alloc_loop fit take_from (hs @ [h]) = (case alloc_loop fit take_from hs of
     None \<Rightarrow> None
   | Some (Some p, hs') \<Rightarrow> Some (Some p, hs' @ [h])
   | Some (None, hs') \<Rightarrow> (case fit h of
        None \<Rightarrow> Some (None, hs' @ [h])
      | Some p \<Rightarrow> map_option (\<lambda>new. (Some p, hs' @ new)) (take_from h p)))"
proof (induction hs)
  case Nil
  show ?case by (cases "fit h") (auto split: option.split Option.bind_split)
next
  case (Cons x hs)
  show ?case
  proof (cases "fit x")
    case None
    then show ?thesis using Cons.IH
      by (cases "alloc_loop fit take_from hs") (auto split: option.splits Option.bind_split)
  next
    case (Some p)
    then show ?thesis by (cases "take_from x p") simp_all
  qed
qed

lemma low_loop:
  assumes "holes_ok l hs" "l \<le> 2 ^ 64 + 1" "0 < sz" "0 < al"
  shows "\<exists>r hs'. alloc_loop (low_fit sz al) (\<lambda>h offset. map_option rev (util_vma_hole_alloc True h offset sz)) (rev hs) = Some (r, rev hs') \<and>
    (case r of None \<Rightarrow> \<forall>a. \<not> fits (covered hs) (unat sz) (unat al) a
     | Some p \<Rightarrow> fits (covered hs) (unat sz) (unat al) (unat p) \<and>
         (\<forall>a. fits (covered hs) (unat sz) (unat al) a \<longrightarrow> unat p \<le> a) \<and>
         holes_ok l hs' \<and> covered hs' = covered hs - {unat p..<unat p + unat sz})"
  using assms(1,2)
proof (induction hs arbitrary: l)
  case Nil
  then show ?case using assms(3) by (simp add: fits_def word_pos)
next
  case (Cons h hs)
  let ?loop = "alloc_loop (low_fit sz al) (\<lambda>h offset. map_option rev (util_vma_hole_alloc True h offset sz))"
  have s: "0 < unat sz" using assms(3) by (simp add: word_pos)
  note f = fits_Cons [OF Cons.prems(1) s, of "unat al"]
  have tail: "holes_ok (lo h) hs" "lo h \<le> 2 ^ 64 + 1" using Cons.prems by auto
  obtain r hs' where r: "?loop (rev hs) = Some (r, rev hs')"
    "case r of None \<Rightarrow> \<forall>a. \<not> fits (covered hs) (unat sz) (unat al) a
     | Some p \<Rightarrow> fits (covered hs) (unat sz) (unat al) (unat p) \<and>
       (\<forall>a. fits (covered hs) (unat sz) (unat al) a \<longrightarrow> unat p \<le> a) \<and>
       holes_ok (lo h) hs' \<and> covered hs' = covered hs - {unat p..<unat p + unat sz}"
    using Cons.IH [OF tail] by blast
  show ?case
  proof (cases r)
    case (Some p)
    have fit: "fits (covered hs) (unat sz) (unat al) (unat p)" using r(2) Some by simp
    note below = fits_below(2) [OF tail(1) s fit]
    have "{lo h..<hi h} - {unat p..<unat p + unat sz} = {lo h..<hi h}" using below by auto
    then have "covered (h # hs') = covered (h # hs) - {unat p..<unat p + unat sz}" using r(2) Some by auto
    moreover have "holes_ok l (h # hs')" using r(2) Some Cons.prems(1) by simp
    moreover have "unat p \<le> a" if "fits (covered (h # hs)) (unat sz) (unat al) a" for a
      using that f r(2) Some below by auto
    moreover have "?loop (rev (h # hs)) = Some (Some p, rev (h # hs'))" using r(1) Some by (simp add: alloc_loop_snoc)
    ultimately show ?thesis using f fit by (intro exI [of _ "Some p"] exI [of _ "h # hs'"]) (auto simp del: covered_simps)
  next
    case None
    then have same: "hs' = hs" and no: "\<And>a. \<not> fits (covered hs) (unat sz) (unat al) a"
      using alloc_loop_none [of _ _ "rev hs" "rev hs'"] r by simp_all
    show ?thesis
    proof (cases "low_fit sz al h")
      case none: None
      have "?loop (rev (h # hs)) = Some (None, rev (h # hs))" using r(1) None none same by (simp add: alloc_loop_snoc)
      moreover have "\<not> fits (covered (h # hs)) (unat sz) (unat al) a" for a
        using low_fit_spec [OF Cons.prems assms(3,4)] none f no by simp
      ultimately show ?thesis by (intro exI [of _ None] exI [of _ "h # hs"]) (simp del: covered_simps rev.simps)
    next
      case (Some p)
      then have p: "unat al dvd unat p" "in_hole h (unat p) (unat sz)" "\<And>a. unat al dvd a \<Longrightarrow> in_hole h a (unat sz) \<Longrightarrow> unat p \<le> a"
        using low_fit_spec [OF Cons.prems assms(3,4)] by auto
      obtain new where new: "util_vma_hole_alloc True h p sz = Some new" "holes_ok l (new @ hs)"
        "covered (new @ hs) = covered (h # hs) - {unat p..<unat p + unat sz}"
        using hole_alloc_ok [OF Cons.prems assms(3), of p] p(2) by blast
      have "?loop (rev (h # hs)) = Some (Some p, rev (new @ hs))" using r(1) None Some same new(1) by (simp add: alloc_loop_snoc)
      moreover have "fits (covered (h # hs)) (unat sz) (unat al) (unat p)"
        "\<And>a. fits (covered (h # hs)) (unat sz) (unat al) a \<Longrightarrow> unat p \<le> a" using f p no by auto
      ultimately show ?thesis using new(2,3)
        by (intro exI [of _ "Some p"] exI [of _ "new @ hs"]) (simp del: covered_simps rev.simps rev_append)
    qed
  qed
qed

text \<open>
  Allocation: zero and an unchanged heap when no aligned range is free, otherwise the highest or the lowest such range, which is
  no longer free afterwards.
\<close>

lemma heap_alloc_spec:
  assumes "heap_ok heap" "0 < sz" "0 < al"
  shows "\<exists>p heap'. util_vma_heap_alloc True heap sz al = Some (p, heap') \<and>
    (if p = 0 then heap' = heap \<and> (\<forall>a. \<not> fits (free_set heap) (unat sz) (unat al) a)
     else heap_ok heap' \<and> alloc_high heap' = alloc_high heap \<and> fits (free_set heap) (unat sz) (unat al) (unat p) \<and>
       (\<forall>a. fits (free_set heap) (unat sz) (unat al) a \<longrightarrow> (if alloc_high heap then a \<le> unat p else unat p \<le> a)) \<and>
       free_set heap' = free_set heap - {unat p..<unat p + unat sz})"
proof -
  have ok: "holes_ok (2 ^ 64 + 1) (holes heap)" using assms(1) by (simp add: heap_ok_def)
  have s: "0 < unat sz" using assms(2) by (simp add: word_pos)
  let ?search = "if alloc_high heap
        then alloc_loop (high_fit sz al) (\<lambda>h offset. util_vma_hole_alloc True h offset sz) (holes heap)
        else map_option (apsnd rev) (alloc_loop (low_fit sz al)
               (\<lambda>h offset. map_option rev (util_vma_hole_alloc True h offset sz)) (rev (holes heap)))"
  obtain r hs where r: "?search = Some (r, hs)"
    "case r of None \<Rightarrow> \<forall>a. \<not> fits (free_set heap) (unat sz) (unat al) a
     | Some p \<Rightarrow> fits (free_set heap) (unat sz) (unat al) (unat p) \<and>
         (\<forall>a. fits (free_set heap) (unat sz) (unat al) a \<longrightarrow> (if alloc_high heap then a \<le> unat p else unat p \<le> a)) \<and>
         holes_ok (2 ^ 64 + 1) hs \<and> covered hs = free_set heap - {unat p..<unat p + unat sz}"
  proof (cases "alloc_high heap")
    case True
    obtain r hs where "alloc_loop (high_fit sz al) (\<lambda>h offset. util_vma_hole_alloc True h offset sz) (holes heap) = Some (r, hs)"
      "case r of None \<Rightarrow> \<forall>a. \<not> fits (free_set heap) (unat sz) (unat al) a
       | Some p \<Rightarrow> fits (free_set heap) (unat sz) (unat al) (unat p) \<and>
           (\<forall>a. fits (free_set heap) (unat sz) (unat al) a \<longrightarrow> a \<le> unat p) \<and>
           holes_ok (2 ^ 64 + 1) hs \<and> covered hs = free_set heap - {unat p..<unat p + unat sz}"
      using high_loop [OF ok order_refl assms(2,3)] by blast
    then show thesis using True by (intro that [of r hs]; cases r) auto
  next
    case False
    obtain r hs where "alloc_loop (low_fit sz al) (\<lambda>h offset. map_option rev (util_vma_hole_alloc True h offset sz)) (rev (holes heap)) = Some (r, rev hs)"
      "case r of None \<Rightarrow> \<forall>a. \<not> fits (free_set heap) (unat sz) (unat al) a
       | Some p \<Rightarrow> fits (free_set heap) (unat sz) (unat al) (unat p) \<and>
           (\<forall>a. fits (free_set heap) (unat sz) (unat al) a \<longrightarrow> unat p \<le> a) \<and>
           holes_ok (2 ^ 64 + 1) hs \<and> covered hs = free_set heap - {unat p..<unat p + unat sz}"
      using low_loop [OF ok order_refl assms(2,3)] by blast
    then show thesis using False by (intro that [of r hs]; cases r) auto
  qed
  have run: "util_vma_heap_alloc True heap sz al = (case r of None \<Rightarrow> Some (0, heap) | Some p \<Rightarrow> do {
      util_vma_heap_validate (heap\<lparr>holes := hs\<rparr>); Some (p, heap\<lparr>holes := hs\<rparr>) })"
    unfolding util_vma_heap_alloc_def r(1) using assms validate_iff [of heap] by simp
  show ?thesis
  proof (cases r)
    case (Some p)
    have ok': "heap_ok (heap\<lparr>holes := hs\<rparr>)" using r(2) Some by (simp add: heap_ok_def)
    have "fits (free_set heap) (unat sz) (unat al) (unat p)" using r(2) Some by simp
    then have "p \<noteq> 0" using fits_below(1) [OF ok s] by fastforce
    then show ?thesis using run Some r(2) ok' validate_iff [of "heap\<lparr>holes := hs\<rparr>"] by simp
  qed (use run r(2) in simp)
qed

section \<open>Allocation at an address\<close>

lemma alloc_addr_loop_spec:
  assumes "holes_ok l hs" "l \<le> 2 ^ 64 + 1" "0 < sz" "unat offset + unat sz \<le> 2 ^ 64"
  shows "\<exists>r hs'. alloc_addr_loop True offset sz hs = Some (r, hs') \<and> (r \<longleftrightarrow> {unat offset..<unat offset + unat sz} \<subseteq> covered hs) \<and>
    (if r then holes_ok l hs' \<and> covered hs' = covered hs - {unat offset..<unat offset + unat sz} else hs' = hs)"
  using assms(1,2)
proof (induction hs arbitrary: l)
  case Nil
  then show ?case using assms(3) by (auto simp: word_pos)
next
  case (Cons h hs)
  let ?R = "{unat offset..<unat offset + unat sz}"
  have s: "0 < unat sz" using assms(3) by (simp add: word_pos)
  note inn = range_in_holes [OF Cons.prems(1) s, of "unat offset"]
  have tail: "holes_ok (lo h) hs" "lo h \<le> 2 ^ 64 + 1" "0 < lo h" using Cons.prems by auto
  show ?case
  proof (cases "hole_offset h > offset")
    case True
    then have lt: "unat offset < lo h" by (simp add: word_less_nat_alt)
    obtain r hs' where r: "alloc_addr_loop True offset sz hs = Some (r, hs')" "r \<longleftrightarrow> ?R \<subseteq> covered hs"
      "if r then holes_ok (lo h) hs' \<and> covered hs' = covered hs - ?R else hs' = hs"
      using Cons.IH [OF tail(1,2)] by blast
    have eq: "?R \<subseteq> covered (h # hs) \<longleftrightarrow> ?R \<subseteq> covered hs" using inn lt by auto
    have "{lo h..<hi h} - ?R = {lo h..<hi h}" if r
    proof -
      have "unat offset + unat sz - 1 \<in> covered hs" using that r(2) s by auto
      then show ?thesis using holes_ok_less [OF tail(1), of "unat offset + unat sz - 1"] by auto
    qed
    then show ?thesis using True r Cons.prems(1) eq by (cases r) (auto simp del: covered_simps(2) simp add: covered_simps(2) [of h hs'] covered_simps(2) [of h hs])
  next
    case False
    then have le: "hole_offset h \<le> offset" and ge: "lo h \<le> unat offset" by (simp_all add: word_le_nat_alt not_less)
    have sum: "unat (offset - hole_offset h + sz) = unat offset - lo h + unat sz"
      using unat_sub64 [OF le] assms(4) tail(3) ge by (simp add: unat_word_ariths(1))
    have cmp: "hole_size h < offset - hole_offset h + sz \<longleftrightarrow> hi h < unat offset + unat sz"
      using sum ge by (auto simp: word_less_nat_alt)
    have not_low: "\<not> ?R \<subseteq> covered hs" using holes_ok_less [OF tail(1), of "unat offset"] ge s by force
    show ?thesis
    proof (cases "hi h < unat offset + unat sz")
      case True
      then show ?thesis using False cmp inn not_low by (auto simp del: covered_simps)
    next
      case fit: False
      obtain new where "util_vma_hole_alloc True h offset sz = Some new" "holes_ok l (new @ hs)" "covered (new @ hs) = covered (h # hs) - ?R"
        using hole_alloc_ok [OF Cons.prems assms(3) ge] fit by auto
      then show ?thesis using False fit cmp inn ge by (auto simp del: covered_simps)
    qed
  qed
qed

lemma heap_alloc_addr_spec:
  assumes "heap_ok heap" "0 < offset" "0 < sz" "unat offset + unat sz \<le> 2 ^ 64"
  shows "\<exists>r heap'. util_vma_heap_alloc_addr True heap offset sz = Some (r, heap') \<and>
    (r \<longleftrightarrow> {unat offset..<unat offset + unat sz} \<subseteq> free_set heap) \<and>
    (if r then heap_ok heap' \<and> free_set heap' = free_set heap - {unat offset..<unat offset + unat sz} else heap' = heap)"
proof -
  have ok: "holes_ok (2 ^ 64 + 1) (holes heap)" using assms(1) by (simp add: heap_ok_def)
  have e: "offset + sz = 0 \<or> offset + sz > offset" using range_end(1,2) [OF assms(3), of offset] assms(4) by auto
  obtain r hs where "alloc_addr_loop True offset sz (holes heap) = Some (r, hs)"
    "r \<longleftrightarrow> {unat offset..<unat offset + unat sz} \<subseteq> free_set heap"
    "if r then holes_ok (2 ^ 64 + 1) hs \<and> covered hs = free_set heap - {unat offset..<unat offset + unat sz} else hs = holes heap"
    using alloc_addr_loop_spec [OF ok order_refl assms(3,4)] by blast
  then show ?thesis using assms(2,3) e by (cases r) (auto simp: util_vma_heap_alloc_addr_def heap_ok_def)
qed

section \<open>Freeing\<close>

lemma find_holes_split:
  "find_holes offset higher hs =
     (higher @ takeWhile (\<lambda>h. offset < hole_offset h) hs, dropWhile (\<lambda>h. offset < hole_offset h) hs)"
  by (induction hs arbitrary: higher) (auto simp: not_less)

lemma holes_ok_append:
  "holes_ok l (xs @ ys) \<longleftrightarrow> holes_ok l xs \<and> holes_ok (if xs = [] then l else lo (last xs)) ys"
  by (induction xs arbitrary: l) auto

lemma holes_ok_snoc: "holes_ok l (xs @ [h]) \<Longrightarrow> h' \<in> set xs \<Longrightarrow> hi h < lo h'"
proof (induction xs arbitrary: l)
  case (Cons x xs)
  have tail: "holes_ok (lo x) (xs @ [h])" using Cons.prems(1) by simp
  then have h: "lo h < hi h" by (simp add: holes_ok_append)
  then have "hi h - 1 \<in> covered (xs @ [h])" by auto
  then have "hi h < lo x" using holes_ok_less [OF tail] h by fastforce
  then show ?case using Cons.IH [OF tail] Cons.prems(2) by auto
qed simp

text \<open>The overlaps that the assertions have to find: with the hole just above and with the one at or below the offset.\<close>

lemma disjoint_holes:
  assumes "holes_ok l (higher @ lower)" "\<forall>h \<in> set higher. a < lo h" "lower \<noteq> [] \<longrightarrow> lo (hd lower) \<le> a" "0 < s"
  shows "{a..<a + s} \<inter> covered (higher @ lower) = {} \<longleftrightarrow>
    (higher \<noteq> [] \<longrightarrow> a + s \<le> lo (last higher)) \<and> (lower \<noteq> [] \<longrightarrow> hi (hd lower) \<le> a)"
proof -
  have "{a..<a + s} \<inter> covered higher = {} \<longleftrightarrow> (higher \<noteq> [] \<longrightarrow> a + s \<le> lo (last higher))"
  proof (cases higher rule: rev_cases)
    case (snoc xs h)
    have ok: "holes_ok l (xs @ [h])" using assms(1) snoc by (simp add: holes_ok_append)
    then have h: "lo h < hi h" by (simp add: holes_ok_append)
    have above: "hi h < x" if "x \<in> covered xs" for x
      using holes_ok_snoc [OF ok] that by (fastforce simp: covered_def)
    have lt: "a < lo h" using assms(2) snoc by simp
    have mem: "lo h \<in> covered higher" using snoc h by simp
    have ge: "lo h \<le> x" if "x \<in> covered higher" for x using that above h snoc by fastforce
    have "{a..<a + s} \<inter> covered higher = {} \<longleftrightarrow> a + s \<le> lo h"
    proof
      assume "{a..<a + s} \<inter> covered higher = {}"
      then have "lo h \<notin> {a..<a + s}" using mem by blast
      then show "a + s \<le> lo h" using lt by simp
    qed (use ge in fastforce)
    then show ?thesis using snoc by (simp del: covered_simps)
  qed simp
  moreover have "{a..<a + s} \<inter> covered lower = {} \<longleftrightarrow> (lower \<noteq> [] \<longrightarrow> hi (hd lower) \<le> a)"
  proof (cases lower)
    case (Cons h hs)
    have ok: "holes_ok (lo h) hs" "lo h \<le> a" using assms(1,3) Cons by (auto simp: holes_ok_append)
    have "x < a" if "x \<in> covered hs" for x using holes_ok_less [OF ok(1) that] ok(2) by simp
    moreover have "a \<in> covered lower" if "a < hi h" using that ok(2) Cons by simp
    ultimately show ?thesis using assms(4) Cons by (fastforce simp: disjoint_iff not_less)
  qed simp
  ultimately show ?thesis by auto
qed

text \<open>The list of holes after a range was given back.\<close>

definition merged :: "util_vma_hole list \<Rightarrow> util_vma_hole list \<Rightarrow> u64 \<Rightarrow> u64 \<Rightarrow> util_vma_hole list" where
  "merged higher lower offset sz =
     (let high_adjacent = (higher \<noteq> [] \<and> unat offset + unat sz = lo (last higher));
          low_adjacent = (lower \<noteq> [] \<and> hi (hd lower) = unat offset)
      in if low_adjacent \<and> high_adjacent
         then butlast higher @ (hd lower)\<lparr>hole_size := hole_size (hd lower) + (sz + hole_size (last higher))\<rparr> # tl lower
         else if low_adjacent then higher @ (hd lower)\<lparr>hole_size := hole_size (hd lower) + sz\<rparr> # tl lower
         else if high_adjacent
         then butlast higher @ (last higher)\<lparr>hole_offset := offset, hole_size := hole_size (last higher) + sz\<rparr> # lower
         else higher @ \<lparr>hole_offset = offset, hole_size = sz\<rparr> # lower)"

lemma unat_add64: "unat (a :: u64) + unat b < 2 ^ 64 \<Longrightarrow> unat (a + b) = unat a + unat b"
  by (simp add: unat_word_ariths(1))

lemma merged_ok:
  assumes wf: "holes_ok (2 ^ 64 + 1) (higher @ lower)" and s: "0 < unat sz" and o: "0 < unat offset"
    and en: "unat offset + unat sz \<le> 2 ^ 64"
    and top: "higher \<noteq> [] \<longrightarrow> unat offset + unat sz \<le> lo (last higher)" and bot: "lower \<noteq> [] \<longrightarrow> hi (hd lower) \<le> unat offset"
  shows "holes_ok (2 ^ 64 + 1) (merged higher lower offset sz) \<and>
    covered (merged higher lower offset sz) = covered (higher @ lower) \<union> {unat offset..<unat offset + unat sz}"
proof -
  let ?hadj = "higher \<noteq> [] \<and> unat offset + unat sz = lo (last higher)" and ?ladj = "lower \<noteq> [] \<and> hi (hd lower) = unat offset"
  have low: "lower = hd lower # tl lower" if ?ladj using that by simp
  have high: "higher = butlast higher @ [last higher]" if ?hadj using that by simp
  consider "?ladj" "?hadj" | "?ladj" "\<not> ?hadj" | "\<not> ?ladj" "?hadj" | "\<not> ?ladj" "\<not> ?hadj" by blast
  then show ?thesis
  proof cases
    case 1
    obtain xs h l ls where e: "higher = xs @ [h]" "lower = l # ls" using low high 1 by metis
    have k: "unat offset + unat sz = lo h" "hi l = unat offset" using 1 e by simp_all
    have w: "holes_ok (2 ^ 64 + 1) xs" "hi h < (if xs = [] then 2 ^ 64 + 1 else lo (last xs))" "lo h < hi h" "0 < lo l" "lo l < hi l" "holes_ok (lo l) ls"
      using wf e by (auto simp: holes_ok_append)
    have hb: "hi h \<le> 2 ^ 64" using w(2) unat_u64_less [of "hole_offset (last xs)"] by (auto split: if_splits)
    have "unat (sz + hole_size h) = unat sz + unat (hole_size h)" using k o hb by (intro unat_add64) linarith
    moreover from this have "unat (hole_size l + (sz + hole_size h)) = unat (hole_size l) + (unat sz + unat (hole_size h))"
      using k w(4) hb unat_add64 [of "hole_size l" "sz + hole_size h"] by linarith
    ultimately show ?thesis using 1 w k e s unfolding merged_def by (auto simp: holes_ok_append)
  next
    case 2
    obtain l ls where e: "lower = l # ls" using low 2 by metis
    have k: "hi l = unat offset" using 2 e by simp
    have w: "holes_ok (2 ^ 64 + 1) higher" "0 < lo l" "lo l < hi l" "holes_ok (lo l) ls" using wf e by (auto simp: holes_ok_append)
    have "unat (hole_size l + sz) = unat (hole_size l) + unat sz" using k w(2) en by (intro unat_add64) linarith
    then show ?thesis using 2 w k e s en top unfolding merged_def by (auto simp: holes_ok_append)
  next
    case 3
    obtain xs h where e: "higher = xs @ [h]" using high 3 by metis
    have k: "unat offset + unat sz = lo h" using 3 e by simp
    have w: "holes_ok (2 ^ 64 + 1) xs" "hi h < (if xs = [] then 2 ^ 64 + 1 else lo (last xs))" "lo h < hi h" "holes_ok (lo h) lower"
      using wf e by (auto simp: holes_ok_append)
    have hb: "hi h \<le> 2 ^ 64" using w(2) unat_u64_less [of "hole_offset (last xs)"] by (auto split: if_splits)
    have "unat (hole_size h + sz) = unat (hole_size h) + unat sz" using k o hb by (intro unat_add64) linarith
    moreover have "holes_ok (unat offset) lower" using w(4) bot 3 by (cases lower) auto
    ultimately show ?thesis using 3 w k e s o unfolding merged_def by (auto simp: holes_ok_append)
  next
    case 4
    have w: "holes_ok (2 ^ 64 + 1) higher" using wf by (simp add: holes_ok_append)
    have "holes_ok (unat offset) lower" using wf bot 4 by (cases lower) (auto simp: holes_ok_append)
    then show ?thesis using 4 w s o en top unfolding merged_def by (auto simp: holes_ok_append)
  qed
qed

lemma free_at:
  assumes hp: "holes heap = higher @ lower" and ok: "heap_ok heap" and sp: "0 < sz" and op: "0 < offset"
    and en: "unat offset + unat sz \<le> 2 ^ 64"
    and hg: "\<forall>h \<in> set higher. unat offset < lo h" and lw: "lower \<noteq> [] \<longrightarrow> lo (hd lower) \<le> unat offset"
    and top: "higher \<noteq> [] \<longrightarrow> unat offset + unat sz \<le> lo (last higher)" and bot: "lower \<noteq> [] \<longrightarrow> hi (hd lower) \<le> unat offset"
  shows "\<exists>hs. util_vma_heap_free True heap offset sz = Some (heap\<lparr>holes := hs\<rparr>) \<and> heap_ok (heap\<lparr>holes := hs\<rparr>) \<and>
    covered hs = free_set heap \<union> {unat offset..<unat offset + unat sz}"
proof -
  have s: "0 < unat sz" and o: "0 < unat offset" using sp op by (simp_all add: word_pos)
  note e = range_end [OF sp, of offset]
  have val: "util_vma_heap_validate heap = Some ()" using ok validate_iff by blast
  have "takeWhile (\<lambda>h. offset < hole_offset h) (higher @ lower) = higher" "dropWhile (\<lambda>h. offset < hole_offset h) (higher @ lower) = lower"
    using hg lw by (cases lower; simp add: takeWhile_append2 dropWhile_append2 word_less_nat_alt takeWhile_eq_all_conv)+
  then have f: "find_holes offset [] (holes heap) = (higher, lower)" by (simp add: find_holes_split hp)
  have wf: "holes_ok (2 ^ 64 + 1) (higher @ lower)" using ok hp by (simp add: heap_ok_def)
  have no_wrap: "unat (offset + sz) = unat offset + unat sz" if "higher \<noteq> []"
    using that top unat_u64_less [of "hole_offset (last higher)"] by (intro e(3)) simp
  have low_end: "unat (hole_offset (hd lower) + hole_size (hd lower)) = hi (hd lower)"
    "hole_offset (hd lower) + hole_size (hd lower) > hole_offset (hd lower)" if "lower \<noteq> []"
  proof -
    have "0 < hole_size (hd lower)" using wf that by (cases lower) (auto simp: holes_ok_append word_pos)
    then show "unat (hole_offset (hd lower) + hole_size (hd lower)) = hi (hd lower)"
      "hole_offset (hd lower) + hole_size (hd lower) > hole_offset (hd lower)"
      using range_end [of "hole_size (hd lower)" "hole_offset (hd lower)"] that bot unat_u64_less [of offset] by simp_all
  qed
  let ?hadj = "higher \<noteq> [] \<and> unat offset + unat sz = lo (last higher)" and ?ladj = "lower \<noteq> [] \<and> hi (hd lower) = unat offset"
  have adj: "(higher \<noteq> [] \<and> offset + sz = hole_offset (last higher)) = ?hadj"
    "(lower \<noteq> [] \<and> hole_offset (hd lower) + hole_size (hd lower) = offset) = ?ladj"
    using no_wrap low_end by (auto simp: word_unat_eq_iff)
  have asserts: "higher \<noteq> [] \<longrightarrow> offset + sz \<le> hole_offset (last higher)"
    "lower \<noteq> [] \<longrightarrow> hole_offset (hd lower) + hole_size (hd lower) \<le> offset"
    using no_wrap low_end top bot by (auto simp: word_le_nat_alt)
  have ends: "offset + sz = 0 \<or> offset + sz > offset" using e(1,2) en by auto
  let ?hs = "merged higher lower offset sz"
  have run: "util_vma_heap_free True heap offset sz = do {
      util_vma_heap_validate (heap\<lparr>holes := ?hs\<rparr>); Some (heap\<lparr>holes := ?hs\<rparr>) }"
    unfolding util_vma_heap_free_def f prod.case Let_def adj merged_def
    using sp op ends val asserts low_end(2) by (simp del: not_gr_zero)
  show ?thesis using run merged_ok [OF wf s o en top bot] validate_iff [of "heap\<lparr>holes := ?hs\<rparr>"] hp
    by (intro exI [of _ ?hs]) (simp add: heap_ok_def del: covered_simps)
qed

lemma takeWhile_above:
  fixes offset :: u64
  shows "\<forall>h \<in> set (takeWhile (\<lambda>h. offset < hole_offset h) hs). unat offset < lo h"
    "dropWhile (\<lambda>h. offset < hole_offset h) hs \<noteq> [] \<longrightarrow> lo (hd (dropWhile (\<lambda>h. offset < hole_offset h) hs)) \<le> unat offset"
  using hd_dropWhile [of "\<lambda>h. offset < hole_offset h" hs]
  by (auto simp: word_less_nat_alt not_less dest: set_takeWhileD)

text \<open>Freeing succeeds exactly when nothing of the range is free already.\<close>

lemma heap_free_spec:
  assumes ok: "heap_ok heap" and op: "0 < offset" and sp: "0 < sz" and en: "unat offset + unat sz \<le> 2 ^ 64"
  shows "if {unat offset..<unat offset + unat sz} \<inter> free_set heap = {}
    then \<exists>heap'. util_vma_heap_free True heap offset sz = Some heap' \<and> heap_ok heap' \<and> alloc_high heap' = alloc_high heap \<and>
      free_set heap' = free_set heap \<union> {unat offset..<unat offset + unat sz}
    else util_vma_heap_free True heap offset sz = None"
proof -
  let ?P = "\<lambda>h. offset < hole_offset h"
  define higher lower where hl: "higher = takeWhile ?P (holes heap)" "lower = dropWhile ?P (holes heap)"
  have hp: "holes heap = higher @ lower" and f: "find_holes offset [] (holes heap) = (higher, lower)"
    by (simp_all add: hl find_holes_split)
  note tw = takeWhile_above [of offset "holes heap", folded hl]
  have s: "0 < unat sz" using sp by (simp add: word_pos)
  have wf: "holes_ok (2 ^ 64 + 1) (higher @ lower)" using ok hp by (simp add: heap_ok_def)
  note dj = disjoint_holes [OF wf tw s, folded hp]
  show ?thesis
  proof (cases "{unat offset..<unat offset + unat sz} \<inter> free_set heap = {}")
    case True
    then have "higher \<noteq> [] \<longrightarrow> unat offset + unat sz \<le> lo (last higher)" "lower \<noteq> [] \<longrightarrow> hi (hd lower) \<le> unat offset"
      using dj by blast+
    from free_at [OF hp ok sp op en tw this] show ?thesis using True by auto
  next
    case False
    have "util_vma_heap_free True heap offset sz = None"
    proof (rule ccontr)
      assume "util_vma_heap_free True heap offset sz \<noteq> None"
      then obtain heap' where run: "util_vma_heap_free True heap offset sz = Some heap'" by blast
      let ?e = "hole_offset (hd lower) + hole_size (hd lower)"
      have a: "higher \<noteq> [] \<longrightarrow> offset + sz \<le> hole_offset (last higher)" "lower \<noteq> [] \<longrightarrow> ?e > hole_offset (hd lower)"
        "lower \<noteq> [] \<longrightarrow> ?e \<le> offset" "heap_ok heap'"
        using run validate_iff unfolding util_vma_heap_free_def f by (auto simp: bind_eq_Some Let_def)
      have low: "lower \<noteq> [] \<longrightarrow> hi (hd lower) \<le> unat offset"
      proof
        assume l: "lower \<noteq> []"
        then have "0 < hole_size (hd lower)" using wf by (cases lower) (auto simp: holes_ok_append word_pos)
        then show "hi (hd lower) \<le> unat offset"
          using range_end [of "hole_size (hd lower)" "hole_offset (hd lower)"] a(2,3) l by (simp add: word_le_nat_alt)
      qed
      then have h: "higher \<noteq> []" "lo (last higher) < unat offset + unat sz" using False dj by auto
      then have full: "unat offset + unat sz = 2 ^ 64" using a(1) range_end(3) [OF sp, of offset] en by (fastforce simp: word_le_nat_alt)
      then have z: "offset + sz = 0" using range_end(2) [OF sp] by blast
      have "0 < lo (last higher)" using wf h(1) by (cases higher rule: rev_cases) (auto simp: holes_ok_append)
      then have nadj: "\<not> (higher \<noteq> [] \<and> offset + sz = hole_offset (last higher))" using z by auto
      have "\<exists>x xs. holes heap' = higher @ x # xs \<and> 2 ^ 64 \<le> hi x"
      proof (cases "lower \<noteq> [] \<and> ?e = offset")
        case True
        have k: "0 < lo (hd lower)" "0 < hole_size (hd lower)" using wf True by (cases lower; auto simp: holes_ok_append word_pos)+
        have "hi (hd lower) = unat offset" using range_end(1,3) [OF k(2), of "hole_offset (hd lower)"] a(2) True by simp
        then have "2 ^ 64 \<le> lo (hd lower) + unat (hole_size (hd lower) + sz)"
          using full k(1) unat_add64 [of "hole_size (hd lower)" sz] by simp
        moreover have "holes heap' = higher @ (hd lower)\<lparr>hole_size := hole_size (hd lower) + sz\<rparr> # tl lower"
          using run True nadj unfolding util_vma_heap_free_def f by (auto simp: bind_eq_Some Let_def)
        ultimately show ?thesis
          by (intro exI [of _ "(hd lower)\<lparr>hole_size := hole_size (hd lower) + sz\<rparr>"] exI [of _ "tl lower"]) simp
      next
        case False
        then have "holes heap' = higher @ \<lparr>hole_offset = offset, hole_size = sz\<rparr> # lower"
          using run nadj unfolding util_vma_heap_free_def f by (auto simp: bind_eq_Some Let_def)
        then show ?thesis
          using full by (intro exI [of _ "\<lparr>hole_offset = offset, hole_size = sz\<rparr>"] exI [of _ lower]) simp
      qed
      then show False using a(4) h(1) unat_u64_less [of "hole_offset (last higher)"] by (auto simp: heap_ok_def holes_ok_append)
    qed
    then show ?thesis using False by simp
  qed
qed

section \<open>The contract of an address allocator\<close>

text \<open>A client keeps a list of the ranges it holds; requests that fail are dropped.\<close>

fun allocate_all :: "('h \<Rightarrow> u64 \<Rightarrow> u64 \<Rightarrow> (u64 \<times> 'h) option) \<Rightarrow> 'h \<Rightarrow> (u64 \<times> u64) list \<Rightarrow> ((u64 \<times> u64) list \<times> 'h) option" where
  "allocate_all allocate h [] = Some ([], h)"
| "allocate_all allocate h ((sz, al) # reqs) = do {
     (p, h) \<leftarrow> allocate h sz al;
     (live, h) \<leftarrow> allocate_all allocate h reqs;
     Some (if p = 0 then live else (p, sz) # live, h) }"

fun release_all :: "('h \<Rightarrow> u64 \<Rightarrow> u64 \<Rightarrow> 'h option) \<Rightarrow> 'h \<Rightarrow> (u64 \<times> u64) list \<Rightarrow> 'h option" where
  "release_all release h [] = Some h"
| "release_all release h ((p, sz) # live) = do { h \<leftarrow> release h p sz; release_all release h live }"

definition addrs :: "(u64 \<times> u64) list \<Rightarrow> nat set" where
  "addrs live = (\<Union>(p, sz) \<in> set live. {unat p..<unat p + unat sz})"

fun separate :: "(u64 \<times> u64) list \<Rightarrow> bool" where
  "separate [] \<longleftrightarrow> True"
| "separate ((p, sz) # live) \<longleftrightarrow> 0 < p \<and> 0 < sz \<and> unat p + unat sz \<le> 2 ^ 64 \<and>
     {unat p..<unat p + unat sz} \<inter> addrs live = {} \<and> separate live"

lemma addrs_simps [simp]: "addrs [] = {}" "addrs ((p, sz) # live) = {unat p..<unat p + unat sz} \<union> addrs live"
  by (auto simp: addrs_def)

text \<open>
  What a client of an address allocator relies on: an allocation comes out of the free addresses and nothing else changes, and
  giving back what is not free adds exactly that range. From this alone, ranges that are live at the same time are
  disjoint and giving everything back restores the free addresses.
\<close>

locale address_allocator =
  fixes valid :: "'h \<Rightarrow> bool" and free_addrs :: "'h \<Rightarrow> nat set"
    and allocate :: "'h \<Rightarrow> u64 \<Rightarrow> u64 \<Rightarrow> (u64 \<times> 'h) option" and release :: "'h \<Rightarrow> u64 \<Rightarrow> u64 \<Rightarrow> 'h option"
  assumes allocate_takes: "valid h \<Longrightarrow> 0 < sz \<Longrightarrow> 0 < al \<Longrightarrow> \<exists>p h'. allocate h sz al = Some (p, h') \<and>
      (p = 0 \<longrightarrow> h' = h) \<and>
      (p \<noteq> 0 \<longrightarrow> valid h' \<and> unat al dvd unat p \<and> unat p + unat sz \<le> 2 ^ 64 \<and> {unat p..<unat p + unat sz} \<subseteq> free_addrs h \<and>
        free_addrs h' = free_addrs h - {unat p..<unat p + unat sz})"
    and release_gives: "valid h \<Longrightarrow> 0 < p \<Longrightarrow> 0 < sz \<Longrightarrow> unat p + unat sz \<le> 2 ^ 64 \<Longrightarrow>
      {unat p..<unat p + unat sz} \<inter> free_addrs h = {} \<Longrightarrow> \<exists>h'. release h p sz = Some h' \<and> valid h' \<and>
        free_addrs h' = free_addrs h \<union> {unat p..<unat p + unat sz}"
begin

lemma allocate_all_separate:
  assumes "valid h" "list_all (\<lambda>(sz, al). 0 < sz \<and> 0 < al) reqs"
  shows "\<exists>live h'. allocate_all allocate h reqs = Some (live, h') \<and> valid h' \<and> separate live \<and> addrs live \<subseteq> free_addrs h \<and>
    free_addrs h' = free_addrs h - addrs live"
  using assms
proof (induction reqs arbitrary: h)
  case (Cons r reqs)
  obtain sz al where r: "r = (sz, al)" "0 < sz" "0 < al" using Cons.prems(2) by (cases r) auto
  obtain p h1 where a: "allocate h sz al = Some (p, h1)" "p = 0 \<longrightarrow> h1 = h"
    "p \<noteq> 0 \<longrightarrow> valid h1 \<and> unat p + unat sz \<le> 2 ^ 64 \<and> {unat p..<unat p + unat sz} \<subseteq> free_addrs h \<and>
      free_addrs h1 = free_addrs h - {unat p..<unat p + unat sz}"
    using allocate_takes [OF Cons.prems(1) r(2,3)] by blast
  have v: "valid h1" using a Cons.prems(1) by (cases "p = 0") auto
  obtain live h2 where l: "allocate_all allocate h1 reqs = Some (live, h2)" "valid h2" "separate live" "addrs live \<subseteq> free_addrs h1"
    "free_addrs h2 = free_addrs h1 - addrs live"
    using Cons.IH [OF v] Cons.prems(2) by auto
  have pos: "0 < p" if "p \<noteq> 0" using that by (simp add: word_neq_0_conv)
  show ?case using a l r pos by (cases "p = 0") (auto simp: word_neq_0_conv)
qed simp

lemma release_all_restores:
  assumes "valid h" "separate live" "addrs live \<inter> free_addrs h = {}"
  shows "\<exists>h'. release_all release h live = Some h' \<and> valid h' \<and> free_addrs h' = free_addrs h \<union> addrs live"
  using assms
proof (induction live arbitrary: h)
  case (Cons x live)
  obtain p sz where x: "x = (p, sz)" by (cases x)
  have pre: "0 < p" "0 < sz" "unat p + unat sz \<le> 2 ^ 64" "{unat p..<unat p + unat sz} \<inter> free_addrs h = {}"
    using Cons.prems x by auto
  obtain h1 where h1: "release h p sz = Some h1" "valid h1" "free_addrs h1 = free_addrs h \<union> {unat p..<unat p + unat sz}"
    using release_gives [OF Cons.prems(1) pre] by blast
  have "addrs live \<inter> free_addrs h1 = {}" using Cons.prems x h1(3) by auto
  then obtain h2 where "release_all release h1 live = Some h2" "valid h2" "free_addrs h2 = free_addrs h1 \<union> addrs live"
    using Cons.IH [OF h1(2)] Cons.prems(2) x by auto
  then show ?case using x h1 by auto
qed simp

text \<open>All requests served, the ranges are separate, and returning them in any order that keeps them separate restores the heap.\<close>

lemma allocate_then_release:
  assumes "valid h" "list_all (\<lambda>(sz, al). 0 < sz \<and> 0 < al) reqs"
  shows "\<exists>live h1 h2. allocate_all allocate h reqs = Some (live, h1) \<and> separate live \<and> addrs live \<subseteq> free_addrs h \<and>
    release_all release h1 live = Some h2 \<and> valid h2 \<and> free_addrs h2 = free_addrs h"
proof -
  obtain live h1 where a: "allocate_all allocate h reqs = Some (live, h1)" "valid h1" "separate live" "addrs live \<subseteq> free_addrs h"
    "free_addrs h1 = free_addrs h - addrs live"
    using allocate_all_separate [OF assms] by blast
  have "addrs live \<inter> free_addrs h1 = {}" using a(5) by auto
  then obtain h2 where "release_all release h1 live = Some h2" "valid h2" "free_addrs h2 = free_addrs h1 \<union> addrs live"
    using release_all_restores [OF a(2,3)] by blast
  then show ?thesis using a by (intro exI [of _ live] exI [of _ h1] exI [of _ h2]) auto
qed

end

interpretation vma: address_allocator heap_ok free_set "util_vma_heap_alloc True" "util_vma_heap_free True"
proof
  fix h :: util_vma_heap and sz al :: u64
  assume h: "heap_ok h" "0 < sz" "0 < al"
  have ok: "holes_ok (2 ^ 64 + 1) (holes h)" and s: "0 < unat sz" using h by (simp_all add: heap_ok_def word_pos)
  obtain p h' where p: "util_vma_heap_alloc True h sz al = Some (p, h')"
    "if p = 0 then h' = h \<and> (\<forall>a. \<not> fits (free_set h) (unat sz) (unat al) a)
     else heap_ok h' \<and> alloc_high h' = alloc_high h \<and> fits (free_set h) (unat sz) (unat al) (unat p) \<and>
       (\<forall>a. fits (free_set h) (unat sz) (unat al) a \<longrightarrow> (if alloc_high h then a \<le> unat p else unat p \<le> a)) \<and>
       free_set h' = free_set h - {unat p..<unat p + unat sz}"
    using heap_alloc_spec [OF h] by blast
  have "unat p + unat sz \<le> 2 ^ 64" if "p \<noteq> 0" using fits_below(2) [OF ok s] p(2) that by fastforce
  then show "\<exists>p h'. util_vma_heap_alloc True h sz al = Some (p, h') \<and> (p = 0 \<longrightarrow> h' = h) \<and>
      (p \<noteq> 0 \<longrightarrow> heap_ok h' \<and> unat al dvd unat p \<and> unat p + unat sz \<le> 2 ^ 64 \<and> {unat p..<unat p + unat sz} \<subseteq> free_set h \<and>
        free_set h' = free_set h - {unat p..<unat p + unat sz})"
    using p by (intro exI [of _ p] exI [of _ h']) (auto simp: fits_def split: if_splits)
next
  fix h :: util_vma_heap and p sz :: u64
  assume "heap_ok h" "0 < p" "0 < sz" "unat p + unat sz \<le> 2 ^ 64" "{unat p..<unat p + unat sz} \<inter> free_set h = {}"
  then show "\<exists>h'. util_vma_heap_free True h p sz = Some h' \<and> heap_ok h' \<and> free_set h' = free_set h \<union> {unat p..<unat p + unat sz}"
    using heap_free_spec [of h p sz] by auto
qed

end
