(* ===== verification/Bitset.thy ===== *)
theory Bitset
  imports Prelude
begin

text \<open>
  The bit sets of \<^verbatim>\<open>bitset.h\<close>: arrays of 32-bit words. An access outside the array is undefined and gives \<open>None\<close>. The set
  that an array stands for is \<open>ids\<close>. Indices are natural numbers; the iteration over the set bits follows
  \<^verbatim>\<open>__bitset_next_set\<close>, which keeps the rest of the current word.
\<close>

section \<open>Operations\<close>

definition BITSET_WORDS :: "nat \<Rightarrow> nat" where
  "BITSET_WORDS bits = (bits + 31) div 32"

definition BITSET_BIT :: "nat \<Rightarrow> u32" where
  "BITSET_BIT b = push_bit (b mod 32) 1"

definition BITSET_TEST :: "u32 list \<Rightarrow> nat \<Rightarrow> bool option" where
  "BITSET_TEST x b = do { w \<leftarrow> array_get x (b div 32); Some (w AND BITSET_BIT b \<noteq> 0) }"

definition BITSET_SET :: "u32 list \<Rightarrow> nat \<Rightarrow> u32 list option" where
  "BITSET_SET x b = do { w \<leftarrow> array_get x (b div 32); array_set x (b div 32) (w OR BITSET_BIT b) }"

definition BITSET_CLEAR :: "u32 list \<Rightarrow> nat \<Rightarrow> u32 list option" where
  "BITSET_CLEAR x b = do { w \<leftarrow> array_get x (b div 32); array_set x (b div 32) (w AND NOT (BITSET_BIT b)) }"

text \<open>Position of the lowest set bit, counted from one; zero without one.\<close>

definition ffs :: "u32 \<Rightarrow> nat" where
  "ffs x = (case find (bit x) [0..<32] of None \<Rightarrow> 0 | Some i \<Rightarrow> i + 1)"

text \<open>The loop of \<^verbatim>\<open>__bitset_next_set\<close> gives the first word from \<open>wd\<close> on that is not zero, with the current one in \<open>tmp\<close>.\<close>

function next_word :: "nat \<Rightarrow> u32 \<Rightarrow> u32 list \<Rightarrow> nat \<Rightarrow> (nat \<times> u32) option option" where
  "next_word wd tmp xs sz =
     (if tmp \<noteq> 0 then Some (Some (wd, tmp))
      else if wd + 1 \<ge> BITSET_WORDS sz then Some None
      else case array_get xs (wd + 1) of None \<Rightarrow> None | Some t \<Rightarrow> next_word (wd + 1) t xs sz)"
  by pat_completeness auto
termination
  by (relation "measure (\<lambda>(wd, tmp, xs, sz). BITSET_WORDS sz - wd)") auto

declare next_word.simps [simp del]

definition bitset_next_set :: "nat \<Rightarrow> u32 \<Rightarrow> u32 list \<Rightarrow> nat \<Rightarrow> (nat \<times> u32) option" where
  "bitset_next_set i tmp xs sz = do {
     r \<leftarrow> next_word (i div 32) tmp xs sz;
     Some (case r of
       None \<Rightarrow> (sz, 0)
     | Some (wd, tmp) \<Rightarrow> let b = ffs tmp - 1 in (wd * 32 + b, tmp AND NOT (push_bit b 1))) }"

text \<open>The values of the loop variable; each is larger than the one before, so one step per bit is enough fuel.\<close>

fun foreach_loop :: "nat \<Rightarrow> nat \<Rightarrow> u32 \<Rightarrow> u32 list \<Rightarrow> nat \<Rightarrow> nat list option" where
  "foreach_loop 0 i tmp xs sz = None"
| "foreach_loop (Suc fuel) i tmp xs sz = do {
     (i, tmp) \<leftarrow> bitset_next_set i tmp xs sz;
     if i < sz then do { rest \<leftarrow> foreach_loop fuel i tmp xs sz; Some (i # rest) } else Some [] }"

definition BITSET_FOREACH_SET :: "u32 list \<Rightarrow> nat \<Rightarrow> nat list option" where
  "BITSET_FOREACH_SET xs sz =
     (if sz = 0 then foreach_loop 1 0 0 xs sz
      else do { w \<leftarrow> array_get xs 0; foreach_loop (sz + 1) 0 w xs sz })"

section \<open>The set of an array\<close>

definition ids :: "u32 list \<Rightarrow> nat set" where
  "ids d = {n. n div 32 < length d \<and> bit (d ! (n div 32)) (n mod 32)}"

lemma ids_append_zero: "ids (d @ replicate k 0) = ids d"
proof (rule set_eqI)
  fix n
  show "n \<in> ids (d @ replicate k 0) \<longleftrightarrow> n \<in> ids d"
    by (cases "n div 32 < length d") (simp_all add: ids_def nth_append less_diff_conv2)
qed

lemma id_parts: "b < 32 \<Longrightarrow> n = i * 32 + b \<longleftrightarrow> n div 32 = i \<and> n mod 32 = (b :: nat)"
  using div_mult_mod_eq [of n 32] by auto

lemma ids_update:
  assumes "i < length d"
  shows "n \<in> ids (d[i := w]) \<longleftrightarrow> (if n div 32 = i then bit w (n mod 32) else n \<in> ids d)"
  using assms by (auto simp: ids_def nth_list_update)

lemma ids_set_bit:
  assumes "i < length d" "b < 32"
  shows "ids (d[i := d ! i OR push_bit b 1]) = insert (i * 32 + b) (ids d)"
proof (rule set_eqI)
  fix n
  have "n = i * 32 + b \<longleftrightarrow> n div 32 = i \<and> n mod 32 = b" using assms(2) by (rule id_parts)
  moreover have "bit (push_bit b 1 :: u32) (n mod 32) \<longleftrightarrow> n mod 32 = b" using assms(2) by (auto simp: bit_simps)
  ultimately show "n \<in> ids (d[i := d ! i OR push_bit b 1]) \<longleftrightarrow> n \<in> insert (i * 32 + b) (ids d)"
    using ids_update [OF assms(1)] assms(1) by (auto simp: bit_or_iff ids_def)
qed

lemma ids_clear_bit:
  assumes "i < length d" "b < 32"
  shows "ids (d[i := d ! i AND NOT (push_bit b 1)]) = ids d - {i * 32 + b}"
proof (rule set_eqI)
  fix n
  have "n = i * 32 + b \<longleftrightarrow> n div 32 = i \<and> n mod 32 = b" using assms(2) by (rule id_parts)
  moreover have "bit (push_bit b 1 :: u32) (n mod 32) \<longleftrightarrow> n mod 32 = b" using assms(2) by (auto simp: bit_simps)
  ultimately show "n \<in> ids (d[i := d ! i AND NOT (push_bit b 1)]) \<longleftrightarrow> n \<in> ids d - {i * 32 + b}"
    using ids_update [OF assms(1)] assms(1) by (auto simp: bit_and_iff bit_not_iff ids_def)
qed

lemma and_bit_iff: "b < 32 \<Longrightarrow> w AND push_bit b 1 \<noteq> 0 \<longleftrightarrow> bit w b" for w :: u32
proof -
  assume b: "b < 32"
  have "w AND push_bit b 1 = (if bit w b then push_bit b 1 else 0)" by (rule bit_word_eqI) (auto simp: bit_simps)
  moreover have "push_bit b (1 :: u32) \<noteq> 0" using b by (simp add: push_bit_eq_mult)
  ultimately show ?thesis by simp
qed

text \<open>An array large enough for the bits below \<open>n\<close>.\<close>

abbreviation holds_bits :: "u32 list \<Rightarrow> nat \<Rightarrow> bool" where
  "holds_bits x n \<equiv> BITSET_WORDS n \<le> length x"

lemma word_index: "b < n \<Longrightarrow> b div 32 < BITSET_WORDS n"
  unfolding BITSET_WORDS_def by linarith

lemma words_less: "b < n \<Longrightarrow> holds_bits x n \<Longrightarrow> b div 32 < length x"
  unfolding BITSET_WORDS_def by linarith

lemma BITSET_TEST_eq: "b div 32 < length x \<Longrightarrow> BITSET_TEST x b = Some (b \<in> ids x)"
  using and_bit_iff [of "b mod 32" "x ! (b div 32)"] by (simp add: BITSET_TEST_def BITSET_BIT_def ids_def)

lemma BITSET_SET_eq:
  assumes "b div 32 < length x"
  shows "\<exists>y. BITSET_SET x b = Some y \<and> length y = length x \<and> ids y = insert b (ids x)"
  using assms ids_set_bit [OF assms, of "b mod 32"] by (simp add: BITSET_SET_def BITSET_BIT_def)

lemma BITSET_CLEAR_eq:
  assumes "b div 32 < length x"
  shows "\<exists>y. BITSET_CLEAR x b = Some y \<and> length y = length x \<and> ids y = ids x - {b}"
  using assms ids_clear_bit [OF assms, of "b mod 32"] by (simp add: BITSET_CLEAR_def BITSET_BIT_def)

lemma ids_zero [simp]: "ids (replicate n 0) = {}"
  using ids_append_zero [of "[]" n] by (simp add: ids_def)

lemma ids_less: "b \<in> ids x \<Longrightarrow> b < 32 * length x"
  by (auto simp: ids_def)

lemma finite_ids [simp]: "finite (ids x)"
  using ids_less by (intro finite_subset [of "ids x" "{..<32 * length x}"]) auto

section \<open>Iteration\<close>

lemma ffs_spec:
  assumes "x \<noteq> 0"
  shows "ffs x - 1 < 32" "bit x (ffs x - 1)" "\<And>k. k < ffs x - 1 \<Longrightarrow> \<not> bit x k"
proof -
  have "\<exists>n < 32. bit x n"
  proof (rule ccontr)
    assume "\<not> (\<exists>n < 32. bit x n)"
    then have "x = 0" by (intro bit_word_eqI) simp
    then show False using assms by simp
  qed
  then obtain i where i: "find (bit x) [0..<32] = Some i" by (cases "find (bit x) [0..<32]") (auto simp: find_None_iff)
  then have f: "i < 32" "bit x i" "\<And>k. k < i \<Longrightarrow> \<not> bit x k" by (auto simp: find_Some_iff)
  have "ffs x - 1 = i" using i by (simp add: ffs_def)
  then show "ffs x - 1 < 32" "bit x (ffs x - 1)" "\<And>k. k < ffs x - 1 \<Longrightarrow> \<not> bit x k" using f by simp_all
qed

text \<open>In word \<open>wd\<close> the bits from \<open>k\<close> on are left in \<open>tmp\<close>.\<close>

definition left_in :: "nat \<Rightarrow> u32 \<Rightarrow> u32 list \<Rightarrow> nat \<Rightarrow> bool" where
  "left_in wd tmp xs k \<longleftrightarrow> k \<le> (wd + 1) * 32 \<and> (\<forall>b \<in> ids xs. k \<le> b \<longrightarrow> wd * 32 \<le> b) \<and>
     (\<forall>j < 32. bit tmp j \<longleftrightarrow> wd * 32 + j \<in> ids xs \<and> k \<le> wd * 32 + j)"

lemma word_bits: "wd < length xs \<Longrightarrow> j < 32 \<Longrightarrow> wd * 32 + j \<in> ids xs \<longleftrightarrow> bit (xs ! wd) j"
  by (simp add: ids_def)

lemma left_in_zero:
  assumes "left_in wd 0 xs k" "b \<in> ids xs" "k \<le> b"
  shows "(wd + 1) * 32 \<le> b"
proof (rule ccontr)
  assume n: "\<not> (wd + 1) * 32 \<le> b"
  have "wd * 32 \<le> b" using assms by (auto simp: left_in_def)
  with n have "b - wd * 32 < 32" "wd * 32 + (b - wd * 32) = b" by auto
  then have "bit (0 :: u32) (b - wd * 32)" using assms unfolding left_in_def by metis
  then show False by simp
qed

lemma next_word_spec:
  assumes "holds_bits xs sz" "left_in wd tmp xs k"
  shows "case next_word wd tmp xs sz of
      None \<Rightarrow> False
    | Some None \<Rightarrow> \<forall>b \<in> ids xs. k \<le> b \<longrightarrow> sz \<le> b
    | Some (Some (wd', tmp')) \<Rightarrow> tmp' \<noteq> 0 \<and> left_in wd' tmp' xs k"
  using assms
proof (induction wd tmp xs sz rule: next_word.induct)
  case (1 wd tmp xs sz)
  show ?case
  proof (cases "tmp = 0")
    case True
    note above = left_in_zero [OF "1.prems"(2) [unfolded True]]
    show ?thesis
    proof (cases "wd + 1 \<ge> BITSET_WORDS sz")
      case last: True
      then have "sz \<le> (wd + 1) * 32" by (simp add: BITSET_WORDS_def)
      then show ?thesis using True last above by (subst next_word.simps) (auto intro: order_trans)
    next
      case False
      then have w: "wd + 1 < length xs" using "1.prems"(1) by simp
      have "left_in (wd + 1) (xs ! (wd + 1)) xs k" using "1.prems"(2) above word_bits [OF w] by (auto simp: left_in_def)
      then show ?thesis using "1.IH" [of "xs ! (wd + 1)"] True False w "1.prems"(1) by (subst next_word.simps) simp
    qed
  next
    case False
    then show ?thesis using "1.prems"(2) by (subst next_word.simps) simp
  qed
qed

lemma next_set_spec:
  assumes "holds_bits xs sz" "left_in (i div 32) tmp xs k"
  shows "\<exists>i' tmp'. bitset_next_set i tmp xs sz = Some (i', tmp') \<and>
    (if i' < sz then i' \<in> ids xs \<and> k \<le> i' \<and> (\<forall>b \<in> ids xs. k \<le> b \<longrightarrow> i' \<le> b) \<and> left_in (i' div 32) tmp' xs (i' + 1)
     else \<forall>b \<in> ids xs. k \<le> b \<longrightarrow> sz \<le> b)"
proof -
  note n = next_word_spec [OF assms]
  show ?thesis
  proof (cases "next_word (i div 32) tmp xs sz")
    case None
    then show ?thesis using n by simp
  next
    case (Some r)
    show ?thesis
    proof (cases r)
      case None
      then show ?thesis using n Some by (simp add: bitset_next_set_def)
    next
      case r: (Some wt)
      obtain wd t where wt: "wt = (wd, t)" by (cases wt)
      have t: "t \<noteq> 0" "left_in wd t xs k" using n Some r wt by simp_all
      let ?b = "ffs t - 1"
      note b = ffs_spec [OF t(1)]
      have e: "bitset_next_set i tmp xs sz = Some (wd * 32 + ?b, t AND NOT (push_bit ?b 1))"
        using Some r wt by (simp add: bitset_next_set_def Let_def)
      have in_ids: "wd * 32 + ?b \<in> ids xs" "k \<le> wd * 32 + ?b" using t(2) b(1,2) by (auto simp: left_in_def)
      have least: "wd * 32 + ?b \<le> c" if "c \<in> ids xs" "k \<le> c" for c
      proof (rule ccontr)
        assume n: "\<not> wd * 32 + ?b \<le> c"
        have "wd * 32 \<le> c" using t(2) that by (auto simp: left_in_def)
        with n b(1) have "c - wd * 32 < ?b" "c - wd * 32 < 32" "wd * 32 + (c - wd * 32) = c" by auto
        moreover from this have "bit t (c - wd * 32)" using t(2) that unfolding left_in_def by metis
        ultimately show False using b(3) by blast
      qed
      have "bit (t AND NOT (push_bit ?b 1)) j \<longleftrightarrow> wd * 32 + j \<in> ids xs \<and> ?b < j" if j: "j < 32" for j
      proof -
        have "bit (t AND NOT (push_bit ?b 1)) j \<longleftrightarrow> bit t j \<and> j \<noteq> ?b" using j by (auto simp: bit_simps)
        moreover have "bit t j \<Longrightarrow> \<not> j < ?b" using b(3) by blast
        moreover have "bit t j \<longleftrightarrow> wd * 32 + j \<in> ids xs \<and> k \<le> wd * 32 + j" using t(2) j by (auto simp: left_in_def)
        ultimately show ?thesis using in_ids(2) by linarith
      qed
      then have "left_in wd (t AND NOT (push_bit ?b 1)) xs (wd * 32 + ?b + 1)" using b(1) unfolding left_in_def by (simp add: Suc_le_eq)
      then show ?thesis using e in_ids least b(1) by (auto simp: not_less intro: order_trans)
    qed
  qed
qed

lemma foreach_loop_spec:
  assumes "holds_bits xs sz" "left_in (i div 32) tmp xs k" "sz < k + fuel" "k \<le> sz"
  shows "foreach_loop fuel i tmp xs sz = Some (filter (\<lambda>b. b \<in> ids xs) [k..<sz])"
  using assms(2-4)
proof (induction fuel arbitrary: i tmp k)
  case 0
  then show ?case by simp
next
  case (Suc fuel)
  obtain i' tmp' where n: "bitset_next_set i tmp xs sz = Some (i', tmp')"
    "if i' < sz then i' \<in> ids xs \<and> k \<le> i' \<and> (\<forall>b \<in> ids xs. k \<le> b \<longrightarrow> i' \<le> b) \<and> left_in (i' div 32) tmp' xs (i' + 1)
     else \<forall>b \<in> ids xs. k \<le> b \<longrightarrow> sz \<le> b" using next_set_spec [OF assms(1) Suc.prems(1)] by blast
  show ?case
  proof (cases "i' < sz")
    case True
    have "filter (\<lambda>b. b \<in> ids xs) [k..<sz] = filter (\<lambda>b. b \<in> ids xs) [k..<i'] @ filter (\<lambda>b. b \<in> ids xs) [i'..<sz]"
      using True n(2) upt_add_eq_append [of k i' "sz - i'"] by (simp flip: filter_append)
    also have "filter (\<lambda>b. b \<in> ids xs) [k..<i'] = []" using n(2) True by (auto simp: filter_empty_conv)
    also have "filter (\<lambda>b. b \<in> ids xs) [i'..<sz] = i' # filter (\<lambda>b. b \<in> ids xs) [i' + 1..<sz]" using n(2) True by (simp add: upt_conv_Cons)
    finally show ?thesis using Suc.IH [of i' tmp' "i' + 1"] n True Suc.prems(2) by simp
  next
    case False
    then have "filter (\<lambda>b. b \<in> ids xs) [k..<sz] = []" using n(2) by (auto simp: filter_empty_conv)
    then show ?thesis using n False by simp
  qed
qed

lemma BITSET_FOREACH_SET_eq:
  assumes "holds_bits xs sz"
  shows "BITSET_FOREACH_SET xs sz = Some (filter (\<lambda>b. b \<in> ids xs) [0..<sz])"
proof (cases "sz = 0")
  case True
  then show ?thesis by (simp add: BITSET_FOREACH_SET_def bitset_next_set_def next_word.simps BITSET_WORDS_def)
next
  case False
  then have "0 < length xs" using assms by (cases xs) (auto simp: BITSET_WORDS_def)
  then have "left_in (0 div 32) (xs ! 0) xs 0" using word_bits [of 0 xs] by (simp add: left_in_def)
  then show ?thesis using foreach_loop_spec [OF assms, of 0 "xs ! 0" 0 "sz + 1"] False \<open>0 < length xs\<close> by (simp add: BITSET_FOREACH_SET_def)
qed

end
