(* ===== verification/Idalloc.thy ===== *)
theory Idalloc
  imports Bitset
begin

text \<open>
  The id allocator of \<^verbatim>\<open>u_idalloc.c\<close>: a bit array in 32-bit words, with an index below which every word is full. The
  field \<^verbatim>\<open>num_elements\<close> is the length of the array, indices are natural numbers, and the ids and requested sizes that the
  code computes in \<^verbatim>\<open>unsigned\<close> are 32-bit words that wrap. \<open>realloc_ok\<close> says whether \<^verbatim>\<open>realloc\<close> can provide
  memory: its result is used unchecked, so a failure is undefined behaviour. The mutex of the thread-safe variant makes each
  operation one step.
\<close>

section \<open>Allocator\<close>

record util_idalloc =
  data :: "u32 list"
  lowest_free_idx :: nat

abbreviation num_elements :: "util_idalloc \<Rightarrow> nat" where
  "num_elements buf \<equiv> length (data buf)"

definition DIV_ROUND_UP :: "u32 \<Rightarrow> u32 \<Rightarrow> u32" where
  "DIV_ROUND_UP A B = (A + B - 1) div B"

definition BITFIELD_MASK :: "nat \<Rightarrow> u32" where
  "BITFIELD_MASK b = (if b = 32 then - 1 else push_bit (b mod 32) 1 - 1)"

definition util_idalloc_resize :: "bool \<Rightarrow> util_idalloc \<Rightarrow> u32 \<Rightarrow> util_idalloc option" where
  "util_idalloc_resize realloc_ok buf new_num_elements =
     (if unat new_num_elements > num_elements buf
      then do {
        c_assert realloc_ok;
        Some (buf\<lparr>data := data buf @ replicate (unat new_num_elements - num_elements buf) 0\<rparr>) }
      else Some buf)"

definition util_idalloc_init :: "bool \<Rightarrow> u32 \<Rightarrow> util_idalloc option" where
  "util_idalloc_init realloc_ok initial_num_ids = do {
     c_assert (initial_num_ids \<noteq> 0);
     util_idalloc_resize realloc_ok \<lparr>data = [], lowest_free_idx = 0\<rparr> (DIV_ROUND_UP initial_num_ids 32) }"

text \<open>The first word from an index on that is not full.\<close>

fun scan_free :: "u32 list \<Rightarrow> nat \<Rightarrow> (nat \<times> u32) option" where
  "scan_free [] i = None"
| "scan_free (w # ws) i = (if w = 0xffffffff then scan_free ws (i + 1) else Some (i, w))"

definition util_idalloc_alloc :: "bool \<Rightarrow> util_idalloc \<Rightarrow> (u32 \<times> util_idalloc) option" where
  "util_idalloc_alloc realloc_ok buf =
     (let num = num_elements buf
      in case scan_free (drop (lowest_free_idx buf) (data buf)) (lowest_free_idx buf) of
           Some (i, w) \<Rightarrow>
             let b = ffs (NOT w) - 1
             in Some (of_nat i * 32 + of_nat b, buf\<lparr>data := (data buf)[i := w OR push_bit b 1], lowest_free_idx := i\<rparr>)
         | None \<Rightarrow> do {
             buf \<leftarrow> util_idalloc_resize realloc_ok buf (max (of_nat num) 1 * 2);
             w \<leftarrow> array_get (data buf) num;
             d \<leftarrow> array_set (data buf) num (w OR 1);
             Some (of_nat num * 32, buf\<lparr>data := d, lowest_free_idx := num\<rparr>) })"

definition util_idalloc_exists :: "util_idalloc \<Rightarrow> u32 \<Rightarrow> bool" where
  "util_idalloc_exists buf n \<longleftrightarrow>
     unat (n div 32) < num_elements buf \<and> data buf ! unat (n div 32) AND push_bit (unat (n mod 32)) 1 \<noteq> 0"

section \<open>Ranges\<close>

fun find_free_block :: "u32 list \<Rightarrow> nat \<Rightarrow> nat" where
  "find_free_block [] i = i"
| "find_free_block (w # ws) i = (if w = 0 then i else find_free_block ws (i + 1))"

text \<open>The number of steps of the inner loop: free words at the front, at most \<open>k\<close>.\<close>

fun free_run :: "u32 list \<Rightarrow> nat \<Rightarrow> nat" where
  "free_run (w # ws) (Suc k) = (if w = 0 then Suc (free_run ws k) else 0)"
| "free_run _ _ = 0"

lemma free_run_stop: "free_run ws k < k \<Longrightarrow> free_run ws k < length ws \<Longrightarrow> ws ! free_run ws k \<noteq> 0"
  by (induction ws k rule: free_run.induct) auto

text \<open>The search for \<open>k\<close> free words in a row: where it stopped, and whether it found them.\<close>

function range_search :: "u32 list \<Rightarrow> nat \<Rightarrow> nat \<Rightarrow> (nat \<times> bool) option" where
  "range_search d k base =
     (let i = base + free_run (drop base d) k
      in if i - base = k then Some (base, True)
         else if i = length d then Some (base, False)
         else case array_get d i of None \<Rightarrow> None | Some w \<Rightarrow> range_search d k (if w = 0 then i else i + 1))"
  by pat_completeness auto
termination
proof (relation "measure (\<lambda>(d, k, base). length d - base)")
  fix d k base i w
  assume i: "i = base + free_run (drop base d) k" and k: "i - base \<noteq> k" and w: "array_get d i = Some w"
  have lt: "i < length d" "d ! i = w" using w by (simp_all add: array_get_eq_Some)
  have "free_run ws n \<le> n" for ws n by (induction ws n rule: free_run.induct) auto
  then have "free_run (drop base d) k < k" using k i by (metis add_diff_cancel_left' le_neq_implies_less)
  then have "drop base d ! free_run (drop base d) k \<noteq> 0" using lt(1) i by (intro free_run_stop) simp_all
  then have "w \<noteq> 0" using lt i by simp
  then show "((d, k, if w = 0 then i else i + 1), d, k, base) \<in> measure (\<lambda>(d, k, base). length d - base)"
    using lt(1) i by simp
qed simp

declare range_search.simps [simp del]

fun fill_words :: "u32 list \<Rightarrow> nat \<Rightarrow> nat \<Rightarrow> u32 list option" where
  "fill_words d i 0 = Some d"
| "fill_words d i (Suc c) = do { d \<leftarrow> array_set d i 0xffffffff; fill_words d (i + 1) c }"

definition util_idalloc_alloc_range :: "bool \<Rightarrow> util_idalloc \<Rightarrow> u32 \<Rightarrow> (u32 \<times> util_idalloc) option" where
  "util_idalloc_alloc_range realloc_ok buf num =
     (if num = 1 then util_idalloc_alloc realloc_ok buf
      else let num_alloc = DIV_ROUND_UP num 32; n = num_elements buf
           in do {
             (base, found) \<leftarrow> range_search (data buf) (unat num_alloc)
               (find_free_block (drop (lowest_free_idx buf) (data buf)) (lowest_free_idx buf));
             buf \<leftarrow> (if found then Some buf else util_idalloc_resize realloc_ok buf (of_nat n * 2 + num_alloc));
             d \<leftarrow> fill_words (data buf) base (unat num_alloc - (if num mod 32 \<noteq> 0 then 1 else 0));
             d \<leftarrow> (if num mod 32 \<noteq> 0
                   then do {
                     w \<leftarrow> array_get d (base + unat num_alloc - 1);
                     array_set d (base + unat num_alloc - 1) (w OR BITFIELD_MASK (unat (num mod 32))) }
                   else Some d);
             let buf = buf\<lparr>data := d, lowest_free_idx :=
                   (if lowest_free_idx buf = base then base + unat (num div 32) else lowest_free_idx buf)\<rparr>
             in do {
               c_assert (list_all (\<lambda>i. util_idalloc_exists buf (of_nat base * 32 + of_nat i)) [0..<unat num]);
               Some (of_nat base * 32, buf) } })"

section \<open>Freeing and reserving\<close>

definition util_idalloc_free :: "util_idalloc \<Rightarrow> u32 \<Rightarrow> util_idalloc option" where
  "util_idalloc_free buf n = do {
     c_assert (unat (n div 32) < num_elements buf);
     let idx = unat (n div 32)
     in Some (buf\<lparr>lowest_free_idx := min idx (lowest_free_idx buf),
          data := (data buf)[idx := data buf ! idx AND NOT (push_bit (unat (n mod 32)) 1)]\<rparr>) }"

definition util_idalloc_reserve :: "bool \<Rightarrow> util_idalloc \<Rightarrow> u32 \<Rightarrow> util_idalloc option" where
  "util_idalloc_reserve realloc_ok buf n = do {
     buf \<leftarrow> (if unat (n div 32) \<ge> num_elements buf then util_idalloc_resize realloc_ok buf ((n div 32 + 1) * 2) else Some buf);
     w \<leftarrow> array_get (data buf) (unat (n div 32));
     d \<leftarrow> array_set (data buf) (unat (n div 32)) (w OR push_bit (unat (n mod 32)) 1);
     Some (buf\<lparr>data := d\<rparr>) }"

text \<open>The ids that \<^verbatim>\<open>util_idalloc_foreach\<close> visits: word by word, lowest bit first.\<close>

definition util_idalloc_foreach :: "util_idalloc \<Rightarrow> u32 list" where
  "util_idalloc_foreach buf = concat (map (\<lambda>i. map (\<lambda>b. of_nat i * 32 + of_nat b) (filter (bit (data buf ! i)) [0..<32]))
     [0..<num_elements buf])"

section \<open>Thread-safe variant\<close>

record util_idalloc_mt =
  mt_buf :: util_idalloc
  skip_zero :: bool

definition util_idalloc_mt_init :: "bool \<Rightarrow> u32 \<Rightarrow> bool \<Rightarrow> util_idalloc_mt option" where
  "util_idalloc_mt_init realloc_ok initial_num_ids skip = do {
     buf \<leftarrow> util_idalloc_init realloc_ok initial_num_ids;
     buf \<leftarrow> (if skip then do {
               (zero, buf) \<leftarrow> util_idalloc_alloc realloc_ok buf;
               c_assert (zero = 0);
               Some buf }
             else Some buf);
     Some \<lparr>mt_buf = buf, skip_zero = skip\<rparr> }"

definition util_idalloc_mt_init_tc :: "bool \<Rightarrow> util_idalloc_mt option" where
  "util_idalloc_mt_init_tc realloc_ok = util_idalloc_mt_init realloc_ok (push_bit 16 1) True"

definition util_idalloc_mt_alloc :: "bool \<Rightarrow> util_idalloc_mt \<Rightarrow> (u32 \<times> util_idalloc_mt) option" where
  "util_idalloc_mt_alloc realloc_ok mt = do {
     (n, buf) \<leftarrow> util_idalloc_alloc realloc_ok (mt_buf mt);
     Some (n, mt\<lparr>mt_buf := buf\<rparr>) }"

definition util_idalloc_mt_free :: "util_idalloc_mt \<Rightarrow> u32 \<Rightarrow> util_idalloc_mt option" where
  "util_idalloc_mt_free mt n =
     (if n = 0 \<and> skip_zero mt then Some mt
      else do { buf \<leftarrow> util_idalloc_free (mt_buf mt) n; Some (mt\<lparr>mt_buf := buf\<rparr>) })"

end
