(* ===== verification/Idalloc_Correct.thy ===== *)
theory Idalloc_Correct
  imports Idalloc
begin

text \<open>
  The id allocator as a set of natural numbers in use. The invariant is that the words below \<^verbatim>\<open>lowest_free_idx\<close> are
  full; with it, an allocation returns the lowest id that is not in use.
\<close>

section \<open>Ids in use\<close>

abbreviation used :: "util_idalloc \<Rightarrow> nat set" where
  "used buf \<equiv> ids (data buf)"

definition idalloc_ok :: "util_idalloc \<Rightarrow> bool" where
  "idalloc_ok buf \<longleftrightarrow> lowest_free_idx buf \<le> num_elements buf \<and> (\<forall>i < lowest_free_idx buf. data buf ! i = 0xffffffff)"

lemma full_word [simp]: "(0xffffffff :: u32) = - 1"
  by simp

lemma resize_ok:
  assumes "num_elements buf < unat n"
  shows "util_idalloc_resize True buf n = Some (buf\<lparr>data := data buf @ replicate (unat n - num_elements buf) 0\<rparr>)"
  using assms by (simp add: util_idalloc_resize_def)

section \<open>Allocation\<close>

lemma scan_free_spec:
  "case scan_free ws i of None \<Rightarrow> (\<forall>w \<in> set ws. w = 0xffffffff)
   | Some (j, w) \<Rightarrow> i \<le> j \<and> j - i < length ws \<and> ws ! (j - i) = w \<and> w \<noteq> 0xffffffff \<and> (\<forall>k < j - i. ws ! k = 0xffffffff)"
proof (induction ws arbitrary: i)
  case (Cons w ws)
  show ?case
  proof (cases "w = 0xffffffff")
    case True
    have step: "j - i = Suc (j - Suc i)" if "Suc i \<le> j" for j using that by simp
    show ?thesis
    proof (cases "scan_free ws (i + 1)")
      case (Some jw)
      obtain j v where jw: "jw = (j, v)" by (cases jw)
      then have "Suc i \<le> j" "j - Suc i < length ws" "ws ! (j - Suc i) = v" "v \<noteq> 0xffffffff" "\<forall>k < j - Suc i. ws ! k = 0xffffffff"
        using Cons [of "i + 1"] Some by simp_all
      then show ?thesis using Some True jw step [of j] by (auto simp: less_Suc_eq_0_disj)
    qed (use Cons [of "i + 1"] True in simp)
  qed simp
qed simp

lemma ffs_not:
  assumes "w \<noteq> (0xffffffff :: u32)"
  shows "ffs (NOT w) - 1 < 32" "\<not> bit w (ffs (NOT w) - 1)" "\<And>k. k < ffs (NOT w) - 1 \<Longrightarrow> bit w k"
proof -
  have "NOT w \<noteq> 0" using assms by (metis bit.compl_zero bit.double_compl full_word)
  note f = ffs_spec [OF this]
  show "ffs (NOT w) - 1 < 32" "\<not> bit w (ffs (NOT w) - 1)" "\<And>k. k < ffs (NOT w) - 1 \<Longrightarrow> bit w k" using f by (auto simp: bit_not_iff)
qed

lemma unat_id: "i < 2 ^ 27 \<Longrightarrow> b < 32 \<Longrightarrow> unat (of_nat i * 32 + of_nat b :: u32) = i * 32 + b"
  by (simp add: unat_word_ariths unat_of_nat)

lemma full_words: "\<forall>i < k. d ! i = 0xffffffff \<Longrightarrow> k \<le> length d \<Longrightarrow> n < k * 32 \<Longrightarrow> n \<in> ids d"
  by (auto simp: ids_def)

lemma lowest_clear_bit:
  assumes "j < length d" "\<forall>k < j. d ! k = 0xffffffff" "b < 32" "\<not> bit (d ! j) b" "\<And>k. k < b \<Longrightarrow> bit (d ! j) k"
  shows "j * 32 + b \<notin> ids d" "m \<notin> ids d \<Longrightarrow> j * 32 + b \<le> m"
proof -
  show "j * 32 + b \<notin> ids d" using assms(3,4) by (simp add: ids_def)
  assume m: "m \<notin> ids d"
  show "j * 32 + b \<le> m"
  proof (rule ccontr)
    assume lt: "\<not> j * 32 + b \<le> m"
    show False
    proof (cases "m < j * 32")
      case True
      then show False using full_words [OF assms(2) _ True] assms(1) m by simp
    next
      case False
      define c where "c = m - j * 32"
      have c: "c < b" "c < 32" "m = j * 32 + c" using lt False assms(3) by (simp_all add: c_def)
      have "m div 32 = j" "m mod 32 = c" using id_parts [OF c(2), of m j] c(3) by simp_all
      then show False using m assms(1) assms(5) [OF c(1)] by (simp add: ids_def)
    qed
  qed
qed

lemma alloc_in_word:
  assumes ok: "idalloc_ok buf" and lt: "num_elements buf < 2 ^ 26"
    and scan: "scan_free (drop (lowest_free_idx buf) (data buf)) (lowest_free_idx buf) = Some (j, w)"
  shows "\<exists>n buf'. util_idalloc_alloc True buf = Some (n, buf') \<and> unat n \<notin> used buf \<and> (\<forall>m. m \<notin> used buf \<longrightarrow> unat n \<le> m) \<and>
    used buf' = insert (unat n) (used buf) \<and> idalloc_ok buf' \<and> num_elements buf' = num_elements buf"
proof -
  let ?l = "lowest_free_idx buf" and ?d = "data buf"
  have full: "?l \<le> length ?d" "\<forall>i < ?l. ?d ! i = 0xffffffff" using ok unfolding idalloc_ok_def by blast+
  have j: "?l \<le> j" "j < length ?d" "?d ! j = w" "w \<noteq> 0xffffffff" and before: "\<And>k. k < j - ?l \<Longrightarrow> ?d ! (?l + k) = 0xffffffff"
    using scan_free_spec [of "drop ?l ?d" ?l] full(1) unfolding scan by (auto simp del: full_word)
  have fj: "\<forall>k < j. ?d ! k = 0xffffffff"
  proof (intro allI impI)
    fix k assume "k < j"
    then show "?d ! k = 0xffffffff" using full(2) before [of "k - ?l"] by (cases "k < ?l") (simp_all del: full_word)
  qed
  let ?b = "ffs (NOT w) - 1"
  note b = ffs_not [OF j(4)]
  let ?n = "of_nat j * 32 + of_nat ?b :: u32" and ?buf = "buf\<lparr>data := ?d[j := ?d ! j OR push_bit ?b 1], lowest_free_idx := j\<rparr>"
  have n: "unat ?n = j * 32 + ?b" using j(2) lt b(1) by (intro unat_id) simp_all
  have low: "j * 32 + ?b \<notin> ids ?d" "\<And>m. m \<notin> ids ?d \<Longrightarrow> j * 32 + ?b \<le> m"
    using lowest_clear_bit [OF j(2) fj b(1)] b(2,3) j(3) by blast+
  have run: "util_idalloc_alloc True buf = Some (?n, ?buf)" using j(3) by (simp only: util_idalloc_alloc_def Let_def scan option.case prod.case)
  have "idalloc_ok ?buf" using j(2) fj by (simp add: idalloc_ok_def)
  moreover have "used ?buf = insert (j * 32 + ?b) (used buf)" using ids_set_bit [OF j(2) b(1)] by simp
  ultimately show ?thesis using low n run by (intro exI [of _ ?n] exI [of _ ?buf]) simp
qed

lemma alloc_grow:
  assumes ok: "idalloc_ok buf" and lt: "num_elements buf < 2 ^ 26"
    and scan: "scan_free (drop (lowest_free_idx buf) (data buf)) (lowest_free_idx buf) = None"
  shows "\<exists>n buf'. util_idalloc_alloc True buf = Some (n, buf') \<and> unat n \<notin> used buf \<and> (\<forall>m. m \<notin> used buf \<longrightarrow> unat n \<le> m) \<and>
    used buf' = insert (unat n) (used buf) \<and> idalloc_ok buf' \<and> num_elements buf' \<le> 2 * num_elements buf + 2"
proof -
  let ?l = "lowest_free_idx buf" and ?d = "data buf" and ?m = "num_elements buf"
  have full: "?l \<le> ?m" "\<forall>i < ?l. ?d ! i = 0xffffffff" using ok unfolding idalloc_ok_def by blast+
  have fd: "\<forall>k < ?m. ?d ! k = 0xffffffff"
  proof (intro allI impI)
    fix k assume k: "k < ?m"
    show "?d ! k = 0xffffffff"
    proof (cases "k < ?l")
      case False
      then have "drop ?l ?d ! (k - ?l) = ?d ! k" "k - ?l < length (drop ?l ?d)" using k by simp_all
      then have "?d ! k \<in> set (drop ?l ?d)" by (metis nth_mem)
      then show ?thesis using scan_free_spec [of "drop ?l ?d" ?l] unfolding scan by simp
    qed (use full(2) in simp)
  qed
  let ?new = "max (of_nat ?m) 1 * 2 :: u32"
  have new: "unat ?new = 2 * max ?m 1"
  proof -
    have "unat (max (of_nat ?m) 1 :: u32) = max ?m 1" using lt by (simp add: max_def word_le_nat_alt unat_of_nat)
    then show "unat ?new = 2 * max ?m 1" using lt by (simp add: unat_word_ariths)
  qed
  then have gt: "?m < unat ?new" by simp
  let ?d' = "?d @ replicate (unat ?new - ?m) 0"
  let ?buf = "buf\<lparr>data := ?d'[?m := ?d' ! ?m OR push_bit 0 1], lowest_free_idx := ?m\<rparr>"
  have in': "?m < length ?d'" using gt by simp
  have run: "util_idalloc_alloc True buf = Some (of_nat ?m * 32, ?buf)"
    unfolding util_idalloc_alloc_def Let_def scan option.case resize_ok [OF gt] using in' by simp
  have n: "unat (of_nat ?m * 32 :: u32) = ?m * 32" using unat_id [of ?m 0] lt by simp
  have low: "?m * 32 \<notin> ids ?d" "\<And>x. x \<notin> ids ?d \<Longrightarrow> ?m * 32 \<le> x"
    using full_words [OF fd order_refl] by (simp add: ids_def, meson not_le)
  have "idalloc_ok ?buf" using fd by (simp add: idalloc_ok_def nth_append nth_list_update)
  moreover have "used ?buf = insert (?m * 32) (used buf)" using ids_set_bit [OF in', of 0] by (simp add: ids_append_zero)
  moreover have "num_elements ?buf \<le> 2 * ?m + 2" using new by simp
  ultimately show ?thesis using low n run by (intro exI [of _ "of_nat ?m * 32"] exI [of _ ?buf]) simp
qed

lemma alloc_spec:
  assumes "idalloc_ok buf" "num_elements buf < 2 ^ 26"
  shows "\<exists>n buf'. util_idalloc_alloc True buf = Some (n, buf') \<and> unat n \<notin> used buf \<and> (\<forall>m. m \<notin> used buf \<longrightarrow> unat n \<le> m) \<and>
    used buf' = insert (unat n) (used buf) \<and> idalloc_ok buf' \<and> num_elements buf' \<le> 2 * num_elements buf + 2"
proof (cases "scan_free (drop (lowest_free_idx buf) (data buf)) (lowest_free_idx buf)")
  case None
  then show ?thesis using alloc_grow [OF assms] by blast
next
  case (Some jw)
  then show ?thesis using alloc_in_word [OF assms, of "fst jw" "snd jw"] by fastforce
qed

section \<open>Ranges\<close>

lemma find_free_block_bounds: "i \<le> find_free_block ws i \<and> find_free_block ws i \<le> i + length ws"
proof (induction ws arbitrary: i)
  case (Cons w ws)
  have "i + 1 \<le> find_free_block ws (i + 1)" "find_free_block ws (i + 1) \<le> i + 1 + length ws" using Cons.IH by blast+
  then show ?case by simp
qed simp

lemma free_run_spec: "free_run ws k \<le> k \<and> free_run ws k \<le> length ws \<and> (\<forall>i < free_run ws k. ws ! i = 0)"
  by (induction ws k rule: free_run.induct) (auto simp: less_Suc_eq_0_disj)

text \<open>The search ends, and from where it stopped all words are free: as many as wanted, or up to the end.\<close>

lemma range_search_spec:
  assumes "base \<le> length d"
  shows "\<exists>b found. range_search d k base = Some (b, found) \<and> base \<le> b \<and> b \<le> length d \<and>
    (if found then b + k \<le> length d else length d < b + k) \<and> (\<forall>i. b \<le> i \<longrightarrow> i < b + k \<longrightarrow> i < length d \<longrightarrow> d ! i = 0)"
  using assms
proof (induction d k base rule: range_search.induct)
  case (1 d k base)
  let ?r = "free_run (drop base d) k"
  have r: "?r \<le> k" "?r \<le> length d - base" "\<And>i. i < ?r \<Longrightarrow> d ! (base + i) = 0"
    using free_run_spec [of "drop base d" k] "1.prems" by auto
  have free: "\<forall>i. base \<le> i \<longrightarrow> i < base + ?r \<longrightarrow> d ! i = 0"
  proof (intro allI impI)
    fix i assume "base \<le> i" "i < base + ?r"
    then show "d ! i = 0" using r(3) [of "i - base"] by simp
  qed
  show ?case
  proof (cases "?r = k")
    case True
    then have "range_search d k base = Some (base, True)" by (simp add: range_search.simps Let_def)
    moreover have "\<forall>i. base \<le> i \<longrightarrow> i < base + k \<longrightarrow> d ! i = 0" using free True by simp
    moreover have "base + k \<le> length d" using True r(2) "1.prems" by linarith
    ultimately show ?thesis by (intro exI [of _ base] exI [of _ True]) simp
  next
    case nk: False
    show ?thesis
    proof (cases "base + ?r = length d")
      case True
      then have "range_search d k base = Some (base, False)" using nk by (simp add: range_search.simps Let_def)
      then show ?thesis using True nk r(1) free "1.prems" by auto
    next
      case False
      then have lt: "base + ?r < length d" using r(2) "1.prems" by linarith
      have "drop base d ! ?r \<noteq> 0" using lt nk r(1) by (intro free_run_stop) simp_all
      then have nz: "d ! (base + ?r) \<noteq> 0" using lt by simp
      have step: "range_search d k base = range_search d k (base + ?r + 1)"
        using nk False lt nz by (subst range_search.simps) (simp add: Let_def)
      obtain b found where "range_search d k (base + ?r + 1) = Some (b, found)" "base + ?r + 1 \<le> b" "b \<le> length d"
          "if found then b + k \<le> length d else length d < b + k" "\<forall>i. b \<le> i \<longrightarrow> i < b + k \<longrightarrow> i < length d \<longrightarrow> d ! i = 0"
        using "1.IH" [OF refl _ False, of "d ! (base + ?r)"] nk lt nz by auto
      then show ?thesis unfolding step by (intro exI [of _ b] exI [of _ found]) simp
    qed
  qed
qed

lemma fill_words_spec:
  "i + c \<le> length d \<Longrightarrow> \<exists>d'. fill_words d i c = Some d' \<and> length d' = length d \<and>
    (\<forall>k < length d. d' ! k = (if i \<le> k \<and> k < i + c then 0xffffffff else d ! k))"
proof (induction c arbitrary: d i)
  case (Suc c)
  obtain d' where d': "fill_words (d[i := 0xffffffff]) (i + 1) c = Some d'" "length d' = length d"
    "\<forall>k < length d. d' ! k = (if i + 1 \<le> k \<and> k < i + 1 + c then 0xffffffff else d[i := 0xffffffff] ! k)"
    using Suc.IH [of "i + 1" "d[i := 0xffffffff]"] Suc.prems by auto
  have "d' ! k = (if i \<le> k \<and> k < i + Suc c then 0xffffffff else d ! k)" if "k < length d" for k
    using d'(3) that Suc.prems by (cases "k = i") (auto simp: nth_list_update)
  then show ?case using d'(1,2) Suc.prems by (auto simp del: full_word)
qed auto

lemma bit_mask: "r < 32 \<Longrightarrow> bit (BITFIELD_MASK r) n \<longleftrightarrow> n < r"
proof -
  assume r: "r < 32"
  then have "BITFIELD_MASK r = mask r" by (simp add: BITFIELD_MASK_def mask_eq_exp_minus_1 push_bit_eq_mult)
  then show "bit (BITFIELD_MASK r) n \<longleftrightarrow> n < r" using r by (auto simp: bit_mask_iff)
qed

lemma exists_iff: "util_idalloc_exists buf n \<longleftrightarrow> unat n \<in> used buf"
proof -
  have "(w AND push_bit b 1 \<noteq> 0) = bit w b" if "b < 32" for w :: u32 and b
  proof -
    have "w AND push_bit b 1 = (if bit w b then push_bit b 1 else 0)"
      by (rule bit_word_eqI) (auto simp: bit_simps)
    moreover have "push_bit b (1 :: u32) \<noteq> 0" using that by (simp add: push_bit_eq_mult)
    ultimately show ?thesis by simp
  qed
  from this [of "unat n mod 32"] show ?thesis
    by (simp add: util_idalloc_exists_def ids_def unat_div_distrib unat_mod_distrib)
qed

lemma round_up_nat: "(n + 31) div 32 = n div 32 + (if n mod 32 \<noteq> 0 then 1 else 0)" for n :: nat
proof -
  have "(32 * q + r + 31) div 32 = q + (if r \<noteq> 0 then 1 else 0)" if "r < 32" for q r :: nat
    using that by (cases r) simp_all
  from this [of "n mod 32" "n div 32"] show ?thesis by simp
qed

lemma round_up_32:
  assumes "unat num < 2 ^ 31"
  shows "unat (DIV_ROUND_UP num 32) = unat num div 32 + (if num mod 32 \<noteq> 0 then 1 else 0)"
proof -
  have "num + 32 - 1 = num + 31" by simp
  then have "unat (DIV_ROUND_UP num 32) = (unat num + 31) div 32"
    using assms by (simp add: DIV_ROUND_UP_def unat_div_distrib unat_word_ariths(1))
  moreover have "num mod 32 = 0 \<longleftrightarrow> unat num mod 32 = 0" by (simp add: unat_mod_distrib flip: unat_eq_0)
  ultimately show ?thesis using round_up_nat [of "unat num"] by simp
qed

text \<open>What the marking of a range of free words does.\<close>

lemma mark_range:
  fixes base num :: nat
  assumes "base + num div 32 + (if num mod 32 \<noteq> 0 then 1 else 0) \<le> length d"
    "\<forall>i. base \<le> i \<longrightarrow> i < base + num div 32 + (if num mod 32 \<noteq> 0 then 1 else 0) \<longrightarrow> d ! i = 0"
    "length d' = length d" "\<forall>k < length d. d' ! k = (if base \<le> k \<and> k < base + num div 32 then 0xffffffff else d ! k)"
    "d'' = (if num mod 32 \<noteq> 0 then d'[base + num div 32 := d' ! (base + num div 32) OR BITFIELD_MASK (num mod 32)] else d')"
  shows "ids d'' = ids d \<union> {base * 32..<base * 32 + num}"
proof (rule set_eqI)
  fix n :: nat
  let ?q = "num div 32" and ?r = "num mod 32" and ?w = "n div 32" and ?b = "n mod 32"
  have num: "num = ?q * 32 + ?r" and n: "n = ?w * 32 + ?b" by simp_all
  have b32: "?b < 32" and r32: "?r < 32" by simp_all
  have range: "n \<in> {base * 32..<base * 32 + num} \<longleftrightarrow> base \<le> ?w \<and> (?w < base + ?q \<or> ?w = base + ?q \<and> ?b < ?r)"
  proof -
    have "base * 32 \<le> n \<longleftrightarrow> base \<le> ?w" using n b32 by linarith
    moreover have "n < base * 32 + num \<longleftrightarrow> ?w < base + ?q \<or> ?w = base + ?q \<and> ?b < ?r" using n num b32 r32 by linarith
    ultimately show ?thesis by simp
  qed
  have len: "length d'' = length d" using assms(3,5) by simp
  consider "base \<le> ?w" "?w < base + ?q" | "?w = base + ?q" "?r \<noteq> 0" | "\<not> (base \<le> ?w \<and> ?w < base + ?q)" "?w \<noteq> base + ?q \<or> ?r = 0"
    by blast
  then show "n \<in> ids d'' \<longleftrightarrow> n \<in> ids d \<union> {base * 32..<base * 32 + num}"
  proof cases
    case 1
    then have w: "?w < length d" using assms(1) by simp
    have "d'' ! ?w = 0xffffffff" using 1 w assms(4,5) by simp
    then show ?thesis using 1 w range len by (simp add: ids_def)
  next
    case 2
    then have w: "?w < length d" "d ! ?w = 0" using assms(1,2) by simp_all
    have "d'' ! ?w = d' ! ?w OR BITFIELD_MASK ?r" using 2 w assms(3,5) by (simp del: bit_mask)
    moreover have "d' ! ?w = 0" using 2 w assms(4) by simp
    ultimately show ?thesis using 2 w range len by (simp add: ids_def bit_mask)
  next
    case 3
    then have "d'' ! ?w = d ! ?w" if "?w < length d" using that assms(3,4,5) by auto
    moreover have "n \<notin> {base * 32..<base * 32 + num}" using 3 range by auto
    ultimately show ?thesis using len by (auto simp: ids_def)
  qed
qed

lemma alloc_range_spec:
  assumes ok: "idalloc_ok buf" and lt: "num_elements buf < 2 ^ 24" and num: "unat num < 2 ^ 24"
  shows "\<exists>n buf'. util_idalloc_alloc_range True buf num = Some (n, buf') \<and>
    {unat n..<unat n + unat num} \<inter> used buf = {} \<and> used buf' = used buf \<union> {unat n..<unat n + unat num} \<and> idalloc_ok buf' \<and>
    num_elements buf' \<le> 2 * num_elements buf + unat num + 2"
proof (cases "num = 1")
  case True
  obtain n buf' where "util_idalloc_alloc True buf = Some (n, buf')" "unat n \<notin> used buf" "used buf' = insert (unat n) (used buf)"
    "idalloc_ok buf'" "num_elements buf' \<le> 2 * num_elements buf + 2"
    using alloc_spec [OF ok] lt by auto
  then show ?thesis using True by (auto simp: util_idalloc_alloc_range_def)
next
  case False
  let ?l = "lowest_free_idx buf" and ?d = "data buf" and ?k = "unat (DIV_ROUND_UP num 32)" and ?q = "unat num div 32"
  let ?t = "if num mod 32 \<noteq> 0 then 1 else 0 :: nat"
  have full: "?l \<le> length ?d" "\<forall>i < ?l. ?d ! i = 0xffffffff" using ok unfolding idalloc_ok_def by blast+
  have k: "?k = ?q + ?t" using num by (intro round_up_32) simp
  have t: "num mod 32 \<noteq> 0 \<longleftrightarrow> unat num mod 32 \<noteq> 0" "unat (num mod 32) = unat num mod 32"
    by (simp_all add: unat_mod_distrib flip: unat_eq_0)
  let ?b0 = "find_free_block (drop ?l ?d) ?l"
  have b0: "?l \<le> ?b0" "?b0 \<le> length ?d" using find_free_block_bounds [of ?l "drop ?l ?d"] full(1) by simp_all
  obtain base found where sr: "range_search ?d ?k ?b0 = Some (base, found)" "?b0 \<le> base" "base \<le> length ?d"
    "if found then base + ?k \<le> length ?d else length ?d < base + ?k"
    "\<forall>i. base \<le> i \<longrightarrow> i < base + ?k \<longrightarrow> i < length ?d \<longrightarrow> ?d ! i = 0"
    using range_search_spec [OF b0(2), of ?k] by blast
  let ?new = "of_nat (length ?d) * 2 + DIV_ROUND_UP num 32 :: u32"
  define d1 where "d1 = (if found then ?d else ?d @ replicate (unat ?new - length ?d) 0)"
  have kb: "?k \<le> unat num"
  proof (cases "num mod 32 = 0")
    case True
    then show ?thesis using k by (simp add: div_le_dividend)
  next
    case nz: False
    then have "0 < unat num mod 32" using t by simp
    then show ?thesis using k nz div_mult_mod_eq [of "unat num" 32] by simp
  qed
  have new: "unat ?new = 2 * length ?d + ?k" using lt kb num by (simp add: unat_word_ariths unat_of_nat)
  have grow: "(if found then Some buf else util_idalloc_resize True buf ?new) = Some (buf\<lparr>data := d1\<rparr>)"
    using resize_ok [of buf ?new] new sr(3,4) by (cases found) (simp_all add: d1_def)
  have d1: "base + ?q + ?t \<le> length d1" "\<forall>i. base \<le> i \<longrightarrow> i < base + ?q + ?t \<longrightarrow> d1 ! i = 0" "ids d1 = ids ?d"
    "\<forall>i < ?l. d1 ! i = 0xffffffff" "length d1 \<le> 2 * length ?d + ?k" "length ?d \<le> length d1"
  proof -
    show "base + ?q + ?t \<le> length d1" "length d1 \<le> 2 * length ?d + ?k" "length ?d \<le> length d1"
      using sr(3,4) new k unfolding d1_def by (cases found; simp)+
    show "ids d1 = ids ?d" by (simp add: d1_def ids_append_zero)
    show "\<forall>i < ?l. d1 ! i = 0xffffffff" using full by (auto simp: d1_def nth_append simp del: full_word)
    show "\<forall>i. base \<le> i \<longrightarrow> i < base + ?q + ?t \<longrightarrow> d1 ! i = 0"
    proof (intro allI impI)
      fix i assume i: "base \<le> i" "i < base + ?q + ?t"
      then show "d1 ! i = 0" using sr(3-5) new k by (cases found; cases "i < length ?d") (simp_all add: d1_def nth_append)
    qed
  qed
  obtain d2 where d2: "fill_words d1 base ?q = Some d2" "length d2 = length d1"
    "\<forall>i < length d1. d2 ! i = (if base \<le> i \<and> i < base + ?q then 0xffffffff else d1 ! i)"
    using fill_words_spec [of base ?q d1] d1(1) by (auto simp del: full_word)
  define d3 where "d3 = (if unat num mod 32 \<noteq> 0 then d2[base + ?q := d2 ! (base + ?q) OR BITFIELD_MASK (unat num mod 32)] else d2)"
  have pos: "base + ?k - 1 = base + ?q" if "num mod 32 \<noteq> 0" using that k by simp
  have last: "(if num mod 32 \<noteq> 0 then do { w \<leftarrow> array_get d2 (base + ?k - 1);
      array_set d2 (base + ?k - 1) (w OR BITFIELD_MASK (unat (num mod 32))) } else Some d2) = Some d3"
    using d1(1) d2(2) pos t by (auto simp: d3_def)
  have marked: "ids d3 = ids d1 \<union> {base * 32..<base * 32 + unat num}"
    by (rule mark_range [OF _ _ d2(2,3)]) (use d1(1,2) t d3_def in simp_all)
  let ?buf = "buf\<lparr>data := d3, lowest_free_idx := (if ?l = base then base + unat (num div 32) else ?l)\<rparr>"
  have n: "unat (of_nat base * 32 :: u32) = base * 32" using unat_id [of base 0] sr(3) lt by simp
  have ids: "unat (of_nat base * 32 + of_nat i :: u32) = base * 32 + i" if "i < unat num" for i
    using that num sr(3) lt by (simp add: unat_word_ariths unat_of_nat)
  have ex: "list_all (\<lambda>i. util_idalloc_exists ?buf (of_nat base * 32 + of_nat i)) [0..<unat num]"
    using marked by (auto simp: list_all_iff exists_iff ids)
  have fill: "?k - (if num mod 32 \<noteq> 0 then 1 else 0) = ?q" using k by simp
  have run: "util_idalloc_alloc_range True buf num = Some (of_nat base * 32, ?buf)"
    unfolding util_idalloc_alloc_range_def Let_def sr(1) Option.bind.bind_lunit prod.case grow fill
    using False d2(1) last ex by (cases "?l = base") simp_all
  have len: "length d3 = length d1" using d2(2) by (simp add: d3_def)
  have below: "d3 ! i = 0xffffffff" if "i < ?l" for i
    using that d1(1,4) d2 b0(1) sr(2) by (auto simp: d3_def)
  have run_full: "d3 ! i = 0xffffffff" if "base \<le> i" "i < base + ?q" for i
    using that d1(1) d2 by (auto simp: d3_def)
  have "idalloc_ok ?buf"
  proof (cases "?l = base")
    case True
    have "d3 ! i = 0xffffffff" if "i < base + ?q" for i
      using that below run_full True by (cases "i < base") (simp_all del: full_word)
    then show ?thesis using True len d1(1) by (simp add: idalloc_ok_def unat_div_distrib)
  next
    case False
    then show ?thesis using below len full(1) d1(6) by (simp add: idalloc_ok_def)
  qed
  moreover have "{base * 32..<base * 32 + unat num} \<inter> used buf = {}"
  proof -
    have top: "unat num \<le> (?q + ?t) * 32" using t div_mult_mod_eq [of "unat num" 32] by (cases "num mod 32 = 0") simp_all
    have "x \<notin> ids d1" if "base * 32 \<le> x" "x < base * 32 + unat num" for x
    proof -
      have "base \<le> x div 32" using that(1) by (simp add: less_eq_div_iff_mult_less_eq)
      moreover have "x div 32 < base + ?q + ?t" using that(2) top by (simp add: div_less_iff_less_mult algebra_simps)
      ultimately show ?thesis using d1(2) by (simp add: ids_def)
    qed
    then show ?thesis using d1(3) by auto
  qed
  moreover have "num_elements ?buf \<le> 2 * num_elements buf + unat num + 2" using len d1(5) kb by simp
  ultimately show ?thesis unfolding run using marked d1(3) n by simp
qed

section \<open>Freeing, reserving, visiting\<close>

lemma unat_parts: "unat (n div 32 :: u32) = unat n div 32" "unat (n mod 32 :: u32) = unat n mod 32"
  by (simp_all add: unat_div_distrib unat_mod_distrib)

lemma free_spec:
  assumes "idalloc_ok buf" "unat n div 32 < num_elements buf"
  shows "\<exists>buf'. util_idalloc_free buf n = Some buf' \<and> used buf' = used buf - {unat n} \<and> idalloc_ok buf' \<and>
    num_elements buf' = num_elements buf"
proof -
  let ?i = "unat n div 32" and ?b = "unat n mod 32"
  let ?buf = "buf\<lparr>lowest_free_idx := min ?i (lowest_free_idx buf), data := (data buf)[?i := data buf ! ?i AND NOT (push_bit ?b 1)]\<rparr>"
  have "util_idalloc_free buf n = Some ?buf" using assms(2) by (simp add: util_idalloc_free_def unat_parts Let_def)
  moreover have "used ?buf = used buf - {unat n}" using ids_clear_bit [OF assms(2), of ?b] by simp
  moreover have "idalloc_ok ?buf" using assms by (auto simp: idalloc_ok_def nth_list_update)
  ultimately show ?thesis by (intro exI [of _ ?buf]) simp
qed

lemma used_bound: "n \<in> used buf \<Longrightarrow> n div 32 < num_elements buf"
  by (simp add: ids_def)

lemma reserve_spec:
  assumes ok: "idalloc_ok buf"
  shows "\<exists>buf'. util_idalloc_reserve True buf n = Some buf' \<and> used buf' = insert (unat n) (used buf) \<and> idalloc_ok buf' \<and>
    num_elements buf' \<le> num_elements buf + 2 * (unat n div 32 + 1)"
proof -
  let ?i = "unat n div 32" and ?b = "unat n mod 32" and ?new = "(n div 32 + 1) * 2 :: u32"
  have new: "unat ?new = 2 * (?i + 1)"
    using unat_u32_less [of n] by (simp add: unat_word_ariths unat_parts)
  define d where "d = (if ?i \<ge> num_elements buf then data buf @ replicate (unat ?new - num_elements buf) 0 else data buf)"
  have grow: "(if unat (n div 32) \<ge> num_elements buf then util_idalloc_resize True buf ?new else Some buf) = Some (buf\<lparr>data := d\<rparr>)"
    using resize_ok [of buf ?new] new by (auto simp: d_def unat_parts)
  have d: "?i < length d" "ids d = used buf" "length d \<le> num_elements buf + 2 * (?i + 1)"
    using new by (auto simp: d_def ids_append_zero)
  have pre: "d ! k = data buf ! k" if "k < num_elements buf" for k using that by (simp add: d_def nth_append)
  let ?buf = "buf\<lparr>data := d[?i := d ! ?i OR push_bit ?b 1]\<rparr>"
  have "util_idalloc_reserve True buf n = Some ?buf"
    unfolding util_idalloc_reserve_def grow using d(1) by (simp add: unat_parts)
  moreover have "used ?buf = insert (unat n) (used buf)" using ids_set_bit [OF d(1), of ?b] d(2) by simp
  moreover have "idalloc_ok ?buf"
  proof -
    have l: "lowest_free_idx buf \<le> num_elements buf" "\<forall>k < lowest_free_idx buf. data buf ! k = 0xffffffff" using ok by (auto simp: idalloc_ok_def)
    have "num_elements buf \<le> length d" by (simp add: d_def)
    moreover have "- 1 OR w = (- 1 :: u32)" for w by simp
    moreover have "d[?i := d ! ?i OR push_bit ?b 1] ! k = - 1" if "k < lowest_free_idx buf" for k
      using that l pre [of k] d(1) by (cases "k = ?i") simp_all
    ultimately show ?thesis using l(1) by (simp add: idalloc_ok_def del: push_bit_of_1)
  qed
  ultimately show ?thesis using d(3) by (intro exI [of _ ?buf]) simp
qed

lemma foreach_used:
  assumes "num_elements buf < 2 ^ 27"
  shows "set (map unat (util_idalloc_foreach buf)) = used buf" "sorted (map unat (util_idalloc_foreach buf))"
    "distinct (util_idalloc_foreach buf)"
proof -
  define W where "W = (\<lambda>i. map (\<lambda>b. i * 32 + b) (filter (bit (data buf ! i)) [0..<32]))"
  have conv: "map unat (util_idalloc_foreach buf) = concat (map W [0..<num_elements buf])"
    using assms unat_id unfolding util_idalloc_foreach_def W_def
    by (auto simp: map_concat comp_def intro!: arg_cong [where f = concat])
  show "set (map unat (util_idalloc_foreach buf)) = used buf"
  proof (rule set_eqI)
    fix n
    have "n \<in> set (W i) \<longleftrightarrow> n div 32 = i \<and> bit (data buf ! i) (n mod 32)" for i
    proof
      assume "n \<in> set (W i)"
      then obtain b where "n = i * 32 + b" "b < 32" "bit (data buf ! i) b" by (auto simp: W_def)
      then show "n div 32 = i \<and> bit (data buf ! i) (n mod 32)" by simp
    next
      assume "n div 32 = i \<and> bit (data buf ! i) (n mod 32)"
      then show "n \<in> set (W i)" using div_mult_mod_eq [of n 32] by (auto simp: W_def intro!: image_eqI [of _ _ "n mod 32"])
    qed
    then show "n \<in> set (map unat (util_idalloc_foreach buf)) \<longleftrightarrow> n \<in> used buf" unfolding conv by (auto simp: ids_def)
  qed
  have upto: "sorted_wrt (<) (concat (map W [0..<k]))" for k
  proof (induction k)
    case (Suc k)
    have "sorted_wrt (<) (W k)" unfolding W_def sorted_wrt_map
      by (intro sorted_wrt_filter sorted_wrt_mono_rel [OF _ sorted_wrt_upt]) simp
    moreover have "x < y" if "x \<in> set (concat (map W [0..<k]))" "y \<in> set (W k)" for x y
    proof -
      obtain i b c where "i < k" "x = i * 32 + b" "b < 32" "y = k * 32 + c" using \<open>x \<in> _\<close> \<open>y \<in> _\<close> by (auto simp: W_def)
      then show ?thesis using mult_le_mono1 [of "Suc i" k 32] by simp
    qed
    ultimately show ?case using Suc.IH by (simp add: sorted_wrt_append)
  qed simp
  then show "sorted (map unat (util_idalloc_foreach buf))" unfolding conv using strict_sorted_iff by blast
  have "distinct (map unat (util_idalloc_foreach buf))" unfolding conv using upto strict_sorted_iff by blast
  then show "distinct (util_idalloc_foreach buf)" by (simp add: distinct_map)
qed

section \<open>Reachable states\<close>

lemma init_spec:
  assumes "0 < unat n" "unat n < 2 ^ 31"
  shows "\<exists>buf. util_idalloc_init True n = Some buf \<and> idalloc_ok buf \<and> used buf = {} \<and> num_elements buf \<le> unat n div 32 + 1"
proof -
  let ?k = "DIV_ROUND_UP n 32"
  have k: "unat ?k = unat n div 32 + (if n mod 32 \<noteq> 0 then 1 else 0)" using round_up_32 [OF assms(2)] .
  have "0 < unat ?k"
  proof (cases "n mod 32 = 0")
    case True
    then have "unat n mod 32 = 0" by (simp add: unat_parts [symmetric])
    then show ?thesis using k assms(1) by (auto simp: dvd_eq_mod_eq_0 [symmetric] elim!: dvdE)
  qed (use k in simp)
  then have "util_idalloc_init True n = Some \<lparr>data = replicate (unat ?k) 0, lowest_free_idx = 0\<rparr>"
  proof -
    have "n \<noteq> 0" using assms(1) by auto
    then show ?thesis using \<open>0 < unat ?k\<close> resize_ok [of "\<lparr>data = [], lowest_free_idx = 0\<rparr>" ?k] by (simp add: util_idalloc_init_def)
  qed
  then show ?thesis using k by (auto simp: idalloc_ok_def ids_def)
qed

text \<open>A client step, on arrays that leave room below \<open>2\<^sup>3\<^sup>2\<close> ids.\<close>

inductive idalloc_step :: "util_idalloc \<Rightarrow> util_idalloc \<Rightarrow> bool" where
  alloc: "num_elements buf < 2 ^ 24 \<Longrightarrow> util_idalloc_alloc True buf = Some (n, buf') \<Longrightarrow> idalloc_step buf buf'"
| range: "num_elements buf < 2 ^ 24 \<Longrightarrow> unat num < 2 ^ 24 \<Longrightarrow> util_idalloc_alloc_range True buf num = Some (n, buf') \<Longrightarrow> idalloc_step buf buf'"
| free: "unat n \<in> used buf \<Longrightarrow> util_idalloc_free buf n = Some buf' \<Longrightarrow> idalloc_step buf buf'"
| reserve: "util_idalloc_reserve True buf n = Some buf' \<Longrightarrow> idalloc_step buf buf'"

inductive idalloc_reachable :: "util_idalloc \<Rightarrow> bool" where
  init: "0 < unat n \<Longrightarrow> unat n < 2 ^ 31 \<Longrightarrow> util_idalloc_init True n = Some buf \<Longrightarrow> idalloc_reachable buf"
| step: "idalloc_reachable buf \<Longrightarrow> idalloc_step buf buf' \<Longrightarrow> idalloc_reachable buf'"

lemma idalloc_step_ok:
  assumes "idalloc_step buf buf'" "idalloc_ok buf"
  shows "idalloc_ok buf'"
  using assms
proof (cases rule: idalloc_step.cases)
  case (alloc n)
  then show ?thesis using alloc_spec [OF assms(2)] by auto
next
  case (range num n)
  then show ?thesis using alloc_range_spec [OF assms(2), of num] by auto
next
  case (free n)
  then show ?thesis using free_spec [OF assms(2) used_bound [of "unat n"]] by auto
next
  case (reserve n)
  then show ?thesis using reserve_spec [OF assms(2), of n] by auto
qed

lemma idalloc_reachable_ok: "idalloc_reachable buf \<Longrightarrow> idalloc_ok buf"
proof (induction rule: idalloc_reachable.induct)
  case (init n buf)
  then show ?case using init_spec [of n] by auto
qed (blast intro: idalloc_step_ok)

text \<open>The thread-safe variant with the id zero kept back.\<close>

definition zero_kept :: "util_idalloc_mt \<Rightarrow> bool" where
  "zero_kept mt \<longleftrightarrow> skip_zero mt \<and> idalloc_ok (mt_buf mt) \<and> 0 \<in> used (mt_buf mt)"

lemma mt_init_zero_kept:
  assumes "0 < unat n" "unat n < 2 ^ 30"
  shows "\<exists>mt. util_idalloc_mt_init True n True = Some mt \<and> zero_kept mt \<and> used (mt_buf mt) = {0}"
proof -
  obtain buf where b: "util_idalloc_init True n = Some buf" "idalloc_ok buf" "used buf = {}" "num_elements buf \<le> unat n div 32 + 1"
    using init_spec [of n] assms by auto
  have "num_elements buf < 2 ^ 26" using b(4) assms(2) by simp
  then obtain m buf' where a: "util_idalloc_alloc True buf = Some (m, buf')" "\<forall>x. x \<notin> used buf \<longrightarrow> unat m \<le> x"
    "used buf' = insert (unat m) (used buf)" "idalloc_ok buf'"
    using alloc_spec [OF b(2)] by blast
  have "unat m \<le> 0" using a(2) [rule_format, of 0] b(3) by simp
  then have "m = 0" by (simp add: unat_eq_0)
  then show ?thesis using a b(1,3) by (simp add: util_idalloc_mt_init_def zero_kept_def)
qed

lemma mt_alloc_spec:
  assumes "zero_kept mt" "num_elements (mt_buf mt) < 2 ^ 26"
  shows "\<exists>n mt'. util_idalloc_mt_alloc True mt = Some (n, mt') \<and> n \<noteq> 0 \<and> unat n \<notin> used (mt_buf mt) \<and>
    used (mt_buf mt') = insert (unat n) (used (mt_buf mt)) \<and> zero_kept mt'"
proof -
  have z: "skip_zero mt" "idalloc_ok (mt_buf mt)" "0 \<in> used (mt_buf mt)" using assms(1) by (simp_all add: zero_kept_def)
  obtain n buf' where a: "util_idalloc_alloc True (mt_buf mt) = Some (n, buf')" "unat n \<notin> used (mt_buf mt)"
    "used buf' = insert (unat n) (used (mt_buf mt))" "idalloc_ok buf'"
    using alloc_spec [OF z(2) assms(2)] by blast
  have "n \<noteq> 0" using a(2) z(3) by auto
  then show ?thesis using a z by (simp add: util_idalloc_mt_alloc_def zero_kept_def)
qed

lemma mt_free_spec:
  assumes "zero_kept mt" "unat n \<in> used (mt_buf mt)"
  shows "\<exists>mt'. util_idalloc_mt_free mt n = Some mt' \<and> used (mt_buf mt') = used (mt_buf mt) - ({unat n} - {0}) \<and> zero_kept mt'"
proof (cases "n = 0")
  case True
  then show ?thesis using assms(1) by (simp add: util_idalloc_mt_free_def zero_kept_def)
next
  case False
  have z: "skip_zero mt" "idalloc_ok (mt_buf mt)" "0 \<in> used (mt_buf mt)" using assms(1) by (simp_all add: zero_kept_def)
  obtain buf' where "util_idalloc_free (mt_buf mt) n = Some buf'" "used buf' = used (mt_buf mt) - {unat n}" "idalloc_ok buf'"
    using free_spec [OF z(2) used_bound [OF assms(2)]] by blast
  moreover have "unat n \<noteq> 0" using False by (simp add: unat_eq_0)
  ultimately show ?thesis using False z by (simp add: util_idalloc_mt_free_def zero_kept_def)
qed

text \<open>With \<open>2\<^sup>2\<^sup>7\<close> full words the next id is \<open>2\<^sup>3\<^sup>2\<close>, which wraps to an id in use.\<close>

lemma exhausted_wraps:
  fixes buf :: util_idalloc
  assumes "data buf = replicate (2 ^ 27) 0xffffffff" "lowest_free_idx buf \<le> 2 ^ 27"
  shows "\<exists>buf'. util_idalloc_alloc True buf = Some (0, buf') \<and> 0 \<in> used buf"
proof -
  have len: "num_elements buf = 2 ^ 27" using assms(1) by simp
  have "scan_free (drop (lowest_free_idx buf) (data buf)) (lowest_free_idx buf) = None"
    using scan_free_spec [of "drop (lowest_free_idx buf) (data buf)" "lowest_free_idx buf"] assms(1)
    by (auto split: option.splits)
  moreover have new: "unat (max (of_nat (num_elements buf)) 1 * 2 :: u32) = 2 ^ 28"
    unfolding len by (simp add: max_def word_le_nat_alt unat_word_ariths)
  moreover have "of_nat (num_elements buf) * 32 = (0 :: u32)" unfolding len by simp
  moreover have "num_elements buf < unat (max (of_nat (num_elements buf)) 1 * 2 :: u32)" unfolding new len by simp
  note resize_ok [OF this]
  ultimately have "\<exists>buf'. util_idalloc_alloc True buf = Some (0, buf')"
    unfolding util_idalloc_alloc_def Let_def using len by simp
  moreover have "0 \<in> used buf" using len assms(1) by (simp add: ids_def)
  ultimately show ?thesis by blast
qed

end
