(* ===== verification/Blob.thy ===== *)
theory Blob
  imports Prelude
begin

text \<open>
  The serialisation buffers of \<^verbatim>\<open>blob.c\<close>. Sizes are 64-bit words (\<^verbatim>\<open>size_t\<close>). The memory of a blob is a list of
  cells, as many as are allocated; a cell is \<open>None\<close> until something is written to it. \<open>None\<close> as the whole memory is the
  null pointer. \<open>realloc n\<close> is the address of the memory that \<^verbatim>\<open>realloc\<close> provides for \<open>n\<close> bytes, or \<open>None\<close>.
  Values are stored in little-endian order. A reader is the list of its bytes and an offset into it.
\<close>

section \<open>Writing\<close>

type_synonym cells = "u8 option list"

record blob =
  blob_data :: "cells option"
  blob_address :: u64
  allocated :: u64
  blob_size :: u64
  fixed_allocation :: bool
  out_of_memory :: bool

abbreviation BLOB_INITIAL_SIZE :: u64 where
  "BLOB_INITIAL_SIZE \<equiv> 4096"

text \<open>The second parameter of \<^verbatim>\<open>align64\<close> is a 32-bit \<^verbatim>\<open>unsigned\<close>.\<close>

definition align64 :: "u64 \<Rightarrow> u32 \<Rightarrow> u64" where
  "align64 val alignment = (val + ucast alignment - 1) AND NOT (ucast alignment - 1)"

definition grow_to_fit :: "(u64 \<Rightarrow> u64 option) \<Rightarrow> blob \<Rightarrow> u64 \<Rightarrow> bool \<times> blob" where
  "grow_to_fit realloc blob additional =
     (if out_of_memory blob then (False, blob)
      else if blob_size blob + additional \<le> allocated blob then (True, blob)
      else if fixed_allocation blob then (False, blob\<lparr>out_of_memory := True\<rparr>)
      else let to_allocate = (if allocated blob = 0 then BLOB_INITIAL_SIZE else allocated blob * 2);
               to_allocate = max to_allocate (allocated blob + additional)
           in case realloc to_allocate of
                None \<Rightarrow> (False, blob\<lparr>out_of_memory := True\<rparr>)
              | Some a \<Rightarrow>
                  let old = (case blob_data blob of None \<Rightarrow> [] | Some cells \<Rightarrow> cells)
                  in (True, blob\<lparr>blob_data := Some (take (unat to_allocate) old @ replicate (unat to_allocate - length old) None),
                        blob_address := a, allocated := to_allocate\<rparr>))"

text \<open>\<^verbatim>\<open>memcpy\<close> and \<^verbatim>\<open>memset\<close> into the memory of the blob; nothing happens for a null pointer.\<close>

definition put_bytes :: "blob \<Rightarrow> nat \<Rightarrow> u8 list \<Rightarrow> blob option" where
  "put_bytes blob pos bytes = (case blob_data blob of
     None \<Rightarrow> Some blob
   | Some cells \<Rightarrow> do {
       c_assert (pos + length bytes \<le> length cells);
       Some (blob\<lparr>blob_data := Some (take pos cells @ map Some bytes @ drop (pos + length bytes) cells)\<rparr>) })"

definition blob_align :: "(u64 \<Rightarrow> u64 option) \<Rightarrow> blob \<Rightarrow> u64 \<Rightarrow> (bool \<times> blob) option" where
  "blob_align realloc blob alignment = do {
     c_assert (align64 (blob_address blob) (ucast alignment) = blob_address blob);
     let new_size = align64 (blob_size blob) (ucast alignment)
     in if blob_size blob < new_size
        then case grow_to_fit realloc blob (new_size - blob_size blob) of (ok, blob) \<Rightarrow>
               if \<not> ok then Some (False, blob)
               else do {
                 blob \<leftarrow> put_bytes blob (unat (blob_size blob)) (replicate (unat (new_size - blob_size blob)) 0);
                 Some (True, blob\<lparr>blob_size := new_size\<rparr>) }
        else Some (True, blob) }"

definition blob_init :: blob where
  "blob_init = \<lparr>blob_data = None, blob_address = 0, allocated = 0, blob_size = 0, fixed_allocation = False, out_of_memory = False\<rparr>"

definition blob_init_fixed :: "(cells \<times> u64) option \<Rightarrow> u64 \<Rightarrow> blob" where
  "blob_init_fixed mem n = \<lparr>blob_data = map_option fst mem, blob_address = (case mem of None \<Rightarrow> 0 | Some (cells, a) \<Rightarrow> a),
     allocated = n, blob_size = 0, fixed_allocation = True, out_of_memory = False\<rparr>"

definition blob_finish_get_buffer :: "(u64 \<Rightarrow> u64 option) \<Rightarrow> blob \<Rightarrow> cells option \<times> u64 \<times> blob" where
  "blob_finish_get_buffer realloc blob =
     ((case realloc (blob_size blob) of
         None \<Rightarrow> None
       | Some a \<Rightarrow> Some (case blob_data blob of None \<Rightarrow> [] | Some cells \<Rightarrow> take (unat (blob_size blob)) cells)),
      blob_size blob, blob\<lparr>blob_data := None\<rparr>)"

definition blob_overwrite_bytes :: "blob \<Rightarrow> u64 \<Rightarrow> u8 list \<Rightarrow> (bool \<times> blob) option" where
  "blob_overwrite_bytes blob offset bytes =
     (let to_write = of_nat (length bytes)
      in if offset + to_write < offset \<or> blob_size blob < offset + to_write then Some (False, blob)
         else do { blob \<leftarrow> put_bytes blob (unat offset) bytes; Some (True, blob) })"

definition blob_write_bytes :: "(u64 \<Rightarrow> u64 option) \<Rightarrow> blob \<Rightarrow> u8 list \<Rightarrow> (bool \<times> blob) option" where
  "blob_write_bytes realloc blob bytes =
     (case grow_to_fit realloc blob (of_nat (length bytes)) of (ok, blob) \<Rightarrow>
        if \<not> ok then Some (False, blob)
        else do {
          blob \<leftarrow> (if bytes \<noteq> [] then put_bytes blob (unat (blob_size blob)) bytes else Some blob);
          Some (True, blob\<lparr>blob_size := blob_size blob + of_nat (length bytes)\<rparr>) })"

text \<open>The offset of the reserved bytes, or minus one.\<close>

definition blob_reserve_bytes :: "(u64 \<Rightarrow> u64 option) \<Rightarrow> blob \<Rightarrow> u64 \<Rightarrow> u64 \<times> blob" where
  "blob_reserve_bytes realloc blob to_write =
     (case grow_to_fit realloc blob to_write of (ok, blob) \<Rightarrow>
        if \<not> ok then (- 1, blob) else (blob_size blob, blob\<lparr>blob_size := blob_size blob + to_write\<rparr>))"

definition blob_reserve_uint32 :: "(u64 \<Rightarrow> u64 option) \<Rightarrow> blob \<Rightarrow> (u64 \<times> blob) option" where
  "blob_reserve_uint32 realloc blob = do {
     (ok, blob) \<leftarrow> blob_align realloc blob 4;
     Some (blob_reserve_bytes realloc blob 4) }"

definition blob_reserve_intptr :: "(u64 \<Rightarrow> u64 option) \<Rightarrow> blob \<Rightarrow> (u64 \<times> blob) option" where
  "blob_reserve_intptr realloc blob = do {
     (ok, blob) \<leftarrow> blob_align realloc blob 8;
     Some (blob_reserve_bytes realloc blob 8) }"

definition le_bytes :: "nat \<Rightarrow> u64 \<Rightarrow> u8 list" where
  "le_bytes n w = map (\<lambda>i. ucast (drop_bit (8 * i) w)) [0..<n]"

text \<open>\<^verbatim>\<open>BLOB_WRITE_TYPE\<close> for a type of \<open>n\<close> bytes.\<close>

definition blob_write_type :: "nat \<Rightarrow> (u64 \<Rightarrow> u64 option) \<Rightarrow> blob \<Rightarrow> u64 \<Rightarrow> (bool \<times> blob) option" where
  "blob_write_type n realloc blob val = do {
     (ok, blob) \<leftarrow> blob_align realloc blob (of_nat n);
     blob_write_bytes realloc blob (le_bytes n val) }"

definition blob_write_uint8 :: "(u64 \<Rightarrow> u64 option) \<Rightarrow> blob \<Rightarrow> u8 \<Rightarrow> (bool \<times> blob) option" where
  "blob_write_uint8 realloc blob val = blob_write_type 1 realloc blob (ucast val)"

definition blob_write_uint16 :: "(u64 \<Rightarrow> u64 option) \<Rightarrow> blob \<Rightarrow> u16 \<Rightarrow> (bool \<times> blob) option" where
  "blob_write_uint16 realloc blob val = blob_write_type 2 realloc blob (ucast val)"

definition blob_write_uint32 :: "(u64 \<Rightarrow> u64 option) \<Rightarrow> blob \<Rightarrow> u32 \<Rightarrow> (bool \<times> blob) option" where
  "blob_write_uint32 realloc blob val = blob_write_type 4 realloc blob (ucast val)"

definition blob_write_uint64 :: "(u64 \<Rightarrow> u64 option) \<Rightarrow> blob \<Rightarrow> u64 \<Rightarrow> (bool \<times> blob) option" where
  "blob_write_uint64 realloc blob val = blob_write_type 8 realloc blob val"

definition blob_write_intptr :: "(u64 \<Rightarrow> u64 option) \<Rightarrow> blob \<Rightarrow> u64 \<Rightarrow> (bool \<times> blob) option" where
  "blob_write_intptr realloc blob val = blob_write_type 8 realloc blob val"

definition blob_overwrite_uint8 :: "blob \<Rightarrow> u64 \<Rightarrow> u8 \<Rightarrow> (bool \<times> blob) option" where
  "blob_overwrite_uint8 blob offset val = do {
     c_assert (align64 offset 1 = offset);
     blob_overwrite_bytes blob offset (le_bytes 1 (ucast val)) }"

definition blob_overwrite_uint32 :: "blob \<Rightarrow> u64 \<Rightarrow> u32 \<Rightarrow> (bool \<times> blob) option" where
  "blob_overwrite_uint32 blob offset val = do {
     c_assert (align64 offset 4 = offset);
     blob_overwrite_bytes blob offset (le_bytes 4 (ucast val)) }"

definition blob_overwrite_intptr :: "blob \<Rightarrow> u64 \<Rightarrow> u64 \<Rightarrow> (bool \<times> blob) option" where
  "blob_overwrite_intptr blob offset val = do {
     c_assert (align64 offset 8 = offset);
     blob_overwrite_bytes blob offset (le_bytes 8 val) }"

text \<open>A C string is the list of its bytes before the terminator.\<close>

definition blob_write_string :: "(u64 \<Rightarrow> u64 option) \<Rightarrow> blob \<Rightarrow> u8 list \<Rightarrow> (bool \<times> blob) option" where
  "blob_write_string realloc blob str = blob_write_bytes realloc blob (str @ [0])"

section \<open>Reading\<close>

record blob_reader =
  reader_data :: "u8 list"
  reader_address :: u64
  reader_current :: u64
  overrun :: bool

abbreviation reader_end :: "blob_reader \<Rightarrow> u64" where
  "reader_end r \<equiv> of_nat (length (reader_data r))"

definition blob_reader_init :: "u8 list \<Rightarrow> u64 \<Rightarrow> blob_reader" where
  "blob_reader_init bytes a = \<lparr>reader_data = bytes, reader_address = a, reader_current = 0, overrun = False\<rparr>"

definition blob_reader_align :: "blob_reader \<Rightarrow> u64 \<Rightarrow> blob_reader option" where
  "blob_reader_align r alignment = do {
     c_assert (align64 (reader_address r) (ucast alignment) = reader_address r);
     Some (r\<lparr>reader_current := align64 (reader_current r) (ucast alignment)\<rparr>) }"

definition ensure_can_read :: "blob_reader \<Rightarrow> u64 \<Rightarrow> bool \<times> blob_reader" where
  "ensure_can_read r n =
     (if overrun r then (False, r)
      else if reader_current r \<le> reader_end r \<and> reader_end r - reader_current r \<ge> n then (True, r)
      else (False, r\<lparr>overrun := True\<rparr>))"

text \<open>The bytes that the returned pointer gives access to; \<open>None\<close> for the null pointer.\<close>

definition blob_read_bytes :: "blob_reader \<Rightarrow> u64 \<Rightarrow> u8 list option \<times> blob_reader" where
  "blob_read_bytes r n =
     (case ensure_can_read r n of (ok, r) \<Rightarrow>
        if \<not> ok then (None, r)
        else (Some (take (unat n) (drop (unat (reader_current r)) (reader_data r))), r\<lparr>reader_current := reader_current r + n\<rparr>))"

text \<open>The contents of \<^verbatim>\<open>dest\<close> afterwards.\<close>

definition blob_copy_bytes :: "blob_reader \<Rightarrow> u8 list \<Rightarrow> u64 \<Rightarrow> u8 list \<times> blob_reader" where
  "blob_copy_bytes r dest n =
     (case blob_read_bytes r n of
        (None, r) \<Rightarrow> (dest, r)
      | (Some bytes, r) \<Rightarrow> (if n = 0 then dest else bytes @ drop (unat n) dest, r))"

definition blob_skip_bytes :: "blob_reader \<Rightarrow> u64 \<Rightarrow> blob_reader" where
  "blob_skip_bytes r n =
     (case ensure_can_read r n of (ok, r) \<Rightarrow> if ok then r\<lparr>reader_current := reader_current r + n\<rparr> else r)"

definition from_le :: "u8 list \<Rightarrow> u64" where
  "from_le bytes = foldr (\<lambda>b w. ucast b OR push_bit 8 w) bytes 0"

text \<open>\<^verbatim>\<open>BLOB_READ_TYPE\<close> for a type of \<open>n\<close> bytes.\<close>

definition blob_read_type :: "nat \<Rightarrow> blob_reader \<Rightarrow> (u64 \<times> blob_reader) option" where
  "blob_read_type n r = do {
     r \<leftarrow> blob_reader_align r (of_nat n);
     case ensure_can_read r (of_nat n) of (ok, r) \<Rightarrow>
       if \<not> ok then Some (0, r)
       else Some (from_le (take n (drop (unat (reader_current r)) (reader_data r))), r\<lparr>reader_current := reader_current r + of_nat n\<rparr>) }"

definition blob_read_uint8 :: "blob_reader \<Rightarrow> (u8 \<times> blob_reader) option" where
  "blob_read_uint8 r = map_option (apfst ucast) (blob_read_type 1 r)"

definition blob_read_uint16 :: "blob_reader \<Rightarrow> (u16 \<times> blob_reader) option" where
  "blob_read_uint16 r = map_option (apfst ucast) (blob_read_type 2 r)"

definition blob_read_uint32 :: "blob_reader \<Rightarrow> (u32 \<times> blob_reader) option" where
  "blob_read_uint32 r = map_option (apfst ucast) (blob_read_type 4 r)"

definition blob_read_uint64 :: "blob_reader \<Rightarrow> (u64 \<times> blob_reader) option" where
  "blob_read_uint64 r = blob_read_type 8 r"

definition blob_read_intptr :: "blob_reader \<Rightarrow> (u64 \<times> blob_reader) option" where
  "blob_read_intptr r = blob_read_type 8 r"

text \<open>The string without its terminator; \<open>None\<close> inside for the null pointer. The length goes through an \<^verbatim>\<open>int\<close>.\<close>

definition blob_read_string :: "blob_reader \<Rightarrow> (u8 list option \<times> blob_reader) option" where
  "blob_read_string r =
     (if reader_current r \<ge> reader_end r then Some (None, r\<lparr>overrun := True\<rparr>)
      else let rest = drop (unat (reader_current r)) (reader_data r); str = takeWhile (\<lambda>b. b \<noteq> 0) rest
           in if length str = length rest then Some (None, r\<lparr>overrun := True\<rparr>)
              else let n = (scast (of_nat (length str + 1) :: u32) :: u64)
                   in case ensure_can_read r n of (ok, r) \<Rightarrow> do {
                        c_assert ok;
                        Some (Some str, r\<lparr>reader_current := reader_current r + n\<rparr>) })"

end
