(* ===== verification/Blob_Correct.thy ===== *)
theory Blob_Correct
  imports Blob
begin

text \<open>
  Writing to a blob appends the bytes of the values, each at an offset aligned to its size, and reading in the same order
  gives the values back.
\<close>

section \<open>Alignment and byte order\<close>

definition pad :: "nat \<Rightarrow> nat \<Rightarrow> nat" where
  "pad n p = (n - p mod n) mod n"

definition value_size :: "nat \<Rightarrow> bool" where
  "value_size n \<longleftrightarrow> n \<in> {1, 2, 4, 8}"

lemma pad_less: "0 < n \<Longrightarrow> pad n p < n"
  by (simp add: pad_def)

lemma pad_dvd: "0 < n \<Longrightarrow> n dvd p + pad n p"
proof -
  assume n: "0 < n"
  show "n dvd p + pad n p"
  proof (cases "p mod n = 0")
    case True
    then show ?thesis by (simp add: pad_def dvd_eq_mod_eq_0)
  next
    case False
    then have "pad n p = n - p mod n" using n by (simp add: pad_def)
    moreover have "p + (n - p mod n) = (p div n + 1) * n"
    proof -
      have "p = p div n * n + p mod n" "(p div n + 1) * n = p div n * n + n" by simp_all
      then show ?thesis using mod_less_divisor [OF n, of p] by linarith
    qed
    ultimately show ?thesis by simp
  qed
qed

lemma clear_low: "x AND NOT (mask k) = push_bit k (drop_bit k x)" for x :: u64
  by (rule bit_word_eqI) (auto simp: bit_simps)

lemma unat_clear_low: "unat (x AND NOT (mask k)) = unat x div 2 ^ k * 2 ^ k" for x :: u64
proof -
  have "unat x div 2 ^ k * 2 ^ k \<le> unat x" by (rule div_times_less_eq_dividend)
  then have lt: "unat x div 2 ^ k * 2 ^ k < 18446744073709551616" using unat_u64_less [of x] by linarith
  have "unat (push_bit k (drop_bit k x)) = take_bit 64 (push_bit k (unat (drop_bit k x)))"
    by (simp add: unsigned_push_bit_eq)
  also have "push_bit k (unat (drop_bit k x)) = unat x div 2 ^ k * 2 ^ k" by (simp add: unat_drop_bit_div push_bit_eq_mult)
  finally show ?thesis using lt by (simp add: clear_low take_bit_nat_eq_self)
qed

lemma round_up: "0 < n \<Longrightarrow> (p + (n - 1)) div n * n = p + pad n p" for n p :: nat
proof -
  assume n: "0 < n"
  have "(q * n + r + (n - 1)) div n = q + (if r = 0 then 0 else 1)" if "r < n" for q r
    using that n by (cases "r = 0"; intro div_nat_eqI) (simp_all add: algebra_simps)
  from this [of "p mod n" "p div n"] have "(p + (n - 1)) div n * n = (p div n + (if p mod n = 0 then 0 else 1)) * n"
    using n by simp
  moreover have "(p div n + (if p mod n = 0 then 0 else 1)) * n = p + pad n p"
  proof (cases "p mod n = 0")
    case True
    then show ?thesis by (simp add: pad_def dvd_eq_mod_eq_0 [symmetric])
  next
    case False
    have "p = p div n * n + p mod n" "(p div n + 1) * n = p div n * n + n" by simp_all
    moreover have "pad n p = n - p mod n" using n False by (simp add: pad_def)
    ultimately have "(p div n + 1) * n = p + pad n p" using mod_less_divisor [OF n, of p] by linarith
    then show ?thesis using False by simp
  qed
  ultimately show ?thesis by simp
qed

lemma align64_pow:
  fixes v :: u64
  assumes "unat v + 8 \<le> 2 ^ 64" "ucast al - 1 = (mask k :: u64)" "k \<le> 3"
  shows "unat (align64 v al) = unat v + pad (2 ^ k) (unat v)"
proof -
  have le: "(2::nat) ^ k \<le> 2 ^ 3" using assms(3) by (intro power_increasing) simp_all
  have m: "unat (mask k :: u64) = 2 ^ k - 1" 
  proof -
    have "k = 0 \<or> k = 1 \<or> k = 2 \<or> k = 3" using assms(3) by linarith
    then show ?thesis by (auto simp: mask_eq_exp_minus_1)
  qed
  have "v + ucast al - 1 = v + (mask k :: u64)" using assms(2) by (metis add_diff_eq)
  moreover have "unat (v + mask k) = unat v + (2 ^ k - 1)" using m le assms(1) by (simp add: unat_word_ariths)
  moreover have "(unat v + (2 ^ k - 1)) div 2 ^ k * 2 ^ k = unat v + pad (2 ^ k) (unat v)" by (rule round_up) simp
  ultimately show ?thesis unfolding align64_def assms(2) by (simp only: unat_clear_low)
qed

lemma align64_eq:
  assumes "value_size n" "unat v + 8 \<le> 2 ^ 64"
  shows "unat (align64 v (ucast (of_nat n :: u64))) = unat v + pad n (unat v)"
proof -
  have "mask 0 = (0 :: u64)" "mask 1 = (1 :: u64)" "mask 2 = (3 :: u64)" "mask 3 = (7 :: u64)" by (simp_all add: mask_eq_exp_minus_1)
  then show ?thesis using assms align64_pow [OF assms(2), of _ 0] align64_pow [OF assms(2), of _ 1]
      align64_pow [OF assms(2), of _ 2] align64_pow [OF assms(2), of _ 3]
    unfolding value_size_def by auto
qed

lemma from_le_le_bytes: "from_le (le_bytes n w) = take_bit (8 * n) w"
proof (induction n arbitrary: w)
  case (Suc n)
  have "le_bytes (Suc n) w = ucast w # le_bytes n (drop_bit 8 w)"
    unfolding le_bytes_def upt_conv_Cons [OF zero_less_Suc] by (simp add: map_Suc_upt [symmetric] comp_def add.commute del: upt_Suc)
  then have "from_le (le_bytes (Suc n) w) = ucast (ucast w :: u8) OR push_bit 8 (from_le (le_bytes n (drop_bit 8 w)))"
    by (simp add: from_le_def)
  also have "\<dots> = take_bit (8 * Suc n) w" unfolding Suc.IH
    by (rule bit_word_eqI) (auto simp: bit_simps)
  finally show ?case .
qed (simp add: from_le_def le_bytes_def)

lemma length_le_bytes [simp]: "length (le_bytes n w) = n"
  by (simp add: le_bytes_def)

section \<open>The contents of a blob\<close>

definition holds :: "blob \<Rightarrow> u8 list \<Rightarrow> bool" where
  "holds blob bs \<longleftrightarrow> unat (blob_size blob) = length bs \<and> (case blob_data blob of
     None \<Rightarrow> fixed_allocation blob \<or> bs = []
   | Some cells \<Rightarrow> take (length bs) cells = map Some bs)"

text \<open>
  Sizes agree, the memory is aligned, and a blob that can grow stays well below the address space: it is allocated at most
  twice what it holds.
\<close>

definition blob_ok :: "blob \<Rightarrow> bool" where
  "blob_ok blob \<longleftrightarrow> blob_size blob \<le> allocated blob \<and>
     (case blob_data blob of None \<Rightarrow> fixed_allocation blob \<or> allocated blob = 0 | Some cells \<Rightarrow> length cells = unat (allocated blob)) \<and>
     8 dvd unat (blob_address blob) \<and> unat (blob_address blob) + 8 \<le> 2 ^ 64 \<and>
     (fixed_allocation blob \<or> unat (allocated blob) \<le> 2 ^ 62)"

definition realloc_aligned :: "(u64 \<Rightarrow> u64 option) \<Rightarrow> bool" where
  "realloc_aligned realloc \<longleftrightarrow> (\<forall>n a. realloc n = Some a \<longrightarrow> 8 dvd unat a \<and> unat a + 8 \<le> 2 ^ 64)"

lemma size_plus:
  assumes "unat (a :: u64) = m" "m + k \<le> 2 ^ 60"
  shows "unat (a + of_nat k) = m + k"
  using assms by (simp add: unat_word_ariths unat_of_nat)

lemma oom_update [simp]:
  "blob_ok (blob\<lparr>out_of_memory := x\<rparr>) = blob_ok blob" "holds (blob\<lparr>out_of_memory := x\<rparr>) bs = holds blob bs"
  by (cases "blob_data blob"; simp add: blob_ok_def holds_def)+

lemma put_bytes_size: "put_bytes blob pos xs = Some blob' \<Longrightarrow> blob_size blob' = blob_size blob"
  by (auto simp: put_bytes_def bind_eq_Some split: option.splits)

text \<open>What \<^verbatim>\<open>grow_to_fit\<close> promises, whatever the allocator answers.\<close>

lemma grow_spec:
  assumes ok: "blob_ok blob" and h: "holds blob bs" and len: "length bs + k \<le> 2 ^ 60" and al: "realloc_aligned realloc"
  shows "\<exists>r blob'. grow_to_fit realloc blob (of_nat k) = (r, blob') \<and> blob_ok blob' \<and> holds blob' bs \<and>
    blob_size blob' = blob_size blob \<and> fixed_allocation blob' = fixed_allocation blob \<and>
    (r \<longrightarrow> \<not> out_of_memory blob' \<and> length bs + k \<le> unat (allocated blob') \<and> (k = 0 \<or> fixed_allocation blob' \<or> blob_data blob' \<noteq> None)) \<and>
    (\<not> r \<longrightarrow> out_of_memory blob') \<and>
    (\<not> out_of_memory blob \<longrightarrow> (fixed_allocation blob \<longrightarrow> (r \<longleftrightarrow> length bs + k \<le> unat (allocated blob)) \<and> allocated blob' = allocated blob) \<and>
      (\<not> fixed_allocation blob \<and> (\<forall>n. realloc n \<noteq> None) \<longrightarrow> r))"
proof -
  have sum: "unat (blob_size blob + of_nat k) = length bs + k"
    using size_plus [of "blob_size blob"] h len by (simp add: holds_def)
  have cmp: "blob_size blob + of_nat k \<le> allocated blob \<longleftrightarrow> length bs + k \<le> unat (allocated blob)"
    using sum by (simp add: word_le_nat_alt)
  consider "out_of_memory blob" | "\<not> out_of_memory blob" "length bs + k \<le> unat (allocated blob)"
    | "\<not> out_of_memory blob" "\<not> length bs + k \<le> unat (allocated blob)" "fixed_allocation blob"
    | "\<not> out_of_memory blob" "\<not> length bs + k \<le> unat (allocated blob)" "\<not> fixed_allocation blob"
    by blast
  then show ?thesis
  proof cases
    case 1
    then show ?thesis using ok h by (auto simp: grow_to_fit_def)
  next
    case 2
    then have "grow_to_fit realloc blob (of_nat k) = (True, blob)" using cmp by (simp add: grow_to_fit_def)
    moreover have "k = 0 \<or> fixed_allocation blob \<or> blob_data blob \<noteq> None" using 2(2) ok by (auto simp: blob_ok_def)
    ultimately show ?thesis using 2 ok h by (intro exI [of _ True] exI [of _ blob]) simp
  next
    case 3
    then have "grow_to_fit realloc blob (of_nat k) = (False, blob\<lparr>out_of_memory := True\<rparr>)" using cmp by (simp add: grow_to_fit_def)
    then show ?thesis using 3 ok h by (intro exI [of _ False] exI [of _ "blob\<lparr>out_of_memory := True\<rparr>"]) simp
  next
    case 4
    define n where "n = max (if allocated blob = 0 then BLOB_INITIAL_SIZE else allocated blob * 2) (allocated blob + of_nat k)"
    have a: "unat (allocated blob) < length bs + k" using 4 by simp
    have dbl: "unat (allocated blob * 2) = 2 * unat (allocated blob)" and add: "unat (allocated blob + of_nat k) = unat (allocated blob) + k"
      using a len by (simp_all add: unat_word_ariths unat_of_nat)
    have n: "unat n \<le> 2 ^ 62" "unat (allocated blob) + k \<le> unat n" "unat (allocated blob) \<le> unat n"
      using dbl add a len unfolding n_def by (auto simp: max_def word_le_nat_alt)
    have sz: "length bs \<le> unat (allocated blob)" using ok h by (simp add: blob_ok_def holds_def word_le_nat_alt)
    show ?thesis
    proof (cases "realloc n")
      case None
      then have "grow_to_fit realloc blob (of_nat k) = (False, blob\<lparr>out_of_memory := True\<rparr>)"
        using 4 cmp by (simp add: grow_to_fit_def n_def Let_def)
      then show ?thesis using 4 None ok h
        by (intro exI [of _ False] exI [of _ "blob\<lparr>out_of_memory := True\<rparr>"]) auto
    next
      case (Some ad)
      let ?old = "case blob_data blob of None \<Rightarrow> [] | Some cells \<Rightarrow> cells"
      let ?cells = "take (unat n) ?old @ replicate (unat n - length ?old) None"
      let ?blob = "blob\<lparr>blob_data := Some ?cells, blob_address := ad, allocated := n\<rparr>"
      have run: "grow_to_fit realloc blob (of_nat k) = (True, ?blob)"
        using 4 cmp Some by (simp add: grow_to_fit_def n_def Let_def)
      have old: "length ?old = unat (allocated blob)" using ok 4(3) by (auto simp: blob_ok_def split: option.splits)
      then have lc: "length ?cells = unat n" using n(3) by simp
      have "take (length bs) ?cells = take (length bs) ?old" using old n(3) sz by simp
      also have "\<dots> = map Some bs" using h 4(3) by (auto simp: holds_def split: option.splits)
      finally have "holds ?blob bs" using h by (simp add: holds_def)
      moreover have "blob_ok ?blob"
        using ok lc n al Some 4(3) by (auto simp: blob_ok_def realloc_aligned_def word_le_nat_alt)
      ultimately show ?thesis using run 4 n(2) sz by (intro exI [of _ True] exI [of _ ?blob]) simp
    qed
  qed
qed

lemma put_append:
  assumes ok: "blob_ok blob" and h: "holds blob bs" and room: "length bs + length xs \<le> unat (allocated blob)"
    and mem: "xs = [] \<or> fixed_allocation blob \<or> blob_data blob \<noteq> None" and len: "length bs + length xs \<le> 2 ^ 60"
  shows "\<exists>blob'. put_bytes blob (unat (blob_size blob)) xs = Some blob' \<and>
    blob_ok (blob'\<lparr>blob_size := blob_size blob + of_nat (length xs)\<rparr>) \<and>
    holds (blob'\<lparr>blob_size := blob_size blob + of_nat (length xs)\<rparr>) (bs @ xs) \<and> blob_size blob' = blob_size blob \<and>
    fixed_allocation blob' = fixed_allocation blob \<and> allocated blob' = allocated blob \<and> out_of_memory blob' = out_of_memory blob"
proof -
  have sz: "unat (blob_size blob) = length bs" using h by (simp add: holds_def)
  note sum = size_plus [OF sz len]
  then have le: "blob_size blob + of_nat (length xs) \<le> allocated blob" using room by (simp add: word_le_nat_alt)
  show ?thesis
  proof (cases "blob_data blob")
    case None
    then show ?thesis using ok h mem sum le by (auto simp: put_bytes_def blob_ok_def holds_def)
  next
    case (Some cells)
    have lc: "length cells = unat (allocated blob)" and tk: "take (length bs) cells = map Some bs"
      using ok h Some by (simp_all add: blob_ok_def holds_def)
    let ?cells = "take (length bs) cells @ map Some xs @ drop (length bs + length xs) cells"
    have "put_bytes blob (unat (blob_size blob)) xs = Some (blob\<lparr>blob_data := Some ?cells\<rparr>)"
      using Some room lc sz by (simp add: put_bytes_def)
    moreover have "length ?cells = unat (allocated blob)" using lc room by simp
    moreover have "take (length bs + length xs) ?cells = map Some (bs @ xs)" using tk room lc by simp
    ultimately show ?thesis using ok sum le Some by (auto simp: blob_ok_def holds_def)
  qed
qed

text \<open>One outcome for every write: the bytes are appended, or memory was short and stays short.\<close>

definition appends :: "blob \<Rightarrow> u8 list \<Rightarrow> u8 list \<Rightarrow> (u64 \<Rightarrow> u64 option) \<Rightarrow> bool \<Rightarrow> blob \<Rightarrow> bool" where
  "appends blob bs xs realloc r blob' \<longleftrightarrow> blob_ok blob' \<and> fixed_allocation blob' = fixed_allocation blob \<and>
     (fixed_allocation blob \<longrightarrow> allocated blob' = allocated blob) \<and>
     (r \<longleftrightarrow> \<not> out_of_memory blob') \<and> (r \<longrightarrow> holds blob' (bs @ xs)) \<and>
     (fixed_allocation blob \<longrightarrow> (r \<longleftrightarrow> length bs + length xs \<le> unat (allocated blob))) \<and>
     (\<not> fixed_allocation blob \<and> (\<forall>n. realloc n \<noteq> None) \<longrightarrow> r)"

lemma write_bytes_spec:
  assumes "blob_ok blob" "\<not> out_of_memory blob" "holds blob bs" "length bs + length xs \<le> 2 ^ 60" "realloc_aligned realloc"
  shows "\<exists>r blob'. blob_write_bytes realloc blob xs = Some (r, blob') \<and> appends blob bs xs realloc r blob'"
proof -
  obtain r b1 where g: "grow_to_fit realloc blob (of_nat (length xs)) = (r, b1)" "blob_ok b1" "holds b1 bs"
    "blob_size b1 = blob_size blob" "fixed_allocation b1 = fixed_allocation blob"
    "r \<longrightarrow> \<not> out_of_memory b1 \<and> length bs + length xs \<le> unat (allocated b1) \<and> (length xs = 0 \<or> fixed_allocation b1 \<or> blob_data b1 \<noteq> None)"
    "\<not> r \<longrightarrow> out_of_memory b1"
    "(fixed_allocation blob \<longrightarrow> (r \<longleftrightarrow> length bs + length xs \<le> unat (allocated blob)) \<and> allocated b1 = allocated blob) \<and>
      (\<not> fixed_allocation blob \<and> (\<forall>n. realloc n \<noteq> None) \<longrightarrow> r)"
    using grow_spec [OF assms(1,3,4,5)] assms(2) by auto
  show ?thesis
  proof (cases r)
    case False
    then show ?thesis using g assms(3) by (auto simp: blob_write_bytes_def appends_def)
  next
    case True
    have room: "length bs + length xs \<le> unat (allocated b1)" and mem: "xs = [] \<or> fixed_allocation b1 \<or> blob_data b1 \<noteq> None"
      using g(6) True by auto
    obtain b2 where p: "put_bytes b1 (unat (blob_size b1)) xs = Some b2"
      "blob_ok (b2\<lparr>blob_size := blob_size b1 + of_nat (length xs)\<rparr>)" "holds (b2\<lparr>blob_size := blob_size b1 + of_nat (length xs)\<rparr>) (bs @ xs)"
      "blob_size b2 = blob_size b1" "fixed_allocation b2 = fixed_allocation b1" "allocated b2 = allocated b1" "out_of_memory b2 = out_of_memory b1"
      using put_append [OF g(2,3) room mem assms(4)] by blast
    have same: "put_bytes b1 (unat (blob_size b1)) [] = Some b1"
    proof (cases "blob_data b1")
      case (Some cells)
      have "unat (blob_size b1) \<le> length cells" using g(2) Some by (simp add: blob_ok_def word_le_nat_alt)
      then show ?thesis using Some by (simp add: put_bytes_def)
    qed (simp add: put_bytes_def)
    have "blob_write_bytes realloc blob xs = Some (True, b2\<lparr>blob_size := blob_size b1 + of_nat (length xs)\<rparr>)"
      using g(1) True p(1,4) same by (cases "xs = []") (simp_all add: blob_write_bytes_def)
    then show ?thesis using p g True by (auto simp: appends_def)
  qed
qed

lemma aligned_address:
  assumes "blob_ok blob" "value_size n"
  shows "align64 (blob_address blob) (ucast (of_nat n :: u64)) = blob_address blob"
proof -
  have "8 dvd unat (blob_address blob)" "unat (blob_address blob) + 8 \<le> 2 ^ 64" using assms(1) by (simp_all add: blob_ok_def)
  moreover from this(1) have "n dvd unat (blob_address blob)" using assms(2) by (auto simp: value_size_def intro: dvd_trans)
  then have "pad n (unat (blob_address blob)) = 0" by (simp add: pad_def dvd_eq_mod_eq_0)
  ultimately show ?thesis using align64_eq [OF assms(2)] by (simp add: word_unat_eq_iff)
qed

lemma align_spec:
  assumes ok: "blob_ok blob" "\<not> out_of_memory blob" "holds blob bs" and len: "length bs + pad n (length bs) \<le> 2 ^ 60"
    and n: "value_size n" and al: "realloc_aligned realloc"
  shows "\<exists>r blob'. blob_align realloc blob (of_nat n) = Some (r, blob') \<and>
    appends blob bs (replicate (pad n (length bs)) 0) realloc r blob'"
proof -
  let ?p = "pad n (length bs)" and ?new = "align64 (blob_size blob) (ucast (of_nat n :: u64))"
  have sz: "unat (blob_size blob) = length bs" using ok(3) by (simp add: holds_def)
  have new: "unat ?new = length bs + ?p" using align64_eq [OF n, of "blob_size blob"] sz len by simp
  have diff: "?new - blob_size blob = of_nat ?p"
    using new sz len by (simp add: word_unat_eq_iff unat_sub_if' unat_of_nat)
  have lt: "blob_size blob < ?new \<longleftrightarrow> ?p \<noteq> 0" using new sz by (simp add: word_less_nat_alt)
  show ?thesis
  proof (cases "?p = 0")
    case True
    have "length bs \<le> unat (allocated blob)" using ok sz by (simp add: blob_ok_def word_le_nat_alt)
    moreover have "blob_align realloc blob (of_nat n) = Some (True, blob)"
      using True lt aligned_address [OF ok(1) n] by (simp add: blob_align_def Let_def)
    ultimately show ?thesis using True ok by (auto simp: appends_def)
  next
    case False
    have "\<exists>r blob'. blob_write_bytes realloc blob (replicate ?p 0) = Some (r, blob') \<and> appends blob bs (replicate ?p 0) realloc r blob'"
      using write_bytes_spec [OF ok, of "replicate ?p 0"] len al by simp
    moreover have "blob_align realloc blob (of_nat n) = blob_write_bytes realloc blob (replicate ?p 0)"
    proof -
      obtain r b1 where g: "grow_to_fit realloc blob (of_nat ?p) = (r, b1)" by fastforce
      then have "blob_size b1 = blob_size blob" by (auto simp: grow_to_fit_def Let_def split: if_splits option.splits)
      moreover have "?new = blob_size blob + of_nat ?p" using diff by (simp add: algebra_simps)
      moreover have "unat (of_nat ?p :: u64) = ?p" using len by (intro unat_of_nat64) simp
      ultimately show ?thesis using False lt g diff aligned_address [OF ok(1) n]
          put_bytes_size [of b1 "unat (blob_size blob)" "replicate ?p 0"]
        by (cases "put_bytes b1 (unat (blob_size blob)) (replicate ?p 0)") (simp_all add: blob_align_def blob_write_bytes_def Let_def)
    qed
    ultimately show ?thesis by simp
  qed
qed

section \<open>Sequences of values\<close>

datatype blob_item = U8 u8 | U16 u16 | U32 u32 | U64 u64 | Intptr u64 | Raw "u8 list" | Str "u8 list"

fun write_item :: "(u64 \<Rightarrow> u64 option) \<Rightarrow> blob_item \<Rightarrow> blob \<Rightarrow> (bool \<times> blob) option" where
  "write_item realloc (U8 v) blob = blob_write_uint8 realloc blob v"
| "write_item realloc (U16 v) blob = blob_write_uint16 realloc blob v"
| "write_item realloc (U32 v) blob = blob_write_uint32 realloc blob v"
| "write_item realloc (U64 v) blob = blob_write_uint64 realloc blob v"
| "write_item realloc (Intptr v) blob = blob_write_intptr realloc blob v"
| "write_item realloc (Raw bytes) blob = blob_write_bytes realloc blob bytes"
| "write_item realloc (Str str) blob = blob_write_string realloc blob str"

text \<open>Clients ignore the single results and look at \<^verbatim>\<open>out_of_memory\<close> in the end.\<close>

fun write_items :: "(u64 \<Rightarrow> u64 option) \<Rightarrow> blob_item list \<Rightarrow> blob \<Rightarrow> blob option" where
  "write_items realloc [] blob = Some blob"
| "write_items realloc (it # items) blob = do { (r, blob) \<leftarrow> write_item realloc it blob; write_items realloc items blob }"

text \<open>The bytes of a value at offset \<open>p\<close>, with the padding before them.\<close>

fun encode_item :: "nat \<Rightarrow> blob_item \<Rightarrow> u8 list" where
  "encode_item p (U8 v) = replicate (pad 1 p) 0 @ le_bytes 1 (ucast v)"
| "encode_item p (U16 v) = replicate (pad 2 p) 0 @ le_bytes 2 (ucast v)"
| "encode_item p (U32 v) = replicate (pad 4 p) 0 @ le_bytes 4 (ucast v)"
| "encode_item p (U64 v) = replicate (pad 8 p) 0 @ le_bytes 8 v"
| "encode_item p (Intptr v) = replicate (pad 8 p) 0 @ le_bytes 8 v"
| "encode_item p (Raw bytes) = bytes"
| "encode_item p (Str str) = str @ [0]"

fun encode_items :: "nat \<Rightarrow> blob_item list \<Rightarrow> u8 list" where
  "encode_items p [] = []"
| "encode_items p (it # items) = encode_item p it @ encode_items (p + length (encode_item p it)) items"

lemma appends_trans:
  assumes "appends blob bs xs realloc True b1" "appends b1 (bs @ xs) ys realloc r b2"
  shows "appends blob bs (xs @ ys) realloc r b2"
  using assms by (auto simp: appends_def)

lemma appends_stop:
  assumes "appends blob bs xs realloc False b1"
  shows "appends blob bs (xs @ ys) realloc False b1"
  using assms by (auto simp: appends_def)

lemma oom_write_bytes: "out_of_memory blob \<Longrightarrow> blob_write_bytes realloc blob xs = Some (False, blob)"
  by (simp add: blob_write_bytes_def grow_to_fit_def)

lemma oom_align:
  assumes "out_of_memory blob" "blob_ok blob" "value_size n"
  shows "\<exists>r. blob_align realloc blob (of_nat n) = Some (r, blob)"
  using assms aligned_address [OF assms(2,3)] by (auto simp: blob_align_def grow_to_fit_def Let_def)

lemma write_type_spec:
  assumes "blob_ok blob" "\<not> out_of_memory blob" "holds blob bs" "length bs + length (replicate (pad n (length bs)) 0 @ le_bytes n v) \<le> 2 ^ 60"
    "value_size n" "realloc_aligned realloc"
  shows "\<exists>r blob'. blob_write_type n realloc blob v = Some (r, blob') \<and>
    appends blob bs (replicate (pad n (length bs)) 0 @ le_bytes n v) realloc r blob'"
proof -
  let ?p = "replicate (pad n (length bs)) 0"
  have len: "length bs + pad n (length bs) \<le> 2 ^ 60" using assms(4) by simp
  obtain r1 b1 where a: "blob_align realloc blob (of_nat n) = Some (r1, b1)" "appends blob bs ?p realloc r1 b1"
    using align_spec [OF assms(1-3) len assms(5,6)] by blast
  show ?thesis
  proof (cases r1)
    case True
    have b1: "blob_ok b1" "\<not> out_of_memory b1" "holds b1 (bs @ ?p)" using a(2) True by (simp_all add: appends_def)
    have "length (bs @ ?p) + length (le_bytes n v) \<le> 2 ^ 60" using assms(4) by simp
    from write_bytes_spec [OF b1 this assms(6)] obtain r b2 where
      "blob_write_bytes realloc b1 (le_bytes n v) = Some (r, b2)" "appends b1 (bs @ ?p) (le_bytes n v) realloc r b2" by blast
    then show ?thesis using a True appends_trans by (auto simp: blob_write_type_def)
  next
    case False
    then have "blob_write_bytes realloc b1 (le_bytes n v) = Some (False, b1)" using a(2) by (intro oom_write_bytes) (simp add: appends_def)
    then show ?thesis using a False appends_stop by (auto simp: blob_write_type_def)
  qed
qed

lemma value_sizes [simp]: "value_size 1" "value_size (Suc 0)" "value_size 2" "value_size 4" "value_size 8"
  by (simp_all add: value_size_def)

lemma write_item_spec:
  assumes "blob_ok blob" "\<not> out_of_memory blob" "holds blob bs" "length bs + length (encode_item (length bs) it) \<le> 2 ^ 60"
    "realloc_aligned realloc"
  shows "\<exists>r blob'. write_item realloc it blob = Some (r, blob') \<and> appends blob bs (encode_item (length bs) it) realloc r blob'"
proof -
  note w = write_type_spec [OF assms(1-3) _ _ assms(5)] and b = write_bytes_spec [OF assms(1-3) _ assms(5)]
  note defs = blob_write_uint8_def blob_write_uint16_def blob_write_uint32_def blob_write_uint64_def blob_write_intptr_def blob_write_string_def
  show ?thesis
    using assms(4) by (cases it) (simp_all add: defs w b del: length_append append_assoc One_nat_def)
qed

lemma oom_write_item:
  assumes "out_of_memory blob" "blob_ok blob"
  shows "\<exists>r. write_item realloc it blob = Some (r, blob)"
proof -
  have w: "\<exists>r. blob_write_type n realloc blob v = Some (r, blob)" if "value_size n" for n v
    using oom_align [OF assms that, of realloc] oom_write_bytes [OF assms(1), of realloc] by (auto simp: blob_write_type_def)
  note defs = blob_write_uint8_def blob_write_uint16_def blob_write_uint32_def blob_write_uint64_def blob_write_intptr_def blob_write_string_def
  show ?thesis by (cases it) (auto simp: defs w oom_write_bytes [OF assms(1)] simp del: One_nat_def)
qed

lemma oom_write_items: "out_of_memory blob \<Longrightarrow> blob_ok blob \<Longrightarrow> write_items realloc items blob = Some blob"
proof (induction items)
  case (Cons it items)
  then show ?case using oom_write_item [of blob realloc it] by auto
qed simp

lemma write_items_spec:
  assumes "blob_ok blob" "\<not> out_of_memory blob" "holds blob bs" "length bs + length (encode_items (length bs) items) \<le> 2 ^ 60"
    "realloc_aligned realloc"
  shows "\<exists>r blob'. write_items realloc items blob = Some blob' \<and> appends blob bs (encode_items (length bs) items) realloc r blob'"
  using assms(1-4)
proof (induction items arbitrary: blob bs)
  case Nil
  have "length bs \<le> unat (allocated blob)" using Nil by (simp add: blob_ok_def holds_def word_le_nat_alt)
  then have "appends blob bs [] realloc True blob" using Nil by (simp add: appends_def)
  then show ?case by auto
next
  case (Cons it items)
  let ?x = "encode_item (length bs) it" and ?y = "encode_items (length bs + length (encode_item (length bs) it)) items"
  obtain r1 b1 where a: "write_item realloc it blob = Some (r1, b1)" "appends blob bs ?x realloc r1 b1"
    using write_item_spec [OF Cons.prems(1-3) _ assms(5), of it] Cons.prems(4) by auto
  show ?case
  proof (cases r1)
    case True
    have b1: "blob_ok b1" "\<not> out_of_memory b1" "holds b1 (bs @ ?x)" using a(2) True by (simp_all add: appends_def)
    obtain r b2 where "write_items realloc items b1 = Some b2" "appends b1 (bs @ ?x) (encode_items (length (bs @ ?x)) items) realloc r b2"
      using Cons.IH [OF b1] Cons.prems(4) by auto
    then show ?thesis using a True appends_trans by fastforce
  next
    case False
    have "write_items realloc items b1 = Some b1" using a(2) False by (intro oom_write_items) (simp_all add: appends_def)
    moreover have "appends blob bs (?x @ ?y) realloc False b1" using a(2) False by (intro appends_stop) simp
    ultimately show ?thesis using a(1) by auto
  qed
qed

section \<open>Reading back\<close>

datatype shape = Sh_u8 | Sh_u16 | Sh_u32 | Sh_u64 | Sh_intptr | Sh_raw nat | Sh_str

fun shape_of :: "blob_item \<Rightarrow> shape" where
  "shape_of (U8 v) = Sh_u8"
| "shape_of (U16 v) = Sh_u16"
| "shape_of (U32 v) = Sh_u32"
| "shape_of (U64 v) = Sh_u64"
| "shape_of (Intptr v) = Sh_intptr"
| "shape_of (Raw bytes) = Sh_raw (length bytes)"
| "shape_of (Str str) = Sh_str"

fun read_item :: "shape \<Rightarrow> blob_reader \<Rightarrow> (blob_item option \<times> blob_reader) option" where
  "read_item Sh_u8 r = map_option (apfst (\<lambda>v. Some (U8 v))) (blob_read_uint8 r)"
| "read_item Sh_u16 r = map_option (apfst (\<lambda>v. Some (U16 v))) (blob_read_uint16 r)"
| "read_item Sh_u32 r = map_option (apfst (\<lambda>v. Some (U32 v))) (blob_read_uint32 r)"
| "read_item Sh_u64 r = map_option (apfst (\<lambda>v. Some (U64 v))) (blob_read_uint64 r)"
| "read_item Sh_intptr r = map_option (apfst (\<lambda>v. Some (Intptr v))) (blob_read_intptr r)"
| "read_item (Sh_raw n) r = Some (apfst (map_option Raw) (blob_read_bytes r (of_nat n)))"
| "read_item Sh_str r = map_option (apfst (map_option Str)) (blob_read_string r)"

fun read_items :: "shape list \<Rightarrow> blob_reader \<Rightarrow> (blob_item option list \<times> blob_reader) option" where
  "read_items [] r = Some ([], r)"
| "read_items (sh # shs) r = do {
     (it, r) \<leftarrow> read_item sh r;
     (items, r) \<leftarrow> read_items shs r;
     Some (it # items, r) }"

fun item_ok :: "blob_item \<Rightarrow> bool" where
  "item_ok (Str str) \<longleftrightarrow> 0 \<notin> set str \<and> length str + 1 < 2 ^ 31"
| "item_ok _ \<longleftrightarrow> True"

text \<open>A reader that has consumed \<open>bs\<close> and has \<open>rest\<close> before it.\<close>

definition reads_at :: "blob_reader \<Rightarrow> u8 list \<Rightarrow> u8 list \<Rightarrow> bool" where
  "reads_at r bs rest \<longleftrightarrow> reader_data r = bs @ rest \<and> unat (reader_current r) = length bs \<and> \<not> overrun r \<and>
     length (bs @ rest) \<le> 2 ^ 60 \<and> 8 dvd unat (reader_address r) \<and> unat (reader_address r) + 8 \<le> 2 ^ 64"

lemma reads_at_simps:
  assumes "reads_at r bs rest"
  shows "reader_data r = bs @ rest" "unat (reader_current r) = length bs" "\<not> overrun r" "length bs + length rest \<le> 2 ^ 60"
    "unat (reader_end r) = length bs + length rest"
proof -
  show "reader_data r = bs @ rest" "unat (reader_current r) = length bs" "\<not> overrun r" "length bs + length rest \<le> 2 ^ 60"
    using assms by (simp_all add: reads_at_def)
  then have "unat (of_nat (length (bs @ rest)) :: u64) = length (bs @ rest)" by (intro unat_of_nat64) simp
  then show "unat (reader_end r) = length bs + length rest" using \<open>reader_data r = bs @ rest\<close> by (simp del: of_nat_add)
qed

lemma can_read:
  assumes "reads_at r bs rest" "n \<le> length rest"
  shows "ensure_can_read r (of_nat n) = (True, r)"
proof -
  note r = reads_at_simps [OF assms(1)]
  have le: "reader_current r \<le> reader_end r" using r by (simp add: word_le_nat_alt)
  have "unat (reader_end r - reader_current r) = length rest" using unat_sub_if' [of "reader_end r" "reader_current r"] le r by (simp add: word_le_nat_alt)
  moreover have "unat (of_nat n :: u64) = n" using assms(2) r(4) by (intro unat_of_nat64) simp
  ultimately show ?thesis using le assms(2) r(3) by (simp add: ensure_can_read_def word_le_nat_alt)
qed

lemma advance:
  assumes "reads_at r bs (xs @ rest)"
  shows "reads_at (r\<lparr>reader_current := reader_current r + of_nat (length xs)\<rparr>) (bs @ xs) rest"
  using assms size_plus [of "reader_current r" "length bs" "length xs"] by (simp add: reads_at_def)

lemma reader_aligned:
  assumes "8 dvd unat (a :: u64)" "unat a + 8 \<le> 2 ^ 64" "value_size n"
  shows "align64 a (ucast (of_nat n :: u64)) = a"
proof -
  have "n dvd unat a" using assms(1,3) by (auto simp: value_size_def intro: dvd_trans)
  then have "pad n (unat a) = 0" by (simp add: pad_def dvd_eq_mod_eq_0)
  then show ?thesis using align64_eq [OF assms(3,2)] by (simp add: word_unat_eq_iff)
qed

lemma read_type_spec:
  assumes r: "reads_at r bs (replicate (pad n (length bs)) 0 @ le_bytes n v @ rest)" and n: "value_size n"
  shows "\<exists>r'. blob_read_type n r = Some (take_bit (8 * n) v, r') \<and>
    reads_at r' (bs @ replicate (pad n (length bs)) 0 @ le_bytes n v) rest"
proof -
  let ?p = "replicate (pad n (length bs)) 0 :: u8 list" and ?cur = "align64 (reader_current r) (ucast (of_nat n :: u64))"
  note f = reads_at_simps [OF r]
  have addr: "align64 (reader_address r) (ucast (of_nat n :: u64)) = reader_address r"
    using r n by (intro reader_aligned) (simp_all add: reads_at_def)
  have "unat ?cur = length bs + pad n (length bs)" using align64_eq [OF n, of "reader_current r"] f(2,4) by simp
  then have "?cur = reader_current r + of_nat (length ?p)"
    using size_plus [OF f(2), of "length ?p"] f(4) by (simp add: word_unat_eq_iff)
  then have a: "reads_at (r\<lparr>reader_current := ?cur\<rparr>) (bs @ ?p) (le_bytes n v @ rest)" using advance [OF r] by simp
  let ?r = "r\<lparr>reader_current := ?cur\<rparr>"
  have "ensure_can_read ?r (of_nat n) = (True, ?r)" by (rule can_read [OF a]) simp
  moreover have "take n (drop (unat ?cur) (reader_data r)) = le_bytes n v"
    using reads_at_simps(1,2) [OF a] by simp
  ultimately have "blob_read_type n r = Some (take_bit (8 * n) v, ?r\<lparr>reader_current := ?cur + of_nat n\<rparr>)"
    using addr by (simp add: blob_read_type_def blob_reader_align_def from_le_le_bytes)
  moreover have "reads_at (?r\<lparr>reader_current := ?cur + of_nat n\<rparr>) ((bs @ ?p) @ le_bytes n v) rest" using advance [OF a] by simp
  ultimately show ?thesis by (intro exI [of _ "?r\<lparr>reader_current := ?cur + of_nat n\<rparr>"]) simp
qed

lemma read_bytes_spec:
  assumes "reads_at r bs (xs @ rest)"
  shows "\<exists>r'. blob_read_bytes r (of_nat (length xs)) = (Some xs, r') \<and> reads_at r' (bs @ xs) rest"
proof -
  note f = reads_at_simps [OF assms]
  have "unat (of_nat (length xs) :: u64) = length xs" using f(4) by (intro unat_of_nat64) simp
  then show ?thesis using can_read [OF assms, of "length xs"] advance [OF assms] f(1,2) by (simp add: blob_read_bytes_def)
qed

lemma string_size:
  assumes "k < 2 ^ 31"
  shows "(scast (of_nat k :: u32) :: u64) = of_nat k"
proof -
  have "uint (of_nat k :: u32) = int k" using assms by (simp add: uint_nat unat_of_nat)
  then have "sint (of_nat k :: u32) = int k" using assms by (simp add: sint_uint signed_take_bit_int_eq_self)
  then show ?thesis by (simp add: scast_eq)
qed

lemma read_string_spec:
  assumes r: "reads_at r bs (str @ [0] @ rest)" and ok: "0 \<notin> set str" "length str + 1 < 2 ^ 31"
  shows "\<exists>r'. blob_read_string r = Some (Some str, r') \<and> reads_at r' (bs @ str @ [0]) rest"
proof -
  note f = reads_at_simps [OF r]
  have "takeWhile (\<lambda>b. b \<noteq> 0) (str @ [0] @ rest) = str" using ok(1) by (subst takeWhile_append2) auto
  moreover have "\<not> reader_current r \<ge> reader_end r" using f(2,5) by (simp add: word_le_nat_alt)
  moreover have "ensure_can_read r (of_nat (length str + 1)) = (True, r)" by (rule can_read [OF r]) simp
  moreover have "reads_at (r\<lparr>reader_current := reader_current r + of_nat (length (str @ [0 :: u8]))\<rparr>) (bs @ str @ [0]) rest"
    using advance [of r bs "str @ [0]" rest] r by simp
  ultimately show ?thesis using f(1,2) string_size [OF ok(2)] by (simp add: blob_read_string_def)
qed

lemma ucast_back [simp]:
  "ucast (take_bit 8 (ucast (x :: u8) :: u64)) = x" "ucast (take_bit 16 (ucast (y :: u16) :: u64)) = y"
  "ucast (take_bit 32 (ucast (z :: u32) :: u64)) = z" "take_bit 64 (w :: u64) = w"
  by (rule bit_word_eqI; simp add: bit_simps)+

lemma read_item_spec:
  assumes r: "reads_at r bs (encode_item (length bs) it @ rest)" and ok: "item_ok it"
  shows "\<exists>r'. read_item (shape_of it) r = Some (Some it, r') \<and> reads_at r' (bs @ encode_item (length bs) it) rest"
proof -
  note defs = blob_read_uint8_def blob_read_uint16_def blob_read_uint32_def blob_read_uint64_def blob_read_intptr_def
  have t: "\<exists>r'. blob_read_type n r = Some (take_bit (8 * n) v, r') \<and> reads_at r' (bs @ encode_item (length bs) it) rest"
    if "value_size n" "encode_item (length bs) it = replicate (pad n (length bs)) 0 @ le_bytes n v" for n v
    using read_type_spec [of r bs n v rest] that r by simp
  show ?thesis
  proof (cases it)
    case (U8 v) then show ?thesis using t [of 1 "ucast v"] by (auto simp: defs)
  next
    case (U16 v) then show ?thesis using t [of 2 "ucast v"] by (auto simp: defs)
  next
    case (U32 v) then show ?thesis using t [of 4 "ucast v"] by (auto simp: defs)
  next
    case (U64 v) then show ?thesis using t [of 8 v] by (auto simp: defs)
  next
    case (Intptr v) then show ?thesis using t [of 8 v] by (auto simp: defs)
  next
    case (Raw xs) then show ?thesis using read_bytes_spec [of r bs xs rest] r by auto
  next
    case (Str str) then show ?thesis using read_string_spec [of r bs str rest] r ok by auto
  qed
qed

lemma read_items_spec:
  assumes "reads_at r bs (encode_items (length bs) items @ rest)" "list_all item_ok items"
  shows "\<exists>r'. read_items (map shape_of items) r = Some (map Some items, r') \<and> reads_at r' (bs @ encode_items (length bs) items) rest"
  using assms
proof (induction items arbitrary: r bs)
  case (Cons it items)
  let ?x = "encode_item (length bs) it"
  obtain r1 where r1: "read_item (shape_of it) r = Some (Some it, r1)" "reads_at r1 (bs @ ?x) (encode_items (length bs + length ?x) items @ rest)"
    using read_item_spec [of r bs it "encode_items (length bs + length ?x) items @ rest"] Cons.prems by auto
  then show ?case using Cons.IH [of r1 "bs @ ?x"] Cons.prems(2) by fastforce
qed auto

section \<open>Whole blobs\<close>

lemma written_to_growing:
  assumes "realloc_aligned realloc" "\<forall>n. realloc n \<noteq> None" "length (encode_items 0 items) \<le> 2 ^ 60"
  shows "\<exists>blob. write_items realloc items blob_init = Some blob \<and> \<not> out_of_memory blob \<and> holds blob (encode_items 0 items) \<and>
    \<not> fixed_allocation blob"
proof -
  have "blob_ok blob_init" "\<not> out_of_memory blob_init" "holds blob_init []" "\<not> fixed_allocation blob_init"
    by (simp_all add: blob_ok_def blob_init_def holds_def)
  then show ?thesis using write_items_spec [of blob_init "[]" items realloc] assms by (auto simp: appends_def)
qed

lemma written_to_fixed:
  assumes "blob_ok (blob_init_fixed mem n)" "length (encode_items 0 items) \<le> 2 ^ 60" "realloc_aligned realloc"
  shows "\<exists>blob. write_items realloc items (blob_init_fixed mem n) = Some blob \<and>
    (out_of_memory blob \<longleftrightarrow> unat n < length (encode_items 0 items)) \<and> allocated blob = n \<and> blob_size blob \<le> n \<and>
    (\<not> out_of_memory blob \<longrightarrow> holds blob (encode_items 0 items))"
proof -
  let ?blob = "blob_init_fixed mem n"
  have f: "\<not> out_of_memory ?blob" "holds ?blob []" "fixed_allocation ?blob" "allocated ?blob = n"
    by (simp_all add: blob_init_fixed_def holds_def split: option.splits)
  obtain r blob where b: "write_items realloc items ?blob = Some blob" "appends ?blob [] (encode_items 0 items) realloc r blob"
    using write_items_spec [OF assms(1) f(1,2), of items realloc] assms(2,3) by auto
  moreover from b(2) f(3,4) have "allocated blob = n" "out_of_memory blob \<longleftrightarrow> unat n < length (encode_items 0 items)" "blob_size blob \<le> n"
    by (auto simp: appends_def blob_ok_def)
  ultimately show ?thesis by (auto simp: appends_def)
qed

text \<open>A reserved place is filled in later; the bytes around it stay.\<close>

lemma overwrite_spec:
  assumes "holds blob bs" "blob_data blob = Some cells" "length bs \<le> length cells" "length bs \<le> 2 ^ 60"
    "unat offset + length xs \<le> length bs"
  shows "\<exists>blob'. blob_overwrite_bytes blob offset xs = Some (True, blob') \<and>
    holds blob' (take (unat offset) bs @ xs @ drop (unat offset + length xs) bs)"
proof -
  let ?new = "take (unat offset) cells @ map Some xs @ drop (unat offset + length xs) cells"
  have sz: "unat (blob_size blob) = length bs" and cells: "take (length bs) cells = map Some bs" using assms(1,2) by (simp_all add: holds_def)
  have e: "unat (offset + of_nat (length xs)) = unat offset + length xs"
    using size_plus [of offset "unat offset" "length xs"] assms(4,5) by simp
  have "blob_overwrite_bytes blob offset xs = Some (True, blob\<lparr>blob_data := Some ?new\<rparr>)"
    using assms(2,3,5) e sz by (simp add: blob_overwrite_bytes_def put_bytes_def word_less_nat_alt)
  moreover have "take (length bs) ?new = map Some (take (unat offset) bs @ xs @ drop (unat offset + length xs) bs)"
  proof -
    have "take (unat offset) cells = map Some (take (unat offset) bs)"
      using arg_cong [OF cells, of "take (unat offset)"] assms(5) by (simp add: take_map min_absorb1)
    moreover have "take (length bs - (unat offset + length xs)) (drop (unat offset + length xs) cells) = map Some (drop (unat offset + length xs) bs)"
      using arg_cong [OF cells, of "drop (unat offset + length xs)"] by (simp add: drop_map drop_take)
    ultimately show ?thesis using assms(3,5) by (simp add: min_absorb1)
  qed
  ultimately show ?thesis using sz assms(5) by (auto simp: holds_def)
qed

lemma overrun_string:
  assumes "overrun r" "reader_current r < reader_end r" "0 \<in> set (drop (unat (reader_current r)) (reader_data r))"
  shows "blob_read_string r = None \<and> blob_read_bytes r n = (None, r)"
proof -
  let ?rest = "drop (unat (reader_current r)) (reader_data r)"
  have "takeWhile (\<lambda>b. b \<noteq> 0) ?rest \<noteq> ?rest" using assms(3) by (auto simp: takeWhile_eq_all_conv)
  then have "length (takeWhile (\<lambda>b. b \<noteq> 0) ?rest) \<noteq> length ?rest" by (metis takeWhile_eq_take take_all_iff order_refl)
  then show ?thesis using assms(1,2) by (simp add: blob_read_string_def blob_read_bytes_def ensure_can_read_def not_le [symmetric] Let_def)
qed

end
