(* ===== verification/Util_Properties.thy ===== *)
theory Util_Properties
  imports Vma_Correct Idalloc_Correct Blob_Correct
begin

text \<open>The properties of the address space allocator, the id allocator and the serialisation buffers.\<close>

section \<open>Address space\<close>

text \<open>
  C5: On a well-formed heap an allocation always returns. It returns zero only when no aligned range of the size is free
  and then leaves the heap alone. Otherwise it returns the highest such address (the lowest when \<^verbatim>\<open>alloc_high\<close> is off), and
  exactly that range stops being free.
\<close>

theorem vma_alloc_takes_best_range:
  assumes "heap_ok heap" "0 < sz" "0 < al"
  shows "\<exists>p heap'. util_vma_heap_alloc True heap sz al = Some (p, heap') \<and>
    (if p = 0 then heap' = heap \<and> (\<forall>a. \<not> fits (free_set heap) (unat sz) (unat al) a)
     else heap_ok heap' \<and> alloc_high heap' = alloc_high heap \<and> fits (free_set heap) (unat sz) (unat al) (unat p) \<and>
       (\<forall>a. fits (free_set heap) (unat sz) (unat al) a \<longrightarrow> (if alloc_high heap then a \<le> unat p else unat p \<le> a)) \<and>
       free_set heap' = free_set heap - {unat p..<unat p + unat sz})"
  by (rule heap_alloc_spec [OF assms])

theorem vma_alloc_takes_best_range_witness:
  "\<exists>p heap'. util_vma_heap_alloc True \<lparr>holes = [\<lparr>hole_offset = 0x1000, hole_size = - 0x1000\<rparr>], alloc_high = True\<rparr> 100 16 = Some (p, heap') \<and>
    (p \<noteq> 0 \<longrightarrow> unat p mod 16 = 0)"
  using vma_alloc_takes_best_range [of "\<lparr>holes = [\<lparr>hole_offset = 0x1000, hole_size = - 0x1000\<rparr>], alloc_high = True\<rparr>" 100 16]
  by (fastforce simp: heap_ok_def fits_def dvd_eq_mod_eq_0 split: if_splits)

text \<open>
  C19: Freeing a range of addresses succeeds exactly when no address of it is free already: then the heap stays well formed
  and the range becomes free, merged with its neighbours. A range of which some part is free fails an assertion.
\<close>

theorem vma_free_iff_allocated:
  assumes "heap_ok heap" "0 < offset" "0 < sz" "unat offset + unat sz \<le> 2 ^ 64"
  shows "if {unat offset..<unat offset + unat sz} \<inter> free_set heap = {}
    then \<exists>heap'. util_vma_heap_free True heap offset sz = Some heap' \<and> heap_ok heap' \<and> alloc_high heap' = alloc_high heap \<and>
      free_set heap' = free_set heap \<union> {unat offset..<unat offset + unat sz}
    else util_vma_heap_free True heap offset sz = None"
  by (rule heap_free_spec [OF assms])

theorem vma_free_iff_allocated_witness:
  "util_vma_heap_free True \<lparr>holes = [\<lparr>hole_offset = 64, hole_size = 32\<rparr>], alloc_high = True\<rparr> 48 20 = None"
proof -
  have "(64 :: nat) \<in> {48..<48 + 20} \<inter> {64..<64 + 32}" by simp
  then show ?thesis
    using vma_free_iff_allocated [of "\<lparr>holes = [\<lparr>hole_offset = 64, hole_size = 32\<rparr>], alloc_high = True\<rparr>" 48 20]
    by (auto simp: heap_ok_def split: if_splits)
qed

text \<open>
  C14: A heap refines the set of its free addresses: any sequence of allocations returns and yields pairwise disjoint ranges
  of free addresses, and freeing them all gives a well-formed heap with the free addresses of the start.
\<close>

theorem vma_allocate_then_release:
  assumes "heap_ok h" "list_all (\<lambda>(sz, al). 0 < sz \<and> 0 < al) reqs"
  shows "\<exists>live h1 h2. allocate_all (util_vma_heap_alloc True) h reqs = Some (live, h1) \<and> separate live \<and> addrs live \<subseteq> free_set h \<and>
    release_all (util_vma_heap_free True) h1 live = Some h2 \<and> heap_ok h2 \<and> free_set h2 = free_set h"
  by (rule vma.allocate_then_release [OF assms])

theorem vma_allocate_then_release_witness:
  "\<exists>live h1 h2. allocate_all (util_vma_heap_alloc True) \<lparr>holes = [\<lparr>hole_offset = 0x1000, hole_size = 0x10000\<rparr>], alloc_high = False\<rparr>
      [(100, 16), (0x20000, 1), (1, 4096)] = Some (live, h1) \<and> separate live \<and>
    release_all (util_vma_heap_free True) h1 live = Some h2 \<and> free_set h2 = {0x1000..<0x11000}"
  using vma_allocate_then_release [of "\<lparr>holes = [\<lparr>hole_offset = 0x1000, hole_size = 0x10000\<rparr>], alloc_high = False\<rparr>"
      "[(100, 16), (0x20000, 1), (1, 4096)]"]
  by (auto simp: heap_ok_def)

section \<open>Ids\<close>

text \<open>
  C13: In an id allocator reached from its initialisation by allocations, range allocations, frees and reservations, an
  allocation below the limit of \<open>2\<^sup>3\<^sup>1\<close> ids returns the lowest id that is not in use and marks exactly it.
\<close>

theorem idalloc_returns_lowest_unused:
  assumes "idalloc_reachable buf" "num_elements buf < 2 ^ 26"
  shows "\<exists>n buf'. util_idalloc_alloc True buf = Some (n, buf') \<and> unat n \<notin> used buf \<and> (\<forall>m. m \<notin> used buf \<longrightarrow> unat n \<le> m) \<and>
    used buf' = insert (unat n) (used buf)"
  using alloc_spec [OF idalloc_reachable_ok [OF assms(1)] assms(2)] by blast

theorem idalloc_returns_lowest_unused_witness:
  "\<exists>n buf'. util_idalloc_alloc True \<lparr>data = [0, 0], lowest_free_idx = 0\<rparr> = Some (n, buf') \<and> unat n \<notin> ids [0, 0]"
proof -
  have "util_idalloc_init True 40 = Some \<lparr>data = [0, 0], lowest_free_idx = 0\<rparr>"
    by (simp add: util_idalloc_init_def DIV_ROUND_UP_def util_idalloc_resize_def) (simp add: numeral_2_eq_2)
  then have "idalloc_reachable \<lparr>data = [0, 0], lowest_free_idx = 0\<rparr>" by (intro idalloc_reachable.init [of 40]) simp_all
  then show ?thesis using idalloc_returns_lowest_unused [of "\<lparr>data = [0, 0], lowest_free_idx = 0\<rparr>"] by auto
qed

text \<open>
  C37: When all \<open>2\<^sup>3\<^sup>2\<close> ids are in use, the next id wraps around: the allocation returns the id zero a second time.
\<close>

theorem idalloc_exhausted_repeats_id:
  fixes buf :: util_idalloc
  assumes "data buf = replicate (2 ^ 27) 0xffffffff" "lowest_free_idx buf \<le> 2 ^ 27"
  shows "\<exists>buf'. util_idalloc_alloc True buf = Some (0, buf') \<and> 0 \<in> used buf"
  by (rule exhausted_wraps [OF assms])

theorem idalloc_exhausted_repeats_id_witness:
  "\<exists>buf buf'. lowest_free_idx buf = 0 \<and> util_idalloc_alloc True buf = Some (0, buf') \<and> 0 \<in> used buf"
proof -
  let ?buf = "\<lparr>data = replicate (2 ^ 27) 0xffffffff, lowest_free_idx = 0\<rparr> :: util_idalloc"
  have l: "lowest_free_idx ?buf = 0" by (rule util_idalloc.select_convs)
  have "lowest_free_idx ?buf \<le> 2 ^ 27" unfolding l by (rule zero_le)
  from idalloc_exhausted_repeats_id [OF util_idalloc.select_convs(1) this] l show ?thesis by blast
qed

section \<open>Serialisation\<close>

text \<open>
  C6: Values written to a growing blob, taken out as a buffer and read in the same order come back unchanged, with the reader
  at the end of the buffer and no overrun. Strings have no zero byte and a length that an \<^verbatim>\<open>int\<close> holds.
\<close>

theorem blob_items_read_back:
  assumes "realloc_aligned realloc" "\<forall>n. realloc n \<noteq> None" "list_all item_ok items" "length (encode_items 0 items) \<le> 2 ^ 60"
    "8 dvd unat a" "unat a + 8 \<le> 2 ^ 64"
  shows "\<exists>blob bytes r. write_items realloc items blob_init = Some blob \<and> \<not> out_of_memory blob \<and>
    fst (blob_finish_get_buffer realloc blob) = Some (map Some bytes) \<and>
    read_items (map shape_of items) (blob_reader_init bytes a) = Some (map Some items, r) \<and>
    \<not> overrun r \<and> reader_current r = reader_end r"
proof -
  let ?bytes = "encode_items 0 items"
  obtain blob where b: "write_items realloc items blob_init = Some blob" "\<not> out_of_memory blob" "holds blob ?bytes" "\<not> fixed_allocation blob"
    using written_to_growing [OF assms(1,2,4)] by blast
  moreover have "reads_at (blob_reader_init ?bytes a) [] (encode_items (length []) items @ [])"
    using assms(4-6) by (simp add: reads_at_def blob_reader_init_def)
  then obtain r where r: "read_items (map shape_of items) (blob_reader_init ?bytes a) = Some (map Some items, r)" "reads_at r ?bytes []"
    using read_items_spec [OF _ assms(3)] by fastforce
  moreover have "fst (blob_finish_get_buffer realloc blob) = Some (map Some ?bytes)"
    using assms(2) b by (auto simp: blob_finish_get_buffer_def holds_def split: option.splits)
  moreover have "\<not> overrun r" "reader_current r = reader_end r" using reads_at_simps(2,3,5) [OF r(2)] by (auto simp: word_unat_eq_iff)
  ultimately show ?thesis by blast
qed

theorem blob_items_read_back_witness:
  "\<exists>blob bytes r. write_items (\<lambda>_. Some 64) [U8 7, U32 0xdeadbeef, Str [104, 105], U64 1] blob_init = Some blob \<and>
    fst (blob_finish_get_buffer (\<lambda>_. Some 64) blob) = Some (map Some bytes) \<and>
    read_items [Sh_u8, Sh_u32, Sh_str, Sh_u64] (blob_reader_init bytes 64) =
      Some ([Some (U8 7), Some (U32 0xdeadbeef), Some (Str [104, 105]), Some (U64 1)], r)"
  using blob_items_read_back [of "\<lambda>_. Some 64" "[U8 7, U32 0xdeadbeef, Str [104, 105], U64 1]" 64]
  by (auto simp: realloc_aligned_def pad_def)

text \<open>
  C29: A blob over memory of a fixed size, or over no memory at all to measure a serialisation, reports that memory ran out
  exactly when the values with their padding do not fit, and never stores beyond its size. Otherwise its size is that of
  the values.
\<close>

theorem blob_fixed_runs_out_iff_too_long:
  assumes "blob_ok (blob_init_fixed mem n)" "length (encode_items 0 items) \<le> 2 ^ 60" "realloc_aligned realloc"
  shows "\<exists>blob. write_items realloc items (blob_init_fixed mem n) = Some blob \<and>
    (out_of_memory blob \<longleftrightarrow> unat n < length (encode_items 0 items)) \<and> allocated blob = n \<and> blob_size blob \<le> n \<and>
    (\<not> out_of_memory blob \<longrightarrow> unat (blob_size blob) = length (encode_items 0 items))"
  using written_to_fixed [OF assms] by (auto simp: holds_def)

theorem blob_fixed_runs_out_iff_too_long_witness:
  "\<exists>blob. write_items (\<lambda>_. None) [U8 7, U32 5] (blob_init_fixed (Some (replicate 7 None, 64)) 7) = Some blob \<and> out_of_memory blob"
  using blob_fixed_runs_out_iff_too_long [of "Some (replicate 7 None, 64)" 7 "[U8 7, U32 5]" "\<lambda>_. None"]
  by (auto simp: blob_ok_def blob_init_fixed_def realloc_aligned_def pad_def)

text \<open>
  C36: After an earlier read ran over the end, reading a string that is still there fails the assertion, where every other
  read returns zero or the null pointer.
\<close>

theorem string_read_after_overrun_aborts:
  assumes "overrun r" "reader_current r < reader_end r" "0 \<in> set (drop (unat (reader_current r)) (reader_data r))"
  shows "blob_read_string r = None \<and> blob_read_bytes r n = (None, r)"
  by (rule overrun_string [OF assms])

theorem string_read_after_overrun_aborts_witness:
  "blob_read_uint32 (blob_reader_init [104, 105, 0] 64) = Some (0, (blob_reader_init [104, 105, 0] 64)\<lparr>overrun := True\<rparr>) \<and>
   blob_read_string ((blob_reader_init [104, 105, 0] 64)\<lparr>overrun := True\<rparr>) = None"
proof
  show "blob_read_uint32 (blob_reader_init [104, 105, 0] 64) = Some (0, (blob_reader_init [104, 105, 0] 64)\<lparr>overrun := True\<rparr>)"
    by (simp add: blob_read_uint32_def blob_read_type_def blob_reader_align_def align64_def ensure_can_read_def blob_reader_init_def)
  show "blob_read_string ((blob_reader_init [104, 105, 0] 64)\<lparr>overrun := True\<rparr>) = None"
    using string_read_after_overrun_aborts [of "(blob_reader_init [104, 105, 0] 64)\<lparr>overrun := True\<rparr>"] by (simp add: blob_reader_init_def)
qed

end
