(* ===== verification/Fast_Idiv.thy ===== *)
theory Fast_Idiv
  imports Prelude
begin

text \<open>
  Division by a constant through a multiplication (\<^verbatim>\<open>fast_idiv_by_const.c\<close>): the computation of the magic numbers
  for unsigned and signed division, and the code sequences that use them. Bit counts and shift counts are natural numbers; a
  shift by the width of its operand or more is undefined.
\<close>

section \<open>Powers of two\<close>

definition util_is_power_of_two_or_zero64 :: "u64 \<Rightarrow> bool" where
  "util_is_power_of_two_or_zero64 v \<longleftrightarrow> v AND (v - 1) = 0"

text \<open>The variant without a built-in: binary search with steps of 32, 16, 8, 4, 2 and 1 bits.\<close>

fun log_step :: "nat \<Rightarrow> u64 \<times> nat \<Rightarrow> u64 \<times> nat" where
  "log_step k (n, pos) = (if n \<ge> push_bit k 1 then (drop_bit k n, pos + k) else (n, pos))"

declare log_step.simps [simp del]

definition util_logbase2_64 :: "u64 \<Rightarrow> nat" where
  "util_logbase2_64 n = snd (log_step 1 (log_step 2 (log_step 4 (log_step 8 (log_step 16 (log_step 32 (n, 0)))))))"

definition u_uintN_max :: "nat \<Rightarrow> u64" where
  "u_uintN_max bit_size = drop_bit (64 - bit_size) (- 1)"

section \<open>Unsigned magic numbers\<close>

record util_fast_udiv_info =
  multiplier :: u64
  pre_shift :: nat
  post_shift :: nat
  increment :: nat

text \<open>The loop that counts the bits of the divisor.\<close>

function ceil_log_2 :: "u64 \<Rightarrow> nat \<Rightarrow> nat" where
  "ceil_log_2 tmp n = (if tmp > 0 then ceil_log_2 (drop_bit 1 tmp) (n + 1) else n)"
  by pat_completeness auto
termination
  by (relation "measure (\<lambda>(tmp, n). unat tmp)") (simp_all add: unat_drop_bit_div word_less_nat_alt)

declare ceil_log_2.simps [simp del]

text \<open>Quotient and remainder of the next power of two.\<close>

definition next_power :: "u64 \<Rightarrow> u64 \<Rightarrow> u64 \<Rightarrow> u64 \<times> u64" where
  "next_power D quot rmdr =
     (if rmdr \<ge> D - rmdr then (quot * 2 + 1, rmdr * 2 - D) else (quot * 2, rmdr * 2))"

text \<open>
  The loop over the exponents: the exponent it stops at, the quotient there, and the multiplier and exponent of the
  variant that rounds down, once they are found.
\<close>

function udiv_loop :: "u64 \<Rightarrow> nat \<Rightarrow> nat \<Rightarrow> nat \<Rightarrow> u64 \<Rightarrow> u64 \<Rightarrow> (u64 \<times> nat) option \<Rightarrow> nat \<times> u64 \<times> (u64 \<times> nat) option" where
  "udiv_loop D ceil_log_2_D extra_shift exponent quot rmdr down =
     (let (quot, rmdr) = next_power D quot rmdr
      in if exponent + extra_shift \<ge> ceil_log_2_D \<or> D - rmdr \<le> push_bit (exponent + extra_shift) 1
         then (exponent, quot, down)
         else udiv_loop D ceil_log_2_D extra_shift (exponent + 1) quot rmdr
                (if down = None \<and> rmdr \<le> push_bit (exponent + extra_shift) 1 then Some (quot, exponent) else down))"
  by pat_completeness auto
termination
  by (relation "measure (\<lambda>(D, l, x, e, q, r, down). l - (e + x))") auto

declare udiv_loop.simps [simp del]

text \<open>Shifting out the low zero bits; the fuel is the number of bits.\<close>

fun strip_even :: "nat \<Rightarrow> u64 \<Rightarrow> nat \<Rightarrow> (u64 \<times> nat) option" where
  "strip_even 0 shifted_D pre = None"
| "strip_even (Suc fuel) shifted_D pre =
     (if shifted_D AND 1 = 0 then strip_even fuel (drop_bit 1 shifted_D) (pre + 1) else Some (shifted_D, pre))"

lemma and_one_even: "(d :: u64) AND 1 = 0 \<longleftrightarrow> even (unat d)"
  by (simp add: and_one_eq even_iff_mod_2_eq_zero flip: unat_eq_0) (simp add: unat_mod)

lemma strip_even_spec:
  assumes "strip_even fuel d p = Some (d', p')"
  shows "p \<le> p' \<and> unat d = unat d' * 2 ^ (p' - p) \<and> odd (unat d')"
  using assms
proof (induction fuel arbitrary: d p)
  case (Suc fuel)
  show ?case
  proof (cases "d AND 1 = 0")
    case True
    then have "p + 1 \<le> p' \<and> unat d div 2 = unat d' * 2 ^ (p' - (p + 1)) \<and> odd (unat d')" "even (unat d)"
      using Suc.IH [of "drop_bit 1 d" "p + 1"] Suc.prems by (simp_all add: unat_drop_bit_div and_one_even)
    moreover have "unat d = 2 * (unat d div 2)" using calculation(2) by (rule even_two_times_div_two [symmetric])
    moreover have "p' - p = Suc (p' - (p + 1))" using calculation(1) by linarith
    ultimately show ?thesis by (metis add_leD1 mult.left_commute power_Suc)
  qed (use Suc.prems in \<open>simp add: and_one_even\<close>)
qed simp

lemma strip_even_less:
  assumes s: "strip_even 64 D 0 = Some (shifted_D, pre)" and even: "D AND 1 = 0"
  shows "unat shifted_D < unat D"
proof -
  have "unat D = unat shifted_D * 2 ^ pre" "odd (unat shifted_D)" using strip_even_spec [OF s] by simp_all
  moreover from this have "pre \<noteq> 0" using even by (cases pre) (auto simp: and_one_even)
  ultimately show ?thesis using one_less_power [of "2 :: nat" pre] by (cases "unat shifted_D = 0") auto
qed

function util_compute_fast_udiv_info :: "u64 \<Rightarrow> nat \<Rightarrow> nat \<Rightarrow> util_fast_udiv_info option" where
  "util_compute_fast_udiv_info D num_bits UINT_BITS =
     (if \<not> (num_bits > 0 \<and> num_bits \<le> UINT_BITS \<and> D \<noteq> 0 \<and> UINT_BITS \<le> 64) then None
      else if util_is_power_of_two_or_zero64 D
      then let div_shift = util_logbase2_64 D
           in if div_shift \<noteq> 0
              then if div_shift \<le> UINT_BITS
                   then Some \<lparr>multiplier = push_bit (UINT_BITS - div_shift) 1, pre_shift = 0, post_shift = 0, increment = 0\<rparr>
                   else None
              else Some \<lparr>multiplier = u_uintN_max UINT_BITS, pre_shift = 0, post_shift = 0, increment = 1\<rparr>
      else
        let extra_shift = UINT_BITS - num_bits;
            initial_power_of_2 = push_bit (UINT_BITS - 1) 1;
            ceil_log_2_D = ceil_log_2 D 0;
            (exponent, quot, down) =
              udiv_loop D ceil_log_2_D extra_shift 0 (initial_power_of_2 div D) (initial_power_of_2 mod D) None
        in if exponent < ceil_log_2_D
           then Some \<lparr>multiplier = quot + 1, pre_shift = 0, post_shift = exponent, increment = 0\<rparr>
           else if D AND 1 \<noteq> 0
           then case down of
                  None \<Rightarrow> None
                | Some (down_multiplier, down_exponent) \<Rightarrow>
                    Some \<lparr>multiplier = down_multiplier, pre_shift = 0, post_shift = down_exponent, increment = 1\<rparr>
           else case strip_even 64 D 0 of
                  None \<Rightarrow> None
                | Some (shifted_D, pre) \<Rightarrow>
                    (case util_compute_fast_udiv_info shifted_D (num_bits - pre) UINT_BITS of
                       None \<Rightarrow> None
                     | Some result \<Rightarrow>
                         if increment result = 0 \<and> pre_shift result = 0 then Some (result\<lparr>pre_shift := pre\<rparr>) else None))"
  by pat_completeness auto
termination
  by (relation "measure (\<lambda>(D, n, w). unat D)") (auto dest: strip_even_less)

declare util_compute_fast_udiv_info.simps [simp del]

section \<open>Unsigned division\<close>

definition util_fast_udiv32 :: "u32 \<Rightarrow> util_fast_udiv_info \<Rightarrow> u32" where
  "util_fast_udiv32 n info =
     (let n = drop_bit (pre_shift info) n;
          n = (ucast (drop_bit 32 ((ucast n + of_nat (increment info)) * multiplier info :: u64)) :: u32)
      in drop_bit (post_shift info) n)"

definition util_fast_udiv32_nuw :: "u32 \<Rightarrow> util_fast_udiv_info \<Rightarrow> u32 option" where
  "util_fast_udiv32_nuw n info = do {
     c_assert (n \<noteq> - 1);
     let n = drop_bit (pre_shift info) n;
         n = n + of_nat (increment info);
         n = (ucast (drop_bit 32 (ucast n * multiplier info :: u64)) :: u32)
     in Some (drop_bit (post_shift info) n) }"

definition util_fast_udiv32_u31_d_not_one :: "u32 \<Rightarrow> util_fast_udiv_info \<Rightarrow> u32 option" where
  "util_fast_udiv32_u31_d_not_one n info = do {
     c_assert (pre_shift info = 0);
     c_assert (increment info = 0);
     let n = (ucast (drop_bit 32 (ucast n * multiplier info :: u64)) :: u32)
     in Some (drop_bit (post_shift info) n) }"

section \<open>Signed magic numbers\<close>

text \<open>A 64-bit word stands for an \<^verbatim>\<open>int64_t\<close> too; \<open>sint\<close> reads it.\<close>

record util_fast_sdiv_info =
  s_multiplier :: u64
  s_shift :: nat

definition sign_extend :: "u64 \<Rightarrow> nat \<Rightarrow> u64" where
  "sign_extend x SINT_BITS = signed_drop_bit (64 - SINT_BITS) (push_bit (64 - SINT_BITS) x)"

text \<open>Quotient and remainder of the doubled dividend.\<close>

definition double_div :: "u64 \<Rightarrow> u64 \<Rightarrow> u64 \<Rightarrow> u64 \<times> u64" where
  "double_div D quot rmdr =
     (let quot = quot * 2; rmdr = rmdr * 2 in if rmdr \<ge> D then (quot + 1, rmdr - D) else (quot, rmdr))"

text \<open>The loop gives the exponent and the quotient by the divisor; without fuel left it has not ended.\<close>

fun sdiv_loop :: "nat \<Rightarrow> u64 \<Rightarrow> u64 \<Rightarrow> nat \<Rightarrow> u64 \<Rightarrow> u64 \<Rightarrow> u64 \<Rightarrow> u64 \<Rightarrow> (nat \<times> u64) option" where
  "sdiv_loop 0 abs_d abs_test_numer exponent quot1 rmdr1 quot2 rmdr2 = None"
| "sdiv_loop (Suc fuel) abs_d abs_test_numer exponent quot1 rmdr1 quot2 rmdr2 =
     (let exponent = exponent + 1;
          (quot1, rmdr1) = double_div abs_test_numer quot1 rmdr1;
          (quot2, rmdr2) = double_div abs_d quot2 rmdr2;
          delta = abs_d - rmdr2
      in if quot1 < delta \<or> quot1 = delta \<and> rmdr1 = 0
         then sdiv_loop fuel abs_d abs_test_numer exponent quot1 rmdr1 quot2 rmdr2
         else Some (exponent, quot2))"

definition util_compute_fast_sdiv_info :: "u64 \<Rightarrow> nat \<Rightarrow> util_fast_sdiv_info option" where
  "util_compute_fast_sdiv_info D SINT_BITS = do {
     c_assert (D \<noteq> 0);
     c_assert (D \<noteq> 1 \<and> D \<noteq> - 1);
     c_assert (0 < SINT_BITS \<and> SINT_BITS \<le> 64);
     let abs_d = (if sint D < 0 then - D else D);
         initial_power_of_2 = push_bit (SINT_BITS - 1) 1;
         tmp = initial_power_of_2 + (if sint D < 0 then 1 else 0);
         abs_test_numer = tmp - 1 - tmp mod abs_d
     in do {
       c_assert (abs_test_numer \<noteq> 0);
       (exponent, quot2) \<leftarrow> sdiv_loop 64 abs_d abs_test_numer (SINT_BITS - 1)
         (initial_power_of_2 div abs_test_numer) (initial_power_of_2 mod abs_test_numer)
         (initial_power_of_2 div abs_d) (initial_power_of_2 mod abs_d);
       let m = sign_extend (quot2 + 1) SINT_BITS
       in Some \<lparr>s_multiplier = (if sint D < 0 then - m else m), s_shift = exponent - SINT_BITS\<rparr> } }"

end
