(* ===== verification/Nir_Alu.thy ===== *)
theory Nir_Alu
  imports Fast_Idiv
begin

text \<open>
  Scalar integer expressions of NIR, as far as the lowering of divisions builds them, with their values. A value of bit size
  \<open>w\<close> is an integer in \<open>0 ..< 2 ^ w\<close>; \<open>sval w\<close> reads it as a signed number. Every opcode means what its constant expression in
  \<^verbatim>\<open>nir_opcodes.py\<close> computes, which is what constant folding uses; \<open>uadd_sat\<close> in particular does not saturate below 32 bits. Where a
  signed expression overflows, which C leaves undefined, it has the wrapped value of two's complement arithmetic. The functions
  \<^verbatim>\<open>nir_..._imm\<close> of \<^verbatim>\<open>nir_builder.h\<close> simplify while they build.
\<close>

section \<open>Opcodes\<close>

definition sval :: "nat \<Rightarrow> int \<Rightarrow> int" where
  "sval w x = signed_take_bit (w - 1) x"

definition ineg_expr :: "nat \<Rightarrow> int \<Rightarrow> int" where
  "ineg_expr w a = take_bit w (- sval w a)"

definition iabs_expr :: "nat \<Rightarrow> int \<Rightarrow> int" where
  "iabs_expr w a = take_bit w (if sval w a < 0 then - sval w a else sval w a)"

text \<open>These two cast to \<^verbatim>\<open>uint64_t\<close> and cannot overflow.\<close>

definition iadd_expr :: "nat \<Rightarrow> int \<Rightarrow> int \<Rightarrow> int" where
  "iadd_expr w a b = take_bit w (a + b)"

definition imul_expr :: "nat \<Rightarrow> int \<Rightarrow> int \<Rightarrow> int" where
  "imul_expr w a b = take_bit w (a * b)"

text \<open>
  The arithmetic of C promotes operands narrower than an \<^verbatim>\<open>int\<close>, so their sum does not wrap before it is compared.
\<close>

definition uadd_sat_expr :: "nat \<Rightarrow> int \<Rightarrow> int \<Rightarrow> int" where
  "uadd_sat_expr w a b =
     (let total = (if w < 32 then a + b else take_bit w (a + b))
      in take_bit w (if total < a then uint (u_uintN_max w) else total))"

definition isub_expr :: "nat \<Rightarrow> int \<Rightarrow> int \<Rightarrow> int" where
  "isub_expr w a b = take_bit w (sval w a - sval w b)"

text \<open>The upper half of the product; for 64 bits the code multiplies arrays of 32-bit digits.\<close>

definition imul_high_expr :: "nat \<Rightarrow> int \<Rightarrow> int \<Rightarrow> int" where
  "imul_high_expr w a b = take_bit w (drop_bit w (sval w a * sval w b))"

definition umul_high_expr :: "nat \<Rightarrow> int \<Rightarrow> int \<Rightarrow> int" where
  "umul_high_expr w a b = drop_bit w (a * b)"

text \<open>Shifts use the shift count modulo the bit size.\<close>

definition ishr_expr :: "nat \<Rightarrow> int \<Rightarrow> nat \<Rightarrow> int" where
  "ishr_expr w a k = take_bit w (drop_bit (k mod w) (sval w a))"

definition ushr_expr :: "nat \<Rightarrow> int \<Rightarrow> nat \<Rightarrow> int" where
  "ushr_expr w a k = drop_bit (k mod w) a"

definition ilt_expr :: "nat \<Rightarrow> int \<Rightarrow> int \<Rightarrow> bool" where
  "ilt_expr w a b \<longleftrightarrow> sval w a < sval w b"

definition ige_expr :: "nat \<Rightarrow> int \<Rightarrow> int \<Rightarrow> bool" where
  "ige_expr w a b \<longleftrightarrow> sval w a \<ge> sval w b"

text \<open>The forms in which the proofs use them.\<close>

lemma take_sval_arith: "take_bit w (- sval w a) = take_bit w (- a)" "take_bit w (sval w a - sval w b) = take_bit w (a - b)"
proof -
  have t: "take_bit w (sval w x) = take_bit w x" for x by (cases "w = 0") (simp_all add: sval_def take_bit_signed_take_bit)
  show "take_bit w (- sval w a) = take_bit w (- a)" by (metis t take_bit_minus)
  show "take_bit w (sval w a - sval w b) = take_bit w (a - b)" by (metis t take_bit_diff)
qed

lemma ineg_expr_eq [simp]: "ineg_expr w a = take_bit w (- a)"
  by (simp add: ineg_expr_def take_sval_arith)

lemma isub_expr_eq [simp]: "isub_expr w a b = take_bit w (a - b)"
  by (simp add: isub_expr_def take_sval_arith)

lemma iabs_expr_eq [simp]: "iabs_expr w a = take_bit w \<bar>sval w a\<bar>"
  by (simp add: iabs_expr_def)

lemmas expr_defs [simp] = iadd_expr_def imul_expr_def imul_high_expr_def umul_high_expr_def ishr_expr_def ushr_expr_def ilt_expr_def ige_expr_def

section \<open>Expressions\<close>

datatype nir_def = Src nat | Imm int
  | Ushr nir_def nat | Ishr nir_def nat | Uadd_sat nir_def nir_def | Umul_high nir_def nir_def | Imul_high nir_def nir_def
  | Iadd nir_def nir_def | Isub nir_def nir_def | Imul nir_def nir_def | Iand nir_def nir_def | Ior nir_def nir_def
  | Ineg nir_def | Iabs nir_def | B2i nir_bool | Bcsel nir_bool nir_def nir_def
and nir_bool = Ieq nir_def nir_def | Ilt nir_def nir_def | Ige nir_def nir_def | Ult nir_def nir_def
  | Bnot nir_bool | Bor nir_bool nir_bool

text \<open>
  The value of an expression: the leaves are slots and immediates, \<open>bcsel\<close>, the comparison of bits and the operations on booleans are
  those of HOL.
\<close>

primrec eval :: "nat \<Rightarrow> (nat \<Rightarrow> int) \<Rightarrow> nir_def \<Rightarrow> int" and evalb :: "nat \<Rightarrow> (nat \<Rightarrow> int) \<Rightarrow> nir_bool \<Rightarrow> bool" where
  "eval w env (Src i) = take_bit w (env i)"
| "eval w env (Imm c) = take_bit w c"
| "eval w env (Ushr a k) = ushr_expr w (eval w env a) k"
| "eval w env (Ishr a k) = ishr_expr w (eval w env a) k"
| "eval w env (Uadd_sat a b) = uadd_sat_expr w (eval w env a) (eval w env b)"
| "eval w env (Umul_high a b) = umul_high_expr w (eval w env a) (eval w env b)"
| "eval w env (Imul_high a b) = imul_high_expr w (eval w env a) (eval w env b)"
| "eval w env (Iadd a b) = iadd_expr w (eval w env a) (eval w env b)"
| "eval w env (Isub a b) = isub_expr w (eval w env a) (eval w env b)"
| "eval w env (Imul a b) = imul_expr w (eval w env a) (eval w env b)"
| "eval w env (Iand a b) = eval w env a AND eval w env b"
| "eval w env (Ior a b) = eval w env a OR eval w env b"
| "eval w env (Ineg a) = ineg_expr w (eval w env a)"
| "eval w env (Iabs a) = iabs_expr w (eval w env a)"
| "eval w env (B2i c) = (if evalb w env c then 1 else 0)"
| "eval w env (Bcsel c a b) = (if evalb w env c then eval w env a else eval w env b)"
| "evalb w env (Ieq a b) \<longleftrightarrow> eval w env a = eval w env b"
| "evalb w env (Ilt a b) \<longleftrightarrow> ilt_expr w (eval w env a) (eval w env b)"
| "evalb w env (Ige a b) \<longleftrightarrow> ige_expr w (eval w env a) (eval w env b)"
| "evalb w env (Ult a b) \<longleftrightarrow> eval w env a < eval w env b"
| "evalb w env (Bnot a) \<longleftrightarrow> \<not> evalb w env a"
| "evalb w env (Bor a b) \<longleftrightarrow> evalb w env a \<or> evalb w env b"

section \<open>Building\<close>

text \<open>A 64-bit word \<open>y\<close> masked to the bit size, as the functions of the builder mask their immediates.\<close>

abbreviation masked :: "nat \<Rightarrow> u64 \<Rightarrow> u64" where
  "masked w y \<equiv> take_bit w y"

definition nir_imm_intN_t :: "u64 \<Rightarrow> nat \<Rightarrow> nir_def" where
  "nir_imm_intN_t x bit_size = Imm (uint (masked bit_size x))"

definition nir_iadd_imm :: "nat \<Rightarrow> nir_def \<Rightarrow> u64 \<Rightarrow> nir_def" where
  "nir_iadd_imm w x y = (if masked w y = 0 then x else Iadd x (nir_imm_intN_t (masked w y) w))"

definition nir_ieq_imm :: "nat \<Rightarrow> nir_def \<Rightarrow> u64 \<Rightarrow> nir_bool" where
  "nir_ieq_imm w x y = Ieq x (nir_imm_intN_t y w)"

definition nir_iand_imm :: "nat \<Rightarrow> nir_def \<Rightarrow> u64 \<Rightarrow> nir_def" where
  "nir_iand_imm w x y =
     (if masked w y = 0 then nir_imm_intN_t 0 w
      else if masked w y = masked w (- 1) then x
      else Iand x (nir_imm_intN_t (masked w y) w))"

definition nir_ishr_imm :: "nir_def \<Rightarrow> nat \<Rightarrow> nir_def" where
  "nir_ishr_imm x y = (if y = 0 then x else Ishr x y)"

definition nir_ushr_imm :: "nir_def \<Rightarrow> nat \<Rightarrow> nir_def" where
  "nir_ushr_imm x y = (if y = 0 then x else Ushr x y)"

end
