(* ===== verification/Nir_Idiv.thy ===== *)
theory Nir_Idiv
  imports Nir_Alu "HOL-Library.Signed_Division"
begin

text \<open>
  The NIR pass \<^verbatim>\<open>nir_opt_idiv_const.c\<close>, which replaces integer divisions by constants. The functions take the
  bit size of the numerator and build an expression over it; \<open>None\<close> is a failed assertion of the computation of the magic
  numbers. Signed divisors are 64-bit words read by \<open>sint\<close>.
\<close>

definition u_intN_max :: "nat \<Rightarrow> u64" where
  "u_intN_max bit_size = drop_bit (64 - bit_size) 0x7fffffffffffffff"

definition u_intN_min :: "nat \<Rightarrow> u64" where
  "u_intN_min bit_size = - u_intN_max bit_size - 1"

section \<open>Unsigned\<close>

definition build_udiv :: "nat \<Rightarrow> nir_def \<Rightarrow> u64 \<Rightarrow> nir_def option" where
  "build_udiv w n d =
     (if d = 0 then Some (nir_imm_intN_t 0 w)
      else if util_is_power_of_two_or_zero64 d then Some (nir_ushr_imm n (util_logbase2_64 d))
      else do {
        m \<leftarrow> util_compute_fast_udiv_info d w w;
        let n = (if pre_shift m \<noteq> 0 then nir_ushr_imm n (pre_shift m) else n);
            n = (if increment m \<noteq> 0 then Uadd_sat n (nir_imm_intN_t (of_nat (increment m)) w) else n);
            n = Umul_high n (nir_imm_intN_t (multiplier m) w)
        in Some (if post_shift m \<noteq> 0 then nir_ushr_imm n (post_shift m) else n) })"

definition build_umod :: "nat \<Rightarrow> nir_def \<Rightarrow> u64 \<Rightarrow> nir_def option" where
  "build_umod w n d =
     (if d = 0 then Some (nir_imm_intN_t 0 w)
      else if util_is_power_of_two_or_zero64 d then Some (Iand n (nir_imm_intN_t (d - 1) w))
      else do {
        q \<leftarrow> build_udiv w n d;
        Some (Isub n (Imul q (nir_imm_intN_t d w))) })"

section \<open>Signed\<close>

definition build_idiv :: "nat \<Rightarrow> nir_def \<Rightarrow> u64 \<Rightarrow> nir_def option" where
  "build_idiv w n d =
     (let int_min = u_intN_min w
      in if d = int_min then Some (B2i (nir_ieq_imm w n int_min))
         else let abs_d = (if sint d < 0 then - d else d)
              in if d = 0 then Some (nir_imm_intN_t 0 w)
                 else if d = 1 then Some n
                 else if d = - 1 then Some (Ineg n)
                 else if util_is_power_of_two_or_zero64 abs_d
                 then let uq = nir_ushr_imm (Iabs n) (util_logbase2_64 abs_d);
                          n_neg = Ilt n (nir_imm_intN_t 0 w);
                          neg = (if sint d < 0 then Bnot n_neg else n_neg)
                      in Some (Bcsel neg (Ineg uq) uq)
                 else do {
                   m \<leftarrow> util_compute_fast_sdiv_info d w;
                   let res = Imul_high n (nir_imm_intN_t (s_multiplier m) w);
                       res = (if sint d > 0 \<and> sint (s_multiplier m) < 0 then Iadd res n else res);
                       res = (if sint d < 0 \<and> sint (s_multiplier m) > 0 then Isub res n else res);
                       res = (if s_shift m \<noteq> 0 then nir_ishr_imm res (s_shift m) else res)
                   in Some (Iadd res (nir_ushr_imm res (w - 1))) })"

definition build_irem :: "nat \<Rightarrow> nir_def \<Rightarrow> u64 \<Rightarrow> nir_def option" where
  "build_irem w n d =
     (let int_min = u_intN_min w
      in if d = 0 then Some (nir_imm_intN_t 0 w)
         else if d = int_min then Some (Bcsel (nir_ieq_imm w n int_min) (nir_imm_intN_t 0 w) n)
         else let d = (if sint d < 0 then - d else d)
              in if util_is_power_of_two_or_zero64 d
                 then let tmp = Bcsel (Ilt n (nir_imm_intN_t 0 w)) (nir_iadd_imm w n (d - 1)) n
                      in Some (Isub n (nir_iand_imm w tmp (- d)))
                 else do {
                   q \<leftarrow> build_idiv w n d;
                   Some (Isub n (Imul q (nir_imm_intN_t d w))) })"

definition build_imod :: "nat \<Rightarrow> nir_def \<Rightarrow> u64 \<Rightarrow> nir_def option" where
  "build_imod w n d =
     (let int_min = u_intN_min w
      in if d = 0 then Some (nir_imm_intN_t 0 w)
         else if d = int_min
         then let int_min_def = nir_imm_intN_t int_min w;
                  is_neg_not_int_min = Ult int_min_def n;
                  is_zero = nir_ieq_imm w n 0
              in Some (Bcsel (Bor is_neg_not_int_min is_zero) n (Iadd int_min_def n))
         else if sint d > 0 \<and> util_is_power_of_two_or_zero64 d then Some (Iand n (nir_imm_intN_t (d - 1) w))
         else if sint d < 0 \<and> util_is_power_of_two_or_zero64 (- d)
         then let d_def = nir_imm_intN_t d w; res = Ior n d_def
              in Some (Bcsel (Ieq res d_def) (nir_imm_intN_t 0 w) res)
         else do {
           rmdr \<leftarrow> build_irem w n d;
           let zero = nir_imm_intN_t 0 w;
               sign_same = (if sint d < 0 then Ilt n zero else Ige n zero);
               rem_zero = Ieq rmdr zero
           in Some (Bcsel (Bor rem_zero sign_same) rmdr (nir_iadd_imm w rmdr d)) })"

section \<open>The pass on one instruction\<close>

datatype nir_op = Op_udiv | Op_idiv | Op_umod | Op_imod | Op_irem

fun is_uint_op :: "nir_op \<Rightarrow> bool" where
  "is_uint_op op \<longleftrightarrow> op = Op_udiv \<or> op = Op_umod"

text \<open>
  What the operations mean: the constant expressions of \<^verbatim>\<open>nir_opcodes.py\<close> on unsigned representatives of bit size \<open>w\<close>,
  with the division of C, which rounds towards zero. The quotient of the smallest integer and minus one has its wrapped value; in C
  it is undefined for 32 and 64 bits.
\<close>

definition udiv_expr :: "int \<Rightarrow> int \<Rightarrow> int" where
  "udiv_expr a b = (if b = 0 then 0 else a div b)"

definition umod_expr :: "int \<Rightarrow> int \<Rightarrow> int" where
  "umod_expr a b = (if b = 0 then 0 else a mod b)"

definition idiv_expr :: "nat \<Rightarrow> int \<Rightarrow> int \<Rightarrow> int" where
  "idiv_expr w a b = (if b = 0 then 0 else take_bit w (sval w a sdiv sval w b))"

definition irem_expr :: "nat \<Rightarrow> int \<Rightarrow> int \<Rightarrow> int" where
  "irem_expr w a b = (if b = 0 then 0 else take_bit w (sval w a smod sval w b))"

definition imod_expr :: "nat \<Rightarrow> int \<Rightarrow> int \<Rightarrow> int" where
  "imod_expr w a b = (if b = 0 then 0 else take_bit w
     (let r = sval w a smod sval w b in if r = 0 \<or> (sval w a \<ge> 0 \<longleftrightarrow> sval w b \<ge> 0) then r else r + sval w b))"

definition nir_op_value :: "nat \<Rightarrow> nir_op \<Rightarrow> int \<Rightarrow> int \<Rightarrow> int" where
  "nir_op_value w op a b = (case op of
       Op_udiv \<Rightarrow> udiv_expr a b
     | Op_umod \<Rightarrow> umod_expr a b
     | Op_idiv \<Rightarrow> idiv_expr w a b
     | Op_irem \<Rightarrow> irem_expr w a b
     | Op_imod \<Rightarrow> imod_expr w a b)"

lemmas op_value_defs = nir_op_value_def udiv_expr_def umod_expr_def idiv_expr_def irem_expr_def imod_expr_def

text \<open>
  One channel: the divisor comes sign-extended from a constant of the bit size and is masked for unsigned operations.
\<close>

definition lower_channel :: "nat \<Rightarrow> nir_op \<Rightarrow> nir_def \<Rightarrow> u64 \<Rightarrow> nir_def option" where
  "lower_channel bit_size op n d =
     (let d = (if is_uint_op op \<and> bit_size < 64 then d AND (push_bit bit_size 1 - 1) else d)
      in case op of
           Op_udiv \<Rightarrow> build_udiv bit_size n d
         | Op_idiv \<Rightarrow> build_idiv bit_size n d
         | Op_umod \<Rightarrow> build_umod bit_size n d
         | Op_imod \<Rightarrow> build_imod bit_size n d
         | Op_irem \<Rightarrow> build_irem bit_size n d)"

text \<open>
  The instruction: a vector of numerators and, where the second source is constant, of divisors. The result is the vector of the
  lowered channels, or nothing where the divisor is not constant.
\<close>

fun lower_channels :: "nat \<Rightarrow> nir_op \<Rightarrow> nir_def list \<Rightarrow> u64 list \<Rightarrow> nir_def list option" where
  "lower_channels bit_size op (n # ns) (d # ds) = do {
     q \<leftarrow> lower_channel bit_size op n d;
     qs \<leftarrow> lower_channels bit_size op ns ds;
     Some (q # qs) }"
| "lower_channels bit_size op _ _ = Some []"

definition nir_opt_idiv_const_instr :: "nat \<Rightarrow> nir_op \<Rightarrow> nir_def list \<Rightarrow> u64 list option \<Rightarrow> nir_def list option option" where
  "nir_opt_idiv_const_instr bit_size op ns ds = (case ds of
     None \<Rightarrow> Some None
   | Some ds \<Rightarrow> map_option Some (lower_channels bit_size op ns ds))"

section \<open>The pass on a function\<close>

text \<open>
  A function as the list of its instructions, over scalar slots that hold the channels of the definitions. A division has a list of
  destination slots, a bit size, its numerators and its divisors, which are constants or not. \<open>Vec\<close> is the vector that replaces a
  lowered division (\<^verbatim>\<open>nir_vec\<close> followed by the rewriting of the uses); \<open>Other\<close> is an instruction that the pass skips, given by its
  effect.
\<close>

datatype divisors = Const "u64 list" | Dyn "nir_def list"

datatype nir_instr = Alu "nat list" nat nir_op "nir_def list" divisors
  | Vec "nat list" nat "nir_def list"
  | Other "(nat \<Rightarrow> int) \<Rightarrow> (nat \<Rightarrow> int)"

fun nir_src_is_const :: "divisors \<Rightarrow> u64 list option" where
  "nir_src_is_const (Const ds) = Some ds"
| "nir_src_is_const (Dyn _) = None"

definition opt_instr :: "nat \<Rightarrow> nir_instr \<Rightarrow> (nir_instr \<times> bool) option" where
  "opt_instr min_bit_size i = (case i of
     Alu dst w op ns ds \<Rightarrow>
       if w < min_bit_size then Some (i, False)
       else do {
         r \<leftarrow> nir_opt_idiv_const_instr w op ns (nir_src_is_const ds);
         Some (case r of None \<Rightarrow> (i, False) | Some q \<Rightarrow> (Vec dst w q, True)) }
   | _ \<Rightarrow> Some (i, False))"

fun nir_opt_idiv_const_impl :: "nat \<Rightarrow> nir_instr list \<Rightarrow> (nir_instr list \<times> bool) option" where
  "nir_opt_idiv_const_impl min_bit_size [] = Some ([], False)"
| "nir_opt_idiv_const_impl min_bit_size (i # xs) = do {
     (i', p) \<leftarrow> opt_instr min_bit_size i;
     (xs', ps) \<leftarrow> nir_opt_idiv_const_impl min_bit_size xs;
     Some (i' # xs', p \<or> ps) }"

text \<open>The pass on a shader: every function that has an implementation.\<close>

fun nir_opt_idiv_const :: "nat \<Rightarrow> nir_instr list option list \<Rightarrow> (nir_instr list option list \<times> bool) option" where
  "nir_opt_idiv_const min_bit_size [] = Some ([], False)"
| "nir_opt_idiv_const min_bit_size (None # fs) = do {
     (fs', progress) \<leftarrow> nir_opt_idiv_const min_bit_size fs;
     Some (None # fs', progress) }"
| "nir_opt_idiv_const min_bit_size (Some impl # fs) = do {
     (impl', p) \<leftarrow> nir_opt_idiv_const_impl min_bit_size impl;
     (fs', progress) \<leftarrow> nir_opt_idiv_const min_bit_size fs;
     Some (Some impl' # fs', p \<or> progress) }"

text \<open>What running the instructions does to the slots.\<close>

definition store_slots :: "(nat \<Rightarrow> int) \<Rightarrow> nat list \<Rightarrow> int list \<Rightarrow> nat \<Rightarrow> int" where
  "store_slots env dst vs = fold (\<lambda>(x, v) env. env(x := v)) (zip dst vs) env"

fun exec :: "nir_instr \<Rightarrow> (nat \<Rightarrow> int) \<Rightarrow> (nat \<Rightarrow> int)" where
  "exec (Alu dst w op ns (Const ds)) env = store_slots env dst (map2 (\<lambda>n D. nir_op_value w op (eval w env n) (take_bit w (uint D))) ns ds)"
| "exec (Alu dst w op ns (Dyn ds)) env = store_slots env dst (map2 (\<lambda>n d. nir_op_value w op (eval w env n) (eval w env d)) ns ds)"
| "exec (Vec dst w es) env = store_slots env dst (map (eval w env) es)"
| "exec (Other f) env = f env"

end
