(* ===== verification/Fast_Idiv_Correct.thy ===== *)
theory Fast_Idiv_Correct
  imports Fast_Idiv
begin

text \<open>
  The magic numbers divide: for every divisor and every numerator of the given width, multiplying and shifting as the code
  does gives the quotient.
\<close>

section \<open>Rounding\<close>

lemma div_nat_between: "q * P \<le> (a :: nat) \<Longrightarrow> a < (q + 1) * P \<Longrightarrow> a div P = q"
  by (intro div_nat_eqI) (simp_all add: mult.commute)

text \<open>A reciprocal rounded up by \<open>k\<close> parts, and one rounded down by \<open>r\<close> parts.\<close>

lemma round_up_div:
  fixes m n D P k :: nat
  assumes m: "m * D = P + k" and k: "n * k < P" and D: "0 < D"
  shows "(n * m) div P = n div D"
proof (rule div_nat_between)
  have prod: "n * m * D = n * P + n * k" using m by (metis add_mult_distrib2 mult.assoc)
  have q: "n div D * D \<le> n" "n < (n div D + 1) * D" using D by (simp_all add: dividend_less_div_times)
  have "n div D * P * D = n div D * D * P" by (simp only: mult_ac)
  also have "\<dots> \<le> n * P" using q(1) by (rule mult_le_mono1)
  also have "\<dots> \<le> n * m * D" using prod by simp
  finally show "n div D * P \<le> n * m" using D by simp
  have "n * m * D < (n + 1) * P" using prod k by simp
  also have "\<dots> \<le> (n div D + 1) * D * P" using q(2) by (intro mult_le_mono1) simp
  also have "\<dots> = (n div D + 1) * P * D" by (simp only: mult_ac)
  finally show "n * m < (n div D + 1) * P" using D by simp
qed

lemma round_down_div:
  fixes m n D P r :: nat
  assumes m: "m * D + r = P" and r: "0 < r" "(n + 1) * r \<le> P" and D: "0 < D"
  shows "((n + 1) * m) div P = n div D"
proof (rule div_nat_between)
  have prod: "(n + 1) * m * D + (n + 1) * r = (n + 1) * P" using m by (metis add_mult_distrib2 mult.assoc)
  have q: "n div D * D \<le> n" "n + 1 \<le> (n div D + 1) * D" using D dividend_less_div_times [of D n] by (simp_all add: Suc_le_eq)
  have "n div D * P * D = n div D * D * P" by (simp only: mult_ac)
  also have "\<dots> \<le> n * P" using q(1) by (rule mult_le_mono1)
  also have "\<dots> \<le> (n + 1) * m * D" using prod r(2) by simp
  finally show "n div D * P \<le> (n + 1) * m" using D by simp
  have "0 < (n + 1) * r" using r(1) by simp
  then have "(n + 1) * m * D < (n + 1) * P" using prod by linarith
  also have "\<dots> \<le> (n div D + 1) * D * P" using q(2) by (rule mult_le_mono1)
  also have "\<dots> = (n div D + 1) * P * D" by (simp only: mult_ac)
  finally show "(n + 1) * m < (n div D + 1) * P" using D by simp
qed

section \<open>Powers of two\<close>

lemma high_bit:
  assumes "2 ^ s \<le> unat (x :: u64)" "unat x < 2 ^ Suc s"
  shows "bit x s"
proof -
  have "unat x div 2 ^ s = 1" using assms by (intro div_nat_eqI) simp_all
  then have "bit (unat x) s" by (simp add: bit_iff_odd)
  then show ?thesis by (simp add: bit_unsigned_iff)
qed

lemma log_bounds:
  assumes "0 < (n :: nat)"
  obtains s where "2 ^ s \<le> n" "n < 2 ^ Suc s"
proof -
  have "\<exists>s. n < 2 ^ s" using less_exp [of n] by blast
  then have "n < 2 ^ (LEAST s. n < 2 ^ s)" by (rule LeastI_ex)
  moreover have "(LEAST s. n < 2 ^ s) \<noteq> 0" using calculation assms by (intro notI) simp
  ultimately show thesis using that [of "(LEAST s. n < 2 ^ s) - 1"] not_less_Least [of "(LEAST s. n < 2 ^ s) - 1" "\<lambda>s. n < 2 ^ s"] by simp
qed

lemma exponent_less: "2 ^ s \<le> unat (x :: u64) \<Longrightarrow> s < 64"
proof -
  assume "2 ^ s \<le> unat x"
  then have "(2 :: nat) ^ s < 2 ^ 64" using unat_u64_less [of x] by simp
  then show ?thesis by (rule power_less_imp_less_exp [rotated]) simp
qed

lemma unat_two_power:
  assumes "s < 64"
  shows "unat (2 ^ s :: u64) = 2 ^ s"
proof -
  have "unat (of_nat (2 ^ s) :: u64) = 2 ^ s mod 2 ^ 64" by (subst unat_of_nat) simp
  moreover have "(2 :: nat) ^ s < 2 ^ 64" using assms by (intro power_strict_increasing) simp_all
  ultimately show ?thesis by simp
qed

lemma power_of_two_iff:
  assumes "x \<noteq> 0"
  shows "util_is_power_of_two_or_zero64 x \<longleftrightarrow> (\<exists>s < 64. unat x = 2 ^ s)"
proof
  have pos: "0 < unat x" using assms by (simp add: unat_gt_0)
  obtain s where s: "2 ^ s \<le> unat x" "unat x < 2 ^ Suc s" using log_bounds [OF pos] .
  have x1: "unat (x - 1) = unat x - 1" using assms by (rule unat_minus_one)
  assume p: "util_is_power_of_two_or_zero64 x"
  have "\<not> 2 ^ s \<le> unat (x - 1)"
  proof
    assume "2 ^ s \<le> unat (x - 1)"
    then have "bit (x AND (x - 1)) s" using high_bit [OF s] high_bit [of s "x - 1"] s(2) x1 by (simp add: bit_and_iff)
    then show False using p by (simp add: util_is_power_of_two_or_zero64_def)
  qed
  then have "unat x = 2 ^ s" using s(1) x1 by linarith
  then show "\<exists>s < 64. unat x = 2 ^ s" using exponent_less [OF s(1)] by blast
next
  assume "\<exists>s < 64. unat x = 2 ^ s"
  then obtain s where s: "s < 64" "unat x = 2 ^ s" by blast
  then have x: "x = push_bit s 1" by (simp add: word_unat_eq_iff unat_two_power)
  have "x - 1 = mask s" by (simp add: x mask_eq_decr_exp push_bit_eq_mult)
  then show "util_is_power_of_two_or_zero64 x" unfolding util_is_power_of_two_or_zero64_def
    by (intro bit_eqI) (auto simp: x bit_simps)
qed

definition log_is :: "nat \<Rightarrow> nat \<Rightarrow> u64 \<times> nat \<Rightarrow> bool" where
  "log_is b s st \<longleftrightarrow> (\<exists>t < b. 2 ^ t \<le> unat (fst st) \<and> unat (fst st) < 2 ^ Suc t \<and> t + snd st = s)"

lemma log_step_is:
  assumes "log_is (2 * k) s st" "k < 64"
  shows "log_is k s (log_step k st)"
proof (cases st)
  case (Pair n pos)
  obtain t where t: "t < 2 * k" "2 ^ t \<le> unat n" "unat n < 2 ^ Suc t" "t + pos = s" using assms(1) Pair by (auto simp: log_is_def)
  have cmp: "n \<ge> push_bit k 1 \<longleftrightarrow> 2 ^ k \<le> unat n" using assms(2) by (simp add: word_le_nat_alt unat_two_power)
  show ?thesis
  proof (cases "k \<le> t")
    case True
    have pw: "(2 :: nat) ^ t = 2 ^ (t - k) * 2 ^ k" "(2 :: nat) ^ Suc t = 2 ^ Suc (t - k) * 2 ^ k" using True by (simp_all flip: power_add)
    have "2 ^ k \<le> unat n" by (rule order_trans [OF power_increasing [OF True] t(2)]) simp
    moreover have "2 ^ (t - k) \<le> unat n div 2 ^ k" using t(2) unfolding pw(1) by (simp add: less_eq_div_iff_mult_less_eq)
    moreover have "unat n div 2 ^ k < 2 ^ Suc (t - k)" using t(3) unfolding pw(2) by (simp add: div_less_iff_less_mult)
    ultimately show ?thesis using Pair cmp t True by (auto simp: log_is_def log_step.simps unat_drop_bit_div intro!: exI [of _ "t - k"])
  next
    case False
    then have "unat n < 2 ^ k" using t(3) power_increasing [of "Suc t" k "2 :: nat"] by simp
    then show ?thesis using Pair cmp t False by (auto simp: log_is_def log_step.simps intro!: exI [of _ t])
  qed
qed

lemma log_of_power:
  assumes "unat x = 2 ^ s" "s < 64"
  shows "util_logbase2_64 x = s"
proof -
  have "log_is 64 s (x, 0)" using assms by (auto simp: log_is_def intro!: exI [of _ s])
  then have "log_is 32 s (log_step 32 (x, 0))" by (intro log_step_is) simp_all
  then have "log_is 16 s (log_step 16 (log_step 32 (x, 0)))" by (intro log_step_is) simp_all
  then have "log_is 8 s (log_step 8 (log_step 16 (log_step 32 (x, 0))))" by (intro log_step_is) simp_all
  then have "log_is 4 s (log_step 4 (log_step 8 (log_step 16 (log_step 32 (x, 0)))))" by (intro log_step_is) simp_all
  then have "log_is 2 s (log_step 2 (log_step 4 (log_step 8 (log_step 16 (log_step 32 (x, 0))))))" by (intro log_step_is) simp_all
  then have "log_is 1 s (log_step 1 (log_step 2 (log_step 4 (log_step 8 (log_step 16 (log_step 32 (x, 0)))))))"
    by (intro log_step_is) simp_all
  then show ?thesis by (auto simp: log_is_def util_logbase2_64_def)
qed

lemma ceil_log_2_bounds:
  assumes "x \<noteq> 0"
  shows "\<exists>l > 0. ceil_log_2 x k = k + l \<and> 2 ^ (l - 1) \<le> unat x \<and> unat x < 2 ^ l"
  using assms
proof (induction x k rule: ceil_log_2.induct)
  case (1 x k)
  have pos: "0 < x" using 1(2) by (simp add: word_neq_0_conv)
  have half: "unat (drop_bit 1 x) = unat x div 2" by (simp add: unat_drop_bit_div)
  have step: "ceil_log_2 x k = ceil_log_2 (drop_bit 1 x) (k + 1)" using pos by (subst ceil_log_2.simps) simp
  show ?case
  proof (cases "drop_bit 1 x = 0")
    case True
    then have "unat x div 2 = 0" using half by simp
    then have "unat x = 1" using 1(2) by (simp add: unat_eq_0 [symmetric] div_eq_0_iff del: unat_eq_0)
    moreover have "ceil_log_2 x k = k + 1" using True step by (simp add: ceil_log_2.simps [of 0])
    ultimately show ?thesis by (intro exI [of _ 1]) simp
  next
    case False
    then obtain l where l: "0 < l" "ceil_log_2 x k = k + 1 + l" "2 ^ (l - 1) \<le> unat x div 2" "unat x div 2 < 2 ^ l"
      using "1.IH" [OF pos] half step by auto
    have "2 ^ (Suc l - 1) = 2 * (2 :: nat) ^ (l - 1)" using l(1) by (simp flip: power_Suc)
    then show ?thesis using l by (intro exI [of _ "Suc l"]) auto
  qed
qed

section \<open>The unsigned search\<close>

lemma next_power_spec:
  assumes q: "q = of_nat (2 ^ k div unat D)" and r: "r = of_nat (2 ^ k mod unat D)" and D: "D \<noteq> 0"
  shows "next_power D q r = (of_nat (2 ^ Suc k div unat D), of_nat (2 ^ Suc k mod unat D))"
proof -
  let ?d = "unat D" and ?Q = "2 ^ k div unat D" and ?R = "2 ^ k mod unat D"
  have d: "0 < ?d" using D by (simp add: unat_gt_0)
  have lt: "?R < ?d" using d by simp
  have ur: "unat r = ?R" unfolding r using lt unat_u64_less [of D] by (intro unat_of_nat64) simp
  have cmp: "r \<ge> D - r \<longleftrightarrow> ?d \<le> 2 * ?R" using lt ur by (auto simp: word_le_nat_alt unat_sub_if')
  have split: "2 ^ Suc k = ?d * (2 * ?Q) + 2 * ?R"
    using mult_div_mod_eq [of ?d "2 ^ k"] by (metis add_mult_distrib2 mult.left_commute power_Suc)
  show ?thesis
  proof (cases "?d \<le> 2 * ?R")
    case True
    then have "2 ^ Suc k = ?d * (2 * ?Q + 1) + (2 * ?R - ?d)" using split by simp
    moreover have "2 * ?R - ?d < ?d" using lt by linarith
    ultimately have "2 ^ Suc k div ?d = 2 * ?Q + 1" "2 ^ Suc k mod ?d = 2 * ?R - ?d"
      by (metis div_mult_self4 d div_less add_0_right less_numeral_extra(3), metis mod_mult_self4 mod_less)
    then show ?thesis using True cmp by (simp add: next_power_def q r of_nat_diff mult.commute)
  next
    case False
    then have "2 ^ Suc k div ?d = 2 * ?Q" "2 ^ Suc k mod ?d = 2 * ?R"
      using split d by (metis div_mult_self4 div_less add_0_right less_numeral_extra(3) not_le, metis mod_mult_self4 mod_less not_le)
    then show ?thesis using False cmp by (simp add: next_power_def q r mult.commute)
  qed
qed

text \<open>What the loop knows about the variant that rounds down when it has gone through the exponents below \<open>e\<close>.\<close>

definition down_ok :: "nat \<Rightarrow> nat \<Rightarrow> nat \<Rightarrow> nat \<Rightarrow> (u64 \<times> nat) option \<Rightarrow> bool" where
  "down_ok w d x e down = (case down of
     None \<Rightarrow> (\<forall>i < e. 2 ^ (i + x) < 2 ^ (w + i) mod d)
   | Some (m, i) \<Rightarrow> i < e \<and> m = of_nat (2 ^ (w + i) div d) \<and> 2 ^ (w + i) mod d \<le> 2 ^ (i + x))"

definition works_up :: "nat \<Rightarrow> nat \<Rightarrow> nat \<Rightarrow> nat \<Rightarrow> nat \<Rightarrow> bool" where
  "works_up w d x l e \<longleftrightarrow> l \<le> e + x \<or> d - 2 ^ (w + e) mod d \<le> 2 ^ (e + x)"

lemma udiv_loop_spec:
  assumes "0 < w" "l \<le> 64" "D \<noteq> 0" "q = of_nat (2 ^ (w - 1 + e) div unat D)" "r = of_nat (2 ^ (w - 1 + e) mod unat D)"
    "down_ok w (unat D) x e down" "\<forall>i < e. \<not> works_up w (unat D) x l i"
  shows "\<exists>e' q' down'. udiv_loop D l x e q r down = (e', q', down') \<and> q' = of_nat (2 ^ (w + e') div unat D) \<and>
    works_up w (unat D) x l e' \<and> (\<forall>i < e'. \<not> works_up w (unat D) x l i) \<and> down_ok w (unat D) x e' down'"
  using assms
proof (induction D l x e q r down rule: udiv_loop.induct)
  case (1 D l x e q r down)
  let ?d = "unat D" and ?Q = "2 ^ (w + e) div unat D" and ?R = "2 ^ (w + e) mod unat D"
  have k: "Suc (w - 1 + e) = w + e" using 1(2) by simp
  have np: "next_power D q r = (of_nat ?Q, of_nat ?R)" using next_power_spec [OF 1(5,6,4)] unfolding k .
  have lt: "?R < ?d" using 1(4) by (simp add: unat_gt_0)
  then have ur: "unat (of_nat ?R :: u64) = ?R" using unat_u64_less [of D] by (intro unat_of_nat64) simp
  have p: "unat (push_bit (e + x) 1 :: u64) = 2 ^ (e + x)" if "e + x < l" using that 1(3) by (simp add: unat_two_power)
  have up: "e + x \<ge> l \<or> D - of_nat ?R \<le> push_bit (e + x) 1 \<longleftrightarrow> works_up w ?d x l e"
  proof (cases "l \<le> e + x")
    case False
    then have "D - of_nat ?R \<le> push_bit (e + x) 1 \<longleftrightarrow> ?d - ?R \<le> 2 ^ (e + x)"
      using p lt ur by (auto simp: word_le_nat_alt unat_sub_if')
    then show ?thesis by (simp add: works_up_def)
  qed (simp add: works_up_def)
  show ?case
  proof (cases "works_up w ?d x l e")
    case True
    then have "udiv_loop D l x e q r down = (e, of_nat ?Q, down)"
      using np up by (subst udiv_loop.simps) (simp only: Let_def split if_True)
    then show ?thesis using True 1(7,8) by blast
  next
    case False
    let ?down = "if down = None \<and> (of_nat ?R :: u64) \<le> push_bit (e + x) 1 then Some (of_nat ?Q, e) else down"
    have "udiv_loop D l x e q r down = udiv_loop D l x (e + 1) (of_nat ?Q) (of_nat ?R) ?down"
      using np up False by (subst udiv_loop.simps) (simp only: Let_def split if_False)
    moreover have "e + x < l" using False by (simp add: works_up_def)
    then have "(of_nat ?R :: u64) \<le> push_bit (e + x) 1 \<longleftrightarrow> ?R \<le> 2 ^ (e + x)" using p ur by (simp add: word_le_nat_alt)
    then have "down_ok w ?d x (e + 1) ?down" using 1(7) by (auto simp: down_ok_def less_Suc_eq split: option.splits)
    moreover have "\<forall>i < e + 1. \<not> works_up w ?d x l i" using 1(8) False by (simp add: less_Suc_eq)
    moreover have "w - 1 + (e + 1) = w + e" using 1(2) by simp
    moreover have "\<not> (l \<le> e + x \<or> D - of_nat ?R \<le> push_bit (e + x) 1)" using up False by blast
    ultimately show ?thesis using "1.IH" [OF refl np [symmetric] _ 1(2-4)] by metis
  qed
qed

section \<open>Unsigned magic numbers\<close>

text \<open>The numerators below \<open>2 ^ N\<close> are divided by \<open>d\<close>, computing with \<open>w\<close> bits.\<close>

definition udiv_ok :: "util_fast_udiv_info \<Rightarrow> nat \<Rightarrow> nat \<Rightarrow> nat \<Rightarrow> bool" where
  "udiv_ok info d N w \<longleftrightarrow> unat (multiplier info) < 2 ^ w \<and> increment info \<le> 1 \<and> (increment info = 1 \<longrightarrow> pre_shift info = 0) \<and>
     pre_shift info < w \<and> post_shift info < w \<and>
     (\<forall>n < 2 ^ N. (n div 2 ^ pre_shift info + increment info) * unat (multiplier info) div 2 ^ w div 2 ^ post_shift info = n div d)"

lemma dvd_two_power: "(d :: nat) dvd 2 ^ k \<Longrightarrow> \<exists>i. d = 2 ^ i"
proof (induction k arbitrary: d)
  case 0
  then show ?case by (auto intro: exI [of _ 0])
next
  case (Suc k)
  show ?case
  proof (cases "even d")
    case True
    then obtain d' where d': "d = 2 * d'" by (rule evenE)
    then obtain i where "d' = 2 ^ i" using Suc by auto
    then show ?thesis using d' by (auto intro: exI [of _ "Suc i"])
  next
    case False
    then have "coprime d 2" by simp
    then show ?thesis using Suc by (simp add: coprime_dvd_mult_right_iff)
  qed
qed

lemma power_mod_pos:
  assumes "\<nexists>s. d = 2 ^ s" "0 < d"
  shows "0 < 2 ^ k mod (d :: nat)"
proof (rule ccontr)
  assume "\<not> 0 < 2 ^ k mod d"
  then have "d dvd 2 ^ k" by (simp add: dvd_eq_mod_eq_0)
  then show False using assms(1) dvd_two_power by blast
qed

lemma exponent_below:
  assumes "2 ^ (l - 1) < d" "d < (2 :: nat) ^ w" "e < l"
  shows "e < w"
proof -
  have "(2 :: nat) ^ (l - 1) < 2 ^ w" using assms(1,2) by linarith
  then have "l - 1 < w" by (rule power_less_imp_less_exp [rotated]) simp
  then show ?thesis using assms(3) by linarith
qed

lemma quotient_bound:
  fixes d l w e :: nat
  assumes "2 ^ (l - 1) < d" "d < 2 ^ w" "e < l"
  shows "2 ^ (w + e) div d + 1 < 2 ^ w"
proof -
  have "(2 :: nat) ^ (w + e) \<le> 2 ^ w * 2 ^ (l - 1)" using assms(3) by (simp add: power_add)
  also have "\<dots> < (2 ^ w - 1) * d"
  proof -
    have "2 ^ w * 2 ^ (l - 1) + 2 ^ w \<le> 2 ^ w * d" using mult_le_mono2 [of "2 ^ (l - 1) + 1" d "2 ^ w"] assms(1) by (simp add: algebra_simps)
    moreover have "(2 ^ w - 1) * d = 2 ^ w * d - d" by (simp add: diff_mult_distrib)
    ultimately show ?thesis using assms(2) by linarith
  qed
  finally have "2 ^ (w + e) div d < 2 ^ w - 1" using assms(1) by (intro div_less_iff_less_mult [THEN iffD2]) simp_all
  then show ?thesis by linarith
qed

lemma up_case:
  assumes d: "2 ^ (l - 1) < d" "d < 2 ^ l" "d < 2 ^ w" and w: "N \<le> w" "w \<le> 64" and e: "e < l" "works_up w d (w - N) l e"
  shows "udiv_ok \<lparr>multiplier = of_nat (2 ^ (w + e) div d) + 1, pre_shift = 0, post_shift = e, increment = 0\<rparr> d N w"
proof -
  let ?Q = "2 ^ (w + e) div d" and ?R = "2 ^ (w + e) mod d"
  have d0: "0 < d" using d(1) by simp
  have m: "?Q + 1 < 2 ^ w" using quotient_bound [OF d(1,3) e(1)] .
  have "(2 :: nat) ^ w \<le> 2 ^ 64" using w(2) by (rule power_increasing) simp
  then have um: "unat (of_nat ?Q + 1 :: u64) = ?Q + 1" using m unat_of_nat64 [of "?Q + 1"] by (simp add: add.commute)
  have R: "?R < d" using d0 by simp
  have prod: "(?Q + 1) * d = 2 ^ (w + e) + (d - ?R)"
    using R div_mult_mod_eq [of "2 ^ (w + e)" d] by (simp only: add_mult_distrib mult_1)
  have k: "d - ?R \<le> 2 ^ (e + (w - N))"
  proof (cases "l \<le> e + (w - N)")
    case True
    then have "(2 :: nat) ^ l \<le> 2 ^ (e + (w - N))" by (rule power_increasing) simp
    then show ?thesis using d(2) by linarith
  qed (use e(2) in \<open>simp add: works_up_def\<close>)
  have "n * (?Q + 1) div 2 ^ w div 2 ^ e = n div d" if "n < 2 ^ N" for n
  proof -
    have "n * (d - ?R) < 2 ^ N * (d - ?R)" using that R by simp
    also have "\<dots> \<le> 2 ^ N * 2 ^ (e + (w - N))" using k by simp
    also have "\<dots> = 2 ^ (w + e)" using w(1) by (simp flip: power_add)
    finally have "n * (?Q + 1) div 2 ^ (w + e) = n div d" by (rule round_up_div [OF prod _ d0])
    then show ?thesis by (simp add: power_add div_mult2_eq)
  qed
  then show ?thesis using m um exponent_below [OF d(1,3) e(1)] by (simp add: udiv_ok_def)
qed

lemma down_case:
  assumes d: "2 ^ (l - 1) < d" "d < 2 ^ l" "d < 2 ^ w" "\<nexists>s. d = 2 ^ s" and w: "w \<le> 64"
    and e: "i < l" "2 ^ (w + i) mod d \<le> 2 ^ i"
  shows "udiv_ok \<lparr>multiplier = of_nat (2 ^ (w + i) div d), pre_shift = 0, post_shift = i, increment = 1\<rparr> d w w" 
    and "\<not> works_up w d 0 l (l - 1) \<Longrightarrow> (2 ^ w - 1) * unat (of_nat (2 ^ (w + i) div d) :: u64) div 2 ^ w div 2 ^ i = (2 ^ w - 1) div d"
proof -
  let ?Q = "2 ^ (w + i) div d" and ?R = "2 ^ (w + i) mod d"
  have d0: "0 < d" using d(1) by simp
  have m: "?Q + 1 < 2 ^ w" using quotient_bound [OF d(1,3) e(1)] .
  have "(2 :: nat) ^ w \<le> 2 ^ 64" using w by (rule power_increasing) simp
  then have um: "unat (of_nat ?Q :: u64) = ?Q" using m by (intro unat_of_nat64) simp
  have prod: "?Q * d + ?R = 2 ^ (w + i)" by simp
  have R: "0 < ?R" using power_mod_pos [OF d(4) d0] .
  have div: "(n + 1) * ?Q div 2 ^ w div 2 ^ i = n div d" if "n < 2 ^ w" for n
  proof -
    have "(n + 1) * ?R \<le> 2 ^ w * 2 ^ i" using that e(2) by (intro mult_le_mono) simp_all
    then have "(n + 1) * ?R \<le> 2 ^ (w + i)" by (simp add: power_add)
    from round_down_div [OF prod R this d0] show ?thesis by (simp add: power_add div_mult2_eq)
  qed
  then show "udiv_ok \<lparr>multiplier = of_nat ?Q, pre_shift = 0, post_shift = i, increment = 1\<rparr> d w w"
    using m um exponent_below [OF d(1,3) e(1)] by (simp add: udiv_ok_def)
  assume nu: "\<not> works_up w d 0 l (l - 1)"
  have l: "0 < l" using e(1) by simp
  have "\<not> d dvd 2 ^ w - 1"
  proof
    assume "d dvd 2 ^ w - 1"
    then have "2 ^ w mod d = 1 mod d" using mod_eq_dvd_iff_nat [of 1 "2 ^ w" d] by simp
    then have "2 ^ (w + (l - 1)) mod d = 2 ^ (l - 1) mod d" by (metis mod_mult_left_eq mult_1 power_add)
    also have "\<dots> = 2 ^ (l - 1)" using d(1) by simp
    finally have "d - 2 ^ (w + (l - 1)) mod d \<le> 2 ^ (l - 1)" using d(2) l by (cases l) simp_all
    then show False using nu by (simp add: works_up_def)
  qed
  moreover have w2: "(2 :: nat) ^ w - 1 = Suc (2 ^ w - 2)" using d(1,3) by simp
  ultimately have "(2 ^ w - 1) div d = (2 ^ w - 2) div d" by (simp only: div_Suc mod_eq_0_iff_dvd) (simp add: dvd_eq_mod_eq_0 mod_Suc)
  then show "(2 ^ w - 1) * unat (of_nat ?Q :: u64) div 2 ^ w div 2 ^ i = (2 ^ w - 1) div d"
    using div [of "2 ^ w - 2"] w2 um by simp
qed

text \<open>The search, for a divisor that is no power of two: it stops below the length of the divisor, or a variant that rounds down is known.\<close>

lemma udiv_search:
  assumes D: "D \<noteq> 0" "\<nexists>s. unat D = 2 ^ s" "unat D < 2 ^ w" and w: "0 < w" "w \<le> 64"
  obtains l e q down where "ceil_log_2 D 0 = l" "2 ^ (l - 1) < unat D" "unat D < 2 ^ l"
    "udiv_loop D (ceil_log_2 D 0) x 0 (push_bit (w - 1) 1 div D) (push_bit (w - 1) 1 mod D) None = (e, q, down)"
    "q = of_nat (2 ^ (w + e) div unat D)" "works_up w (unat D) x l e"
    "e < l \<or> x = 0 \<and> e = l \<and> \<not> works_up w (unat D) 0 l (l - 1) \<and>
      (\<exists>i < l. down = Some (of_nat (2 ^ (w + i) div unat D), i) \<and> 2 ^ (w + i) mod unat D \<le> 2 ^ i)"
proof -
  let ?d = "unat D"
  obtain l where l: "0 < l" "ceil_log_2 D 0 = l" "2 ^ (l - 1) \<le> ?d" "?d < 2 ^ l" using ceil_log_2_bounds [OF D(1), of 0] by auto
  have lo: "2 ^ (l - 1) < ?d" using l(3) D(2) by (metis le_neq_implies_less)
  have l64: "l \<le> 64" using exponent_less [OF l(3)] by linarith
  have p: "unat (push_bit (w - 1) 1 :: u64) = 2 ^ (w - 1)" using w by (simp add: unat_two_power)
  have q0: "push_bit (w - 1) 1 div D = of_nat (2 ^ (w - 1 + 0) div ?d)" "push_bit (w - 1) 1 mod D = of_nat (2 ^ (w - 1 + 0) mod ?d)"
    using p by (simp_all add: word_arith_nat_div word_arith_nat_mod del: push_bit_of_1)
  obtain e q down where e: "udiv_loop D l x 0 (push_bit (w - 1) 1 div D) (push_bit (w - 1) 1 mod D) None = (e, q, down)"
    "q = of_nat (2 ^ (w + e) div ?d)" "works_up w ?d x l e" "\<forall>i < e. \<not> works_up w ?d x l i" "down_ok w ?d x e down"
    using udiv_loop_spec [OF w(1) l64 D(1) q0, of x None] by (auto simp: down_ok_def)
  have bound: "e \<le> l - x" using e(4) by (auto simp: works_up_def not_less [symmetric])
  show thesis
  proof (cases "e < l")
    case True
    then show ?thesis using that l lo e by blast
  next
    case False
    then have x: "x = 0" "e = l" using bound l(1) by auto
    have nu: "\<not> works_up w ?d 0 l (l - 1)" using e(4) x l(1) by simp
    then have "2 ^ (w + (l - 1)) mod ?d \<le> 2 ^ (l - 1)" using l(1,4) by (cases l) (simp_all add: works_up_def)
    moreover have "2 ^ (l - 1) < 2 ^ (w + (l - 1)) mod ?d" if "down = None"
    proof -
      have "\<forall>i < l. 2 ^ i < 2 ^ (w + i) mod ?d" using e(5) x that by (simp add: down_ok_def)
      from this [rule_format, of "l - 1"] show ?thesis using l(1) by simp
    qed
    ultimately have "down \<noteq> None" using leD by blast
    then have "\<exists>i < l. down = Some (of_nat (2 ^ (w + i) div ?d), i) \<and> 2 ^ (w + i) mod ?d \<le> 2 ^ i"
      using e(5) x by (auto simp: down_ok_def)
    then show ?thesis using that [OF l(2) lo l(4) e(1) [folded l(2)] e(2,3)] x nu by blast
  qed
qed

lemma strip_even_total: "d \<noteq> 0 \<Longrightarrow> unat d < 2 ^ fuel \<Longrightarrow> \<exists>d' p'. strip_even fuel d p = Some (d', p')"
proof (induction fuel arbitrary: d p)
  case (Suc fuel)
  have "drop_bit 1 d \<noteq> 0" if "d AND 1 = 0"
  proof -
    have "0 < unat d" "even (unat d)" using that Suc.prems(1) by (simp_all add: unat_gt_0 and_one_even)
    then have "0 < unat d div 2" by (auto elim: evenE)
    then show ?thesis by (metis unat_0 less_numeral_extra(3) power_one_right unat_drop_bit_div)
  qed
  then show ?case using Suc.IH [of "drop_bit 1 d" "p + 1"] Suc.prems(2) by (simp add: unat_drop_bit_div)
qed (simp add: unat_eq_0)

text \<open>The result without prefix shift, which is always reached when there are bits to spare.\<close>

lemma udiv_info_odd:
  assumes D: "D \<noteq> 0" "\<nexists>s. unat D = 2 ^ s" "unat D < 2 ^ w" and w: "0 < N" "N \<le> w" "w \<le> 64" and odd: "N < w \<or> odd (unat D)"
  shows "\<exists>info. util_compute_fast_udiv_info D N w = Some info \<and> udiv_ok info (unat D) N w \<and> pre_shift info = 0 \<and>
    (N < w \<longrightarrow> increment info = 0) \<and>
    (increment info = 1 \<longrightarrow> (2 ^ w - 1) * unat (multiplier info) div 2 ^ w div 2 ^ post_shift info = (2 ^ w - 1) div unat D)"
proof -
  have np: "\<not> util_is_power_of_two_or_zero64 D" using power_of_two_iff [OF D(1)] D(2) by blast
  have w0: "0 < w" using w by simp
  obtain l e q down where r: "ceil_log_2 D 0 = l" "2 ^ (l - 1) < unat D" "unat D < 2 ^ l"
    "udiv_loop D (ceil_log_2 D 0) (w - N) 0 (push_bit (w - 1) 1 div D) (push_bit (w - 1) 1 mod D) None = (e, q, down)"
    "q = of_nat (2 ^ (w + e) div unat D)" "works_up w (unat D) (w - N) l e"
    "e < l \<or> w - N = 0 \<and> e = l \<and> \<not> works_up w (unat D) 0 l (l - 1) \<and>
      (\<exists>i < l. down = Some (of_nat (2 ^ (w + i) div unat D), i) \<and> 2 ^ (w + i) mod unat D \<le> 2 ^ i)"
    using udiv_search [OF D w0 w(3), of "w - N"] .
  show ?thesis
  proof (cases "e < l")
    case True
    then have "util_compute_fast_udiv_info D N w = Some \<lparr>multiplier = q + 1, pre_shift = 0, post_shift = e, increment = 0\<rparr>"
      using D(1) w np r(1,4) by (subst util_compute_fast_udiv_info.simps) (simp add: Let_def)
    then show ?thesis using up_case [OF r(2,3) D(3) w(2,3) True r(6)] r(5) by simp
  next
    case False
    then obtain i where i: "N = w" "i < l" "down = Some (of_nat (2 ^ (w + i) div unat D), i)" "2 ^ (w + i) mod unat D \<le> 2 ^ i"
      "\<not> works_up w (unat D) 0 l (l - 1)" using r(7) w(2) by auto
    have "D AND 1 \<noteq> 0" using odd i(1) by (simp add: and_one_even)
    then have "util_compute_fast_udiv_info D N w =
        Some \<lparr>multiplier = of_nat (2 ^ (w + i) div unat D), pre_shift = 0, post_shift = i, increment = 1\<rparr>"
      using D(1) w np r(1,4) i(3) False by (subst util_compute_fast_udiv_info.simps) (simp add: Let_def)
    then show ?thesis using down_case [OF r(2,3) D(3,2) w(3) i(2,4)] i(1,5) by simp
  qed
qed

lemma udiv_info_even:
  assumes D: "D \<noteq> 0" "\<nexists>s. unat D = 2 ^ s" "unat D < 2 ^ w" "even (unat D)" and w: "w \<le> 64"
  shows "\<exists>info. util_compute_fast_udiv_info D w w = Some info \<and> udiv_ok info (unat D) w w \<and> increment info = 0"
proof -
  have np: "\<not> util_is_power_of_two_or_zero64 D" using power_of_two_iff [OF D(1)] D(2) by blast
  have w0: "0 < w" using D(1,3) by (cases w) (simp_all add: unat_eq_0)
  obtain l e q down where r: "ceil_log_2 D 0 = l" "2 ^ (l - 1) < unat D" "unat D < 2 ^ l"
    "udiv_loop D (ceil_log_2 D 0) 0 0 (push_bit (w - 1) 1 div D) (push_bit (w - 1) 1 mod D) None = (e, q, down)"
    "q = of_nat (2 ^ (w + e) div unat D)" "works_up w (unat D) 0 l e" "e < l \<or> e = l"
    using udiv_search [OF D(1-3) w0 w, of 0] by metis
  show ?thesis
  proof (cases "e < l")
    case True
    then have "util_compute_fast_udiv_info D w w = Some \<lparr>multiplier = q + 1, pre_shift = 0, post_shift = e, increment = 0\<rparr>"
      using D(1) w w0 np r(1,4) by (subst util_compute_fast_udiv_info.simps) (simp add: Let_def)
    then show ?thesis using up_case [OF r(2,3) D(3) order_refl w True] r(5,6) by simp
  next
    case False
    obtain S p where s: "strip_even 64 D 0 = Some (S, p)" using strip_even_total [OF D(1), of 64 0] unat_u64_less [of D] by auto
    then have sp: "unat D = unat S * 2 ^ p" "odd (unat S)" using strip_even_spec by fastforce+
    have p0: "p \<noteq> 0" using sp D(4) by (cases p) auto
    have "unat S * 1 \<le> unat S * 2 ^ p" by (intro mult_le_mono2) simp
    then have "unat S < 2 ^ w" using sp(1) D(3) by linarith
    moreover have "S \<noteq> 0" "\<nexists>s. unat S = 2 ^ s" using sp D(2) by (auto simp flip: power_add)
    ultimately have S: "S \<noteq> 0" "unat S < 2 ^ w" "\<nexists>s. unat S = 2 ^ s" by blast+
    have "2 ^ p \<le> unat D" using sp S(1) by (simp add: unat_gt_0 Suc_le_eq)
    then have "(2 :: nat) ^ p < 2 ^ w" using D(3) by linarith
    then have pw: "p < w" by (rule power_less_imp_less_exp [rotated]) simp
    obtain info where i: "util_compute_fast_udiv_info S (w - p) w = Some info" "udiv_ok info (unat S) (w - p) w" "pre_shift info = 0" "increment info = 0"
      using udiv_info_odd [OF S(1,3,2), of "w - p"] pw p0 w sp(2) by auto
    have "util_compute_fast_udiv_info D w w = Some (info\<lparr>pre_shift := p\<rparr>)"
      using D(1) w w0 np r(1,4) False D(4) s i by (subst util_compute_fast_udiv_info.simps) (simp add: Let_def and_one_even)
    moreover have "udiv_ok (info\<lparr>pre_shift := p\<rparr>) (unat D) w w"
    proof -
      have "n div 2 ^ p * unat (multiplier info) div 2 ^ w div 2 ^ post_shift info = n div unat D" if "n < 2 ^ w" for n
      proof -
        have "n div 2 ^ p < 2 ^ (w - p)" using that pw by (simp add: div_less_iff_less_mult flip: power_add)
        then have "n div 2 ^ p * unat (multiplier info) div 2 ^ w div 2 ^ post_shift info = n div 2 ^ p div unat S"
          using i(2-4) by (simp add: udiv_ok_def)
        also have "\<dots> = n div unat D" by (metis sp(1) mult.commute div_mult2_eq)
        finally show ?thesis .
      qed
      then show ?thesis using i(2,4) pw by (simp add: udiv_ok_def)
    qed
    ultimately show ?thesis using i(4) by simp
  qed
qed

text \<open>All divisors at full width; \<open>saturates\<close> is the variant with a saturating increment.\<close>

definition saturates :: "util_fast_udiv_info \<Rightarrow> nat \<Rightarrow> nat \<Rightarrow> bool" where
  "saturates info d w \<longleftrightarrow>
     (increment info = 1 \<longrightarrow> (2 ^ w - 1) * unat (multiplier info) div 2 ^ w div 2 ^ post_shift info = (2 ^ w - 1) div d)"

lemma udiv_info_full:
  assumes D: "D \<noteq> 0" "\<nexists>s. unat D = 2 ^ s" "unat D < 2 ^ w" and w: "w \<le> 64"
  shows "\<exists>info. util_compute_fast_udiv_info D w w = Some info \<and> udiv_ok info (unat D) w w \<and> saturates info (unat D) w"
proof (cases "even (unat D)")
  case True
  then show ?thesis using udiv_info_even [OF D(1-3) True w] by (auto simp: saturates_def)
next
  case False
  have "0 < w" using D(1,3) by (cases w) (simp_all add: unat_eq_0)
  then show ?thesis using udiv_info_odd [OF D, of w] False w by (auto simp: saturates_def)
qed

lemma udiv_info_power:
  assumes D: "unat D = 2 ^ s" "s < w" and w: "0 < N" "N \<le> w" "w \<le> 64"
  shows "\<exists>info. util_compute_fast_udiv_info D N w = Some info \<and> udiv_ok info (unat D) N w \<and> pre_shift info = 0 \<and>
    (s \<noteq> 0 \<longrightarrow> increment info = 0)"
proof -
  have s: "s < 64" using D(2) w(3) by simp
  have D0: "D \<noteq> 0" using D(1) by (simp add: unat_eq_0 [symmetric] del: unat_eq_0)
  have p: "util_is_power_of_two_or_zero64 D" "util_logbase2_64 D = s" using power_of_two_iff [OF D0] log_of_power [OF D(1) s] D(1) s by auto
  show ?thesis
  proof (cases "s = 0")
    case True
    let ?info = "\<lparr>multiplier = u_uintN_max w, pre_shift = 0, post_shift = 0, increment = 1\<rparr>"
    have "unat (u_uintN_max w) = 2 ^ w - 1"
    proof -
      have "unat (u_uintN_max w) = (2 ^ 64 - 1) div 2 ^ (64 - w)" unfolding u_uintN_max_def unat_drop_bit_div by (simp add: unsigned_minus_1_eq_mask mask_eq_exp_minus_1)
      also have "\<dots> = 2 ^ w - 1"
      proof (rule div_nat_between)
        have pw: "(2 :: nat) ^ 64 = 2 ^ w * 2 ^ (64 - w)" using w(3) by (simp flip: power_add)
        show "(2 ^ w - 1) * 2 ^ (64 - w) \<le> 2 ^ 64 - (1 :: nat)" unfolding pw by (simp add: diff_mult_distrib diff_le_mono2 Suc_le_eq)
        show "2 ^ 64 - (1 :: nat) < (2 ^ w - 1 + 1) * 2 ^ (64 - w)" unfolding pw by simp
      qed
      finally show ?thesis .
    qed
    moreover have "(n + 1) * (2 ^ w - 1) div 2 ^ w = n" if "n < 2 ^ N" for n :: nat
    proof (rule div_nat_between)
      have "(2 :: nat) ^ N \<le> 2 ^ w" using w(2) by (rule power_increasing) simp
      then have "n + 1 \<le> 2 ^ w" using that by linarith
      then show "n * 2 ^ w \<le> (n + 1) * (2 ^ w - 1)" "(n + 1) * (2 ^ w - 1) < (n + 1) * 2 ^ w" by (simp_all add: diff_mult_distrib2)
    qed
    ultimately have "udiv_ok ?info (unat D) N w" using D True by (simp add: udiv_ok_def)
    moreover have "util_compute_fast_udiv_info D N w = Some ?info"
      using D0 w p True by (subst util_compute_fast_udiv_info.simps) simp
    ultimately show ?thesis using True by simp
  next
    case False
    let ?info = "\<lparr>multiplier = push_bit (w - s) 1, pre_shift = 0, post_shift = 0, increment = 0\<rparr>"
    have m: "unat (push_bit (w - s) 1 :: u64) = 2 ^ (w - s)" using False D(2) w(3) by (simp add: unat_two_power)
    have "n * 2 ^ (w - s) div 2 ^ w = n div 2 ^ s" for n :: nat
    proof -
      have "(2 :: nat) ^ w = 2 ^ (w - s) * 2 ^ s" using D(2) by (simp flip: power_add)
      then show ?thesis by simp
    qed
    moreover have "(2 :: nat) ^ (w - s) < 2 ^ w" using False D(2) by (intro power_strict_increasing) simp_all
    ultimately have "udiv_ok ?info (unat D) N w" using m D by (simp add: udiv_ok_def)
    moreover have "util_compute_fast_udiv_info D N w = Some ?info"
      using D0 D(2) w p False by (subst util_compute_fast_udiv_info.simps) simp
    ultimately show ?thesis by (metis (no_types) util_fast_udiv_info.select_convs(2,4))
  qed
qed

section \<open>Unsigned division of 32-bit numbers\<close>

lemma udiv_info_exists:
  assumes "D \<noteq> 0" "unat D < 2 ^ w" "w \<le> 64"
  shows "\<exists>info. util_compute_fast_udiv_info D w w = Some info \<and> udiv_ok info (unat D) w w"
proof (cases "\<exists>s. unat D = 2 ^ s")
  case True
  then obtain s where s: "unat D = 2 ^ s" by blast
  then have "(2 :: nat) ^ s < 2 ^ w" using assms(2) by simp
  then have "s < w" by (rule power_less_imp_less_exp [rotated]) simp
  then show ?thesis using udiv_info_power [OF s, of w w] assms(3) by auto
next
  case False
  then show ?thesis using udiv_info_full [OF assms(1) _ assms(2,3)] by auto
qed

lemma high_product:
  assumes "a \<le> 2 ^ 32" "unat m < 2 ^ 32" "unat (b :: u64) = a"
  shows "unat (ucast (drop_bit 32 (b * m)) :: u32) = a * unat m div 2 ^ 32"
proof -
  have "a * unat m \<le> 2 ^ 32 * (2 ^ 32 - 1)" using assms(1,2) by (intro mult_le_mono) simp_all
  then have "unat (b * m) = a * unat m" using assms(3) by (simp add: unat_word_ariths)
  moreover have "a * unat m div 2 ^ 32 < 2 ^ 32"
  proof -
    have "a * unat m div 2 ^ 32 \<le> 2 ^ 32 * unat m div 2 ^ 32" using assms(1) by (intro div_le_mono mult_le_mono1)
    then show ?thesis using assms(2) by simp
  qed
  ultimately show ?thesis by (simp add: unat_ucast_mod unat_drop_bit_div)
qed

lemma udiv32_correct:
  assumes "udiv_ok info d 32 32"
  shows "unat (util_fast_udiv32 n info) = unat n div d"
proof -
  let ?a = "unat n div 2 ^ pre_shift info + increment info"
  have i: "increment info \<le> 1" "unat (multiplier info) < 2 ^ 32" using assms by (simp_all add: udiv_ok_def)
  have le: "unat n div 2 ^ pre_shift info \<le> unat n" "unat n < 2 ^ 32" using unat_u32_less [of n] by simp_all
  then have a: "?a \<le> 2 ^ 32" using i by linarith
  have "unat (ucast (drop_bit (pre_shift info) n) + of_nat (increment info) :: u64) = ?a"
  proof -
    have "(ucast (drop_bit (pre_shift info) n) :: u64) = of_nat (unat n div 2 ^ pre_shift info)"
      using le by (simp add: word_unat_eq_iff unat_ucast_mod unat_drop_bit_div unat_of_nat)
    then show ?thesis using unat_of_nat64 [of ?a] a by simp
  qed
  from high_product [OF a i(2) this] show ?thesis
    using assms le by (simp add: util_fast_udiv32_def unat_drop_bit_div udiv_ok_def Let_def)
qed

lemma udiv32_nuw_correct:
  assumes "udiv_ok info d 32 32" "n \<noteq> - 1"
  shows "\<exists>q. util_fast_udiv32_nuw n info = Some q \<and> unat q = unat n div d"
proof -
  let ?a = "unat n div 2 ^ pre_shift info + increment info"
  have i: "increment info \<le> 1" "unat (multiplier info) < 2 ^ 32" using assms by (simp_all add: udiv_ok_def)
  have "unat n \<noteq> 2 ^ 32 - 1" using assms(2) by (auto simp: word_unat_eq_iff unsigned_minus_1_eq_mask mask_eq_exp_minus_1)
  moreover have le: "unat n div 2 ^ pre_shift info \<le> unat n" "unat n < 2 ^ 32" using unat_u32_less [of n] by simp_all
  ultimately have a: "?a < 2 ^ 32" using i by linarith
  have "drop_bit (pre_shift info) n + of_nat (increment info) = of_nat ?a"
    by (simp add: word_unat_eq_iff unat_drop_bit_div unat_of_nat unat_word_ariths mod_simps)
  then have "unat (ucast (drop_bit (pre_shift info) n + of_nat (increment info)) :: u64) = ?a"
    using a by (simp add: unat_ucast_mod unat_of_nat del: of_nat_add)
  from high_product [OF _ i(2) this] a show ?thesis
    using assms le by (simp add: util_fast_udiv32_nuw_def unat_drop_bit_div udiv_ok_def Let_def)
qed

lemma udiv32_u31_correct:
  assumes "D \<noteq> 0" "D \<noteq> 1" "unat D < 2 ^ 31" "unat n < 2 ^ 31"
  shows "\<exists>info q. util_compute_fast_udiv_info D 31 32 = Some info \<and> util_fast_udiv32_u31_d_not_one n info = Some q \<and> unat q = unat n div unat D"
proof -
  have "\<exists>info. util_compute_fast_udiv_info D 31 32 = Some info \<and> udiv_ok info (unat D) 31 32 \<and> pre_shift info = 0 \<and> increment info = 0"
  proof (cases "\<exists>s. unat D = 2 ^ s")
    case True
    then obtain s where s: "unat D = 2 ^ s" by blast
    then have "s \<noteq> 0" using assms(2) by (auto simp: word_unat_eq_iff)
    moreover have "(2 :: nat) ^ s < 2 ^ 31" using s assms(3) by simp
    then have "s < 31" by (rule power_less_imp_less_exp [rotated]) simp
    ultimately show ?thesis using udiv_info_power [OF s, of 32 31] by auto
  next
    case False
    then show ?thesis using udiv_info_odd [OF assms(1) False, of 32 31] assms(3) by auto
  qed
  then obtain info where i: "util_compute_fast_udiv_info D 31 32 = Some info" "udiv_ok info (unat D) 31 32" "pre_shift info = 0" "increment info = 0" by blast
  have "unat (ucast n :: u64) = unat n" using unat_u32_less [of n] by (simp add: unat_ucast_mod)
  from high_product [OF _ _ this, of "multiplier info"] show ?thesis
    using i assms(4) by (simp add: util_fast_udiv32_u31_d_not_one_def unat_drop_bit_div udiv_ok_def Let_def)
qed

end
