(* ===== verification/Fast_Sdiv_Correct.thy ===== *)
theory Fast_Sdiv_Correct
  imports Fast_Idiv_Correct "HOL-Library.Signed_Division"
begin

text \<open>
  The magic numbers for signed division. \<open>d\<close> is the absolute value of the divisor, \<open>2 ^ p div d + 1\<close> the multiplier before its
  sign is set, and \<open>anc\<close> the test numerator of the code: the largest dividend with remainder \<open>d - 1\<close>.
\<close>

section \<open>Rounding\<close>

definition excess :: "nat \<Rightarrow> nat \<Rightarrow> nat" where
  "excess d p = d - 2 ^ p mod d"

definition magic :: "nat \<Rightarrow> nat \<Rightarrow> nat" where
  "magic d p = 2 ^ p div d + 1"

lemma magic_excess: "0 < d \<Longrightarrow> magic d p * d = 2 ^ p + excess d p"
proof -
  assume "0 < d"
  then have "2 ^ p mod d < d" by simp
  then show ?thesis unfolding magic_def excess_def add_mult_distrib mult_1 using div_mult_mod_eq [of "2 ^ p" d] by linarith
qed

lemma excess_pos: "0 < d \<Longrightarrow> 0 < excess d p" "excess d p \<le> d"
  by (simp_all add: excess_def)

text \<open>A quotient is reached when the error of the product stays within the distance to the next multiple of \<open>d\<close>.\<close>

lemma magic_product:
  assumes "0 < d"
  shows "n * excess d p < (d - n mod d) * 2 ^ p \<Longrightarrow> n * magic d p < (n div d + 1) * 2 ^ p"
    "n * excess d p \<le> (d - n mod d) * 2 ^ p \<Longrightarrow> n * magic d p \<le> (n div d + 1) * 2 ^ p"
    "n div d * 2 ^ p \<le> n * magic d p" "0 < n \<Longrightarrow> n div d * 2 ^ p < n * magic d p"
proof -
  have prod: "n * magic d p * d = n * 2 ^ p + n * excess d p" using magic_excess [OF assms, of p] by (metis add_mult_distrib2 mult.assoc)
  have n: "(n div d + 1) * d = n + (d - n mod d)"
    unfolding add_mult_distrib mult_1 using div_mult_mod_eq [of n d] mod_less_divisor [OF assms, of n] by linarith
  have up: "(n div d + 1) * 2 ^ p * d = n * 2 ^ p + (d - n mod d) * 2 ^ p" using n by (metis add_mult_distrib mult.assoc mult.commute)
  have "n div d * d \<le> n" by simp
  then have "n div d * d * 2 ^ p \<le> n * 2 ^ p" by (rule mult_le_mono1)
  moreover have "n div d * 2 ^ p * d = n div d * d * 2 ^ p" by (simp only: mult_ac)
  ultimately have lo: "n div d * 2 ^ p * d \<le> n * 2 ^ p" by linarith
  have mono: "a * d < b * d \<Longrightarrow> a < b" "a * d \<le> b * d \<Longrightarrow> a \<le> b" for a b :: nat using assms by simp_all
  show "n * magic d p < (n div d + 1) * 2 ^ p" if "n * excess d p < (d - n mod d) * 2 ^ p"
    by (rule mono(1)) (use that prod up in linarith)
  show "n * magic d p \<le> (n div d + 1) * 2 ^ p" if "n * excess d p \<le> (d - n mod d) * 2 ^ p"
    by (rule mono(2)) (use that prod up in linarith)
  show "n div d * 2 ^ p \<le> n * magic d p" by (rule mono(2)) (use prod lo in linarith)
  show "n div d * 2 ^ p < n * magic d p" if "0 < n"
  proof (rule mono(1))
    have "0 < n * excess d p" using that excess_pos(1) [OF assms] by simp
    then show "n div d * 2 ^ p * d < n * magic d p * d" using prod lo by linarith
  qed
qed

lemma div_int_between: "0 < P \<Longrightarrow> q * P \<le> a \<Longrightarrow> a < (q + 1) * P \<Longrightarrow> a div P = (q :: int)"
  by (rule int_div_pos_eq [of _ _ _ "a - P * q"]) (simp_all add: algebra_simps)

section \<open>The test numerator\<close>

definition test_numer :: "nat \<Rightarrow> nat \<Rightarrow> nat" where
  "test_numer d M = M - (M + 1) mod d"

lemma test_numer_Suc: "d - 1 \<le> M \<Longrightarrow> 0 < d \<Longrightarrow> test_numer d M + 1 = (M + 1) div d * d \<and> d \<le> test_numer d M + 1"
proof -
  assume M: "d - 1 \<le> M" "0 < d"
  have "(M + 1) div d * d + (M + 1) mod d = M + 1" by simp
  moreover have "1 \<le> (M + 1) div d" using M by (simp add: div_greater_zero_iff Suc_le_eq)
  then have "1 * d \<le> (M + 1) div d * d" by (rule mult_le_mono1)
  ultimately show ?thesis using M unfolding test_numer_def by linarith
qed

text \<open>Above the test numerator the remainder is smaller, which leaves twice the distance.\<close>

lemma error_above:
  assumes d: "2 \<le> d" "d - 1 \<le> M" and t: "test_numer d M * excess d p < 2 ^ p" and n: "n = (M + 1) div d * d + s" "s + 2 \<le> d"
  shows "n * excess d p < (d - n mod d) * 2 ^ p"
proof -
  let ?e = "excess d p" and ?t = "test_numer d M"
  have t1: "?t + 1 = (M + 1) div d * d" "d \<le> ?t + 1" using test_numer_Suc [of d M] d by auto
  have "n mod d = s" using n by simp
  have "n = ?t + (s + 1)" using n(1) t1(1) by linarith
  then have "n * ?e = ?t * ?e + (s + 1) * ?e" by (simp only: add_mult_distrib)
  moreover have "(s + 1) * ?e \<le> ?t * ?e" using n(2) t1(2) by (intro mult_le_mono1) simp
  ultimately have "n * ?e < 2 * 2 ^ p" using t by linarith
  also have "\<dots> \<le> (d - n mod d) * 2 ^ p" using n(2) \<open>n mod d = s\<close> by (intro mult_le_mono1) simp
  finally show ?thesis .
qed

lemma error_small:
  assumes d: "2 \<le> d" "d - 1 \<le> M" and t: "test_numer d M * excess d p < 2 ^ p" and n: "n \<le> M"
  shows "n * excess d p < (d - n mod d) * 2 ^ p"
proof (cases "n \<le> test_numer d M")
  case True
  then have "n * excess d p \<le> test_numer d M * excess d p" by (rule mult_le_mono1)
  also have "\<dots> < 1 * 2 ^ p" using t by simp
  also have "\<dots> \<le> (d - n mod d) * 2 ^ p" using d(1) mod_less_divisor [of d n] by (intro mult_le_mono1) (simp add: Suc_le_eq)
  finally show ?thesis .
next
  case False
  have t1: "test_numer d M + 1 = (M + 1) div d * d" using test_numer_Suc [of d M] d by auto
  obtain s where s: "n = (M + 1) div d * d + s" using False t1 by (metis Suc_eq_plus1 Suc_leI le_Suc_ex not_le)
  have "s + 2 \<le> d"
  proof -
    have "M + 1 < (M + 1) div d * d + d" using d(1) dividend_less_div_times [of d "M + 1"] by simp
    then show ?thesis using s n by linarith
  qed
  then show ?thesis using error_above [OF d t s] by blast
qed

text \<open>The one dividend beyond: the most negative number, when the divisor is positive.\<close>

lemma error_limit:
  assumes d: "2 \<le> d" "d - 1 \<le> M" and t: "test_numer d M * excess d p < 2 ^ p" and M: "M + 1 = 2 ^ k" and p: "k < p"
  shows "2 ^ k * excess d p \<le> (d - 2 ^ k mod d) * 2 ^ p"
proof (cases "2 ^ k mod d = d - 1")
  case False
  have s: "2 ^ k = (M + 1) div d * d + 2 ^ k mod d" unfolding M by simp
  have "2 ^ k mod d < d" using d(1) by simp
  then have "2 ^ k mod d + 2 \<le> d" using False by linarith
  then show ?thesis using error_above [OF d t s] by simp
next
  case True
  define P :: nat where "P = 2 ^ (p - k)"
  have pk: "(2 :: nat) ^ p = 2 ^ k * P" using p by (simp add: P_def flip: power_add)
  have "excess d p \<le> P"
  proof -
    have "2 ^ p mod d = (d - 1) * (P mod d) mod d" unfolding pk using True by (metis mod_mult_eq)
    also have "\<dots> = (if P mod d = 0 then 0 else d - P mod d)"
    proof (cases "P mod d = 0")
      case False
      have "P mod d < d" using d(1) by simp
      then have "(d - 1) * (P mod d) = d * (P mod d - 1) + (d - P mod d)" using False d(1)
        by (cases "P mod d") (simp_all add: diff_mult_distrib algebra_simps)
      then have "(d - 1) * (P mod d) mod d = (d - P mod d) mod d" by (metis mod_mult_self4)
      also have "\<dots> = d - P mod d" using False d(1) by (intro mod_less) simp
      finally have "(d - 1) * (P mod d) mod d = d - P mod d" .
      then show ?thesis using False by simp
    qed simp
    finally have r: "2 ^ p mod d = (if P mod d = 0 then 0 else d - P mod d)" .
    show ?thesis
    proof (cases "P mod d = 0")
      case True
      then have "d \<le> P" by (auto simp: P_def intro: dvd_imp_le)
      then show ?thesis using excess_pos(2) [of d p] by linarith
    next
      case False
      have "P mod d < d" using d(1) by simp
      then show ?thesis using r False mod_less_eq_dividend [of P d] by (simp add: excess_def)
    qed
  qed
  then have "2 ^ k * excess d p \<le> 2 ^ k * P" by (rule mult_le_mono2)
  then show ?thesis using True d(1) pk by simp
qed

section \<open>The signed search\<close>

lemma double_div_spec:
  assumes D: "0 < unat D" "unat D \<le> 2 ^ 63"
  shows "double_div D (of_nat (2 ^ k div unat D)) (of_nat (2 ^ k mod unat D)) = (of_nat (2 ^ Suc k div unat D), of_nat (2 ^ Suc k mod unat D))"
proof -
  let ?d = "unat D" and ?r = "of_nat (2 ^ k mod unat D) :: u64"
  have lt: "2 ^ k mod ?d < ?d" using D(1) by simp
  have ur: "unat ?r = 2 ^ k mod ?d" using lt unat_u64_less [of D] by (intro unat_of_nat64) simp
  have "unat (?r * 2) = 2 * (2 ^ k mod ?d)" using ur lt D(2) by (simp add: unat_word_ariths)
  then have "?r * 2 \<ge> D \<longleftrightarrow> ?d \<le> 2 * (2 ^ k mod ?d)" by (simp add: word_le_nat_alt)
  moreover have "?r \<ge> D - ?r \<longleftrightarrow> ?d \<le> 2 * (2 ^ k mod ?d)" using lt ur by (auto simp: word_le_nat_alt unat_sub_if')
  ultimately have "double_div D (of_nat (2 ^ k div ?d)) ?r = next_power D (of_nat (2 ^ k div ?d)) ?r"
    by (simp add: double_div_def next_power_def Let_def)
  then show ?thesis using next_power_spec [of _ k D ?r] D(1) by (simp add: unat_gt_0)
qed

lemma le_mult_iff: "r < t \<Longrightarrow> t * q + r \<le> t * e \<longleftrightarrow> q < e \<or> q = e \<and> r = 0" for r t q e :: nat
proof (cases q e rule: linorder_cases)
  case less
  then obtain k where "e = Suc (q + k)" by (auto dest: less_imp_Suc_add)
  then show "r < t \<Longrightarrow> ?thesis" by (simp add: algebra_simps)
next
  case greater
  then obtain k where "q = Suc (e + k)" by (auto dest: less_imp_Suc_add)
  then show "r < t \<Longrightarrow> ?thesis" by (simp add: algebra_simps)
qed simp

text \<open>The exponents that the loop looks for.\<close>

definition exact :: "nat \<Rightarrow> nat \<Rightarrow> nat \<Rightarrow> bool" where
  "exact d t p \<longleftrightarrow> t * excess d p < 2 ^ p"

lemma exact_iff:
  assumes "0 < t" "2 ^ p div t < 2 ^ 64" "0 < d" "d \<le> 2 ^ 63" "t \<le> 2 ^ 63" "unat abs_d = d"
  shows "((of_nat (2 ^ p div t) :: u64) < abs_d - of_nat (2 ^ p mod d) \<or>
    (of_nat (2 ^ p div t) :: u64) = abs_d - of_nat (2 ^ p mod d) \<and> (of_nat (2 ^ p mod t) :: u64) = 0) \<longleftrightarrow> \<not> exact d t p"
proof -
  let ?q = "2 ^ p div t" and ?r = "2 ^ p mod t" and ?e = "excess d p"
  have r: "?r < t" using assms(1) by simp
  have u: "unat (of_nat ?q :: u64) = ?q" "unat (of_nat ?r :: u64) = ?r" using assms(2,5) r by (intro unat_of_nat64; simp)+
  have m: "2 ^ p mod d < d" using assms(3) by simp
  then have "unat (of_nat (2 ^ p mod d) :: u64) = 2 ^ p mod d" using assms(4) by (intro unat_of_nat64) simp
  then have ue: "unat (abs_d - of_nat (2 ^ p mod d)) = ?e" using m assms(6) by (simp add: unat_sub_if' excess_def)
  have "2 ^ p \<le> t * ?e \<longleftrightarrow> ?q < ?e \<or> ?q = ?e \<and> ?r = 0" using le_mult_iff [OF r, of ?q ?e] by simp
  then show ?thesis using u ue by (simp add: exact_def word_less_nat_alt word_unat_eq_iff not_less)
qed

lemma sdiv_loop_spec:
  assumes "0 < t" "t \<le> 2 ^ 63" "0 < d" "d < 2 ^ 63" "unat abs_d = d" "unat num = t"
    "2 ^ p div t < 2 ^ 63" "p < i" "i \<le> p + fuel" "exact d t i"
  shows "\<exists>p'. sdiv_loop fuel abs_d num p (of_nat (2 ^ p div t)) (of_nat (2 ^ p mod t)) (of_nat (2 ^ p div d)) (of_nat (2 ^ p mod d)) =
      Some (p', of_nat (2 ^ p' div d)) \<and> p < p' \<and> exact d t p' \<and> (\<forall>j. p < j \<and> j < p' \<longrightarrow> \<not> exact d t j)"
  using assms(7-10)
proof (induction fuel arbitrary: p)
  case (Suc fuel)
  have dd: "double_div num (of_nat (2 ^ p div t)) (of_nat (2 ^ p mod t)) = (of_nat (2 ^ Suc p div t), of_nat (2 ^ Suc p mod t))"
    "double_div abs_d (of_nat (2 ^ p div d)) (of_nat (2 ^ p mod d)) = (of_nat (2 ^ Suc p div d), of_nat (2 ^ Suc p mod d))"
    using double_div_spec [of num p] double_div_spec [of abs_d p] assms(1-6) by simp_all
  have "2 ^ Suc p = 2 * (t * (2 ^ p div t)) + 2 * (2 ^ p mod t)" by (simp flip: add_mult_distrib2)
  moreover have "(2 * (2 ^ p div t) + 2) * t = 2 * (t * (2 ^ p div t)) + 2 * t" by (simp add: algebra_simps)
  ultimately have "2 ^ Suc p < (2 * (2 ^ p div t) + 2) * t" using mod_less_divisor [OF assms(1), of "2 ^ p"] by linarith
  then have "2 ^ Suc p div t < 2 * (2 ^ p div t) + 2" using assms(1) by (simp only: div_less_iff_less_mult)
  then have q: "2 ^ Suc p div t < 2 ^ 64" using Suc.prems(1) by simp
  have test: "((of_nat (2 ^ Suc p div t) :: u64) < abs_d - of_nat (2 ^ Suc p mod d) \<or>
    (of_nat (2 ^ Suc p div t) :: u64) = abs_d - of_nat (2 ^ Suc p mod d) \<and> (of_nat (2 ^ Suc p mod t) :: u64) = 0) \<longleftrightarrow> \<not> exact d t (Suc p)"
    by (rule exact_iff) (use assms q in simp_all)
  show ?case
  proof (cases "exact d t (Suc p)")
    case True
    then have "sdiv_loop (Suc fuel) abs_d num p (of_nat (2 ^ p div t)) (of_nat (2 ^ p mod t)) (of_nat (2 ^ p div d)) (of_nat (2 ^ p mod d)) =
      Some (Suc p, of_nat (2 ^ Suc p div d))" using test dd by (simp only: sdiv_loop.simps Let_def split Suc_eq_plus1 [symmetric] if_False) simp
    then show ?thesis using True by (intro exI [of _ "Suc p"]) auto
  next
    case False
    then have step: "sdiv_loop (Suc fuel) abs_d num p (of_nat (2 ^ p div t)) (of_nat (2 ^ p mod t)) (of_nat (2 ^ p div d)) (of_nat (2 ^ p mod d)) =
      sdiv_loop fuel abs_d num (Suc p) (of_nat (2 ^ Suc p div t)) (of_nat (2 ^ Suc p mod t)) (of_nat (2 ^ Suc p div d)) (of_nat (2 ^ Suc p mod d))"
      using test dd by (simp only: sdiv_loop.simps Let_def split Suc_eq_plus1 [symmetric] if_True) simp
    have "2 ^ Suc p \<le> t * d" using False excess_pos(2) [of d "Suc p"] mult_le_mono2 [of _ d t] by (simp add: exact_def not_less) (meson le_trans mult_le_mono2)
    then have "2 ^ Suc p div t \<le> d" using assms(1) by (metis div_le_mono nonzero_mult_div_cancel_left not_gr_zero)
    then have b: "2 ^ Suc p div t < 2 ^ 63" using assms(4) by linarith
    have i: "Suc p < i" using Suc.prems(2,4) False by (metis Suc_lessI)
    show ?thesis using Suc.IH [OF b i _ Suc.prems(4)] Suc.prems(3) False unfolding step
      by (metis Suc_lessD add_Suc_shift not_less_eq less_antisym)
  qed
qed simp

section \<open>Signed magic numbers\<close>

lemma mod_once: "0 \<le> k \<Longrightarrow> k < 2 * P \<Longrightarrow> k mod P = (if k < P then k else k - P)" for k P :: int
  by (simp add: mod_pos_pos_trivial) (metis diff_ge_0_iff_ge linorder_not_less minus_mod_self2 mod_pos_pos_trivial mult_2 add_less_cancel_left diff_less_eq add.commute)

lemma signed_take_value:
  fixes x :: int
  assumes "0 \<le> x" "x < 2 ^ Suc n"
  shows "signed_take_bit n x = (if x < 2 ^ n then x else x - 2 ^ Suc n)"
proof -
  have "signed_take_bit n x = (x + 2 ^ n) mod (2 * 2 ^ n) - 2 ^ n" by (simp add: signed_take_bit_eq_take_bit_shift take_bit_eq_mod)
  also have "(x + 2 ^ n) mod (2 * 2 ^ n) = (if x + 2 ^ n < 2 * 2 ^ n then x + 2 ^ n else x + 2 ^ n - 2 * 2 ^ n)"
    using assms by (intro mod_once) simp_all
  finally show ?thesis by simp
qed

lemma sint_value: "sint (w :: u64) = (if uint w < 2 ^ 63 then uint w else uint w - 2 ^ Suc 63)"
  using signed_take_value [of "uint w" 63] uint_lt2p [of w] by (simp add: sint_uint)

definition wrap :: "nat \<Rightarrow> nat \<Rightarrow> int" where
  "wrap W m = (if m < 2 ^ (W - 1) then int m else int m - 2 ^ W)"

lemma sint_sign_extend:
  assumes "m < 2 ^ W" "0 < W" "W \<le> 64"
  shows "sint (sign_extend (of_nat m) W) = wrap W m"
proof -
  let ?k = "64 - W"
  have pw: "(2 :: int) ^ 64 = 2 ^ W * 2 ^ ?k" "(2 :: int) ^ 63 = 2 ^ (W - 1) * 2 ^ ?k" using assms(2,3) by (simp_all flip: power_add)
  have m: "int m < 2 ^ W" using assms(1) by (metis of_nat_less_numeral_power_cancel_iff)
  then have lt: "int m * 2 ^ ?k < 2 ^ 64" unfolding pw(1) by simp
  have "uint (push_bit ?k (of_nat m :: u64)) = int m * 2 ^ ?k"
  proof -
    have "uint (push_bit ?k (of_nat m :: u64)) = take_bit 64 (push_bit ?k (take_bit 64 (int m)))"
      by (simp add: unsigned_push_bit_eq unsigned_of_nat of_nat_take_bit)
    also have "\<dots> = take_bit 64 (int m * 2 ^ ?k)" by (simp add: push_bit_eq_mult take_bit_eq_mod mod_mult_left_eq)
    finally show ?thesis using lt by (simp add: take_bit_int_eq_self)
  qed
  moreover have "int m * 2 ^ ?k < 2 ^ 63 \<longleftrightarrow> m < 2 ^ (W - 1)"
  proof -
    have "int m * 2 ^ ?k < 2 ^ 63 \<longleftrightarrow> int m < 2 ^ (W - 1)" unfolding pw(2) by simp
    then show ?thesis by (metis of_nat_less_numeral_power_cancel_iff)
  qed
  moreover have "int m * 2 ^ ?k - 2 ^ Suc 63 = (int m - 2 ^ W) * 2 ^ ?k" using pw(1) by (simp add: left_diff_distrib)
  ultimately have s: "sint (push_bit ?k (of_nat m :: u64)) = wrap W m * 2 ^ ?k"
    unfolding sint_value wrap_def by presburger
  show ?thesis unfolding sign_extend_def sint_signed_drop_bit_eq s by (simp add: drop_bit_eq_div)
qed

text \<open>The largest absolute value of a dividend whose quotient is positive.\<close>

definition limit :: "bool \<Rightarrow> nat \<Rightarrow> nat" where
  "limit neg W = (if neg then 2 ^ (W - 1) else 2 ^ (W - 1) - 1)"

lemma magic_bounds:
  assumes d: "3 \<le> d" "d < 2 ^ (W - 1)" "\<nexists>s. d = 2 ^ s" and t: "t \<le> 2 ^ (W - 1)" and p: "W \<le> p" "0 < W"
    and least: "p = W \<or> \<not> exact d t (p - 1)"
  shows "magic d p < 2 ^ W" "magic d p \<noteq> 2 ^ (W - 1)"
proof -
  have W: "(2 :: nat) ^ W = 2 * 2 ^ (W - 1)" using p(2) by (cases W) simp_all
  have d0: "0 < d" using d(1) by simp
  show "magic d p < 2 ^ W"
  proof (cases "p = W")
    case True
    have "2 ^ W div d \<le> 2 ^ W div 3" by (rule div_le_mono2) (use d(1) in simp_all)
    moreover have "4 \<le> (2 :: nat) ^ (W - 1)" using d(1,2) by linarith
    ultimately show ?thesis using True W by (simp add: magic_def)
  next
    case False
    then have "2 ^ (p - 1) \<le> t * excess d (p - 1)" using least by (simp add: exact_def)
    also have "\<dots> \<le> 2 ^ (W - 1) * (d - 1)" using t power_mod_pos [OF d(3) d0, of "p - 1"] by (intro mult_le_mono) (simp_all add: excess_def)
    finally have "2 * 2 ^ (p - 1) \<le> 2 ^ W * (d - 1)" using W by simp
    moreover have "2 * 2 ^ (p - 1) = (2 :: nat) ^ p" using p by (cases p) simp_all
    moreover have "excess d p \<le> d - 1" using power_mod_pos [OF d(3) d0, of p] by (simp add: excess_def)
    ultimately have "magic d p * d \<le> 2 ^ W * (d - 1) + (d - 1)" using magic_excess [OF d0, of p] by linarith
    also have "\<dots> < 2 ^ W * d" using d(2) W d0 by (cases d) simp_all
    finally show ?thesis by simp
  qed
  show "magic d p \<noteq> 2 ^ (W - 1)"
  proof
    assume "magic d p = 2 ^ (W - 1)"
    then have "2 ^ (W - 1) * d = 2 ^ p + excess d p" using magic_excess [OF d0, of p] by simp
    moreover have "2 ^ (W - 1) dvd (2 :: nat) ^ p" using p by (intro le_imp_power_dvd) simp
    ultimately have "2 ^ (W - 1) dvd excess d p" by (metis dvd_add_right_iff dvd_triv_left)
    then show False using excess_pos [of d p] d0 d(2) by (auto dest!: dvd_imp_le)
  qed
qed

lemma sdiv_info:
  assumes d: "\<bar>sint D\<bar> = int d" "3 \<le> d" "d < 2 ^ (W - 1)" "\<nexists>s. d = 2 ^ s" and W: "W \<le> 64"
  shows "\<exists>p. W \<le> p \<and> p < 2 * W \<and> test_numer d (limit (sint D < 0) W) * excess d p < 2 ^ p \<and> magic d p < 2 ^ W \<and> magic d p \<noteq> 2 ^ (W - 1) \<and>
    util_compute_fast_sdiv_info D W = Some \<lparr>s_multiplier = (if sint D < 0 then - sign_extend (of_nat (magic d p)) W else sign_extend (of_nat (magic d p)) W),
      s_shift = p - W\<rparr>"
proof -
  let ?M = "limit (sint D < 0) W" and ?n = "(if sint D < 0 then - D else D) :: u64"
  let ?t = "test_numer d ?M"
  have W0: "1 < W" using d(2,3) by (cases "W \<le> 1") (auto dest: le_imp_less_or_eq)
  have w63: "(2 :: nat) ^ (W - 1) \<le> 2 ^ 63" using W by (intro power_increasing) simp_all
  have d63: "d < 2 ^ 63" using d(3) w63 by linarith
  have "?n = of_int \<bar>sint D\<bar>" by simp
  then have n: "?n = of_nat d" using d(1) by simp
  then have un: "unat ?n = d" using d63 by (simp add: unat_of_nat64)
  have M: "d - 1 \<le> ?M" "?M \<le> 2 ^ (W - 1)" "d \<le> ?M" using d(3) by (auto simp: limit_def)
  have t: "?t + 1 = (?M + 1) div d * d" "d \<le> ?t + 1" using test_numer_Suc [OF M(1)] d(2) by auto
  have tM: "?t \<le> ?M" by (simp add: test_numer_def)
  have p: "unat (push_bit (W - 1) 1 :: u64) = 2 ^ (W - 1)" using W W0 by (simp add: unat_two_power)
  have tmp: "push_bit (W - 1) 1 + (if sint D < 0 then 1 else 0) = (of_nat (?M + 1) :: u64)"
    using W0 by (auto simp: limit_def of_nat_diff)
  have uM: "unat (of_nat (?M + 1) :: u64) = ?M + 1" using M(2) w63 by (intro unat_of_nat64) simp
  have mm: "(of_nat (?M + 1) :: u64) mod ?n = of_nat ((?M + 1) mod d)" unfolding word_arith_nat_mod uM un ..
  have le: "(?M + 1) mod d \<le> ?M" using M(3) d(2) mod_less_divisor [of d "?M + 1"] by linarith
  have num: "(of_nat (?M + 1) :: u64) - 1 - of_nat (?M + 1) mod ?n = of_nat ?t" unfolding mm test_numer_def using le by (simp add: of_nat_diff)
  have ut: "unat (of_nat ?t :: u64) = ?t" using tM M(2) w63 by (intro unat_of_nat64) simp
  have t0: "2 \<le> ?t" using t(2) d(2) by linarith
  have init: "push_bit (W - 1) 1 div (of_nat ?t) = (of_nat (2 ^ (W - 1) div ?t) :: u64)" "push_bit (W - 1) 1 mod (of_nat ?t) = (of_nat (2 ^ (W - 1) mod ?t) :: u64)"
    "push_bit (W - 1) 1 div ?n = of_nat (2 ^ (W - 1) div d)" "push_bit (W - 1) 1 mod ?n = of_nat (2 ^ (W - 1) mod d)"
    unfolding word_arith_nat_div word_arith_nat_mod p ut un by (rule refl)+
  have "2 ^ (W - 1) div ?t < 2 ^ (W - 1)" using t0 by (intro div_less_dividend) simp_all
  then have b: "2 ^ (W - 1) div ?t < 2 ^ 63" using w63 by (rule less_le_trans)
  have last: "exact d ?t (2 * W - 2)"
  proof -
    have "?t * excess d (2 * W - 2) \<le> 2 ^ (W - 1) * d" using tM M(2) excess_pos(2) [of d] by (intro mult_le_mono) linarith+
    also have "\<dots> < 2 ^ (W - 1) * 2 ^ (W - 1)" using d(3) by simp
    also have "\<dots> = 2 ^ (2 * W - 2)" using W0 by (simp flip: power_add mult_2)
    finally show ?thesis by (simp add: exact_def)
  qed
  obtain p where r: "sdiv_loop 64 ?n (of_nat ?t) (W - 1) (of_nat (2 ^ (W - 1) div ?t)) (of_nat (2 ^ (W - 1) mod ?t))
      (of_nat (2 ^ (W - 1) div d)) (of_nat (2 ^ (W - 1) mod d)) = Some (p, of_nat (2 ^ p div d))"
    "W - 1 < p" "exact d ?t p" "\<forall>j. W - 1 < j \<and> j < p \<longrightarrow> \<not> exact d ?t j"
  proof -
    have "0 < ?t" "?t \<le> 2 ^ 63" "0 < d" "W - 1 < 2 * W - 2" "2 * W - 2 \<le> W - 1 + 64" using t0 tM M(2) w63 d(2) W W0 by linarith+
    from sdiv_loop_spec [OF this(1-3) d63 un ut b this(4,5) last] that show thesis by blast
  qed
  have "\<not> 2 * W - 2 < p" using r(4) last W0 by auto
  then have p2: "W \<le> p" "p < 2 * W" using r(2) W0 by linarith+
  have least: "p = W \<or> \<not> exact d ?t (p - 1)" using r(2,4) W0 by auto
  have "D \<noteq> 0" "D \<noteq> 1" "D \<noteq> - 1" using d(1,2) by auto
  moreover have "of_nat ?t \<noteq> (0 :: u64)" using ut t0 by auto
  moreover have "(of_nat (2 ^ p div d) + 1 :: u64) = of_nat (magic d p)" by (simp add: magic_def)
  ultimately have "util_compute_fast_sdiv_info D W = Some \<lparr>s_multiplier = (if sint D < 0 then - sign_extend (of_nat (magic d p)) W else sign_extend (of_nat (magic d p)) W),
      s_shift = p - W\<rparr>"
    using W W0 r(1) by (simp only: util_compute_fast_sdiv_info_def Let_def tmp num init c_assert_simps) simp
  then show ?thesis using p2 r(3) magic_bounds [OF d(2-4) _ p2(1) _ least] tM M(2) W0 by (auto simp: exact_def)
qed

section \<open>Signed quotients\<close>

lemma floor_quotient:
  assumes "0 < d"
  shows "n * excess d p < (d - n mod d) * 2 ^ p \<Longrightarrow> (int (magic d p) * int n) div 2 ^ p = int (n div d)"
    "0 < n \<Longrightarrow> n * excess d p \<le> (d - n mod d) * 2 ^ p \<Longrightarrow> (- (int (magic d p) * int n)) div 2 ^ p = - int (n div d) - 1"
proof -
  note m = magic_product [OF assms, of n p]
  have i: "int (n div d) * 2 ^ p = int (n div d * 2 ^ p)" "(int (n div d) + 1) * 2 ^ p = int ((n div d + 1) * 2 ^ p)"
    "int (magic d p) * int n = int (n * magic d p)" by (simp_all add: algebra_simps)
  show "(int (magic d p) * int n) div 2 ^ p = int (n div d)" if "n * excess d p < (d - n mod d) * 2 ^ p"
    by (rule div_int_between) (use m(1) [OF that] m(3) in \<open>simp_all only: i of_nat_le_iff of_nat_less_iff zero_less_power zero_less_numeral\<close>)
  assume n: "0 < n" "n * excess d p \<le> (d - n mod d) * 2 ^ p"
  have "int (n div d) * 2 ^ p < int (magic d p) * int n" "int (magic d p) * int n \<le> (int (n div d) + 1) * 2 ^ p"
    using m(2) [OF n(2)] m(4) [OF n(1)] by (simp_all only: i of_nat_le_iff of_nat_less_iff)
  then show "(- (int (magic d p) * int n)) div 2 ^ p = - int (n div d) - 1"
    by (intro div_int_between) (simp_all add: algebra_simps)
qed

lemma sdiv_floor:
  fixes x :: int
  assumes d: "2 \<le> d" "d < 2 ^ (W - 1)" and t: "test_numer d (limit neg W) * excess d p < 2 ^ p" and p: "W \<le> p" "0 < W"
    and x: "- (2 ^ (W - 1)) \<le> x" "x < 2 ^ (W - 1)" and F: "F = ((if neg then - 1 else 1) * int (magic d p) * x) div 2 ^ p"
  shows "F + (if F < 0 then 1 else 0) = x sdiv (if neg then - int d else int d)"
proof -
  define y where "y = (if neg then - x else x)"
  define n where "n = nat \<bar>y\<bar>"
  have d0: "0 < d" "d - 1 \<le> limit neg W" using d by (auto simp: limit_def)
  have Fy: "F = (int (magic d p) * y) div 2 ^ p" unfolding F y_def by simp
  have q: "x sdiv (if neg then - int d else int d) = sgn y * int (n div d)"
    using d0 by (auto simp: y_def n_def signed_divide_int_def sgn_if zdiv_int)
  have pw: "nat (2 ^ (W - 1)) = 2 ^ (W - 1)" by (simp add: nat_power_eq)
  have n_le: "n \<le> limit neg W \<or> \<not> neg \<and> y < 0 \<and> n = 2 ^ (W - 1)"
  proof -
    have "n \<le> 2 ^ (W - 1)" "\<not> neg \<and> 0 \<le> y \<longrightarrow> n < 2 ^ (W - 1)"
      unfolding n_def y_def using x by (auto simp: nat_le_iff nat_less_iff)
    then show ?thesis by (auto simp: limit_def not_less)
  qed
  have err: "n * excess d p \<le> (d - n mod d) * 2 ^ p" "0 \<le> y \<Longrightarrow> n * excess d p < (d - n mod d) * 2 ^ p"
  proof -
    have s: "n * excess d p < (d - n mod d) * 2 ^ p" if "n \<le> limit neg W" using error_small [OF d(1) d0(2) t that] .
    then show "0 \<le> y \<Longrightarrow> n * excess d p < (d - n mod d) * 2 ^ p" using n_le by auto
    show "n * excess d p \<le> (d - n mod d) * 2 ^ p"
    proof (cases "n \<le> limit neg W")
      case False
      then have f: "\<not> neg" "n = 2 ^ (W - 1)" using n_le by auto
      have "limit neg W + 1 = 2 ^ (W - 1)" "W - 1 < p" using f p by (simp_all add: limit_def)
      then show ?thesis using error_limit [OF d(1) d0(2) t] f by blast
    qed (use s in simp)
  qed
  show ?thesis
  proof (cases "0 \<le> y")
    case True
    then have "F = int (n div d)" unfolding Fy using floor_quotient(1) [OF d0(1) err(2) [OF True]] by (simp add: n_def)
    then show ?thesis using q True by (cases "y = 0") (simp_all add: n_def sgn_if)
  next
    case False
    then have "0 < n" "y = - int n" by (simp_all add: n_def)
    then have "F = - int (n div d) - 1" unfolding Fy using floor_quotient(2) [OF d0(1) _ err(1)] by simp
    then show ?thesis using q False by (simp add: sgn_if)
  qed
qed

end
