(* ===== verification/Nir_Values.thy ===== *)
theory Nir_Values
  imports Nir_Alu Fast_Sdiv_Correct
begin

text \<open>Facts about the values of NIR expressions: their range, their signed reading, and the values that the immediate forms have.\<close>

section \<open>Values\<close>

lemma range_iff_take: "take_bit w (x :: int) = x \<longleftrightarrow> 0 \<le> x \<and> x < 2 ^ w"
  by (rule take_bit_int_eq_self_iff)

lemma div_below: "(x :: int) < 2 ^ v * 2 ^ w \<Longrightarrow> x div 2 ^ w < 2 ^ v"
  by (rule mult_right_less_imp_less [of _ "2 ^ w"], rule order.strict_trans1 [of _ x]) (simp_all add: div_mult_mod_eq flip: minus_mod_eq_div_mult)

lemma eval_take [simp]: "0 < w \<Longrightarrow> take_bit w (eval w env e) = eval w env e"
proof (induction e rule: nir_def.induct [where ?P2.0 = "\<lambda>_. True"])
  case (Ushr a k)
  then have "0 \<le> eval w env a" "eval w env a < 2 ^ w" by (simp_all add: range_iff_take)
  moreover from this have "eval w env a div 2 ^ (k mod w) \<le> eval w env a" using zdiv_mono2 [of "eval w env a" 1 "2 ^ (k mod w)"] by simp
  ultimately show ?case by (simp add: range_iff_take drop_bit_eq_div pos_imp_zdiv_nonneg_iff)
next
  case (Uadd_sat a b)
  then show ?case by (simp add: uadd_sat_expr_def Let_def)
next
  case (Umul_high a b)
  then have r: "0 \<le> eval w env a" "eval w env a < 2 ^ w" "0 \<le> eval w env b" "eval w env b < 2 ^ w" by (simp_all add: range_iff_take)
  then have "eval w env a * eval w env b < 2 ^ w * 2 ^ w" by (intro mult_strict_mono) simp_all
  then have "eval w env a * eval w env b div 2 ^ w < 2 ^ w" by (rule div_below)
  then show ?case using r by (simp add: range_iff_take drop_bit_eq_div pos_imp_zdiv_nonneg_iff)
next
  case (B2i c)
  then show ?case by (simp add: range_iff_take)
qed (simp_all add: take_bit_and take_bit_or)

lemma eval_range: "0 < w \<Longrightarrow> 0 \<le> eval w env e \<and> eval w env e < 2 ^ w"
  by (simp flip: range_iff_take)

lemma sval_range:
  assumes "0 < w"
  shows "- (2 ^ (w - 1)) \<le> sval w x" "sval w x < 2 ^ (w - 1)"
  unfolding sval_def by (rule signed_take_bit_int_greater_eq_minus_exp, rule signed_take_bit_int_less_exp)

lemma sval_take [simp]: "0 < w \<Longrightarrow> sval w (take_bit w x) = sval w x"
  by (auto simp: sval_def signed_take_bit_take_bit)

lemma take_sval [simp]: "0 < w \<Longrightarrow> take_bit w (sval w x) = take_bit w x"
  by (simp add: sval_def take_bit_signed_take_bit)

lemma sval_self: "0 < w \<Longrightarrow> - (2 ^ (w - 1)) \<le> x \<Longrightarrow> x < 2 ^ (w - 1) \<Longrightarrow> sval w x = x"
  by (simp add: sval_def signed_take_bit_int_eq_self)

lemma sval_eval: "0 < w \<Longrightarrow> sval w (eval w env e) = (if eval w env e < 2 ^ (w - 1) then eval w env e else eval w env e - 2 ^ w)"
  using eval_range [of w env e] signed_take_value [of "eval w env e" "w - 1"] by (simp add: sval_def)

lemma eval_imm [simp]: "eval w env (nir_imm_intN_t x w) = take_bit w (uint x)"
  by (simp add: nir_imm_intN_t_def unsigned_take_bit_eq)

lemma eval_ushr_imm [simp]: "k < w \<Longrightarrow> eval w env (nir_ushr_imm e k) = eval w env e div 2 ^ k"
  by (simp add: nir_ushr_imm_def drop_bit_eq_div)

lemma eval_ishr_imm [simp]: "k < w \<Longrightarrow> eval w env (nir_ishr_imm e k) = take_bit w (sval w (eval w env e) div 2 ^ k)"
  by (simp add: nir_ishr_imm_def drop_bit_eq_div)

lemma masked_0_iff: "masked w y = 0 \<longleftrightarrow> take_bit w (uint y) = 0"
  by (simp add: word_uint_eq_iff unsigned_take_bit_eq)

lemma eval_iadd_imm [simp]: "0 < w \<Longrightarrow> eval w env (nir_iadd_imm w x y) = take_bit w (eval w env x + uint y)"
proof -
  assume w: "0 < w"
  have "take_bit w (eval w env x + take_bit w (uint y)) = take_bit w (eval w env x + uint y)" by (simp add: take_bit_eq_mod mod_simps)
  then show ?thesis using w by (auto simp: nir_iadd_imm_def masked_0_iff unsigned_take_bit_eq)
qed

lemma eval_iand_imm [simp]:
  assumes w: "0 < w" "w \<le> 64"
  shows "eval w env (nir_iand_imm w x y) = eval w env x AND take_bit w (uint y)"
proof -
  have "eval w env x AND mask w = eval w env x" using w eval_take [of w env x] by (simp add: take_bit_eq_mask)
  moreover have "take_bit w (uint y) = mask w" if "masked w y = masked w (- 1)"
    using arg_cong [OF that, of uint] w(2) by (simp add: unsigned_take_bit_eq unsigned_minus_1_eq_mask take_bit_of_mask uint_mask_eq min_absorb2 min_absorb1)
  ultimately show ?thesis by (auto simp: nir_iand_imm_def masked_0_iff unsigned_take_bit_eq)
qed

end
