(* ===== verification/Nir_Idiv_Correct.thy ===== *)
theory Nir_Idiv_Correct
  imports Nir_Idiv Nir_Values
begin

text \<open>
  Every expression that the pass builds has the value of the operation that it replaces, for all numerators. The unsigned part rests
  on the facts about \<open>util_compute_fast_udiv_info\<close>, the signed part on those about \<open>util_compute_fast_sdiv_info\<close>.
\<close>

section \<open>Unsigned operations\<close>

lemma uint_unat_int: "unat x = m \<Longrightarrow> uint x = int m"
  by auto

lemma power_index_less: "unat D = 2 ^ s \<Longrightarrow> s < 64" for D :: u64
  using unat_u64_less [of D] power_less_imp_less_exp [of "2 :: nat" s 64] by simp

lemma take_uint: "unat D < 2 ^ w \<Longrightarrow> take_bit w (uint D) = uint D" for D :: u64
  by (simp add: range_iff_take) (metis of_nat_unat of_nat_less_numeral_power_cancel_iff)

lemma umul_high_nat:
  assumes "eval w env e = int X" "unat m < 2 ^ w"
  shows "eval w env (Umul_high e (nir_imm_intN_t m w)) = int (X * unat m div 2 ^ w)"
  using assms take_uint [OF assms(2)] by (simp add: drop_bit_eq_div zdiv_int)

text \<open>The addition saturates for 32 and 64 bits and wraps for fewer.\<close>

lemma uadd_sat_value:
  assumes "w \<in> {8, 16, 32, 64}" "0 \<le> a" "a < 2 ^ w" "0 \<le> b" "b < 2 ^ w"
  shows "uadd_sat_expr w a b = (if 32 \<le> w then min (a + b) (2 ^ w - 1) else take_bit w (a + b))"
proof (cases "32 \<le> w")
  case True
  have "uint (u_uintN_max w) = 2 ^ w - 1" using assms(1) by (auto simp: u_uintN_max_def uint_mask_eq mask_eq_exp_minus_1)
  moreover have "take_bit w (a + b) = (if a + b < 2 ^ w then a + b else a + b - 2 ^ w)"
    using assms(2-5) by (simp add: take_bit_eq_mod mod_once)
  moreover have "take_bit w (2 ^ w - 1 :: int) = 2 ^ w - 1" by (simp add: range_iff_take)
  ultimately show ?thesis using True assms(2-5) by (auto simp: uadd_sat_expr_def Let_def range_iff_take)
next
  case False
  then show ?thesis using assms(4) by (simp add: uadd_sat_expr_def Let_def)
qed

lemma uadd_sat_nat:
  assumes "eval w env e = int x" "x < 2 ^ w" "w \<in> {8, 16, 32, 64}"
  shows "eval w env (Uadd_sat e (nir_imm_intN_t 1 w)) = (if 32 \<le> w then int (min (x + 1) (2 ^ w - 1)) else int ((x + 1) mod 2 ^ w))"
proof -
  have m: "int (2 ^ w - 1) = 2 ^ w - 1" by (simp add: of_nat_diff)
  have one: "take_bit w (1 :: int) = 1" using assms(3) by auto
  have "(1 :: int) < 2 ^ w" using assms(3) by auto
  moreover have "int x < 2 ^ w" using assms(2) by (metis of_nat_less_iff of_nat_numeral of_nat_power)
  ultimately show ?thesis using uadd_sat_value [OF assms(3), of "int x" 1] assms(1) one m
    by (simp add: of_nat_min take_bit_eq_mod zmod_int add.commute)
qed

text \<open>
  A division of the bit size is lowered without an addition that should saturate and does not: the size is at least 32, or the
  magic numbers of the divisor need no increment.
\<close>

definition sat_ok :: "nat \<Rightarrow> u64 \<Rightarrow> bool" where
  "sat_ok w D \<longleftrightarrow> 32 \<le> w \<or> util_is_power_of_two_or_zero64 D \<or>
     (case util_compute_fast_udiv_info D w w of None \<Rightarrow> False | Some info \<Rightarrow> increment info = 0)"

lemma build_udiv_correct:
  assumes D: "unat D < 2 ^ w" and w: "w \<in> {8, 16, 32, 64}" and so: "sat_ok w D"
  shows "\<exists>e. build_udiv w n D = Some e \<and> eval w env e = eval w env n div uint D"
proof -
  have w0: "0 < w" "w \<le> 64" using w by auto
  show ?thesis
proof (cases "D = 0 \<or> util_is_power_of_two_or_zero64 D")
  case True
  show ?thesis
  proof (cases "D = 0")
    case False
    then obtain s where s: "s < 64" "unat D = 2 ^ s" using True power_of_two_iff by blast
    then have "s < w" using D power_less_imp_less_exp [of 2 s w] by simp
    moreover have "uint D = 2 ^ s" using uint_unat_int [OF s(2)] by simp
    ultimately show ?thesis using True False log_of_power [OF s(2,1)] by (simp add: build_udiv_def)
  qed (simp add: build_udiv_def)
next
  case False
  then have np: "\<nexists>s. unat D = 2 ^ s" using power_of_two_iff power_index_less by blast
  obtain info where info: "util_compute_fast_udiv_info D w w = Some info" and ok: "udiv_ok info (unat D) w w" and sat: "saturates info (unat D) w"
    using udiv_info_full [OF _ np D w0(2)] False by blast
  let ?n1 = "if pre_shift info \<noteq> 0 then nir_ushr_imm n (pre_shift info) else n"
  let ?n2 = "if increment info \<noteq> 0 then Uadd_sat ?n1 (nir_imm_intN_t (of_nat (increment info)) w) else ?n1"
  let ?n3 = "Umul_high ?n2 (nir_imm_intN_t (multiplier info) w)"
  let ?n4 = "if post_shift info \<noteq> 0 then nir_ushr_imm ?n3 (post_shift info) else ?n3"
  define A where "A = nat (eval w env n)"
  define X where "X = min (A div 2 ^ pre_shift info + increment info) (2 ^ w - 1)"
  have A: "eval w env n = int A" "A < 2 ^ w" using eval_range [OF w0(1), of env n] by (simp_all add: A_def nat_less_iff)
  have sh: "pre_shift info < w" "post_shift info < w" "unat (multiplier info) < 2 ^ w" "increment info \<le> 1" "increment info = 1 \<longrightarrow> pre_shift info = 0"
    using ok by (simp_all add: udiv_ok_def)
  have n1: "eval w env ?n1 = int (A div 2 ^ pre_shift info)" using sh(1) A(1) by (auto simp: zdiv_int)
  have inc: "increment info = 0 \<or> increment info = 1" using sh(4) by auto
  have wide: "increment info = 1 \<Longrightarrow> 32 \<le> w" using so False info by (simp add: sat_ok_def)
  have "A div 2 ^ pre_shift info < 2 ^ w" using A(2) div_le_dividend le_less_trans by blast
  then have n2: "eval w env ?n2 = int X" using inc n1 uadd_sat_nat [OF n1 _ w] wide sh(5) by (auto simp: X_def)
  have n3: "eval w env ?n3 = int (X * unat (multiplier info) div 2 ^ w)" by (rule umul_high_nat [OF n2 sh(3)])
  have "eval w env ?n4 = int (X * unat (multiplier info) div 2 ^ w div 2 ^ post_shift info)" using n3 sh(2) by (auto simp: zdiv_int)
  also have "X * unat (multiplier info) div 2 ^ w div 2 ^ post_shift info = A div unat D"
  proof (cases "increment info = 1 \<and> A + 1 = 2 ^ w")
    case True
    then have "A = 2 ^ w - 1" by linarith
    moreover have "X = 2 ^ w - 1" using True sh(5) by (simp add: X_def)
    ultimately show ?thesis using sat True by (simp add: saturates_def)
  next
    case False
    then have "A div 2 ^ pre_shift info + increment info < 2 ^ w" using inc sh(5) A(2) \<open>A div 2 ^ pre_shift info < 2 ^ w\<close> by auto
    then have "X = A div 2 ^ pre_shift info + increment info" by (simp add: X_def)
    then show ?thesis using ok A(2) by (simp add: udiv_ok_def)
  qed
  finally have "eval w env ?n4 = eval w env n div uint D" using A(1) by (simp add: zdiv_int)
  moreover have "build_udiv w n D = Some ?n4" using False info by (simp add: build_udiv_def Let_def)
  ultimately show ?thesis by blast
qed
qed

lemma take_sub_mul: "take_bit w (a - take_bit w (q * take_bit w d)) = take_bit w (a - q * d)" for a q d :: int
  by (simp add: take_bit_eq_mod mod_simps)

lemma uint_pred:
  assumes "unat D = 2 ^ s"
  shows "uint (D - 1 :: u64) = 2 ^ s - 1"
proof -
  have "D \<noteq> 0" using assms by auto
  then have "unat (D - 1) = 2 ^ s - 1" using assms by (simp add: unat_minus_one)
  then show ?thesis using uint_unat_int [of "D - 1"] by (simp add: of_nat_diff)
qed

lemma and_minus_1:
  assumes "unat D = 2 ^ s" "s < w"
  shows "eval w env (Iand n (nir_imm_intN_t (D - 1) w)) = eval w env n mod 2 ^ s"
proof -
  have "uint (D - 1) = mask s" using uint_pred [OF assms(1)] by (simp add: mask_eq_exp_minus_1)
  then show ?thesis using assms(2) by (simp add: take_bit_of_mask min_absorb2 flip: take_bit_eq_mask take_bit_eq_mod)
qed

lemma build_umod_correct:
  assumes D: "unat D < 2 ^ w" "D \<noteq> 0" and w: "w \<in> {8, 16, 32, 64}" and so: "sat_ok w D"
  shows "\<exists>e. build_umod w n D = Some e \<and> eval w env e = eval w env n mod uint D"
proof (cases "util_is_power_of_two_or_zero64 D")
  case True
  then obtain s where s: "s < 64" "unat D = 2 ^ s" using D(2) power_of_two_iff by blast
  then have "s < w" using D power_less_imp_less_exp [of 2 s w] by simp
  moreover have "uint D = 2 ^ s" using uint_unat_int [OF s(2)] by simp
  ultimately show ?thesis using True D(2) and_minus_1 [OF s(2)] by (simp add: build_umod_def)
next
  case False
  obtain q where q: "build_udiv w n D = Some q" "eval w env q = eval w env n div uint D" using build_udiv_correct [OF D(1) w so] by blast
  have "take_bit w (eval w env n mod uint D) = eval w env n mod uint D"
    using eval_range [of w env n] w zmod_le_nonneg_dividend [of "eval w env n" "uint D"] pos_mod_sign [of "uint D" "eval w env n"] D(2)
    by (auto simp: range_iff_take uint_0_iff word_neq_0_conv word_less_def)
  then show ?thesis using False D(2) q by (simp add: build_umod_def take_sub_mul minus_div_mult_eq_mod)
qed

text \<open>
  Where the condition fails, the lowered quotient of the largest numerator is zero: the increment wraps and the product with it.
\<close>

lemma build_udiv_narrow:
  assumes w: "w \<in> {8, 16}" and D: "unat D < 2 ^ w" and so: "\<not> sat_ok w D"
  shows "\<exists>e. build_udiv w n D = Some e \<and> (eval w env n = 2 ^ w - 1 \<longrightarrow> eval w env e = 0)"
proof -
  have n1: "\<not> util_is_power_of_two_or_zero64 D" using so by (simp add: sat_ok_def)
  then have n2: "D \<noteq> 0" by (auto simp: util_is_power_of_two_or_zero64_def)
  have "\<nexists>s. unat D = 2 ^ s" using n1 n2 power_of_two_iff power_index_less by blast
  note np = n1 n2 this
  have w': "w \<le> 64" "w \<in> {8, 16, 32, 64}" "w < 32" using w by auto
  obtain info where info: "util_compute_fast_udiv_info D w w = Some info" and ok: "udiv_ok info (unat D) w w"
    using udiv_info_full [OF np(2,3) D w'(1)] by blast
  have inc: "increment info = 1" "pre_shift info = 0" "post_shift info < w" using so info ok np(1) w by (auto simp: sat_ok_def udiv_ok_def)
  let ?n3 = "Umul_high (Uadd_sat n (nir_imm_intN_t 1 w)) (nir_imm_intN_t (multiplier info) w)"
  let ?n4 = "if post_shift info \<noteq> 0 then nir_ushr_imm ?n3 (post_shift info) else ?n3"
  have "eval w env ?n4 = 0" if "eval w env n = 2 ^ w - 1"
  proof -
    have "eval w env n = int (2 ^ w - 1)" using that by (simp add: of_nat_diff)
    then have "eval w env (Uadd_sat n (nir_imm_intN_t 1 w)) = 0" using uadd_sat_nat [of w env n "2 ^ w - 1"] w' by simp
    then show ?thesis using inc(3) by (simp del: eval.simps(5))
  qed
  moreover have "build_udiv w n D = Some ?n4" using np info inc(1,2) by (simp add: build_udiv_def Let_def)
  ultimately show ?thesis by blast
qed

section \<open>Signed divisors\<close>

text \<open>A signed divisor of bit size \<open>w\<close>, sign-extended to 64 bits.\<close>

definition sdivisor :: "nat \<Rightarrow> u64 \<Rightarrow> bool" where
  "sdivisor w D \<longleftrightarrow> - (2 ^ (w - 1)) \<le> sint D \<and> sint D < 2 ^ (w - 1)"

lemma take_uint_sint: "w \<le> 64 \<Longrightarrow> take_bit w (uint D) = take_bit w (sint D)" for D :: u64
  by (simp add: sint_uint take_bit_signed_take_bit)

lemma sval_sint: "0 < w \<Longrightarrow> w \<le> 64 \<Longrightarrow> sdivisor w D \<Longrightarrow> sval w (uint D) = sint D"
  using sval_take [of w "sint D"] sval_take [of w "uint D"] by (simp add: sdivisor_def sval_self take_uint_sint)

lemma take_eq_iff_sval: "0 < w \<Longrightarrow> take_bit w x = take_bit w y \<longleftrightarrow> sval w x = sval w y"
  by (metis sval_take take_sval)

lemma eval_sval: "0 < w \<Longrightarrow> take_bit w (sval w (eval w env e)) = eval w env e"
  by simp

lemma half_power: "0 < w \<Longrightarrow> (2 :: int) ^ w = 2 * 2 ^ (w - 1)"
  by (cases w) simp_all

lemma sint_int_min:
  assumes "0 < w" "w \<le> 64"
  shows "sint (u_intN_min w) = - (2 ^ (w - 1))"
proof -
  have pw: "(2 :: int) ^ 63 = 2 ^ (w - 1) * 2 ^ (64 - w)" using assms by (simp flip: power_add)
  have "uint (u_intN_max w) = drop_bit (64 - w) (uint (0x7fffffffffffffff :: u64))" by (simp only: u_intN_max_def unsigned_drop_bit_eq) simp
  also have "\<dots> = (2 ^ 63 - 1) div 2 ^ (64 - w)" by (simp add: drop_bit_eq_div)
  also have "\<dots> = 2 ^ (w - 1) - 1" unfolding pw by (rule div_int_between) (simp_all add: algebra_simps)
  finally have m: "uint (u_intN_max w) = 2 ^ (w - 1) - 1" .
  have "(2 :: int) ^ (w - 1) \<le> 2 ^ 63" using assms(2) by (intro power_increasing) simp_all
  then have "sint (u_intN_max w) = 2 ^ (w - 1) - 1" unfolding sint_value m by simp
  moreover have "u_intN_min w = NOT (u_intN_max w)" by (simp add: u_intN_min_def not_eq_complement)
  moreover have "(2 :: int) ^ (w - 1) \<le> 2 ^ 64" using assms(2) by (intro power_increasing) simp_all
  then have "signed_take_bit 64 (- (2 ^ (w - 1)) :: int) = - (2 ^ (w - 1))" by (intro signed_take_bit_int_eq_self) (simp_all add: order.strict_trans2 [of _ 0])
  ultimately show ?thesis by (simp add: signed_not_eq not_int_def)
qed

lemma int_min_iff: "0 < w \<Longrightarrow> w \<le> 64 \<Longrightarrow> D = u_intN_min w \<longleftrightarrow> sint D = - (2 ^ (w - 1))" for D :: u64
  using sint_int_min by (metis signed_word_eqI)

lemma sint_uminus: "sint D \<noteq> - (2 ^ 63) \<Longrightarrow> sint (- D) = - sint D" for D :: u64
  using sint_ge [of D] sint_lt [of D] by (simp add: sint_word_ariths signed_take_bit_int_eq_self)

section \<open>Signed division\<close>

lemma sdiv_sgn: "x sdiv d = sgn x * sgn d * (\<bar>x\<bar> div \<bar>d\<bar>)" for x d :: int
  by (simp add: signed_divide_int_def)

lemma eval_ieq_int_min:
  assumes "0 < w" "w \<le> 64"
  shows "evalb w env (nir_ieq_imm w n (u_intN_min w)) \<longleftrightarrow> sval w (eval w env n) = - (2 ^ (w - 1))"
proof -
  have "evalb w env (nir_ieq_imm w n (u_intN_min w)) \<longleftrightarrow> take_bit w (eval w env n) = take_bit w (- (2 ^ (w - 1)))"
    using assms by (simp add: nir_ieq_imm_def take_uint_sint sint_int_min)
  also have "\<dots> \<longleftrightarrow> sval w (eval w env n) = - (2 ^ (w - 1))"
    using take_eq_iff_sval [OF assms(1), of "eval w env n" "- (2 ^ (w - 1))"] sval_self [of w "- (2 ^ (w - 1))"] assms(1) by simp
  finally show ?thesis .
qed

lemma sdiv_int_min:
  fixes x P :: int
  assumes "- P \<le> x" "x < P"
  shows "x sdiv (- P) = (if x = - P then 1 else 0)"
  using assms by (auto simp: sdiv_sgn div_pos_pos_trivial sgn_if)

lemma eval_abs: "0 < w \<Longrightarrow> eval w env (Iabs n) = \<bar>sval w (eval w env n)\<bar>"
  using sval_range [of w "eval w env n"] by (auto simp: take_bit_int_eq_self_iff half_power)

lemma abs_divisor:
  assumes "0 < w" "w \<le> 64" "sdivisor w D" "sint D \<noteq> - (2 ^ (w - 1))"
  shows "sint (if sint D < 0 then - D else D) = \<bar>sint D\<bar>" "\<bar>sint D\<bar> < 2 ^ (w - 1)" "uint (if sint D < 0 then - D else D) = \<bar>sint D\<bar>"
proof -
  have "(2 :: int) ^ (w - 1) \<le> 2 ^ 63" using assms(2) by (intro power_increasing) simp_all
  then have "sint D \<noteq> - (2 ^ 63)" using assms(3,4) by (auto simp: sdivisor_def)
  then show s: "sint (if sint D < 0 then - D else D) = \<bar>sint D\<bar>" using sint_uminus [of D] by auto
  show "\<bar>sint D\<bar> < 2 ^ (w - 1)" using assms(3,4) by (auto simp: sdivisor_def)
  have "0 \<le> sint (if sint D < 0 then - D else D)" unfolding s by simp
  then show "uint (if sint D < 0 then - D else D) = \<bar>sint D\<bar>" using s uint_lt2p [of "if sint D < 0 then - D else D"] by (simp add: sint_value split: if_splits)
qed

lemma abs_power:
  assumes "0 < w" "w \<le> 64" "sdivisor w D" "sint D \<noteq> - (2 ^ (w - 1))" "sint D \<noteq> 0"
    and p: "util_is_power_of_two_or_zero64 (if sint D < 0 then - D else D)"
  obtains k where "k < w - 1" "\<bar>sint D\<bar> = 2 ^ k" "unat (if sint D < 0 then - D else D) = 2 ^ k" "util_logbase2_64 (if sint D < 0 then - D else D) = k"
proof -
  let ?D = "if sint D < 0 then - D else D"
  note a = abs_divisor [OF assms(1-4)]
  have "?D \<noteq> 0" using a(1) assms(5) by auto
  then obtain k where k: "k < 64" "unat ?D = 2 ^ k" using p power_of_two_iff by blast
  then have e: "\<bar>sint D\<bar> = 2 ^ k" using a(3) uint_unat_int [OF k(2)] by simp
  then have "(2 :: int) ^ k < 2 ^ (w - 1)" using a(2) by simp
  then have "k < w - 1" by (rule power_less_imp_less_exp [rotated]) simp
  then show ?thesis using that e k(2) log_of_power [OF k(2,1)] by blast
qed

text \<open>The high half of the product with the multiplier, corrected where the multiplier does not fit its signed type.\<close>

definition corrected :: "nir_def \<Rightarrow> nat \<Rightarrow> u64 \<Rightarrow> u64 \<Rightarrow> nir_def" where
  "corrected n w d m =
     (let res = Imul_high n (nir_imm_intN_t m w);
          res = (if sint d > 0 \<and> sint m < 0 then Iadd res n else res)
      in if sint d < 0 \<and> sint m > 0 then Isub res n else res)"

lemma shifted_product: "(s * (y - 2 ^ w)) div 2 ^ w + s = (s * y) div 2 ^ w" "(s * (2 ^ w - y)) div 2 ^ w - s = (- (s * y)) div 2 ^ w" for s y :: int
proof -
  have "s * y = s * (y - 2 ^ w) + s * 2 ^ w" "s * (2 ^ w - y) = - (s * y) + s * 2 ^ w" by (simp_all add: algebra_simps)
  then show "(s * (y - 2 ^ w)) div 2 ^ w + s = (s * y) div 2 ^ w" "(s * (2 ^ w - y)) div 2 ^ w - s = (- (s * y)) div 2 ^ w"
    by (metis div_mult_self1 power_not_zero zero_neq_numeral add.commute, metis div_mult_self1 power_not_zero zero_neq_numeral add.commute add_diff_cancel_left')
qed

lemma corrected_value:
  assumes w: "0 < w" "w \<le> 64" and m: "m < 2 ^ w" "m \<noteq> 2 ^ (w - 1)" "0 < m" and d: "sint d \<noteq> 0"
    and mult: "mult = (if sint d < 0 then - sign_extend (of_nat m) w else sign_extend (of_nat m) w)"
  shows "eval w env (corrected n w d mult) =
    take_bit w (((if sint d < 0 then - 1 else 1) * int m * sval w (eval w env n)) div 2 ^ w)"
proof -
  define s where "s = sval w (eval w env n)"
  have n: "take_bit w (x + eval w env n) = take_bit w (x + s)" "take_bit w (x - eval w env n) = take_bit w (x - s)" for x
    unfolding eval_sval [OF w(1), of env n, folded s_def, symmetric] by (simp_all add: take_bit_eq_mod mod_simps)
  have im: "int m < 2 ^ w" "int m \<noteq> 2 ^ (w - 1)" using m(1,2) by simp_all
  have "sint (sign_extend (of_nat m) w) = wrap w m" by (rule sint_sign_extend [OF m(1) w])
  moreover have r: "- (2 ^ (w - 1)) < wrap w m" "wrap w m < 2 ^ (w - 1)" using im m half_power [OF w(1)] by (auto simp: wrap_def)
  moreover have "(2 :: int) ^ (w - 1) \<le> 2 ^ 63" using w(2) by (intro power_increasing) simp_all
  ultimately have sm: "sint mult = (if sint d < 0 then - wrap w m else wrap w m)" using sint_uminus [of "sign_extend (of_nat m) w"] by (auto simp: mult)
  then have "sval w (uint mult) = sint mult" using r by (intro sval_sint w) (auto simp: sdivisor_def)
  then have h: "eval w env (Imul_high n (nir_imm_intN_t mult w)) = take_bit w ((s * sint mult) div 2 ^ w)" using w(1) by (simp add: drop_bit_eq_div s_def)
  show ?thesis
  proof (cases "m < 2 ^ (w - 1)")
    case True
    then show ?thesis using h sm d m(3) by (auto simp: corrected_def Let_def wrap_def s_def mult.commute)
  next
    case False
    have "take_bit w (take_bit w x + eval w env n) = take_bit w (x + s)" "take_bit w (take_bit w x - eval w env n) = take_bit w (x - s)" for x
      unfolding n by (simp_all add: take_bit_eq_mod mod_simps)
    then show ?thesis using False h sm d im(1) shifted_product [where s = s and y = "int m" and w = w] by (auto simp: corrected_def Let_def wrap_def s_def mult.commute)
  qed
qed

lemma signed_quotient_range:
  fixes y :: int
  assumes "- (2 ^ k) \<le> y" "y < 2 ^ k"
  shows "- (2 ^ k) \<le> y div 2 ^ j" "y div 2 ^ j < 2 ^ k"
proof -
  have "y \<le> y div 2 ^ j" if "y < 0"
  proof -
    have "y * 2 ^ j \<le> y" using mult_left_mono_neg [of "1 :: int" "2 ^ j" y] that by simp
    then show ?thesis using zdiv_mono1 [of "y * 2 ^ j" y "2 ^ j"] by simp
  qed
  moreover have "0 \<le> y div 2 ^ j" if "\<not> y < 0" using that by (simp add: pos_imp_zdiv_nonneg_iff)
  ultimately show "- (2 ^ k) \<le> y div 2 ^ j" using assms(1) by (cases "y < 0") (auto intro: order_trans [of _ 0])
  have "0 \<le> y \<longrightarrow> y div 2 ^ j \<le> y" using zdiv_mono2 [of y 1 "2 ^ j"] by simp
  then show "y div 2 ^ j < 2 ^ k" using assms(2) pos_imp_zdiv_neg_iff [of "2 ^ j" y] by (cases "0 \<le> y") (auto intro: order.strict_trans [of _ 0])
qed

text \<open>Adding the sign bit.\<close>

lemma add_sign_bit:
  assumes w: "0 < w" and F: "eval w env e = take_bit w F" "- (2 ^ (w - 1)) \<le> F" "F < 2 ^ (w - 1)"
  shows "eval w env (Iadd e (nir_ushr_imm e (w - 1))) = take_bit w (F + (if F < 0 then 1 else 0))"
proof -
  have "take_bit w F div 2 ^ (w - 1) = (if F < 0 then 1 else 0)"
  proof (cases "F < 0")
    case True
    then have "take_bit w F = F + 2 ^ w" 
      using True F(2) half_power [OF w] mod_pos_pos_trivial [of "F + 2 ^ w" "2 ^ w"] by (simp add: take_bit_eq_mod)
    moreover have "(F + 2 ^ w) div 2 ^ (w - 1) = 1" using True F(2) half_power [OF w] by (intro div_int_between) simp_all
    ultimately show ?thesis using True by simp
  next
    case False
    then have "take_bit w F = F" using F(3) half_power [OF w] by (simp add: range_iff_take)
    then show ?thesis using False F(3) by (simp add: div_pos_pos_trivial)
  qed
  then have "eval w env (nir_ushr_imm e (w - 1)) = (if F < 0 then 1 else 0)" using w F(1) by simp
  then show ?thesis using F(1) by (simp add: take_bit_eq_mod mod_simps del: eval_ushr_imm)
qed

lemma general_idiv_value:
  assumes w: "0 < w" "w \<le> 64" and d: "\<bar>sint D\<bar> = int d" "3 \<le> d" "d < 2 ^ (w - 1)" "\<nexists>s. d = 2 ^ s"
  shows "\<exists>m. util_compute_fast_sdiv_info D w = Some m \<and>
    (let res = (if s_shift m \<noteq> 0 then nir_ishr_imm (corrected n w D (s_multiplier m)) (s_shift m) else corrected n w D (s_multiplier m))
     in eval w env (Iadd res (nir_ushr_imm res (w - 1))) = take_bit w (sval w (eval w env n) sdiv sint D))"
proof -
  obtain p where p: "w \<le> p" "p < 2 * w" "test_numer d (limit (sint D < 0) w) * excess d p < 2 ^ p" "magic d p < 2 ^ w" "magic d p \<noteq> 2 ^ (w - 1)"
    "util_compute_fast_sdiv_info D w = Some \<lparr>s_multiplier = (if sint D < 0 then - sign_extend (of_nat (magic d p)) w else sign_extend (of_nat (magic d p)) w),
      s_shift = p - w\<rparr>"
    using sdiv_info [OF d w(2)] by blast
  define mult where "mult = (if sint D < 0 then - sign_extend (of_nat (magic d p)) w else sign_extend (of_nat (magic d p)) w)"
  define s where "s = sval w (eval w env n)"
  define y where "y = (if sint D < 0 then - 1 else 1) * int (magic d p) * s"
  define res where "res = (if p - w \<noteq> 0 then nir_ishr_imm (corrected n w D mult) (p - w) else corrected n w D mult)"
  have s: "- (2 ^ (w - 1)) \<le> s" "s < 2 ^ (w - 1)" using sval_range [OF w(1)] by (simp_all add: s_def)
  have c: "eval w env (corrected n w D mult) = take_bit w (y div 2 ^ w)"
    unfolding y_def s_def using d(1,2) by (intro corrected_value w p) (auto simp: magic_def mult_def)
  have "\<bar>y\<bar> = int (magic d p) * \<bar>s\<bar>" by (simp add: y_def abs_mult)
  also have "\<dots> \<le> int (magic d p) * 2 ^ (w - 1)" using s by (intro mult_left_mono) auto
  also have "\<dots> < 2 ^ w * 2 ^ (w - 1)" using p(4) by (intro mult_strict_right_mono) simp_all
  finally have y: "- (2 ^ (w - 1)) * 2 ^ w \<le> y" "y < 2 ^ (w - 1) * 2 ^ w" by (simp_all add: abs_less_iff mult.commute)
  have "- (2 ^ (w - 1)) * 2 ^ w div 2 ^ w = (- (2 ^ (w - 1)) :: int)" by (rule nonzero_mult_div_cancel_right) simp
  then have "- (2 ^ (w - 1)) \<le> y div 2 ^ w" using zdiv_mono1 [OF y(1), of "2 ^ w"] by (simp only: zero_less_power zero_less_numeral)
  moreover have "y div 2 ^ w < 2 ^ (w - 1)" using y(2) by (rule div_below)
  ultimately have G: "- (2 ^ (w - 1)) \<le> y div 2 ^ w" "y div 2 ^ w < 2 ^ (w - 1)" .
  note F = signed_quotient_range [OF G, of "p - w"]
  have yp: "y div 2 ^ w div 2 ^ (p - w) = y div 2 ^ p" using p(1) by (simp add: zdiv_zmult2_eq [symmetric] flip: power_add)
  have "eval w env res = take_bit w (y div 2 ^ p)" using c p(1,2) G w(1) yp by (cases "p = w") (simp_all add: res_def sval_self)
  then have "eval w env (Iadd res (nir_ushr_imm res (w - 1))) = take_bit w (y div 2 ^ p + (if y div 2 ^ p < 0 then 1 else 0))"
    using F unfolding yp by (rule add_sign_bit [OF w(1)])
  also have "y div 2 ^ p + (if y div 2 ^ p < 0 then 1 else 0) = s sdiv (if sint D < 0 then - int d else int d)"
    using d(2,3) p(1,3) w(1) s by (intro sdiv_floor) (simp_all add: y_def)
  also have "(if sint D < 0 then - int d else int d) = sint D" using d(1) by auto
  finally have "eval w env (Iadd res (nir_ushr_imm res (w - 1))) = take_bit w (sval w (eval w env n) sdiv sint D)" by (simp only: s_def)
  moreover note p(6) [folded mult_def]
  ultimately show ?thesis by (intro exI conjI) (assumption, simp only: Let_def util_fast_sdiv_info.simps res_def)
qed

lemma power_idiv_value:
  assumes w: "0 < w" and k: "k < w" and d: "\<bar>sint D\<bar> = 2 ^ k"
  shows "eval w env (let uq = nir_ushr_imm (Iabs n) k; n_neg = Ilt n (nir_imm_intN_t 0 w); neg = (if sint D < 0 then Bnot n_neg else n_neg)
    in Bcsel neg (Ineg uq) uq) = take_bit w (sval w (eval w env n) sdiv sint D)"
proof -
  define s where "s = sval w (eval w env n)"
  define q where "q = \<bar>s\<bar> div 2 ^ k"
  have uq: "eval w env (nir_ushr_imm (Iabs n) k) = q" using k eval_abs [OF w] by (simp add: q_def s_def)
  then have t: "take_bit w q = q" using eval_take [OF w, of env "nir_ushr_imm (Iabs n) k"] by simp
  have z: "sval w 0 = 0" by (simp add: sval_def)
  have "s sdiv sint D = sgn s * sgn (sint D) * q" by (simp add: sdiv_sgn d q_def)
  moreover have "s = 0 \<Longrightarrow> q = 0" by (simp add: q_def)
  ultimately have "take_bit w (s sdiv sint D) = (if (s < 0) \<noteq> (sint D < 0) then take_bit w (- q) else q)" using t d by (auto simp: sgn_if)
  then show ?thesis using uq z by (auto simp: Let_def s_def simp del: eval_ushr_imm)
qed

lemma build_idiv_correct:
  assumes w: "0 < w" "w \<le> 64" and D: "sdivisor w D"
  shows "\<exists>e. build_idiv w n D = Some e \<and> eval w env e = take_bit w (sval w (eval w env n) sdiv sint D)"
proof -
  let ?s = "sval w (eval w env n)" and ?D = "if sint D < 0 then - D else D"
  have s: "- (2 ^ (w - 1)) \<le> ?s" "?s < 2 ^ (w - 1)" using sval_range [OF w(1)] by simp_all
  consider "D = u_intN_min w" | "D \<noteq> u_intN_min w" "D = 0 \<or> D = 1 \<or> D = - 1"
    | "D \<noteq> u_intN_min w" "D \<noteq> 0" "D \<noteq> 1" "D \<noteq> - 1" "util_is_power_of_two_or_zero64 ?D"
    | "D \<noteq> u_intN_min w" "D \<noteq> 0" "D \<noteq> 1" "D \<noteq> - 1" "\<not> util_is_power_of_two_or_zero64 ?D" by blast
  then show ?thesis
  proof cases
    case 1
    then show ?thesis using sdiv_int_min [OF s] eval_ieq_int_min [OF w, of env n] w sint_int_min [OF w] by (auto simp: build_idiv_def Let_def)
  next
    case 2
    have "take_bit w (- eval w env n) = take_bit w (- ?s)" by (metis take_sval [OF w(1)] take_bit_minus)
    then show ?thesis using 2 w by (auto simp: build_idiv_def Let_def sdiv_sgn sgn_mult_abs)
  next
    case 3
    have "sint D \<noteq> 0" using 3(2) by (simp add: signed_eq_0_iff)
    then obtain k where k: "k < w - 1" "\<bar>sint D\<bar> = 2 ^ k" "util_logbase2_64 ?D = k"
      using abs_power [OF w D _ _ 3(5)] 3(1) int_min_iff [OF w] by metis
    then show ?thesis using power_idiv_value [OF w(1) _ k(2), of env n] 3 by (simp add: build_idiv_def Let_def)
  next
    case 4
    have ni: "sint D \<noteq> - (2 ^ (w - 1))" using 4(1) int_min_iff [OF w] by simp
    note a = abs_divisor [OF w D ni]
    define d where "d = nat \<bar>sint D\<bar>"
    have ud: "unat ?D = d" using a(3) by (simp add: d_def unat_eq_nat_uint)
    have np: "\<nexists>s. d = 2 ^ s" using 4(2,5) power_of_two_iff [of ?D] power_index_less [of ?D] ud by (metis neg_equal_0_iff_equal)
    have d: "\<bar>sint D\<bar> = int d" "d < 2 ^ (w - 1)" using a(2) by (simp_all add: d_def nat_less_iff)
    have "sint D \<noteq> 0" using 4(2) by (simp add: signed_eq_0_iff)
    then have "d \<noteq> 0" using d(1) by linarith
    moreover have "d \<noteq> 1" using np by (metis power_0)
    moreover have "d \<noteq> 2" using np by (metis power_one_right)
    ultimately have "3 \<le> d" by simp
    then obtain m where m: "util_compute_fast_sdiv_info D w = Some m"
      "let res = (if s_shift m \<noteq> 0 then nir_ishr_imm (corrected n w D (s_multiplier m)) (s_shift m) else corrected n w D (s_multiplier m))
       in eval w env (Iadd res (nir_ushr_imm res (w - 1))) = take_bit w (?s sdiv sint D)"
      using general_idiv_value [OF w d(1) _ d(2) np] by blast
    have "build_idiv w n D = Some (let res = (if s_shift m \<noteq> 0 then nir_ishr_imm (corrected n w D (s_multiplier m)) (s_shift m) else corrected n w D (s_multiplier m))
       in Iadd res (nir_ushr_imm res (w - 1)))" using 4 m(1) by (simp add: build_idiv_def corrected_def Let_def)
    then show ?thesis using m(2) by (metis (no_types, lifting))
  qed
qed

section \<open>Remainders\<close>

lemma smod_sdiv: "x smod d = x - (x sdiv d) * d" for x d :: int
  using sdiv_mult_smod_eq [of x d] by simp

lemma smod_abs: "x smod \<bar>d\<bar> = x smod d" for x d :: int
  by (auto simp: smod_sdiv sdiv_sgn abs_if sgn_if)

text \<open>Rounding towards zero by a power of two: negative numerators are moved up first.\<close>

lemma sdiv_power:
  fixes x P :: int
  assumes "0 < P"
  shows "x sdiv P = (x + (if x < 0 then P - 1 else 0)) div P"
proof (cases "x < 0")
  case True
  have "- (- x div P) * P \<le> x + (P - 1)" "x + (P - 1) < (- (- x div P) + 1) * P"
    using div_mult_mod_eq [of "- x" P] pos_mod_sign [OF assms, of "- x"] pos_mod_bound [OF assms, of "- x"] by (simp_all only: left_diff_distrib add_mult_distrib2 distrib_right minus_mult_left [symmetric])
  then have "(x + (P - 1)) div P = - (- x div P)" by (rule div_int_between [OF assms])
  then show ?thesis using True assms by (simp add: sdiv_sgn)
next
  case False
  then show ?thesis using assms by (auto simp: sdiv_sgn sgn_if)
qed

lemma and_high: "x AND - (2 ^ k) = x - x mod 2 ^ k" for x :: int
proof -
  have "x AND NOT (mask k) = push_bit k (drop_bit k x)" by (rule bit_eqI) (auto simp: bit_simps)
  moreover have "push_bit k (drop_bit k x) = x - take_bit k x" using bits_ident [of k x] by linarith
  ultimately show ?thesis by (simp add: minus_exp_eq_not_mask take_bit_eq_mod)
qed

lemma or_high: "x OR - (2 ^ k) = x mod 2 ^ k - 2 ^ k" for x :: int
proof -
  have "x OR NOT (mask k) = take_bit k x OR NOT (mask k)" by (rule bit_eqI) (auto simp: bit_simps)
  also have "\<dots> = take_bit k x + NOT (mask k)" by (rule disjunctive_add [symmetric]) (auto simp: bit_simps)
  finally show ?thesis by (simp add: take_bit_eq_mod flip: minus_exp_eq_not_mask)
qed

lemma take_rounded:
  fixes t T :: int
  assumes "k \<le> w" "take_bit w t = take_bit w T"
  shows "take_bit w (t - t mod 2 ^ k) = take_bit w (T - T mod 2 ^ k)"
proof -
  have "take_bit k (take_bit w t) = take_bit k (take_bit w T)" using assms(2) by simp
  then have "t mod 2 ^ k = T mod 2 ^ k" using assms(1) by (simp add: min_absorb1) (simp add: take_bit_eq_mod)
  then show ?thesis using assms(2) by (metis take_bit_diff)
qed

lemma eval_ilt_0:
  "evalb w env (Ilt n (nir_imm_intN_t 0 w)) \<longleftrightarrow> sval w (eval w env n) < 0"
  "evalb w env (Ige n (nir_imm_intN_t 0 w)) \<longleftrightarrow> 0 \<le> sval w (eval w env n)"
  by (simp_all add: sval_def)

lemma power_irem_value:
  assumes w: "0 < w" "w \<le> 64" and k: "k < w" and D: "uint D = 2 ^ k" "sint D = 2 ^ k"
  shows "eval w env (Isub n (nir_iand_imm w (Bcsel (Ilt n (nir_imm_intN_t 0 w)) (nir_iadd_imm w n (D - 1)) n) (- D))) =
    take_bit w (sval w (eval w env n) smod 2 ^ k)"
proof -
  define s where "s = sval w (eval w env n)"
  define T where "T = s + (if s < 0 then 2 ^ k - 1 else 0)"
  define e where "e = Bcsel (Ilt n (nir_imm_intN_t 0 w)) (nir_iadd_imm w n (D - 1)) n"
  have n: "eval w env n = take_bit w s" using w(1) by (simp add: s_def)
  have D1: "uint (D - 1) = 2 ^ k - 1" using D(1) by (intro uint_pred) (simp add: unat_eq_nat_uint nat_power_eq)
  have e: "eval w env e = (if s < 0 then take_bit w (eval w env n + uint (D - 1)) else eval w env n)"
    unfolding e_def s_def eval.simps eval_ilt_0 eval_iadd_imm [OF w(1)] ..
  have "take_bit w (eval w env e) = take_bit w T"
    unfolding e n D1 T_def by (simp add: take_bit_eq_mod mod_simps)
  then have r: "take_bit w (eval w env e - eval w env e mod 2 ^ k) = take_bit w (T - T mod 2 ^ k)" using k by (intro take_rounded) simp_all
  have "0 < sint D" using D(2) by simp
  then have "sint D \<noteq> - (2 ^ 63)" by simp
  then have "sint (- D) = - (2 ^ k)" using D(2) sint_uminus [of D] by simp
  then have "take_bit w (uint (- D)) = take_bit w (- (2 ^ k))" using take_uint_sint [OF w(2), of "- D"] by simp
  then have "eval w env (nir_iand_imm w e (- D)) = take_bit w (eval w env e AND - (2 ^ k))" using w by (simp add: take_bit_and)
  also have "\<dots> = take_bit w (T div 2 ^ k * 2 ^ k)" unfolding and_high r by (simp only: minus_mod_eq_div_mult)
  finally have "eval w env (Isub n (nir_iand_imm w e (- D))) = take_bit w (s - T div 2 ^ k * 2 ^ k)" unfolding eval.simps n by (simp add: take_bit_eq_mod mod_simps)
  also have "s - T div 2 ^ k * 2 ^ k = s smod 2 ^ k" by (simp add: smod_sdiv sdiv_power T_def)
  finally show ?thesis by (simp only: e_def s_def)
qed

lemma build_irem_correct:
  assumes w: "0 < w" "w \<le> 64" and D: "sdivisor w D" "D \<noteq> 0"
  shows "\<exists>e. build_irem w n D = Some e \<and> eval w env e = take_bit w (sval w (eval w env n) smod sint D)"
proof (cases "D = u_intN_min w")
  case True
  have s: "- (2 ^ (w - 1)) \<le> sval w (eval w env n)" "sval w (eval w env n) < 2 ^ (w - 1)" using sval_range [OF w(1)] by simp_all
  show ?thesis using True D(2) sdiv_int_min [OF s] eval_ieq_int_min [OF w, of env n] w sint_int_min [OF w] by (auto simp: build_irem_def Let_def smod_sdiv)
next
  case False
  let ?D = "if sint D < 0 then - D else D"
  have ni: "sint D \<noteq> - (2 ^ (w - 1))" using False int_min_iff [OF w] by simp
  have nz: "sint D \<noteq> 0" using D(2) by (simp add: signed_eq_0_iff)
  note a = abs_divisor [OF w D(1) ni]
  show ?thesis
  proof (cases "util_is_power_of_two_or_zero64 ?D")
    case True
    obtain k where k: "k < w - 1" "\<bar>sint D\<bar> = 2 ^ k" by (rule abs_power [OF w D(1) ni nz True])
    have "k < w" using k(1) by simp
    have v: "eval w env (Isub n (nir_iand_imm w (Bcsel (Ilt n (nir_imm_intN_t 0 w)) (nir_iadd_imm w n (?D - 1)) n) (- ?D))) =
      take_bit w (sval w (eval w env n) smod sint D)"
      using power_irem_value [OF w \<open>k < w\<close> a(3) [unfolded k(2)] a(1) [unfolded k(2)], of env n] unfolding k(2) [symmetric] smod_abs .
    have "build_irem w n D = Some (Isub n (nir_iand_imm w (Bcsel (Ilt n (nir_imm_intN_t 0 w)) (nir_iadd_imm w n (?D - 1)) n) (- ?D)))"
      using False D(2) True by (simp only: build_irem_def Let_def if_False if_True)
    then show ?thesis using v by (intro exI conjI)
  next
    case np: False
    have "sdivisor w ?D" using a(1,2) by (simp add: sdivisor_def)
    then obtain q where q: "build_idiv w n ?D = Some q" "eval w env q = take_bit w (sval w (eval w env n) sdiv \<bar>sint D\<bar>)"
      using build_idiv_correct [OF w, of ?D n env] unfolding a(1) by blast
    have "take_bit w (take_bit w x - take_bit w (take_bit w y * take_bit w z)) = take_bit w (x - y * z)" for x y z :: int
      by (simp add: take_bit_eq_mod mod_simps)
    then have "take_bit w (eval w env n - take_bit w (eval w env q * take_bit w (uint ?D))) = take_bit w (sval w (eval w env n) - sval w (eval w env n) sdiv \<bar>sint D\<bar> * \<bar>sint D\<bar>)"
      unfolding q(2) a(3) by (metis eval_sval [OF w(1)])
    then have v: "eval w env (Isub n (Imul q (nir_imm_intN_t ?D w))) = take_bit w (sval w (eval w env n) smod sint D)"
      by (simp only: eval.simps isub_expr_eq imul_expr_def eval_imm smod_abs flip: smod_sdiv)
    have "build_irem w n D = Some (Isub n (Imul q (nir_imm_intN_t ?D w)))"
      using False D(2) np q(1) by (simp only: build_irem_def Let_def if_False bind.bind_lunit)
    then show ?thesis using v by (intro exI conjI)
  qed
qed

section \<open>The floored modulus\<close>

text \<open>The constant expression of \<^verbatim>\<open>imod\<close> is the remainder with the sign of the divisor.\<close>

lemma imod_is_mod:
  fixes x d :: int
  assumes "d \<noteq> 0"
  shows "(let r = x smod d in if r = 0 \<or> (x \<ge> 0 \<longleftrightarrow> d \<ge> 0) then r else r + d) = x mod d"
proof -
  have "x smod d = sgn x * (\<bar>x\<bar> mod \<bar>d\<bar>)" by (simp add: smod_int_alt_def)
  then show ?thesis using assms zmod_zminus1_eq_if [of "- x" d] zmod_zminus2_eq_if [of x "- d"] mod_minus_minus [of x d]
    by (auto simp: Let_def sgn_if abs_if)
qed

lemma mod_int_min:
  fixes x P :: int
  assumes "- P \<le> x" "x < P"
  shows "x mod (- P) = (if x = - P then 0 else if x \<le> 0 then x else x - P)"
proof (cases "x \<le> 0")
  case True
  then show ?thesis using assms mod_neg_neg_trivial [of x "- P"] by auto
next
  case False
  then have "(x + (- P)) mod (- P) = x - P" using assms mod_neg_neg_trivial [of "x - P" "- P"] by simp
  moreover have "(x + (- P)) mod (- P) = x mod (- P)" by (rule mod_add_self2)
  ultimately show ?thesis using False assms by simp
qed

lemma imod_int_min_value:
  assumes w: "0 < w" "w \<le> 64"
  shows "eval w env (Bcsel (Bor (Ult (nir_imm_intN_t (u_intN_min w) w) n) (nir_ieq_imm w n 0)) n (Iadd (nir_imm_intN_t (u_intN_min w) w) n)) =
    take_bit w (sval w (eval w env n) mod - (2 ^ (w - 1)))"
proof -
  define a P where "a = eval w env n" and "P = (2 :: int) ^ (w - 1)"
  have P: "2 ^ w = 2 * P" "0 < P" using half_power [OF w(1)] by (simp_all add: P_def)
  have a: "0 \<le> a" "a < 2 * P" "take_bit w a = a" using eval_range [OF w(1), of env n] w(1) P by (simp_all add: a_def)
  have "take_bit w (- P) = P" using P mod_pos_pos_trivial [of "P" "2 * P"] by (simp add: take_bit_eq_mod zmod_zminus1_eq_if)
  then have imm: "eval w env (nir_imm_intN_t (u_intN_min w) w) = P" using take_uint_sint [OF w(2)] sint_int_min [OF w] by (simp add: P_def)
  have s: "sval w a = (if a < P then a else a - 2 * P)" using sval_eval [OF w(1), of env n] P(1) by (simp add: a_def P_def)
  then have m: "sval w a mod - P = (if a = P then 0 else if a = 0 \<or> P < a then sval w a else a - P)"
    using mod_int_min [of P "sval w a"] a P(2) by auto
  have "P < a \<Longrightarrow> take_bit w (sval w a) = a" using a(3) w(1) by simp
  moreover have "take_bit w (P + a) = take_bit w (a - P)" using P(1) mod_add_self2 [of "a - P" "2 * P"] by (simp add: take_bit_eq_mod algebra_simps)
  moreover have "take_bit w (P + P) = 0" using P(1) by (simp add: take_bit_eq_mod)
  moreover have "eval w env (nir_imm_intN_t 0 w) = 0" by simp
  ultimately show ?thesis using s a P(2) unfolding eval.simps evalb.simps nir_ieq_imm_def imm a_def [symmetric] P_def [symmetric] m by auto
qed

lemma imod_minus_power_value:
  assumes w: "0 < w" "w \<le> 64" and k: "k < w - 1" "sint D = - (2 ^ k)"
  shows "eval w env (Bcsel (Ieq (Ior n (nir_imm_intN_t D w)) (nir_imm_intN_t D w)) (nir_imm_intN_t 0 w) (Ior n (nir_imm_intN_t D w))) =
    take_bit w (sval w (eval w env n) mod sint D)"
proof -
  define s where "s = sval w (eval w env n)"
  define r where "r = s mod 2 ^ k - 2 ^ k"
  have n: "eval w env n = take_bit w s" using w(1) by (simp add: s_def)
  have d: "eval w env (nir_imm_intN_t D w) = take_bit w (- (2 ^ k))" using take_uint_sint [OF w(2), of D] k(2) by simp
  have o: "eval w env (Ior n (nir_imm_intN_t D w)) = take_bit w r" unfolding eval.simps n d r_def by (simp only: or_high flip: take_bit_or)
  have "(2 :: int) ^ k \<le> 2 ^ (w - 1)" "(0 :: int) < 2 ^ k" using k(1) by (auto intro!: power_increasing)
  moreover have "0 \<le> s mod 2 ^ k" "s mod 2 ^ k < 2 ^ k" by simp_all
  ultimately have "- (2 ^ (w - 1)) \<le> r" "r < 2 ^ (w - 1)" "- (2 ^ (w - 1)) \<le> - (2 ^ k :: int)" "- (2 ^ k) < (2 :: int) ^ (w - 1)"
    unfolding r_def by linarith+
  then have "sval w r = r" "sval w (- (2 ^ k)) = - (2 ^ k)" using w(1) by (auto intro!: sval_self)
  then have "take_bit w r = take_bit w (- (2 ^ k)) \<longleftrightarrow> s mod 2 ^ k = 0" using take_eq_iff_sval [OF w(1), of r "- (2 ^ k)"] by (simp add: r_def)
  moreover have "s mod sint D = (if s mod 2 ^ k = 0 then 0 else r)" by (simp add: k(2) r_def zmod_zminus2_eq_if)
  ultimately show ?thesis using d o by (simp flip: s_def del: eval.simps(12) eval_imm add: eval.simps(16)) simp
qed

lemma imod_general_value:
  assumes w: "0 < w" "w \<le> 64" and D: "sdivisor w D" "sint D \<noteq> 0" and r: "eval w env e = take_bit w (sval w (eval w env n) smod sint D)"
  shows "eval w env (let zero = nir_imm_intN_t 0 w; sign_same = (if sint D < 0 then Ilt n zero else Ige n zero); rem_zero = Ieq e zero
     in Bcsel (Bor rem_zero sign_same) e (nir_iadd_imm w e D)) = take_bit w (sval w (eval w env n) mod sint D)"
proof -
  define s where "s = sval w (eval w env n)"
  define x where "x = s smod sint D"
  have P: "\<bar>sint D\<bar> \<le> 2 ^ (w - 1)" using D(1) by (auto simp: sdivisor_def)
  have "\<bar>x\<bar> < \<bar>sint D\<bar>" using D(2) by (simp add: x_def smod_int_alt_def abs_mult sgn_if)
  then have "sval w x = x" "sval w 0 = 0" using P w(1) by (auto intro!: sval_self)
  then have z: "take_bit w x = 0 \<longleftrightarrow> x = 0" using take_eq_iff_sval [OF w(1), of x 0] by simp
  have m: "s mod sint D = (if x = 0 \<or> (s \<ge> 0 \<longleftrightarrow> sint D \<ge> 0) then x else x + sint D)" 
    using imod_is_mod [OF D(2), of s] unfolding x_def Let_def by (rule sym)
  have "take_bit w (take_bit w x + uint D) = take_bit w (take_bit w x + take_bit w (uint D))" by (simp add: take_bit_eq_mod mod_simps)
  also have "\<dots> = take_bit w (x + sint D)" unfolding take_uint_sint [OF w(2), of D] by (rule take_bit_add)
  finally have add: "eval w env (nir_iadd_imm w e D) = take_bit w (x + sint D)" unfolding eval_iadd_imm [OF w(1)] r x_def s_def .
  have rz: "evalb w env (Ieq e (nir_imm_intN_t 0 w)) \<longleftrightarrow> x = 0" using r z by (simp add: x_def s_def)
  have "evalb w env (if sint D < 0 then Ilt n (nir_imm_intN_t 0 w) else Ige n (nir_imm_intN_t 0 w)) \<longleftrightarrow> (s \<ge> 0 \<longleftrightarrow> sint D \<ge> 0)"
    unfolding s_def by (auto simp: eval_ilt_0 simp del: evalb.simps)
  then have "evalb w env (Bor (Ieq e (nir_imm_intN_t 0 w)) (if sint D < 0 then Ilt n (nir_imm_intN_t 0 w) else Ige n (nir_imm_intN_t 0 w))) \<longleftrightarrow>
    x = 0 \<or> (s \<ge> 0 \<longleftrightarrow> sint D \<ge> 0)" using rz by (simp only: evalb.simps(6))
  then show ?thesis unfolding Let_def eval.simps(16) add s_def [symmetric] m r [folded s_def, folded x_def] by (simp only: if_distrib [of "take_bit w"])
qed

lemma build_imod_correct:
  assumes w: "0 < w" "w \<le> 64" and D: "sdivisor w D" "D \<noteq> 0"
  shows "\<exists>e. build_imod w n D = Some e \<and> eval w env e = take_bit w (sval w (eval w env n) mod sint D)"
proof -
  define s where "s = sval w (eval w env n)"
  have nz: "sint D \<noteq> 0" using D(2) by (simp add: signed_eq_0_iff)
  consider "D = u_intN_min w" | "D \<noteq> u_intN_min w" "sint D > 0" "util_is_power_of_two_or_zero64 D"
    | "D \<noteq> u_intN_min w" "sint D < 0" "util_is_power_of_two_or_zero64 (- D)"
    | "D \<noteq> u_intN_min w" "\<not> (sint D > 0 \<and> util_is_power_of_two_or_zero64 D)" "\<not> (sint D < 0 \<and> util_is_power_of_two_or_zero64 (- D))"
    by blast
  then show ?thesis
  proof cases
    case 1
    then have "build_imod w n D = Some (Bcsel (Bor (Ult (nir_imm_intN_t (u_intN_min w) w) n) (nir_ieq_imm w n 0)) n (Iadd (nir_imm_intN_t (u_intN_min w) w) n))"
      using D(2) by (simp add: build_imod_def Let_def)
    then show ?thesis using imod_int_min_value [OF w, of env n] 1 sint_int_min [OF w] by (simp del: eval.simps)
  next
    case 2
    have ni: "sint D \<noteq> - (2 ^ (w - 1))" using 2(1) int_min_iff [OF w] by simp
    have "(if sint D < 0 then - D else D) = D" using 2(2) by simp
    note ap = abs_power [OF w D(1) ni nz, unfolded this, OF 2(3)]
    obtain k where k: "k < w - 1" "\<bar>sint D\<bar> = 2 ^ k" "unat D = 2 ^ k" by (rule ap)
    have kw: "k < w" using k(1) by simp
    have "take_bit k (eval w env n) = take_bit k (take_bit w s)" using w(1) by (simp add: s_def)
    also have "\<dots> = take_bit w (take_bit k s)" using kw by (simp add: min_absorb1 min_absorb2)
    finally have "eval w env n mod 2 ^ k = take_bit w (s mod 2 ^ k)" by (simp only: take_bit_eq_mod)
    then have "eval w env (Iand n (nir_imm_intN_t (D - 1) w)) = take_bit w (s mod sint D)" using and_minus_1 [OF k(3) kw, of env n] k(2) 2(2) by simp
    then show ?thesis using 2 D(2) by (simp add: build_imod_def s_def)
  next
    case 3
    have ni: "sint D \<noteq> - (2 ^ (w - 1))" using 3(1) int_min_iff [OF w] by simp
    have "(if sint D < 0 then - D else D) = - D" using 3(2) by simp
    note ap = abs_power [OF w D(1) ni nz, unfolded this, OF 3(3)]
    obtain k where k: "k < w - 1" "\<bar>sint D\<bar> = 2 ^ k" by (rule ap)
    have "sint D = - (2 ^ k)" using k(2) 3(2) by simp
    note v = imod_minus_power_value [OF w k(1) this, of env n]
    have "build_imod w n D = Some (Bcsel (Ieq (Ior n (nir_imm_intN_t D w)) (nir_imm_intN_t D w)) (nir_imm_intN_t 0 w) (Ior n (nir_imm_intN_t D w)))"
      using 3 D(2) by (simp add: build_imod_def Let_def)
    then show ?thesis using v by (intro exI conjI)
  next
    case 4
    obtain e where e: "build_irem w n D = Some e" "eval w env e = take_bit w (sval w (eval w env n) smod sint D)"
      using build_irem_correct [OF w D, of n env] by blast
    have "build_imod w n D = Some (let zero = nir_imm_intN_t 0 w; sign_same = (if sint D < 0 then Ilt n zero else Ige n zero); rem_zero = Ieq e zero
       in Bcsel (Bor rem_zero sign_same) e (nir_iadd_imm w e D))"
      using 4 e(1) D(2) by (simp add: build_imod_def Let_def)
    then show ?thesis using imod_general_value [OF w D(1) nz e(2)] by (intro exI conjI)
  qed
qed

section \<open>The pass\<close>

lemma masked_divisor:
  assumes "0 < w" "w \<le> 64"
  shows "unat (if w < 64 then D AND (push_bit w 1 - 1) else D :: u64) < 2 ^ w" "uint (if w < 64 then D AND (push_bit w 1 - 1) else D) = take_bit w (uint D)"
proof -
  let ?D = "if w < 64 then D AND (push_bit w 1 - 1) else D"
  have m: "D AND (push_bit w 1 - 1) = take_bit w D" by (simp only: take_bit_eq_mask mask_eq_exp_minus_1 push_bit_eq_mult mult_1)
  have all: "take_bit 64 (uint D) = uint D" using uint_lt2p [of D] by (intro take_bit_int_eq_self) simp_all
  show u: "uint ?D = take_bit w (uint D)"
  proof (cases "w < 64")
    case True
    then show ?thesis by (simp only: m if_True unsigned_take_bit_eq)
  next
    case False
    then have "w = 64" using assms(2) by simp
    then show ?thesis using all by simp
  qed
  have "uint ?D < 2 ^ w" unfolding u by (rule take_bit_int_less_exp)
  then show "unat ?D < 2 ^ w" unfolding unat_eq_nat_uint by (rule nat_less_numeral_power_cancel_iff [THEN iffD2])
qed

text \<open>The divisor of an unsigned operation as the pass masks it.\<close>

abbreviation masked_const :: "nat \<Rightarrow> u64 \<Rightarrow> u64" where
  "masked_const w D \<equiv> if w < 64 then D AND (push_bit w 1 - 1) else D"

lemma lower_unsigned:
  assumes w: "w \<in> {8, 16, 32, 64}" and op: "is_uint_op op" and so: "sat_ok w (masked_const w D)"
  shows "\<exists>e. lower_channel w op n D = Some e \<and> eval w env e = nir_op_value w op (eval w env n) (take_bit w (uint D))"
proof -
  define D' where "D' = (if w < 64 then D AND (push_bit w 1 - 1) else D)"
  have w0: "0 < w" "w \<le> 64" using w by auto
  note D' = masked_divisor [OF w0, of D, folded D'_def] and so' = so [folded D'_def]
  have l: "lower_channel w op n D = (if op = Op_udiv then build_udiv w n D' else build_umod w n D')"
    using op by (auto simp: lower_channel_def D'_def)
  have z: "take_bit w (uint D) = 0 \<longleftrightarrow> D' = 0" using D'(2) by (simp add: uint_0_iff flip: D'(2))
  show ?thesis
  proof (cases "op = Op_udiv")
    case True
    then show ?thesis using l build_udiv_correct [OF D'(1) w so', of n env] D'(2) by (auto simp: op_value_defs)
  next
    case False
    then have "op = Op_umod" using op by simp
    then show ?thesis using l z build_umod_correct [OF D'(1) _ w so', of n env] D'(2) by (cases "D' = 0") (auto simp: op_value_defs build_umod_def)
  qed
qed

lemma lower_signed:
  assumes w: "0 < w" "w \<le> 64" and D: "sdivisor w D" and op: "\<not> is_uint_op op"
  shows "\<exists>e. lower_channel w op n D = Some e \<and> eval w env e = nir_op_value w op (eval w env n) (take_bit w (uint D))"
proof -
  have d: "sval w (take_bit w (uint D)) = sint D" using sval_sint [OF w D] w(1) by simp
  have z: "take_bit w (uint D) = 0 \<longleftrightarrow> D = 0"
  proof
    assume "take_bit w (uint D) = 0"
    then have "sint D = 0" using d by (simp add: sval_def)
    then show "D = 0" by (simp add: signed_eq_0_iff)
  qed simp
  show ?thesis
  proof (cases "D = 0")
    case True
    then show ?thesis using op w u_intN_min_def sint_int_min [OF w] by (cases op) (auto simp: lower_channel_def build_idiv_def build_irem_def build_imod_def op_value_defs Let_def)
  next
    case False
    then have nz: "sint D \<noteq> 0" by (simp add: signed_eq_0_iff)
    have "nir_op_value w Op_imod (eval w env n) (take_bit w (uint D)) = take_bit w (sval w (eval w env n) mod sint D)"
      unfolding op_value_defs d using z False imod_is_mod [OF nz, of "sval w (eval w env n)"] by simp
    then show ?thesis
      using op z d False build_idiv_correct [OF w D, of n env] build_irem_correct [OF w D False, of n env] build_imod_correct [OF w D False, of n env]
      by (cases op) (simp_all add: lower_channel_def, simp_all add: op_value_defs)
  qed
qed

text \<open>A constant divisor that fits its bit size and, for unsigned operations, needs no saturating addition below 32 bits.\<close>

definition divisor_ok :: "nat \<Rightarrow> nir_op \<Rightarrow> u64 \<Rightarrow> bool" where
  "divisor_ok w op D \<longleftrightarrow> sdivisor w D \<and> (is_uint_op op \<longrightarrow> sat_ok w (masked_const w D))"

lemma lower_channel_correct:
  assumes "w \<in> {8, 16, 32, 64}" "divisor_ok w op D"
  shows "\<exists>e. lower_channel w op n D = Some e \<and> eval w env e = nir_op_value w op (eval w env n) (take_bit w (uint D))"
proof (cases "is_uint_op op")
  case True
  then show ?thesis using lower_unsigned [OF assms(1) True] assms(2) by (simp add: divisor_ok_def)
next
  case False
  have "0 < w" "w \<le> 64" using assms(1) by auto
  then show ?thesis using lower_signed [OF _ _ _ False] assms(2) by (simp add: divisor_ok_def)
qed

lemma lower_channels_correct:
  assumes "w \<in> {8, 16, 32, 64}" "\<forall>D \<in> set ds. divisor_ok w op D" "length ns = length ds"
  shows "\<exists>es. lower_channels w op ns ds = Some es \<and>
    map (eval w env) es = map2 (\<lambda>n D. nir_op_value w op (eval w env n) (take_bit w (uint D))) ns ds"
  using assms(3,2)
proof (induction ns ds rule: list_induct2)
  case (Cons n ns D ds)
  obtain e where "lower_channel w op n D = Some e" "eval w env e = nir_op_value w op (eval w env n) (take_bit w (uint D))"
    using lower_channel_correct [OF assms(1), of op D n env] Cons.prems by auto
  then show ?case using Cons by auto
qed simp

text \<open>
  Divisions as NIR has them: a bit size of the hardware, one divisor per channel, and constants that fit the bit size. Unsigned
  divisions of 8 and 16 bits have divisors that need no increment, which includes all even ones.
\<close>

fun wf_instr :: "nir_instr \<Rightarrow> bool" where
  "wf_instr (Alu dst w op ns (Const ds)) \<longleftrightarrow> w \<in> {8, 16, 32, 64} \<and> length ns = length ds \<and> list_all (divisor_ok w op) ds"
| "wf_instr _ \<longleftrightarrow> True"

fun lowered :: "nat \<Rightarrow> nir_instr \<Rightarrow> bool" where
  "lowered min_bit_size (Alu dst w op ns (Const ds)) \<longleftrightarrow> min_bit_size \<le> w"
| "lowered min_bit_size _ \<longleftrightarrow> False"

lemma opt_instr_correct:
  assumes "wf_instr i"
  shows "\<exists>i'. opt_instr min_bit_size i = Some (i', lowered min_bit_size i) \<and> exec i' = exec i \<and> \<not> lowered min_bit_size i'"
proof (cases "lowered min_bit_size i")
  case True
  then obtain dst w op ns ds where i: "i = Alu dst w op ns (Const ds)" "min_bit_size \<le> w" by (cases "(min_bit_size, i)" rule: lowered.cases) auto
  have w: "w \<in> {8, 16, 32, 64}" "\<forall>D \<in> set ds. divisor_ok w op D" "length ns = length ds" using assms i(1) by (auto simp: list_all_iff)
  obtain es where es: "lower_channels w op ns ds = Some es" using lower_channels_correct [OF w] by blast
  have "exec (Vec dst w es) env = exec i env" for env using lower_channels_correct [OF w, of env] es by (simp add: i(1))
  then have "exec (Vec dst w es) = exec i" by (rule ext)
  then show ?thesis using i es True by (simp add: opt_instr_def nir_opt_idiv_const_instr_def)
next
  case False
  then show ?thesis by (cases i; cases "nir_src_is_const (case i of Alu _ _ _ _ ds \<Rightarrow> ds | _ \<Rightarrow> Dyn [])")
    (auto simp: opt_instr_def nir_opt_idiv_const_instr_def elim: nir_src_is_const.elims)
qed

lemma nir_opt_idiv_const_impl_correct:
  assumes "list_all wf_instr xs"
  shows "\<exists>xs'. nir_opt_idiv_const_impl min_bit_size xs = Some (xs', list_ex (lowered min_bit_size) xs) \<and>
    fold exec xs' = fold exec xs \<and> list_all (\<lambda>i. \<not> lowered min_bit_size i) xs'"
  using assms
proof (induction xs)
  case (Cons i xs)
  then obtain xs' where "nir_opt_idiv_const_impl min_bit_size xs = Some (xs', list_ex (lowered min_bit_size) xs)"
    "fold exec xs' = fold exec xs" "list_all (\<lambda>i. \<not> lowered min_bit_size i) xs'" by auto
  then show ?case using opt_instr_correct [of i min_bit_size] Cons.prems by auto
qed simp

text \<open>Two shaders mean the same when their functions do, one by one.\<close>

definition same_meaning :: "nir_instr list option list \<Rightarrow> nir_instr list option list \<Rightarrow> bool" where
  "same_meaning fs gs \<longleftrightarrow> map (map_option (fold exec)) fs = map (map_option (fold exec)) gs"

lemma nir_opt_idiv_const_correct:
  assumes "list_all (pred_option (list_all wf_instr)) fs"
  shows "\<exists>gs. nir_opt_idiv_const min_bit_size fs = Some (gs, \<exists>xs \<in> set fs. \<exists>f. xs = Some f \<and> list_ex (lowered min_bit_size) f) \<and>
    same_meaning gs fs \<and> list_all (pred_option (list_all (\<lambda>i. \<not> lowered min_bit_size i))) gs"
  using assms
proof (induction fs)
  case (Cons f fs)
  then obtain gs where gs: "nir_opt_idiv_const min_bit_size fs = Some (gs, \<exists>xs \<in> set fs. \<exists>f. xs = Some f \<and> list_ex (lowered min_bit_size) f)"
    "same_meaning gs fs" "list_all (pred_option (list_all (\<lambda>i. \<not> lowered min_bit_size i))) gs" by auto
  show ?case
  proof (cases f)
    case None
    then show ?thesis using gs by (auto simp: same_meaning_def)
  next
    case (Some impl)
    then show ?thesis using gs Cons.prems nir_opt_idiv_const_impl_correct [of impl min_bit_size] by (auto simp: same_meaning_def)
  qed
qed (simp add: same_meaning_def)

end
