(* ===== verification/Div_Properties.thy ===== *)
theory Div_Properties
  imports Nir_Idiv_Correct Fast_Idiv_Correct
begin

text \<open>The properties of division by constants: the magic numbers and the compiler pass that uses them.\<close>

section \<open>The compiler pass\<close>

text \<open>
  C3: On a shader whose divisions have the bit sizes of the hardware and constant divisors that fit them, the pass
  \<^verbatim>\<open>nir_opt_idiv_const\<close> never fails an assertion, the functions that it returns have the effect of the old ones on all
  values of all slots, no division by a constant of the minimal bit size is left, and it reports progress exactly when it
  replaced one. This covers unsigned and signed quotients and all three remainders, divisors of zero, one, minus one, the
  smallest integer and powers of two, and numerators at the ends of their range. Unsigned divisions of 8 and 16 bits are covered for
  the divisors whose magic numbers have no increment, since there the addition that should saturate wraps. The opcodes mean their
  constant expressions, with wrapped values where signed arithmetic overflows.
\<close>

theorem nir_idiv_pass_keeps_meaning:
  assumes "list_all (pred_option (list_all wf_instr)) shader"
  shows "\<exists>out. nir_opt_idiv_const min_bit_size shader = Some (out, \<exists>xs \<in> set shader. \<exists>f. xs = Some f \<and> list_ex (lowered min_bit_size) f) \<and>
    same_meaning out shader \<and> list_all (pred_option (list_all (\<lambda>i. \<not> lowered min_bit_size i))) out"
  by (rule nir_opt_idiv_const_correct [OF assms])

theorem nir_idiv_pass_keeps_meaning_witness:
  "\<exists>f. nir_opt_idiv_const 16 [None, Some [Alu [2, 3] 32 Op_idiv [Src 0, Src 1] (Const [- 7, 5]), Alu [4] 8 Op_umod [Src 3] (Const [3])]] =
      Some ([None, Some f], True) \<and> fold exec f (\<lambda>_. 100) 2 = take_bit 32 (- 14)"
proof -
  let ?is = "[Alu [2, 3] 32 Op_idiv [Src 0, Src 1] (Const [- 7, 5]), Alu [4] 8 Op_umod [Src 3] (Const [3])]"
  have "sint (- 7 :: u64) = - 7" "sint (5 :: u64) = 5" "sint (3 :: u64) = 3" by simp_all
  moreover have "sat_ok 8 3" by code_simp
  ultimately have "list_all (pred_option (list_all wf_instr)) [None, Some ?is]" by (simp add: sdivisor_def divisor_ok_def)
  from nir_idiv_pass_keeps_meaning [OF this, of 16] obtain out
    where o: "nir_opt_idiv_const 16 [None, Some ?is] = Some (out, True)" "same_meaning out [None, Some ?is]" by auto
  then obtain f where "out = [None, Some f]" "fold exec f = fold exec ?is" by (auto simp: same_meaning_def)
  moreover have "fold exec ?is (\<lambda>_. 100) 2 = take_bit 32 (- 14)" by code_simp
  ultimately show ?thesis using o by metis
qed

text \<open>
  C39: The exception in the property of the pass is one of the code. For 8 and 16 bits and every divisor whose magic numbers have an
  increment, the quotient that the pass builds is zero for the largest numerator by the opcodes' own constant expressions, while
  the division that it replaces is not zero.
\<close>

theorem narrow_udiv_wrong_for_largest:
  assumes "w \<in> {8, 16}" "unat D < 2 ^ w" "\<not> sat_ok w D"
  shows "\<exists>e. build_udiv w (Src 0) D = Some e \<and> eval w (\<lambda>_. - 1) e = 0 \<and> nir_op_value w Op_udiv (eval w (\<lambda>_. - 1) (Src 0)) (uint D) \<noteq> 0"
proof -
  have n: "eval w (\<lambda>_. - 1) (Src 0) = 2 ^ w - 1" by (simp add: mask_eq_exp_minus_1)
  have D: "D \<noteq> 0" using assms(3) by (auto simp: sat_ok_def util_is_power_of_two_or_zero64_def)
  then have "0 < uint D" by (simp add: word_neq_0_conv word_less_def)
  moreover have "uint D \<le> 2 ^ w - 1" using take_uint [OF assms(2)] by (simp add: range_iff_take)
  ultimately have "0 < (2 ^ w - 1) div uint D" using pos_imp_zdiv_pos_iff by blast
  then show ?thesis using build_udiv_narrow [OF assms, of "Src 0" "\<lambda>_. - 1"] n D by (auto simp: op_value_defs uint_0_iff simp del: eval.simps)
qed

theorem narrow_udiv_wrong_for_largest_witness:
  "\<exists>e. build_udiv 8 (Src 0) 7 = Some e \<and> eval 8 (\<lambda>_. - 1) e = 0 \<and> nir_op_value 8 Op_udiv (eval 8 (\<lambda>_. - 1) (Src 0)) (uint (7 :: u64)) \<noteq> 0"
proof -
  have "\<not> sat_ok 8 7" by code_simp
  then show ?thesis using narrow_udiv_wrong_for_largest [of 8 7] by simp
qed

text \<open>
  C40: The constant expression of \<^verbatim>\<open>uadd_sat\<close> saturates for 32 and 64 bits. For 8 and 16 bits its operands are promoted
  to \<^verbatim>\<open>int\<close> before they are added, the comparison never holds, and the sum wraps; so folding the increment of a lowered 8-bit or
  16-bit division gives zero for the largest numerator.
\<close>

theorem uadd_sat_expr_saturates_iff_wide:
  assumes "w \<in> {8, 16, 32, 64}" "0 \<le> a" "a < 2 ^ w" "0 \<le> b" "b < 2 ^ w"
  shows "uadd_sat_expr w a b = (if 32 \<le> w then min (a + b) (2 ^ w - 1) else take_bit w (a + b))"
  by (rule uadd_sat_value [OF assms])

theorem uadd_sat_expr_saturates_iff_wide_witness: "uadd_sat_expr 8 255 1 = 0 \<and> uadd_sat_expr 32 0xFFFFFFFF 1 = 0xFFFFFFFF"
  using uadd_sat_expr_saturates_iff_wide [of 8 255 1] uadd_sat_expr_saturates_iff_wide [of 32 "0xFFFFFFFF" 1] by simp

section \<open>Magic numbers\<close>

text \<open>
  C17: For every 32-bit divisor but zero \<^verbatim>\<open>util_compute_fast_udiv_info\<close> returns, and \<^verbatim>\<open>util_fast_udiv32\<close> with its
  result is the quotient for every 32-bit numerator.
\<close>

theorem fast_udiv32_is_div:
  fixes n D :: u32
  assumes "D \<noteq> 0"
  shows "\<exists>info. util_compute_fast_udiv_info (ucast D) 32 32 = Some info \<and> util_fast_udiv32 n info = n div D"
proof -
  have u: "unat (ucast D :: u64) = unat D" "unat D < 2 ^ 32" using unat_u32_less [of D] by (simp_all add: unat_ucast_mod)
  moreover have "(ucast D :: u64) \<noteq> 0" using assms u(1) by (metis unat_0 unat_eq_zero)
  ultimately obtain info where "util_compute_fast_udiv_info (ucast D) 32 32 = Some info" "udiv_ok info (unat D) 32 32"
    using udiv_info_exists [of "ucast D" 32] by auto
  then show ?thesis using udiv32_correct by (auto simp: word_unat_eq_iff unat_div)
qed

theorem fast_udiv32_is_div_witness:
  "\<exists>info. util_compute_fast_udiv_info (ucast (7 :: u32)) 32 32 = Some info \<and> util_fast_udiv32 0xFFFFFFFF info = 0x24924924"
  using fast_udiv32_is_div [of 7 "0xFFFFFFFF"] by simp

text \<open>
  C38: The cheaper variants are the quotient in their domains: \<^verbatim>\<open>util_fast_udiv32_nuw\<close> for every numerator but the largest,
  and \<^verbatim>\<open>util_fast_udiv32_u31_d_not_one\<close>, with magic numbers for 31-bit numerators, for 31-bit numerators and divisors
  other than one. Their assertions hold there.
\<close>

theorem fast_udiv32_variants_are_div:
  fixes n D :: u32
  assumes "D \<noteq> 0" "n \<noteq> - 1"
  shows "(\<exists>info. util_compute_fast_udiv_info (ucast D) 32 32 = Some info \<and> util_fast_udiv32_nuw n info = Some (n div D)) \<and>
    (D \<noteq> 1 \<and> D < 2 ^ 31 \<and> n < 2 ^ 31 \<longrightarrow>
     (\<exists>info. util_compute_fast_udiv_info (ucast D) 31 32 = Some info \<and> util_fast_udiv32_u31_d_not_one n info = Some (n div D)))"
proof (intro conjI impI)
  have u: "unat (ucast D :: u64) = unat D" "unat D < 2 ^ 32" using unat_u32_less [of D] by (simp_all add: unat_ucast_mod)
  have D0: "(ucast D :: u64) \<noteq> 0" using assms(1) u(1) by (metis unat_0 unat_eq_zero)
  then obtain info where i: "util_compute_fast_udiv_info (ucast D) 32 32 = Some info" "udiv_ok info (unat D) 32 32"
    using udiv_info_exists [of "ucast D" 32] u by auto
  then show "\<exists>info. util_compute_fast_udiv_info (ucast D) 32 32 = Some info \<and> util_fast_udiv32_nuw n info = Some (n div D)"
    using udiv32_nuw_correct [OF i(2) assms(2)] by (auto simp: word_unat_eq_iff unat_div)
  assume b: "D \<noteq> 1 \<and> D < 2 ^ 31 \<and> n < 2 ^ 31"
  then have "unat D \<noteq> 1" by (metis unat_1 word_unat_eq_iff)
  then have "(ucast D :: u64) \<noteq> 1" using u(1) by (metis unat_1)
  moreover have "unat D < 2 ^ 31" "unat n < 2 ^ 31" using b by (simp_all add: word_less_nat_alt)
  ultimately show "\<exists>info. util_compute_fast_udiv_info (ucast D) 31 32 = Some info \<and> util_fast_udiv32_u31_d_not_one n info = Some (n div D)"
    using udiv32_u31_correct [OF D0] u(1) by (fastforce simp: word_unat_eq_iff unat_div)
qed

theorem fast_udiv32_variants_are_div_witness:
  "\<exists>info. util_compute_fast_udiv_info (ucast (7 :: u32)) 31 32 = Some info \<and> util_fast_udiv32_u31_d_not_one 100 info = Some (100 div 7)"
  using fast_udiv32_variants_are_div [of 7 100] by simp

end
