(* ===== verification/Reg_Set.thy ===== *)
theory Reg_Set
  imports Bitset
begin

text \<open>
  The register sets of \<^verbatim>\<open>register_allocate.c\<close>: registers with their conflicts, register classes, and the numbers
  \<open>p\<close> and \<open>q\<close> of Runeson and Nystrom. Registers and classes are named by their index; the counts are the lengths of the arrays.
  The list of conflicts of a register is \<open>None\<close> where the set was made without lists. A \<^verbatim>\<open>NULL\<close> bit set is an empty array.
  Lengths of contiguous allocations are positive or zero.
\<close>

section \<open>Registers\<close>

record ra_reg =
  conflicts :: "u32 list"
  conflict_list :: "nat list option"

record ra_class =
  class_regs :: "u32 list"
  contig_len :: nat
  class_p :: u32
  class_q :: "u32 list"

record ra_regs =
  regs :: "ra_reg list"
  classes :: "ra_class list"
  round_robin :: bool

abbreviation reg_count :: "ra_regs \<Rightarrow> nat" where
  "reg_count rs \<equiv> length (regs rs)"

abbreviation class_count :: "ra_regs \<Rightarrow> nat" where
  "class_count rs \<equiv> length (classes rs)"

definition new_reg :: "nat \<Rightarrow> bool \<Rightarrow> nat \<Rightarrow> ra_reg option" where
  "new_reg cnt need_conflict_lists i = do {
     c \<leftarrow> BITSET_SET (replicate (BITSET_WORDS cnt) 0) i;
     Some \<lparr>conflicts = c, conflict_list = (if need_conflict_lists then Some [i] else None)\<rparr> }"

definition ra_alloc_reg_set :: "nat \<Rightarrow> bool \<Rightarrow> ra_regs option" where
  "ra_alloc_reg_set cnt need_conflict_lists = do {
     rs \<leftarrow> those (map (new_reg cnt need_conflict_lists) [0..<cnt]);
     Some \<lparr>regs = rs, classes = [], round_robin = False\<rparr> }"

definition ra_set_allocate_round_robin :: "ra_regs \<Rightarrow> ra_regs" where
  "ra_set_allocate_round_robin rs = rs\<lparr>round_robin := True\<rparr>"

definition ra_add_conflict_list :: "ra_regs \<Rightarrow> nat \<Rightarrow> nat \<Rightarrow> ra_regs option" where
  "ra_add_conflict_list rs r1 r2 = do {
     reg1 \<leftarrow> array_get (regs rs) r1;
     c \<leftarrow> BITSET_SET (conflicts reg1) r2;
     Some (rs\<lparr>regs := (regs rs)[r1 := reg1\<lparr>conflicts := c, conflict_list := map_option (\<lambda>l. l @ [r2]) (conflict_list reg1)\<rparr>]\<rparr>) }"

definition ra_add_reg_conflict :: "ra_regs \<Rightarrow> nat \<Rightarrow> nat \<Rightarrow> ra_regs option" where
  "ra_add_reg_conflict rs r1 r2 = do {
     reg1 \<leftarrow> array_get (regs rs) r1;
     t \<leftarrow> BITSET_TEST (conflicts reg1) r2;
     if t then Some rs
     else do {
       rs \<leftarrow> ra_add_conflict_list rs r1 r2;
       ra_add_conflict_list rs r2 r1 } }"

text \<open>The elements of the list of a register, none without one.\<close>

definition list_elems :: "ra_reg \<Rightarrow> nat list" where
  "list_elems reg = (case conflict_list reg of None \<Rightarrow> [] | Some l \<Rightarrow> l)"

fun add_conflicts :: "ra_regs \<Rightarrow> nat \<Rightarrow> nat list \<Rightarrow> ra_regs option" where
  "add_conflicts rs reg [] = Some rs"
| "add_conflicts rs reg (r2 # r2s) = do { rs \<leftarrow> ra_add_reg_conflict rs reg r2; add_conflicts rs reg r2s }"

definition ra_add_transitive_reg_conflict :: "ra_regs \<Rightarrow> nat \<Rightarrow> nat \<Rightarrow> ra_regs option" where
  "ra_add_transitive_reg_conflict rs base_reg reg = do {
     rs \<leftarrow> ra_add_reg_conflict rs reg base_reg;
     base \<leftarrow> array_get (regs rs) base_reg;
     add_conflicts rs reg (list_elems base) }"

fun add_pair_conflicts :: "ra_regs \<Rightarrow> nat \<Rightarrow> nat \<Rightarrow> nat list \<Rightarrow> ra_regs option" where
  "add_pair_conflicts rs reg0 reg1 [] = Some rs"
| "add_pair_conflicts rs reg0 reg1 (c # cs) = do {
     rs \<leftarrow> (if c \<noteq> reg1 then ra_add_reg_conflict rs reg0 c else Some rs);
     rs \<leftarrow> (if c \<noteq> reg0 then ra_add_reg_conflict rs reg1 c else Some rs);
     add_pair_conflicts rs reg0 reg1 cs }"

definition ra_add_transitive_reg_pair_conflict :: "ra_regs \<Rightarrow> nat \<Rightarrow> nat \<Rightarrow> nat \<Rightarrow> ra_regs option" where
  "ra_add_transitive_reg_pair_conflict rs base_reg reg0 reg1 = do {
     rs \<leftarrow> ra_add_reg_conflict rs reg0 base_reg;
     rs \<leftarrow> ra_add_reg_conflict rs reg1 base_reg;
     base \<leftarrow> array_get (regs rs) base_reg;
     add_pair_conflicts rs reg0 reg1 (list_elems base) }"

text \<open>The first \<open>n\<close> words of an array combined with those of another.\<close>

definition or_words :: "nat \<Rightarrow> u32 list \<Rightarrow> u32 list \<Rightarrow> u32 list option" where
  "or_words n x y =
     (if n \<le> length x \<and> n \<le> length y then Some (map2 (OR) (take n x) (take n y) @ drop n x) else None)"

fun or_conflicts :: "ra_regs \<Rightarrow> nat \<Rightarrow> nat list \<Rightarrow> ra_regs option" where
  "or_conflicts rs r [] = Some rs"
| "or_conflicts rs r (c # cs) = do {
     reg \<leftarrow> array_get (regs rs) r;
     other \<leftarrow> array_get (regs rs) c;
     w \<leftarrow> or_words (BITSET_WORDS (reg_count rs)) (conflicts other) (conflicts reg);
     or_conflicts (rs\<lparr>regs := (regs rs)[c := other\<lparr>conflicts := w\<rparr>]\<rparr>) r cs }"

definition ra_make_reg_conflicts_transitive :: "ra_regs \<Rightarrow> nat \<Rightarrow> ra_regs option" where
  "ra_make_reg_conflicts_transitive rs r = do {
     reg \<leftarrow> array_get (regs rs) r;
     cs \<leftarrow> BITSET_FOREACH_SET (conflicts reg) (reg_count rs);
     or_conflicts rs r cs }"

section \<open>Classes\<close>

definition ra_alloc_reg_class :: "ra_regs \<Rightarrow> nat \<times> ra_regs" where
  "ra_alloc_reg_class rs =
     (class_count rs,
      rs\<lparr>classes := classes rs @ [\<lparr>class_regs = replicate (BITSET_WORDS (reg_count rs)) 0, contig_len = 0, class_p = 0, class_q = []\<rparr>]\<rparr>)"

definition ra_alloc_contig_reg_class :: "ra_regs \<Rightarrow> nat \<Rightarrow> (nat \<times> ra_regs) option" where
  "ra_alloc_contig_reg_class rs len =
     (let (i, rs) = ra_alloc_reg_class rs
      in do {
        c_assert (len \<noteq> 0);
        c \<leftarrow> array_get (classes rs) i;
        Some (i, rs\<lparr>classes := (classes rs)[i := c\<lparr>contig_len := len\<rparr>]\<rparr>) })"

definition ra_class_add_reg :: "ra_regs \<Rightarrow> nat \<Rightarrow> nat \<Rightarrow> ra_regs option" where
  "ra_class_add_reg rs i r = do {
     c \<leftarrow> array_get (classes rs) i;
     c_assert (r < reg_count rs);
     c_assert (r + contig_len c \<le> reg_count rs);
     b \<leftarrow> BITSET_SET (class_regs c) r;
     Some (rs\<lparr>classes := (classes rs)[i := c\<lparr>class_regs := b, class_p := class_p c + 1\<rparr>]\<rparr>) }"

definition reg_belongs_to_class :: "nat \<Rightarrow> ra_class \<Rightarrow> bool option" where
  "reg_belongs_to_class r c = BITSET_TEST (class_regs c) r"

section \<open>The numbers q\<close>

text \<open>How many of the given bits are set.\<close>

fun count_bits :: "u32 list \<Rightarrow> nat list \<Rightarrow> nat option" where
  "count_bits x [] = Some 0"
| "count_bits x (i # is) = do {
     t \<leftarrow> BITSET_TEST x i;
     n \<leftarrow> count_bits x is;
     Some (if t then n + 1 else n) }"

definition words_intersect :: "nat \<Rightarrow> u32 list \<Rightarrow> u32 list \<Rightarrow> bool option" where
  "words_intersect n x y =
     (if n \<le> length x \<and> n \<le> length y then Some (\<exists>i \<in> set [0..<n]. x ! i AND y ! i \<noteq> 0) else None)"

text \<open>
  Contiguous classes: for every register of class \<open>c\<close> the registers of class \<open>b\<close> that overlap its allocation, with the early
  exit of the loop.
\<close>

fun contig_conflicts :: "nat \<Rightarrow> ra_class \<Rightarrow> ra_class \<Rightarrow> nat list \<Rightarrow> nat \<Rightarrow> nat option" where
  "contig_conflicts cnt b c [] max_conflicts = Some max_conflicts"
| "contig_conflicts cnt b c (rc # rcs) max_conflicts = do {
     n \<leftarrow> count_bits (class_regs b) [rc + 1 - contig_len b..<min cnt (rc + contig_len c)];
     let max_conflicts = max max_conflicts n
     in if max_conflicts = contig_len b + contig_len c - 1 then Some max_conflicts
        else contig_conflicts cnt b c rcs max_conflicts }"

text \<open>Other classes: the registers of class \<open>b\<close> in the lists of conflicts.\<close>

fun list_conflicts :: "ra_regs \<Rightarrow> ra_class \<Rightarrow> nat list \<Rightarrow> nat \<Rightarrow> nat option" where
  "list_conflicts rs b [] max_conflicts = Some max_conflicts"
| "list_conflicts rs b (rc # rcs) max_conflicts = do {
     reg \<leftarrow> array_get (regs rs) rc;
     n \<leftarrow> count_bits (class_regs b) (list_elems reg);
     list_conflicts rs b rcs (max max_conflicts n) }"

definition q_value :: "ra_regs \<Rightarrow> ra_class \<Rightarrow> ra_class \<Rightarrow> u32 option" where
  "q_value rs b c =
     (if contig_len b \<noteq> 0 \<and> contig_len c \<noteq> 0
      then if contig_len b = 1 \<and> contig_len c = 1
           then do {
             t \<leftarrow> words_intersect (BITSET_WORDS (reg_count rs)) (class_regs b) (class_regs c);
             Some (if t then 1 else 0) }
           else do {
             rcs \<leftarrow> BITSET_FOREACH_SET (class_regs c) (reg_count rs);
             n \<leftarrow> contig_conflicts (reg_count rs) b c rcs 0;
             Some (of_nat n) }
      else do {
        c_assert (contig_len b = 0 \<and> contig_len c = 0);
        rcs \<leftarrow> BITSET_FOREACH_SET (class_regs c) (reg_count rs);
        n \<leftarrow> list_conflicts rs b rcs 0;
        Some (of_nat n) })"

definition q_row :: "ra_regs \<Rightarrow> u32 list list option \<Rightarrow> nat \<Rightarrow> u32 list option" where
  "q_row rs q_values b = (case q_values of
     Some qs \<Rightarrow> do { row \<leftarrow> array_get qs b; those (map (array_get row) [0..<class_count rs]) }
   | None \<Rightarrow> do { cb \<leftarrow> array_get (classes rs) b; those (map (q_value rs cb) (classes rs)) })"

definition ra_set_finalize :: "ra_regs \<Rightarrow> u32 list list option \<Rightarrow> ra_regs option" where
  "ra_set_finalize rs q_values = do {
     qs \<leftarrow> those (map (q_row rs q_values) [0..<class_count rs]);
     let cs = map2 (\<lambda>c q. c\<lparr>class_q := q\<rparr>) (classes rs) qs;
         all_contig = (\<forall>c \<in> set cs. contig_len c \<noteq> 0);
         fini = (\<lambda>r. r\<lparr>conflict_list := map_option (\<lambda>_. []) (conflict_list r)\<rparr>);
         free = (\<lambda>r. if all_contig then r\<lparr>conflicts := []\<rparr> else r)
     in Some (rs\<lparr>classes := cs, regs := map (free \<circ> fini) (regs rs)\<rparr>) }"

text \<open>Whether two allocations conflict, for registers that have their allocations inside the set.\<close>

definition ra_class_allocations_conflict :: "ra_regs \<Rightarrow> ra_class \<Rightarrow> nat \<Rightarrow> ra_class \<Rightarrow> nat \<Rightarrow> bool option" where
  "ra_class_allocations_conflict rs c1 r1 c2 r2 =
     (if contig_len c1 \<noteq> 0
      then do {
        c_assert (contig_len c2 \<noteq> 0);
        let r1_end = r1 + contig_len c1; r2_end = r2 + contig_len c2
        in Some (\<not> (r2 \<ge> r1_end \<or> r1 \<ge> r2_end)) }
      else do {
        reg \<leftarrow> array_get (regs rs) r1;
        BITSET_TEST (conflicts reg) r2 })"

end
