(* ===== verification/Ra_Graph.thy ===== *)
theory Ra_Graph
  imports Reg_Set
begin

text \<open>
  The interference graph of \<^verbatim>\<open>register_allocate.c\<close>. Nodes and registers are natural numbers, the totals \<open>q\<close> words of 32 bits.
  What a node and the graph keep only during an allocation (\<^verbatim>\<open>reg\<close>, \<^verbatim>\<open>tmp.q_total\<close> and the graph's
  \<^verbatim>\<open>tmp\<close>) is collected in the record \<open>ra_tmp\<close>, with one array entry per node; the stack is a list with its last element first.
  The costs of spilling, which are floating point numbers, are left out.
\<close>

section \<open>The graph\<close>

definition NO_REG :: nat where
  "NO_REG = 4294967295"

record ra_node =
  adjacency_list :: "nat list"
  node_class :: nat
  forced_reg :: nat
  q_total :: u32

record ra_tmp =
  node_reg :: "nat list"
  node_q_total :: "u32 list"
  stack :: "nat list"
  in_stack :: "u32 list"
  reg_assigned :: "u32 list"
  pq_test :: "u32 list"
  min_q_total :: "u32 list"
  min_q_node :: "nat list"
  stack_optimistic_start :: u32

record ra_graph =
  graph_regs :: ra_regs
  nodes :: "ra_node list"
  adjacency :: "u32 list"
  node_count :: nat
  alloc :: nat
  select_reg_callback :: "(nat \<Rightarrow> u32 list \<Rightarrow> nat) option"
  tmp :: ra_tmp

text \<open>The class of a node; other operations of the code spell the same expression out.\<close>

definition ra_get_node_class :: "ra_graph \<Rightarrow> nat \<Rightarrow> ra_class option" where
  "ra_get_node_class g n = do { node \<leftarrow> array_get (nodes g) n; array_get (classes (graph_regs g)) (node_class node) }"

section \<open>Adjacency bits\<close>

definition ra_get_num_adjacency_bits :: "nat \<Rightarrow> nat" where
  "ra_get_num_adjacency_bits n = n * (n - 1) div 2"

definition ra_get_adjacency_bit_index :: "nat \<Rightarrow> nat \<Rightarrow> nat option" where
  "ra_get_adjacency_bit_index n1 n2 = do {
     c_assert (n1 \<noteq> n2);
     let k1 = max n1 n2; k2 = min n1 n2 in Some (ra_get_num_adjacency_bits k1 + k2) }"

definition ra_test_adjacency_bit :: "ra_graph \<Rightarrow> nat \<Rightarrow> nat \<Rightarrow> bool option" where
  "ra_test_adjacency_bit g n1 n2 = do {
     index \<leftarrow> ra_get_adjacency_bit_index n1 n2;
     BITSET_TEST (adjacency g) index }"

text \<open>These two keep the index in an \<^verbatim>\<open>unsigned\<close>.\<close>

definition ra_set_adjacency_bit :: "ra_graph \<Rightarrow> nat \<Rightarrow> nat \<Rightarrow> ra_graph option" where
  "ra_set_adjacency_bit g n1 n2 = do {
     index \<leftarrow> ra_get_adjacency_bit_index n1 n2;
     a \<leftarrow> BITSET_SET (adjacency g) (index mod 2 ^ 32);
     Some (g\<lparr>adjacency := a\<rparr>) }"

definition ra_clear_adjacency_bit :: "ra_graph \<Rightarrow> nat \<Rightarrow> nat \<Rightarrow> ra_graph option" where
  "ra_clear_adjacency_bit g n1 n2 = do {
     index \<leftarrow> ra_get_adjacency_bit_index n1 n2;
     a \<leftarrow> BITSET_CLEAR (adjacency g) (index mod 2 ^ 32);
     Some (g\<lparr>adjacency := a\<rparr>) }"

text \<open>The number \<open>q\<close> that a neighbour \<open>n2\<close> adds to the total of \<open>n1\<close>.\<close>

definition q_between :: "ra_graph \<Rightarrow> nat \<Rightarrow> nat \<Rightarrow> u32 option" where
  "q_between g n1 n2 = do {
     c \<leftarrow> ra_get_node_class g n1;
     node2 \<leftarrow> array_get (nodes g) n2;
     array_get (class_q c) (node_class node2) }"

definition ra_add_node_adjacency :: "ra_graph \<Rightarrow> nat \<Rightarrow> nat \<Rightarrow> ra_graph option" where
  "ra_add_node_adjacency g n1 n2 = do {
     c_assert (n1 \<noteq> n2);
     q \<leftarrow> q_between g n1 n2;
     node \<leftarrow> array_get (nodes g) n1;
     Some (g\<lparr>nodes := (nodes g)[n1 := node\<lparr>q_total := q_total node + q, adjacency_list := adjacency_list node @ [n2]\<rparr>]\<rparr>) }"

text \<open>The first element with the value is overwritten by the last one, which is taken off.\<close>

fun util_dynarray_delete_unordered :: "nat list \<Rightarrow> nat \<Rightarrow> nat list" where
  "util_dynarray_delete_unordered [] v = []"
| "util_dynarray_delete_unordered (x # xs) v =
     (if v = x then (if xs = [] then [] else last xs # butlast xs)
      else x # util_dynarray_delete_unordered xs v)"

definition ra_node_remove_adjacency :: "ra_graph \<Rightarrow> nat \<Rightarrow> nat \<Rightarrow> ra_graph option" where
  "ra_node_remove_adjacency g n1 n2 = do {
     c_assert (n1 \<noteq> n2);
     g \<leftarrow> ra_clear_adjacency_bit g n1 n2;
     q \<leftarrow> q_between g n1 n2;
     node \<leftarrow> array_get (nodes g) n1;
     Some (g\<lparr>nodes := (nodes g)[n1 := node\<lparr>q_total := q_total node - q,
       adjacency_list := util_dynarray_delete_unordered (adjacency_list node) n2\<rparr>]\<rparr>) }"

section \<open>Size\<close>

text \<open>An array grown or shrunk to a length, with a value for new entries.\<close>

definition resize :: "nat \<Rightarrow> 'a \<Rightarrow> 'a list \<Rightarrow> 'a list" where
  "resize n v xs = take n xs @ replicate (n - length xs) v"

definition align32 :: "nat \<Rightarrow> nat" where
  "align32 v = (v + 31) div 32 * 32"

definition fresh_node :: ra_node where
  "fresh_node = \<lparr>adjacency_list = [], node_class = 0, forced_reg = NO_REG, q_total = 0\<rparr>"

text \<open>
  The scratch arrays are not cleared by the code; their new entries are zero here, and \<open>ra_simplify\<close> overwrites whatever it reads.
\<close>

definition grow_tmp :: "nat \<Rightarrow> ra_tmp \<Rightarrow> ra_tmp" where
  "grow_tmp new_alloc t =
     (let bitset_count = BITSET_WORDS new_alloc
      in t\<lparr>node_reg := resize new_alloc NO_REG (node_reg t),
           node_q_total := resize new_alloc 0 (node_q_total t),
           in_stack := resize bitset_count 0 (in_stack t),
           reg_assigned := resize bitset_count 0 (reg_assigned t),
           pq_test := resize bitset_count 0 (pq_test t),
           min_q_total := resize bitset_count 0 (min_q_total t),
           min_q_node := resize bitset_count 0 (min_q_node t)\<rparr>)"

definition ra_realloc_interference_graph :: "ra_graph \<Rightarrow> nat \<Rightarrow> ra_graph option" where
  "ra_realloc_interference_graph g new_alloc =
     (if new_alloc \<le> alloc g then Some g
      else do {
        c_assert (alloc g mod 32 = 0);
        let new_alloc = align32 new_alloc mod 2 ^ 32
        in Some (g\<lparr>nodes := resize new_alloc fresh_node (nodes g),
             adjacency := resize (BITSET_WORDS (ra_get_num_adjacency_bits new_alloc)) 0 (adjacency g),
             tmp := grow_tmp new_alloc (tmp g),
             alloc := new_alloc\<rparr>) })"

definition ra_alloc_interference_graph :: "ra_regs \<Rightarrow> nat \<Rightarrow> ra_graph option" where
  "ra_alloc_interference_graph rs cnt = ra_realloc_interference_graph
     \<lparr>graph_regs = rs, nodes = [], adjacency = [], node_count = cnt, alloc = 0, select_reg_callback = None,
      tmp = \<lparr>node_reg = [], node_q_total = [], stack = [], in_stack = [], reg_assigned = [], pq_test = [],
        min_q_total = [], min_q_node = [], stack_optimistic_start = 0\<rparr>\<rparr> cnt"

definition ra_resize_interference_graph :: "ra_graph \<Rightarrow> nat \<Rightarrow> ra_graph option" where
  "ra_resize_interference_graph g cnt =
     (let g = g\<lparr>node_count := cnt\<rparr>
      in if cnt > alloc g then ra_realloc_interference_graph g (alloc g * 2 mod 2 ^ 32) else Some g)"

definition ra_set_select_reg_callback :: "ra_graph \<Rightarrow> (nat \<Rightarrow> u32 list \<Rightarrow> nat) option \<Rightarrow> ra_graph" where
  "ra_set_select_reg_callback g callback = g\<lparr>select_reg_callback := callback\<rparr>"

definition ra_set_node_class :: "ra_graph \<Rightarrow> nat \<Rightarrow> nat \<Rightarrow> ra_graph option" where
  "ra_set_node_class g n c = do {
     node \<leftarrow> array_get (nodes g) n;
     Some (g\<lparr>nodes := (nodes g)[n := node\<lparr>node_class := c\<rparr>]\<rparr>) }"

definition ra_add_node :: "ra_graph \<Rightarrow> nat \<Rightarrow> (nat \<times> ra_graph) option" where
  "ra_add_node g c = do {
     let n = node_count g;
     g \<leftarrow> ra_resize_interference_graph g ((node_count g + 1) mod 2 ^ 32);
     g \<leftarrow> ra_set_node_class g n c;
     Some (n, g) }"

definition ra_set_node_reg :: "ra_graph \<Rightarrow> nat \<Rightarrow> nat \<Rightarrow> ra_graph option" where
  "ra_set_node_reg g n r = do {
     node \<leftarrow> array_get (nodes g) n;
     Some (g\<lparr>nodes := (nodes g)[n := node\<lparr>forced_reg := r\<rparr>]\<rparr>) }"

definition ra_get_node_reg :: "ra_graph \<Rightarrow> nat \<Rightarrow> nat option" where
  "ra_get_node_reg g n = do {
     node \<leftarrow> array_get (nodes g) n;
     if forced_reg node \<noteq> NO_REG then Some (forced_reg node) else array_get (node_reg (tmp g)) n }"

section \<open>Interference\<close>

definition ra_add_node_interference :: "ra_graph \<Rightarrow> nat \<Rightarrow> nat \<Rightarrow> ra_graph option" where
  "ra_add_node_interference g n1 n2 = do {
     c_assert (n1 < node_count g \<and> n2 < node_count g);
     if n1 = n2 then Some g
     else do {
       t \<leftarrow> ra_test_adjacency_bit g n1 n2;
       if t then Some g
       else do {
         g \<leftarrow> ra_set_adjacency_bit g n1 n2;
         g \<leftarrow> ra_add_node_adjacency g n1 n2;
         ra_add_node_adjacency g n2 n1 } } }"

fun remove_adjacencies :: "ra_graph \<Rightarrow> nat \<Rightarrow> nat list \<Rightarrow> ra_graph option" where
  "remove_adjacencies g n [] = Some g"
| "remove_adjacencies g n (n2 # ns) = do { g \<leftarrow> ra_node_remove_adjacency g n2 n; remove_adjacencies g n ns }"

definition ra_reset_node_interference :: "ra_graph \<Rightarrow> nat \<Rightarrow> ra_graph option" where
  "ra_reset_node_interference g n = do {
     node \<leftarrow> array_get (nodes g) n;
     g \<leftarrow> remove_adjacencies g n (adjacency_list node);
     node \<leftarrow> array_get (nodes g) n;
     Some (g\<lparr>nodes := (nodes g)[n := node\<lparr>adjacency_list := []\<rparr>]\<rparr>) }"

end
