(* ===== verification/Ra_Allocate.thy ===== *)
theory Ra_Allocate
  imports Ra_Graph
begin

text \<open>
  The allocation of \<^verbatim>\<open>register_allocate.c\<close>: \<open>ra_simplify\<close> pushes the nodes on a stack, \<open>ra_select\<close> pops and colours them. The
  graph itself does not change; the operations pass the scratch record on. The loops over words and bits run downwards over
  explicit lists of indices; the loop of \<open>ra_simplify\<close> has fuel for one round per node and a last one.
\<close>

section \<open>Simplification\<close>

definition update_pq_info :: "ra_graph \<Rightarrow> ra_tmp \<Rightarrow> nat \<Rightarrow> ra_tmp option" where
  "update_pq_info g t n = do {
     let i = n div 32;
     c \<leftarrow> ra_get_node_class g n;
     q \<leftarrow> array_get (node_q_total t) n;
     if q < class_p c
     then do { b \<leftarrow> BITSET_SET (pq_test t) n; Some (t\<lparr>pq_test := b\<rparr>) }
     else do {
       m \<leftarrow> array_get (min_q_total t) i;
       if m \<noteq> - 1
       then do {
         k \<leftarrow> array_get (min_q_node t) i;
         if q < m \<or> q = m \<and> n > k
         then do {
           qs \<leftarrow> array_set (min_q_total t) i q;
           ns \<leftarrow> array_set (min_q_node t) i n;
           Some (t\<lparr>min_q_total := qs, min_q_node := ns\<rparr>) }
         else Some t }
       else Some t } }"

text \<open>The loop over the neighbours of a node that is pushed.\<close>

fun release_neighbours :: "ra_graph \<Rightarrow> nat \<Rightarrow> nat list \<Rightarrow> ra_tmp \<Rightarrow> ra_tmp option" where
  "release_neighbours g n [] t = Some t"
| "release_neighbours g n (n2 # ns) t = do {
     s \<leftarrow> BITSET_TEST (in_stack t) n2;
     a \<leftarrow> BITSET_TEST (reg_assigned t) n2;
     t \<leftarrow> (if \<not> s \<and> \<not> a
          then do {
            q2 \<leftarrow> array_get (node_q_total t) n2;
            q \<leftarrow> q_between g n2 n;
            c_assert (q2 \<ge> q);
            qs \<leftarrow> array_set (node_q_total t) n2 (q2 - q);
            update_pq_info g (t\<lparr>node_q_total := qs\<rparr>) n2 }
          else Some t);
     release_neighbours g n ns t }"

definition add_node_to_stack :: "ra_graph \<Rightarrow> ra_tmp \<Rightarrow> nat \<Rightarrow> ra_tmp option" where
  "add_node_to_stack g t n = do {
     s \<leftarrow> BITSET_TEST (in_stack t) n;
     c_assert (\<not> s);
     node \<leftarrow> array_get (nodes g) n;
     t \<leftarrow> release_neighbours g n (adjacency_list node) t;
     c_assert (length (stack t) < alloc g);
     b \<leftarrow> BITSET_SET (in_stack t) n;
     qs \<leftarrow> array_set (min_q_total t) (n div 32) (- 1);
     Some (t\<lparr>stack := n # stack t, in_stack := b, min_q_total := qs\<rparr>) }"

text \<open>The words of the nodes and the bits of a word, the highest first.\<close>

definition top_bit :: "nat \<Rightarrow> nat \<Rightarrow> nat" where
  "top_bit cnt i = (if i + 1 = BITSET_WORDS cnt then (cnt - 1) mod 32 else 31)"

definition word_list :: "nat \<Rightarrow> nat list" where
  "word_list cnt = rev [0..<BITSET_WORDS cnt]"

definition bit_list :: "nat \<Rightarrow> nat \<Rightarrow> nat list" where
  "bit_list cnt i = rev [0..<top_bit cnt i + 1]"

fun setup_bits :: "ra_graph \<Rightarrow> nat \<Rightarrow> nat list \<Rightarrow> ra_tmp \<Rightarrow> ra_tmp option" where
  "setup_bits g i [] t = Some t"
| "setup_bits g i (j # js) t = do {
     let n = i * 32 + j;
     node \<leftarrow> array_get (nodes g) n;
     rs \<leftarrow> array_set (node_reg t) n (forced_reg node);
     qs \<leftarrow> array_set (node_q_total t) n (q_total node);
     a \<leftarrow> array_get (reg_assigned t) i;
     as \<leftarrow> array_set (reg_assigned t) i (if forced_reg node \<noteq> NO_REG then a OR BITSET_BIT j else a);
     t \<leftarrow> update_pq_info g (t\<lparr>node_reg := rs, node_q_total := qs, reg_assigned := as\<rparr>) n;
     setup_bits g i js t }"

fun setup_words :: "ra_graph \<Rightarrow> nat list \<Rightarrow> ra_tmp \<Rightarrow> ra_tmp option" where
  "setup_words g [] t = Some t"
| "setup_words g (i # is) t = do {
     ss \<leftarrow> array_set (in_stack t) i 0;
     as \<leftarrow> array_set (reg_assigned t) i 0;
     ps \<leftarrow> array_set (pq_test t) i 0;
     qs \<leftarrow> array_set (min_q_total t) i (- 1);
     ns \<leftarrow> array_set (min_q_node t) i 4294967295;
     t \<leftarrow> setup_bits g i (bit_list (node_count g) i)
           (t\<lparr>in_stack := ss, reg_assigned := as, pq_test := ps, min_q_total := qs, min_q_node := ns\<rparr>);
     setup_words g is t }"

text \<open>Pushes the nodes of a word that pass the test; the test can come to pass for further nodes on the way.\<close>

fun push_bits :: "ra_graph \<Rightarrow> nat \<Rightarrow> u32 \<Rightarrow> nat list \<Rightarrow> u32 \<Rightarrow> bool \<Rightarrow> ra_tmp \<Rightarrow> (ra_tmp \<times> bool) option" where
  "push_bits g i skip [] pq progress t = Some (t, progress)"
| "push_bits g i skip (j # js) pq progress t =
     (if pq AND BITSET_BIT j \<noteq> 0
      then do {
        let n = i * 32 + j;
        c_assert (n < node_count g);
        t \<leftarrow> add_node_to_stack g t n;
        p \<leftarrow> array_get (pq_test t) i;
        push_bits g i skip js (p AND NOT skip) True t }
      else push_bits g i skip js pq progress t)"

text \<open>Recomputes the lowest total of a word.\<close>

fun min_bits :: "ra_graph \<Rightarrow> nat \<Rightarrow> u32 \<Rightarrow> nat list \<Rightarrow> ra_tmp \<Rightarrow> ra_tmp option" where
  "min_bits g i skip [] t = Some t"
| "min_bits g i skip (j # js) t =
     (if skip AND BITSET_BIT j \<noteq> 0 then min_bits g i skip js t
      else do {
        let n = i * 32 + j;
        c_assert (n < node_count g);
        q \<leftarrow> array_get (node_q_total t) n;
        m \<leftarrow> array_get (min_q_total t) i;
        t \<leftarrow> (if q < m
             then do {
               qs \<leftarrow> array_set (min_q_total t) i q;
               ns \<leftarrow> array_set (min_q_node t) i n;
               Some (t\<lparr>min_q_total := qs, min_q_node := ns\<rparr>) }
             else Some t);
        min_bits g i skip js t })"

text \<open>One round over the words, with the lowest total found and its node.\<close>

fun simplify_words :: "ra_graph \<Rightarrow> nat list \<Rightarrow> ra_tmp \<Rightarrow> bool \<Rightarrow> u32 \<Rightarrow> nat \<Rightarrow> (ra_tmp \<times> bool \<times> u32 \<times> nat) option" where
  "simplify_words g [] t progress mt mn = Some (t, progress, mt, mn)"
| "simplify_words g (i # is) t progress mt mn = do {
     s \<leftarrow> array_get (in_stack t) i;
     a \<leftarrow> array_get (reg_assigned t) i;
     p \<leftarrow> array_get (pq_test t) i;
     let js = bit_list (node_count g) i;
         m = drop_bit (31 - top_bit (node_count g) i) (- 1);
         skip = s OR a;
         pq = p AND NOT skip
     in if skip = m then simplify_words g is t progress mt mn
        else if pq \<noteq> 0
        then do {
          (t, progress) \<leftarrow> push_bits g i skip js pq progress t;
          simplify_words g is t progress mt mn }
        else if \<not> progress
        then do {
          q \<leftarrow> array_get (min_q_total t) i;
          t \<leftarrow> (if q = - 1 then min_bits g i skip js t else Some t);
          q \<leftarrow> array_get (min_q_total t) i;
          k \<leftarrow> array_get (min_q_node t) i;
          if q < mt then simplify_words g is t progress q k else simplify_words g is t progress mt mn }
        else simplify_words g is t progress mt mn }"

fun simplify_loop :: "nat \<Rightarrow> ra_graph \<Rightarrow> ra_tmp \<Rightarrow> u32 \<Rightarrow> (ra_tmp \<times> u32) option" where
  "simplify_loop 0 g t start = None"
| "simplify_loop (Suc fuel) g t start = do {
     (t, progress, mt, mn) \<leftarrow> simplify_words g (word_list (node_count g)) t False (- 1) 4294967295;
     if \<not> progress \<and> mt \<noteq> - 1
     then do {
       let start = (if start = - 1 then of_nat (length (stack t)) else start);
       t \<leftarrow> add_node_to_stack g t mn;
       simplify_loop fuel g t start }
     else if progress then simplify_loop fuel g t start
     else Some (t, start) }"

definition ra_simplify :: "ra_graph \<Rightarrow> ra_graph option" where
  "ra_simplify g = do {
     t \<leftarrow> setup_words g (word_list (node_count g)) ((tmp g)\<lparr>stack := []\<rparr>);
     (t, start) \<leftarrow> simplify_loop (node_count g + 1) g t (- 1);
     Some (g\<lparr>tmp := t\<lparr>stack_optimistic_start := start\<rparr>\<rparr>) }"

section \<open>Selection\<close>

fun find_conflicting :: "ra_graph \<Rightarrow> ra_tmp \<Rightarrow> nat \<Rightarrow> nat \<Rightarrow> nat list \<Rightarrow> nat option option" where
  "find_conflicting g t n r [] = Some None"
| "find_conflicting g t n r (n2 # ns) = do {
     s \<leftarrow> BITSET_TEST (in_stack t) n2;
     hit \<leftarrow> (if s then Some False
            else do {
              c \<leftarrow> ra_get_node_class g n;
              c2 \<leftarrow> ra_get_node_class g n2;
              r2 \<leftarrow> array_get (node_reg t) n2;
              ra_class_allocations_conflict (graph_regs g) c r c2 r2 });
     if hit then Some (Some n2) else find_conflicting g t n r ns }"

definition ra_find_conflicting_neighbor :: "ra_graph \<Rightarrow> ra_tmp \<Rightarrow> nat \<Rightarrow> nat \<Rightarrow> nat option option" where
  "ra_find_conflicting_neighbor g t n r = do {
     node \<leftarrow> array_get (nodes g) n;
     find_conflicting g t n r (adjacency_list node) }"

fun clear_bits :: "u32 list \<Rightarrow> nat list \<Rightarrow> u32 list option" where
  "clear_bits x [] = Some x"
| "clear_bits x (i # is) = do { x \<leftarrow> BITSET_CLEAR x i; clear_bits x is }"

text \<open>The first \<open>n\<close> words of an array without the bits of another.\<close>

definition andnot_words :: "nat \<Rightarrow> u32 list \<Rightarrow> u32 list \<Rightarrow> u32 list option" where
  "andnot_words n x y =
     (if n \<le> length x \<and> n \<le> length y then Some (map2 (\<lambda>a b. a AND NOT b) (take n x) (take n y) @ drop n x) else None)"

fun remove_neighbours :: "ra_graph \<Rightarrow> ra_tmp \<Rightarrow> ra_class \<Rightarrow> nat list \<Rightarrow> u32 list \<Rightarrow> u32 list option" where
  "remove_neighbours g t c [] x = Some x"
| "remove_neighbours g t c (n2 # ns) x = do {
     n2c \<leftarrow> ra_get_node_class g n2;
     s \<leftarrow> BITSET_TEST (in_stack t) n2;
     x \<leftarrow> (if s then Some x
          else do {
            r2 \<leftarrow> array_get (node_reg t) n2;
            if contig_len c \<noteq> 0
            then clear_bits x [r2 + 1 - contig_len c..<min (reg_count (graph_regs g)) (r2 + contig_len n2c)]
            else do {
              reg2 \<leftarrow> array_get (regs (graph_regs g)) r2;
              andnot_words (BITSET_WORDS (reg_count (graph_regs g))) x (conflicts reg2) } });
     remove_neighbours g t c ns x }"

text \<open>The available registers, and whether there is one.\<close>

definition ra_compute_available_regs :: "ra_graph \<Rightarrow> ra_tmp \<Rightarrow> nat \<Rightarrow> (u32 list \<times> bool) option" where
  "ra_compute_available_regs g t n = do {
     c \<leftarrow> ra_get_node_class g n;
     node \<leftarrow> array_get (nodes g) n;
     let w = BITSET_WORDS (reg_count (graph_regs g));
     c_assert (w \<le> length (class_regs c));
     x \<leftarrow> remove_neighbours g t c (adjacency_list node) (take w (class_regs c));
     Some (x, \<exists>v \<in> set (take w x). v \<noteq> 0) }"

text \<open>
  The search for a register from \<open>start\<close> on, around the end of the set. After a conflict with a contiguous allocation it goes
  on behind that allocation.
\<close>

function search_reg :: "ra_graph \<Rightarrow> ra_tmp \<Rightarrow> nat \<Rightarrow> ra_class \<Rightarrow> nat \<Rightarrow> nat \<Rightarrow> nat option option" where
  "search_reg g t n c start ri =
     (if ri < reg_count (graph_regs g)
      then let r = (start + ri) mod reg_count (graph_regs g)
           in case reg_belongs_to_class r c of
                None \<Rightarrow> None
              | Some False \<Rightarrow> search_reg g t n c start (ri + 1)
              | Some True \<Rightarrow> (case ra_find_conflicting_neighbor g t n r of
                  None \<Rightarrow> None
                | Some None \<Rightarrow> Some (Some r)
                | Some (Some m) \<Rightarrow> (case (ra_get_node_class g m, array_get (node_reg t) m) of
                    (Some cm, Some rm) \<Rightarrow>
                      if contig_len cm \<noteq> 0
                      then if rm + contig_len cm - 1 \<ge> r
                           then search_reg g t n c start (ri + (rm + contig_len cm - 1 - r) + 1)
                           else None
                      else search_reg g t n c start (ri + 1)
                  | _ \<Rightarrow> None))
      else Some None)"
  by pat_completeness auto
termination
  by (relation "measure (\<lambda>(g, t, n, c, start, ri). reg_count (graph_regs g) - ri)") auto

text \<open>
  A register for a node, or none. The callback is a function of the node and of the available registers: a node is popped once,
  so this covers callbacks with a state of their own.
\<close>

definition pick_reg :: "ra_graph \<Rightarrow> ra_tmp \<Rightarrow> nat \<Rightarrow> nat \<Rightarrow> nat option option" where
  "pick_reg g t n start = (case select_reg_callback g of
     Some cb \<Rightarrow> do {
       (x, some) \<leftarrow> ra_compute_available_regs g t n;
       if \<not> some then Some None
       else do {
         let r = cb n x;
         c_assert (r < reg_count (graph_regs g));
         Some (Some r) } }
   | None \<Rightarrow> do { c \<leftarrow> ra_get_node_class g n; search_reg g t n c start 0 })"

fun select_nodes :: "ra_graph \<Rightarrow> nat list \<Rightarrow> nat \<Rightarrow> ra_tmp \<Rightarrow> (bool \<times> ra_tmp) option" where
  "select_nodes g [] start t = Some (True, t)"
| "select_nodes g (n # ns) start t = do {
     b \<leftarrow> BITSET_CLEAR (in_stack t) n;
     let t = t\<lparr>in_stack := b\<rparr>;
     pick \<leftarrow> pick_reg g t n start;
     case pick of
       None \<Rightarrow> Some (False, t)
     | Some r \<Rightarrow> do {
         rs \<leftarrow> array_set (node_reg t) n r;
         let t = t\<lparr>node_reg := rs, stack := ns\<rparr>;
             start = (if round_robin (graph_regs g) \<and> (of_nat (length ns) :: u32) - 1 \<le> stack_optimistic_start t then r + 1 else start)
         in select_nodes g ns start t } }"

definition ra_select :: "ra_graph \<Rightarrow> (bool \<times> ra_graph) option" where
  "ra_select g = do {
     (res, t) \<leftarrow> select_nodes g (stack (tmp g)) 0 (tmp g);
     Some (res, g\<lparr>tmp := t\<rparr>) }"

definition ra_allocate :: "ra_graph \<Rightarrow> (bool \<times> ra_graph) option" where
  "ra_allocate g = do { g \<leftarrow> ra_simplify g; ra_select g }"

end
