(* ===== verification/Reg_Set_Correct.thy ===== *)
theory Reg_Set_Correct
  imports Reg_Set
begin

text \<open>
  Register sets: the conflicts form a reflexive and symmetric relation that every operation keeps, and
  \<^verbatim>\<open>ra_set_finalize\<close> computes for two classes the largest number of registers of the first that one register of the second
  can rule out.
\<close>

section \<open>Conflicts as a relation\<close>

definition conf :: "ra_regs \<Rightarrow> nat \<Rightarrow> nat set" where
  "conf rs r = ids (conflicts (regs rs ! r))"

definition regs_ok :: "ra_regs \<Rightarrow> bool" where
  "regs_ok rs \<longleftrightarrow> (\<forall>r < reg_count rs. length (conflicts (regs rs ! r)) = BITSET_WORDS (reg_count rs) \<and>
     conf rs r \<subseteq> {..<reg_count rs} \<and> r \<in> conf rs r \<and> (\<forall>s \<in> conf rs r. r \<in> conf rs s))"

definition lists_ok :: "ra_regs \<Rightarrow> bool" where
  "lists_ok rs \<longleftrightarrow> (\<forall>r < reg_count rs. \<exists>l. conflict_list (regs rs ! r) = Some l \<and> distinct l \<and> set l = conf rs r)"

text \<open>The conflicts after adding the pairs of a relation in both directions; nothing else changes.\<close>

definition adds_conflicts :: "ra_regs \<Rightarrow> (nat \<Rightarrow> nat \<Rightarrow> bool) \<Rightarrow> ra_regs \<Rightarrow> bool" where
  "adds_conflicts rs E rs' \<longleftrightarrow> reg_count rs' = reg_count rs \<and> classes rs' = classes rs \<and> round_robin rs' = round_robin rs \<and>
     regs_ok rs' \<and> (lists_ok rs \<longrightarrow> lists_ok rs') \<and>
     (\<forall>x < reg_count rs. conf rs' x = conf rs x \<union> {y. E x y \<or> E y x})"

lemma adds_refl: "regs_ok rs \<Longrightarrow> \<forall>x y. E x y \<longrightarrow> x < reg_count rs \<and> y < reg_count rs \<and> y \<in> conf rs x \<Longrightarrow> adds_conflicts rs E rs"
  unfolding adds_conflicts_def regs_ok_def by blast

lemma adds_trans:
  assumes "adds_conflicts rs E rs1" "adds_conflicts rs1 F rs2"
  shows "adds_conflicts rs (\<lambda>x y. E x y \<or> F x y) rs2"
  using assms unfolding adds_conflicts_def by auto

lemma adds_mono:
  assumes "adds_conflicts rs E rs'" "\<And>x y. x < reg_count rs \<Longrightarrow> (E x y \<or> E y x) = (F x y \<or> F y x)"
  shows "adds_conflicts rs F rs'"
  using assms unfolding adds_conflicts_def by auto

lemma adds_drop_refl:
  assumes "adds_conflicts rs (\<lambda>x y. x = y \<and> R x \<or> E x y) rs'" "regs_ok rs"
  shows "adds_conflicts rs E rs'"
proof -
  have "conf rs x \<union> {y. (x = y \<and> R x \<or> E x y) \<or> (y = x \<and> R y \<or> E y x)} = conf rs x \<union> {y. E x y \<or> E y x}" if "x < reg_count rs" for x
    using assms(2) that by (auto simp: regs_ok_def)
  then show ?thesis using assms(1) by (simp add: adds_conflicts_def)
qed

lemma alloc_reg_set_spec:
  "\<exists>rs. ra_alloc_reg_set n ls = Some rs \<and> reg_count rs = n \<and> classes rs = [] \<and> \<not> round_robin rs \<and>
     regs_ok rs \<and> (ls \<longrightarrow> lists_ok rs) \<and> (\<forall>r < n. conf rs r = {r})"
proof -
  have "\<exists>reg. new_reg n ls i = Some reg \<and> length (conflicts reg) = BITSET_WORDS n \<and> ids (conflicts reg) = {i} \<and>
      (ls \<longrightarrow> conflict_list reg = Some [i])" if "i < n" for i
    using BITSET_SET_eq [of i "replicate (BITSET_WORDS n) 0"] words_less [OF that, of "replicate (BITSET_WORDS n) 0"] by (auto simp: new_reg_def)
  then obtain f where f: "\<And>i. i < n \<Longrightarrow> new_reg n ls i = Some (f i) \<and> length (conflicts (f i)) = BITSET_WORDS n \<and> ids (conflicts (f i)) = {i} \<and>
      (ls \<longrightarrow> conflict_list (f i) = Some [i])" by metis
  then have "those (map (new_reg n ls) [0..<n]) = Some (map f [0..<n])" by (intro those_map) simp
  then show ?thesis using f by (simp add: ra_alloc_reg_set_def regs_ok_def lists_ok_def conf_def)
qed

lemma add_conflict_list_spec:
  assumes "r1 < reg_count rs" "r2 div 32 < length (conflicts (regs rs ! r1))"
  shows "\<exists>rs'. ra_add_conflict_list rs r1 r2 = Some rs' \<and> reg_count rs' = reg_count rs \<and> classes rs' = classes rs \<and> round_robin rs' = round_robin rs \<and>
    (\<forall>x < reg_count rs. length (conflicts (regs rs' ! x)) = length (conflicts (regs rs ! x)) \<and>
       conf rs' x = (if x = r1 then insert r2 (conf rs x) else conf rs x) \<and>
       conflict_list (regs rs' ! x) = (if x = r1 then map_option (\<lambda>l. l @ [r2]) (conflict_list (regs rs ! x)) else conflict_list (regs rs ! x)))"
  using assms BITSET_SET_eq [OF assms(2)] by (auto simp: ra_add_conflict_list_def conf_def nth_list_update)

lemma add_reg_conflict_spec:
  assumes ok: "regs_ok rs" and r: "r1 < reg_count rs" "r2 < reg_count rs"
  shows "\<exists>rs'. ra_add_reg_conflict rs r1 r2 = Some rs' \<and> adds_conflicts rs (\<lambda>x y. x = r1 \<and> y = r2) rs'"
proof -
  have len: "r2 div 32 < length (conflicts (regs rs ! r1))" "r1 div 32 < length (conflicts (regs rs ! r2))"
    using ok r word_index by (auto simp: regs_ok_def)
  show ?thesis
  proof (cases "r2 \<in> conf rs r1")
    case True
    then have "ra_add_reg_conflict rs r1 r2 = Some rs" using r(1) BITSET_TEST_eq [OF len(1)] by (simp add: ra_add_reg_conflict_def conf_def)
    moreover have "adds_conflicts rs (\<lambda>x y. x = r1 \<and> y = r2) rs" using True r ok by (intro adds_refl) auto
    ultimately show ?thesis by blast
  next
    case False
    then have ne: "r1 \<noteq> r2" using ok r by (auto simp: regs_ok_def)
    obtain rs1 where 1: "ra_add_conflict_list rs r1 r2 = Some rs1" "reg_count rs1 = reg_count rs" "classes rs1 = classes rs" "round_robin rs1 = round_robin rs"
      "\<forall>x < reg_count rs. length (conflicts (regs rs1 ! x)) = length (conflicts (regs rs ! x)) \<and>
       conf rs1 x = (if x = r1 then insert r2 (conf rs x) else conf rs x) \<and>
       conflict_list (regs rs1 ! x) = (if x = r1 then map_option (\<lambda>l. l @ [r2]) (conflict_list (regs rs ! x)) else conflict_list (regs rs ! x))"
      using add_conflict_list_spec [OF r(1) len(1)] by blast
    have "r2 < reg_count rs1" "r1 div 32 < length (conflicts (regs rs1 ! r2))" using 1 r len by simp_all
    then obtain rs2 where 2: "ra_add_conflict_list rs1 r2 r1 = Some rs2" "reg_count rs2 = reg_count rs1" "classes rs2 = classes rs1" "round_robin rs2 = round_robin rs1"
      "\<forall>x < reg_count rs1. length (conflicts (regs rs2 ! x)) = length (conflicts (regs rs1 ! x)) \<and>
       conf rs2 x = (if x = r2 then insert r1 (conf rs1 x) else conf rs1 x) \<and>
       conflict_list (regs rs2 ! x) = (if x = r2 then map_option (\<lambda>l. l @ [r1]) (conflict_list (regs rs1 ! x)) else conflict_list (regs rs1 ! x))"
      using add_conflict_list_spec by blast
    have c: "conf rs2 x = conf rs x \<union> {y. x = r1 \<and> y = r2 \<or> y = r1 \<and> x = r2}" if "x < reg_count rs" for x
      using 1(5) 2(5) that 1(2) ne by auto
    have "regs_ok rs2" unfolding regs_ok_def
    proof (intro allI impI)
      fix x assume "x < reg_count rs2"
      then have x: "x < reg_count rs" using 1(2) 2(2) by simp
      have sub: "conf rs x \<subseteq> {..<reg_count rs}" "x \<in> conf rs x" "\<forall>s \<in> conf rs x. x \<in> conf rs s" using ok x by (auto simp: regs_ok_def)
      have len: "length (conflicts (regs rs2 ! x)) = BITSET_WORDS (reg_count rs2)" using 1(2,5) 2(2,5) x ok by (simp add: regs_ok_def)
      have below: "s < reg_count rs" if "s \<in> conf rs2 x" for s using that c [OF x] sub(1) r by auto
      have "x \<in> conf rs2 s" if s: "s \<in> conf rs2 x" for s
      proof (cases "s \<in> conf rs x")
        case True
        then show ?thesis using sub(3) c [OF below [OF s]] by blast
      next
        case False
        then show ?thesis using s c [OF x] c [OF below [OF s]] by blast
      qed
      moreover have "x \<in> conf rs2 x" using c [OF x] sub(2) by blast
      ultimately show "length (conflicts (regs rs2 ! x)) = BITSET_WORDS (reg_count rs2) \<and> conf rs2 x \<subseteq> {..<reg_count rs2} \<and> x \<in> conf rs2 x \<and> (\<forall>s \<in> conf rs2 x. x \<in> conf rs2 s)"
        using len below 1(2) 2(2) by auto
    qed
    moreover have "lists_ok rs2" if l: "lists_ok rs" unfolding lists_ok_def
    proof (intro allI impI)
      fix x assume "x < reg_count rs2"
      then have x: "x < reg_count rs" using 1(2) 2(2) by simp
      obtain l where "conflict_list (regs rs ! x) = Some l" "distinct l" "set l = conf rs x" using l x by (auto simp: lists_ok_def)
      moreover have "r1 \<notin> conf rs r2" using False ok r by (auto simp: regs_ok_def)
      ultimately show "\<exists>l. conflict_list (regs rs2 ! x) = Some l \<and> distinct l \<and> set l = conf rs2 x"
        using x 1(2,5) 2(5) ne False by auto
    qed
    moreover have "ra_add_reg_conflict rs r1 r2 = Some rs2" using r(1) BITSET_TEST_eq [OF len(1)] False 1(1) 2(1) by (simp add: ra_add_reg_conflict_def conf_def)
    ultimately show ?thesis using c 1(2-4) 2(2-4) by (intro exI [of _ rs2]) (auto simp: adds_conflicts_def)
  qed
qed

lemma adds_count: "adds_conflicts rs E rs' \<Longrightarrow> reg_count rs' = reg_count rs \<and> regs_ok rs'"
  by (simp add: adds_conflicts_def)

lemma add_conflicts_spec:
  assumes "regs_ok rs" "reg < reg_count rs" "\<forall>r \<in> set l. r < reg_count rs"
  shows "\<exists>rs'. add_conflicts rs reg l = Some rs' \<and> adds_conflicts rs (\<lambda>x y. x = reg \<and> y \<in> set l) rs'"
  using assms
proof (induction l arbitrary: rs)
  case Nil
  then show ?case by (auto intro: adds_refl)
next
  case (Cons r l)
  obtain rs1 where 1: "ra_add_reg_conflict rs reg r = Some rs1" "adds_conflicts rs (\<lambda>x y. x = reg \<and> y = r) rs1"
    using add_reg_conflict_spec [of rs reg r] Cons.prems by auto
  then obtain rs2 where 2: "add_conflicts rs1 reg l = Some rs2" "adds_conflicts rs1 (\<lambda>x y. x = reg \<and> y \<in> set l) rs2"
    using Cons.IH [of rs1] adds_count [OF 1(2)] Cons.prems by auto
  have "adds_conflicts rs (\<lambda>x y. x = reg \<and> y \<in> set (r # l)) rs2" using adds_trans [OF 1(2) 2(2)] by (rule adds_mono) auto
  then show ?case using 1(1) 2(1) by simp
qed

lemma list_elems_conf: "lists_ok rs \<Longrightarrow> r < reg_count rs \<Longrightarrow> set (list_elems (regs rs ! r)) = conf rs r \<and> distinct (list_elems (regs rs ! r))"
  by (auto simp: lists_ok_def list_elems_def)

text \<open>The new register conflicts with the base register and with everything that the base register conflicts with.\<close>

lemma add_transitive_spec:
  assumes ok: "regs_ok rs" "lists_ok rs" and r: "base < reg_count rs" "reg < reg_count rs"
  shows "\<exists>rs'. ra_add_transitive_reg_conflict rs base reg = Some rs' \<and> adds_conflicts rs (\<lambda>x y. x = reg \<and> y \<in> conf rs base) rs'"
proof -
  obtain rs1 where 1: "ra_add_reg_conflict rs reg base = Some rs1" "adds_conflicts rs (\<lambda>x y. x = reg \<and> y = base) rs1"
    using add_reg_conflict_spec [OF ok(1) r(2,1)] by blast
  have o1: "reg_count rs1 = reg_count rs" "regs_ok rs1" "lists_ok rs1" "conf rs1 base = insert reg (conf rs base)"
    using 1(2) ok r by (auto simp: adds_conflicts_def regs_ok_def)
  have b: "base \<in> conf rs base" using ok(1) r(1) by (simp add: regs_ok_def)
  let ?l = "list_elems (regs rs1 ! base)"
  have l: "set ?l = insert reg (conf rs base)" using list_elems_conf [OF o1(3), of base] o1 r by simp
  then have "\<forall>r \<in> set ?l. r < reg_count rs1" using ok(1) r o1(1) by (auto simp: regs_ok_def)
  then obtain rs2 where 2: "add_conflicts rs1 reg ?l = Some rs2" "adds_conflicts rs1 (\<lambda>x y. x = reg \<and> y \<in> set ?l) rs2"
    using add_conflicts_spec [OF o1(2), of reg ?l] o1(1) r by auto
  have "adds_conflicts rs (\<lambda>x y. x = y \<and> x = reg \<or> x = reg \<and> y \<in> conf rs base) rs2"
    using adds_trans [OF 1(2) 2(2)] by (rule adds_mono) (auto simp: l b)
  then have "adds_conflicts rs (\<lambda>x y. x = reg \<and> y \<in> conf rs base) rs2" using ok(1) by (rule adds_drop_refl)
  then show ?thesis using 1(1) 2(1) r o1(1) by (simp add: ra_add_transitive_reg_conflict_def)
qed

lemma add_pair_conflicts_spec:
  assumes "regs_ok rs" "reg0 < reg_count rs" "reg1 < reg_count rs" "\<forall>r \<in> set l. r < reg_count rs"
  shows "\<exists>rs'. add_pair_conflicts rs reg0 reg1 l = Some rs' \<and>
    adds_conflicts rs (\<lambda>x y. x = reg0 \<and> y \<in> set l - {reg1} \<or> x = reg1 \<and> y \<in> set l - {reg0}) rs'"
  using assms
proof (induction l arbitrary: rs)
  case Nil
  then show ?case by (auto intro: adds_refl)
next
  case (Cons r l)
  have step: "\<exists>rs'. (if r \<noteq> b then ra_add_reg_conflict rs a r else Some rs) = Some rs' \<and> adds_conflicts rs (\<lambda>x y. x = a \<and> y \<in> {r} - {b}) rs'"
    if "regs_ok rs" "a < reg_count rs" "r < reg_count rs" for rs a b
    using add_reg_conflict_spec [OF that] adds_refl [OF that(1), of "\<lambda>x y. False"] by (cases "r = b") auto
  obtain rs1 where 1: "(if r \<noteq> reg1 then ra_add_reg_conflict rs reg0 r else Some rs) = Some rs1" "adds_conflicts rs (\<lambda>x y. x = reg0 \<and> y \<in> {r} - {reg1}) rs1"
    using step [of rs reg0 reg1] Cons.prems by auto
  obtain rs2 where 2: "(if r \<noteq> reg0 then ra_add_reg_conflict rs1 reg1 r else Some rs1) = Some rs2" "adds_conflicts rs1 (\<lambda>x y. x = reg1 \<and> y \<in> {r} - {reg0}) rs2"
    using step [of rs1 reg1 reg0] adds_count [OF 1(2)] Cons.prems by auto
  obtain rs3 where 3: "add_pair_conflicts rs2 reg0 reg1 l = Some rs3"
    "adds_conflicts rs2 (\<lambda>x y. x = reg0 \<and> y \<in> set l - {reg1} \<or> x = reg1 \<and> y \<in> set l - {reg0}) rs3"
    using Cons.IH [of rs2] adds_count [OF 1(2)] adds_count [OF 2(2)] Cons.prems by auto
  have "adds_conflicts rs (\<lambda>x y. x = reg0 \<and> y \<in> set (r # l) - {reg1} \<or> x = reg1 \<and> y \<in> set (r # l) - {reg0}) rs3"
    using adds_trans [OF adds_trans [OF 1(2) 2(2)] 3(2)] by (rule adds_mono) auto
  then show ?case using 1(1) 2(1) 3(1) by simp
qed

text \<open>The two halves conflict with the base register and its conflicts, but not with each other.\<close>

lemma add_pair_spec:
  assumes ok: "regs_ok rs" "lists_ok rs" and r: "base < reg_count rs" "reg0 < reg_count rs" "reg1 < reg_count rs" "base \<noteq> reg0" "base \<noteq> reg1"
  shows "\<exists>rs'. ra_add_transitive_reg_pair_conflict rs base reg0 reg1 = Some rs' \<and>
    adds_conflicts rs (\<lambda>x y. x = reg0 \<and> y \<in> conf rs base - {reg1} \<or> x = reg1 \<and> y \<in> conf rs base - {reg0}) rs'"
proof -
  obtain rs1 where 1: "ra_add_reg_conflict rs reg0 base = Some rs1" "adds_conflicts rs (\<lambda>x y. x = reg0 \<and> y = base) rs1"
    using add_reg_conflict_spec [OF ok(1) r(2,1)] by blast
  have o1: "reg_count rs1 = reg_count rs" "regs_ok rs1" "lists_ok rs1" "conf rs1 base = insert reg0 (conf rs base)"
    using 1(2) ok r by (auto simp: adds_conflicts_def regs_ok_def)
  obtain rs2 where 2: "ra_add_reg_conflict rs1 reg1 base = Some rs2" "adds_conflicts rs1 (\<lambda>x y. x = reg1 \<and> y = base) rs2"
    using add_reg_conflict_spec [OF o1(2), of reg1 base] r o1(1) by auto
  have o2: "reg_count rs2 = reg_count rs" "regs_ok rs2" "lists_ok rs2" "conf rs2 base = insert reg1 (insert reg0 (conf rs base))"
    using 2(2) o1 r by (auto simp: adds_conflicts_def)
  have b: "base \<in> conf rs base" "reg0 \<in> conf rs reg0" "reg1 \<in> conf rs reg1" using ok(1) r by (simp_all add: regs_ok_def)
  let ?l = "list_elems (regs rs2 ! base)"
  have l: "set ?l = insert reg1 (insert reg0 (conf rs base))" using list_elems_conf [OF o2(3), of base] o2 r by simp
  then have "\<forall>r \<in> set ?l. r < reg_count rs2" using ok(1) r o2(1) by (auto simp: regs_ok_def)
  then obtain rs3 where 3: "add_pair_conflicts rs2 reg0 reg1 ?l = Some rs3"
    "adds_conflicts rs2 (\<lambda>x y. x = reg0 \<and> y \<in> set ?l - {reg1} \<or> x = reg1 \<and> y \<in> set ?l - {reg0}) rs3"
    using add_pair_conflicts_spec [OF o2(2), of reg0 reg1 ?l] o2(1) r by auto
  let ?E = "\<lambda>x y. x = reg0 \<and> y \<in> conf rs base - {reg1} \<or> x = reg1 \<and> y \<in> conf rs base - {reg0}"
  have "adds_conflicts rs (\<lambda>x y. x = y \<and> ((x = reg0 \<or> x = reg1) \<and> reg0 \<noteq> reg1) \<or> ?E x y) rs3"
    using adds_trans [OF adds_trans [OF 1(2) 2(2)] 3(2)] by (rule adds_mono) (use b r in \<open>auto simp: l\<close>)
  then have "adds_conflicts rs ?E rs3" using ok(1) by (rule adds_drop_refl)
  then show ?thesis using 1(1) 2(1) 3(1) r(1) o2(1) by (simp add: ra_add_transitive_reg_pair_conflict_def)
qed

text \<open>
  \<^verbatim>\<open>ra_make_reg_conflicts_transitive\<close> changes the bit sets only: the registers that conflict with \<open>r\<close> conflict with each other
  afterwards, but the lists of conflicts do not say so.
\<close>

lemma or_words_spec:
  assumes "length x = n" "length y = n"
  shows "\<exists>z. or_words n x y = Some z \<and> length z = n \<and> ids z = ids x \<union> ids y"
  using assms by (auto simp: or_words_def ids_def bit_or_iff)

lemma or_conflicts_spec:
  assumes "regs_ok rs0" "r < reg_count rs" "set cs \<subseteq> conf rs0 r" "reg_count rs = reg_count rs0"
    "\<forall>x < reg_count rs. length (conflicts (regs rs ! x)) = BITSET_WORDS (reg_count rs)" "conf rs r = conf rs0 r"
  shows "\<exists>rs'. or_conflicts rs r cs = Some rs' \<and> reg_count rs' = reg_count rs \<and> classes rs' = classes rs \<and> round_robin rs' = round_robin rs \<and>
    (\<forall>x < reg_count rs. length (conflicts (regs rs' ! x)) = BITSET_WORDS (reg_count rs) \<and> conflict_list (regs rs' ! x) = conflict_list (regs rs ! x) \<and>
      conf rs' x = (if x \<in> set cs then conf rs x \<union> conf rs0 r else conf rs x))"
  using assms(2-)
proof (induction cs arbitrary: rs)
  case Nil
  then show ?case by simp
next
  case (Cons c cs)
  have c: "c < reg_count rs" using Cons.prems assms(1) by (auto simp: regs_ok_def)
  obtain z where z: "or_words (BITSET_WORDS (reg_count rs)) (conflicts (regs rs ! c)) (conflicts (regs rs ! r)) = Some z"
    "length z = BITSET_WORDS (reg_count rs)" "ids z = conf rs c \<union> conf rs r"
    using or_words_spec [of "conflicts (regs rs ! c)" _ "conflicts (regs rs ! r)"] Cons.prems(1,4) c by (auto simp: conf_def)
  let ?rs = "rs\<lparr>regs := (regs rs)[c := (regs rs ! c)\<lparr>conflicts := z\<rparr>]\<rparr>"
  have conf': "conf ?rs x = (if x = c then conf rs c \<union> conf rs0 r else conf rs x)" if "x < reg_count rs" for x
    using that z(3) Cons.prems(5) c by (simp add: conf_def nth_list_update)
  have "\<exists>rs'. or_conflicts ?rs r cs = Some rs' \<and> reg_count rs' = reg_count ?rs \<and> classes rs' = classes ?rs \<and> round_robin rs' = round_robin ?rs \<and>
    (\<forall>x < reg_count ?rs. length (conflicts (regs rs' ! x)) = BITSET_WORDS (reg_count ?rs) \<and> conflict_list (regs rs' ! x) = conflict_list (regs ?rs ! x) \<and>
      conf rs' x = (if x \<in> set cs then conf ?rs x \<union> conf rs0 r else conf ?rs x))"
  proof (rule Cons.IH)
    show "\<forall>x < reg_count ?rs. length (conflicts (regs ?rs ! x)) = BITSET_WORDS (reg_count ?rs)" using Cons.prems(4) z(2) c by (simp add: nth_list_update)
    show "conf ?rs r = conf rs0 r" using conf' [OF Cons.prems(1)] Cons.prems(5) by auto
  qed (use Cons.prems in auto)
  then obtain rs' where "or_conflicts ?rs r cs = Some rs'" "reg_count rs' = reg_count rs" "classes rs' = classes rs" "round_robin rs' = round_robin rs"
    and p: "\<forall>x < reg_count rs. length (conflicts (regs rs' ! x)) = BITSET_WORDS (reg_count rs) \<and> conflict_list (regs rs' ! x) = conflict_list (regs ?rs ! x) \<and>
      conf rs' x = (if x \<in> set cs then conf ?rs x \<union> conf rs0 r else conf ?rs x)" by auto
  moreover have "conflict_list (regs ?rs ! x) = conflict_list (regs rs ! x)" if "x < reg_count rs" for x using that c by (simp add: nth_list_update)
  ultimately show ?case using c z(1) Cons.prems(1) conf' by (intro exI [of _ rs']) (auto simp: Un_assoc)
qed

lemma make_transitive_spec:
  assumes ok: "regs_ok rs" and r: "r < reg_count rs"
  shows "\<exists>rs'. ra_make_reg_conflicts_transitive rs r = Some rs' \<and> regs_ok rs' \<and> reg_count rs' = reg_count rs \<and> classes rs' = classes rs \<and>
    round_robin rs' = round_robin rs \<and>
    (\<forall>x < reg_count rs. conf rs' x = (if x \<in> conf rs r then conf rs x \<union> conf rs r else conf rs x) \<and> conflict_list (regs rs' ! x) = conflict_list (regs rs ! x))"
proof -
  let ?cs = "filter (\<lambda>b. b \<in> conf rs r) [0..<reg_count rs]"
  have sub: "conf rs r \<subseteq> {..<reg_count rs}" "\<And>x. x < reg_count rs \<Longrightarrow> length (conflicts (regs rs ! x)) = BITSET_WORDS (reg_count rs)"
    using ok r by (auto simp: regs_ok_def)
  have cs: "BITSET_FOREACH_SET (conflicts (regs rs ! r)) (reg_count rs) = Some ?cs"
    using BITSET_FOREACH_SET_eq [where xs = "conflicts (regs rs ! r)" and sz = "reg_count rs"] sub(2) [OF r] by (simp add: conf_def)
  have s: "set ?cs = conf rs r" using sub(1) by auto
  obtain rs' where rs': "or_conflicts rs r ?cs = Some rs'" "reg_count rs' = reg_count rs" "classes rs' = classes rs" "round_robin rs' = round_robin rs"
    "\<forall>x < reg_count rs. length (conflicts (regs rs' ! x)) = BITSET_WORDS (reg_count rs) \<and> conflict_list (regs rs' ! x) = conflict_list (regs rs ! x) \<and>
      conf rs' x = (if x \<in> conf rs r then conf rs x \<union> conf rs r else conf rs x)"
    using or_conflicts_spec [OF ok r, of ?cs] sub s by (auto simp del: set_filter)
  have sym: "\<forall>x < reg_count rs. \<forall>y \<in> conf rs x. x \<in> conf rs y \<and> y < reg_count rs" using ok by (auto simp: regs_ok_def)
  have c': "conf rs' x = (if x \<in> conf rs r then conf rs x \<union> conf rs r else conf rs x)" if "x < reg_count rs" for x using rs'(5) that by simp
  have "regs_ok rs'" unfolding regs_ok_def
  proof (intro allI impI)
    fix x assume "x < reg_count rs'"
    then have x: "x < reg_count rs" using rs'(2) by simp
    have self: "x \<in> conf rs x" "conf rs x \<subseteq> {..<reg_count rs}" using ok x by (auto simp: regs_ok_def)
    have below: "conf rs' x \<subseteq> {..<reg_count rs}" unfolding c' [OF x] using self(2) sub(1) by simp
    have "x \<in> conf rs' y" if y: "y \<in> conf rs' x" for y
    proof (cases "y \<in> conf rs x")
      case True
      then have "x \<in> conf rs y" "y < reg_count rs" using sym x by blast+
      then show ?thesis using c' [of y] by simp
    next
      case False
      then have "x \<in> conf rs r" "y \<in> conf rs r" using y c' [OF x] by (auto split: if_splits)
      moreover from this have "y < reg_count rs" using sub(1) by blast
      ultimately show ?thesis using c' [of y] by simp
    qed
    moreover have "x \<in> conf rs' x" using self(1) c' [OF x] by simp
    ultimately show "length (conflicts (regs rs' ! x)) = BITSET_WORDS (reg_count rs') \<and> conf rs' x \<subseteq> {..<reg_count rs'} \<and> x \<in> conf rs' x \<and> (\<forall>s \<in> conf rs' x. x \<in> conf rs' s)"
      using x rs'(2,5) below by simp
  qed
  moreover have "ra_make_reg_conflicts_transitive rs r = Some rs'" using rs'(1) r cs by (simp add: ra_make_reg_conflicts_transitive_def)
  ultimately show ?thesis using rs'(2-5) by blast
qed

end
