(* ===== verification/Reg_Class_Correct.thy ===== *)
theory Reg_Class_Correct
  imports Reg_Set_Correct
begin

text \<open>
  Register classes. \<open>hits rs b c rc\<close> are the registers of class \<open>b\<close> that an allocation of class \<open>c\<close> at \<open>rc\<close> rules out;
  \<^verbatim>\<open>ra_set_finalize\<close> computes the largest number of them. \<open>final_ok\<close> is what the allocator may rely on afterwards.
\<close>

section \<open>The test of Runeson and Nystrom\<close>

text \<open>
  Neighbours that each rule out at most \<open>q\<close> of the choices of a node leave one over when the sum is smaller than the number of choices.
\<close>

locale runeson_test =
  fixes choices :: "'c \<Rightarrow> 'r set" and rules_out :: "'c \<Rightarrow> 'c \<Rightarrow> 'r \<Rightarrow> 'r set" and q :: "'c \<Rightarrow> 'c \<Rightarrow> nat"
  assumes finite_out: "finite (rules_out b c s)" and out_le: "s \<in> choices c \<Longrightarrow> card (rules_out b c s) \<le> q b c"
begin

lemma one_left:
  assumes "finite A" "\<And>m. m \<in> A \<Longrightarrow> col m \<in> choices (cl m)" "(\<Sum>m \<in> A. q b (cl m)) < card (choices b)"
  shows "\<exists>r \<in> choices b. \<forall>m \<in> A. r \<notin> rules_out b (cl m) (col m)"
proof (rule ccontr)
  assume "\<not> ?thesis"
  then have "choices b \<subseteq> (\<Union>m \<in> A. rules_out b (cl m) (col m))" by blast
  then have "card (choices b) \<le> card (\<Union>m \<in> A. rules_out b (cl m) (col m))" using assms(1) finite_out by (intro card_mono) simp_all
  also have "\<dots> \<le> (\<Sum>m \<in> A. card (rules_out b (cl m) (col m)))" using assms(1) by (rule card_UN_le)
  also have "\<dots> \<le> (\<Sum>m \<in> A. q b (cl m))" using assms(2) out_le by (intro sum_mono) blast
  finally show False using assms(3) by simp
qed

end

section \<open>Classes\<close>

abbreviation members :: "ra_class \<Rightarrow> nat set" where
  "members c \<equiv> ids (class_regs c)"

definition class_ok :: "ra_regs \<Rightarrow> ra_class \<Rightarrow> bool" where
  "class_ok rs c \<longleftrightarrow> length (class_regs c) = BITSET_WORDS (reg_count rs) \<and> members c \<subseteq> {..<reg_count rs} \<and>
     (\<forall>r \<in> members c. r + contig_len c \<le> reg_count rs) \<and> unat (class_p c) = card (members c)"

text \<open>The meaning of \<^verbatim>\<open>ra_class_allocations_conflict\<close>.\<close>

definition clash :: "ra_regs \<Rightarrow> ra_class \<Rightarrow> nat \<Rightarrow> ra_class \<Rightarrow> nat \<Rightarrow> bool" where
  "clash rs b rb c rc \<longleftrightarrow> (if contig_len b \<noteq> 0 then rc < rb + contig_len b \<and> rb < rc + contig_len c else rc \<in> conf rs rb)"

definition hits :: "ra_regs \<Rightarrow> ra_class \<Rightarrow> ra_class \<Rightarrow> nat \<Rightarrow> nat set" where
  "hits rs b c rc = {rb \<in> members b. clash rs b rb c rc}"

definition worst :: "ra_regs \<Rightarrow> ra_class \<Rightarrow> ra_class \<Rightarrow> nat" where
  "worst rs b c = Max (insert 0 ((\<lambda>rc. card (hits rs b c rc)) ` members c))"

lemma hits_le_worst: "rc \<in> members c \<Longrightarrow> card (hits rs b c rc) \<le> worst rs b c"
  unfolding worst_def by (intro Max_ge) simp_all

lemma finite_hits [simp]: "finite (hits rs b c rc)"
  by (simp add: hits_def)

interpretation pq: runeson_test members "hits rs" "worst rs" for rs
  by unfold_locales (simp_all add: hits_le_worst)

lemma class_add_reg_spec:
  assumes "i < class_count rs" "class_ok rs (classes rs ! i)" "r < reg_count rs" "r + contig_len (classes rs ! i) \<le> reg_count rs"
    "r \<notin> members (classes rs ! i)" "reg_count rs < 2 ^ 32"
  shows "\<exists>rs' c. ra_class_add_reg rs i r = Some rs' \<and> regs rs' = regs rs \<and> classes rs' = (classes rs)[i := c] \<and> round_robin rs' = round_robin rs \<and>
    class_ok rs' c \<and> members c = insert r (members (classes rs ! i)) \<and> contig_len c = contig_len (classes rs ! i)"
proof -
  let ?c = "classes rs ! i"
  have len: "r div 32 < length (class_regs ?c)" using assms(2,3) word_index by (simp add: class_ok_def)
  obtain b where b: "BITSET_SET (class_regs ?c) r = Some b" "length b = length (class_regs ?c)" "ids b = insert r (members ?c)"
    using BITSET_SET_eq [OF len] by blast
  have "insert r (members ?c) \<subseteq> {..<reg_count rs}" using assms(2,3) by (simp add: class_ok_def)
  then have "card (insert r (members ?c)) \<le> reg_count rs" using card_mono [of "{..<reg_count rs}"] by simp
  then have "Suc (card (members ?c)) \<le> reg_count rs" using assms(5) by simp
  then have "unat (class_p ?c + 1) = unat (class_p ?c) + 1" using assms(2,6) unat_add_no_wrap [of "class_p ?c" 1] by (simp add: class_ok_def)
  then show ?thesis using assms b
    by (intro exI [of _ "rs\<lparr>classes := (classes rs)[i := ?c\<lparr>class_regs := b, class_p := class_p ?c + 1\<rparr>]\<rparr>"]
        exI [of _ "?c\<lparr>class_regs := b, class_p := class_p ?c + 1\<rparr>"]) (auto simp: ra_class_add_reg_def class_ok_def)
qed

section \<open>Counting\<close>

lemma count_bits_eq: "\<forall>i \<in> set is. i div 32 < length x \<Longrightarrow> count_bits x is = Some (length (filter (\<lambda>i. i \<in> ids x) is))"
  by (induction x "is" rule: count_bits.induct) (simp_all add: BITSET_TEST_eq)

lemma length_filter_card: "distinct xs \<Longrightarrow> length (filter P xs) = card {x \<in> set xs. P x}"
  by (metis distinct_card distinct_filter set_filter)

lemma Max_insert_max: "finite A \<Longrightarrow> Max (insert (max m n) A) = Max (insert m (insert (n :: nat) A))"
  by (cases "A = {}") (simp_all add: max.assoc)

lemma list_conflicts_eq:
  assumes "lists_ok rs" "regs_ok rs" "class_ok rs b" "\<forall>rc \<in> set rcs. rc < reg_count rs" "contig_len b = 0"
  shows "list_conflicts rs b rcs m = Some (Max (insert m ((\<lambda>rc. card (hits rs b c rc)) ` set rcs)))"
  using assms(4)
proof (induction rcs arbitrary: m)
  case (Cons rc rcs)
  let ?l = "list_elems (regs rs ! rc)"
  have rc: "rc < reg_count rs" using Cons.prems by simp
  have l: "set ?l = conf rs rc" "distinct ?l" using list_elems_conf [OF assms(1) rc] by simp_all
  have sub: "conf rs rc \<subseteq> {..<reg_count rs}" using assms(2) rc by (simp add: regs_ok_def)
  have "count_bits (class_regs b) ?l = Some (card {rb \<in> set ?l. rb \<in> members b})"
    using sub l assms(3) word_index by (subst count_bits_eq) (auto simp: class_ok_def length_filter_card)
  also have "{rb \<in> set ?l. rb \<in> members b} = hits rs b c rc"
    using assms(2,3,5) rc sub unfolding l(1) hits_def clash_def by (auto simp: regs_ok_def class_ok_def)
  finally show ?case using Cons rc by (simp add: Max_insert_max)
qed simp

text \<open>The registers whose allocation overlaps a given one are an interval of bases.\<close>

lemma contig_hits:
  assumes "contig_len b \<noteq> 0"
  shows "hits rs b c rc = {rb \<in> {rc + 1 - contig_len b..<rc + contig_len c}. rb \<in> members b}"
  using assms by (auto simp: hits_def clash_def)

lemma contig_hits_le: "contig_len b \<noteq> 0 \<Longrightarrow> contig_len c \<noteq> 0 \<Longrightarrow> card (hits rs b c rc) \<le> contig_len b + contig_len c - 1"
proof -
  assume len: "contig_len b \<noteq> 0" "contig_len c \<noteq> 0"
  have "hits rs b c rc \<subseteq> {rc + 1 - contig_len b..<rc + contig_len c}" unfolding contig_hits [OF len(1)] by blast
  then have "card (hits rs b c rc) \<le> rc + contig_len c - (rc + 1 - contig_len b)" using card_mono [OF finite_atLeastLessThan] by fastforce
  then show ?thesis using len by linarith
qed

lemma contig_conflicts_eq:
  assumes "class_ok rs b" "contig_len b \<noteq> 0" "contig_len c \<noteq> 0" "m \<le> contig_len b + contig_len c - 1"
  shows "contig_conflicts (reg_count rs) b c rcs m = Some (Max (insert m ((\<lambda>rc. card (hits rs b c rc)) ` set rcs)))"
  using assms(4)
proof (induction rcs arbitrary: m)
  case (Cons rc rcs)
  let ?B = "contig_len b + contig_len c - 1" and ?f = "\<lambda>rc. card (hits rs b c rc)"
  let ?l = "[rc + 1 - contig_len b..<min (reg_count rs) (rc + contig_len c)]"
  have "count_bits (class_regs b) ?l = Some (card {rb \<in> set ?l. rb \<in> members b})"
    using assms(1) word_index by (subst count_bits_eq) (auto simp: class_ok_def length_filter_card simp del: set_upt, simp)
  also have "{rb \<in> set ?l. rb \<in> members b} = hits rs b c rc" unfolding contig_hits [OF assms(2)] using assms(1) by (auto simp: class_ok_def)
  finally have n: "count_bits (class_regs b) ?l = Some (?f rc)" .
  have le: "?f x \<le> ?B" for x by (rule contig_hits_le [OF assms(2,3)])
  show ?case
  proof (cases "max m (?f rc) = ?B")
    case True
    have "Max (insert m (?f ` set (rc # rcs))) = Max (insert (max m (?f rc)) (?f ` set rcs))" by (simp add: Max_insert_max)
    also have "\<dots> = ?B" unfolding True using le by (intro Max_eqI) auto
    finally show ?thesis using n True by (simp add: Let_def)
  next
    case False
    then show ?thesis using Cons n le by (simp add: Let_def Max_insert_max)
  qed
qed simp

lemma words_intersect_eq:
  assumes "length x = n" "length y = n"
  shows "words_intersect n x y = Some (ids x \<inter> ids y \<noteq> {})"
proof -
  have "(\<exists>i < n. x ! i AND y ! i \<noteq> 0) \<longleftrightarrow> ids x \<inter> ids y \<noteq> {}"
  proof
    assume "\<exists>i < n. x ! i AND y ! i \<noteq> 0"
    then obtain i where i: "i < n" "x ! i AND y ! i \<noteq> 0" by blast
    note f = ffs_spec [OF i(2)]
    have "i * 32 + (ffs (x ! i AND y ! i) - 1) \<in> ids x \<inter> ids y" using f(1,2) i(1) assms word_bits by (auto simp: bit_and_iff)
    then show "ids x \<inter> ids y \<noteq> {}" by blast
  next
    assume "ids x \<inter> ids y \<noteq> {}"
    then obtain b where "b div 32 < n" "bit (x ! (b div 32) AND y ! (b div 32)) (b mod 32)" using assms by (auto simp: ids_def bit_and_iff)
    then show "\<exists>i < n. x ! i AND y ! i \<noteq> 0" by (intro exI [of _ "b div 32"]) auto
  qed
  then show ?thesis using assms by (auto simp: words_intersect_def)
qed

lemma single_worst:
  assumes "contig_len b = 1" "contig_len c = 1"
  shows "worst rs b c = (if members b \<inter> members c \<noteq> {} then 1 else 0)"
proof -
  have h: "hits rs b c rc = (if rc \<in> members b then {rc} else {})" for rc using assms by (auto simp: hits_def clash_def less_Suc_eq_le dest: le_antisym)
  show ?thesis
  proof (cases "members b \<inter> members c = {}")
    case True
    then have "(\<lambda>rc. card (hits rs b c rc)) ` members c \<subseteq> {0}" by (auto simp: h)
    then show ?thesis using True unfolding worst_def by (simp add: insert_absorb2 subset_singleton_iff) (metis Max_singleton insert_absorb2 image_is_empty)
  next
    case False
    then have "1 \<in> insert 0 ((\<lambda>rc. card (hits rs b c rc)) ` members c)" by (force simp: h)
    moreover have "y \<le> 1" if "y \<in> insert 0 ((\<lambda>rc. card (hits rs b c rc)) ` members c)" for y using that by (auto simp: h)
    ultimately have "Max (insert 0 ((\<lambda>rc. card (hits rs b c rc)) ` members c)) = 1" by (intro Max_eqI) simp_all
    then show ?thesis using False by (simp add: worst_def)
  qed
qed

section \<open>Finalising\<close>

lemma worst_le: "class_ok rs b \<Longrightarrow> worst rs b c \<le> reg_count rs"
proof -
  assume b: "class_ok rs b"
  have "card (hits rs b c rc) \<le> reg_count rs" for rc
    using card_mono [of "{..<reg_count rs}" "hits rs b c rc"] b by (auto simp: hits_def class_ok_def)
  then show ?thesis unfolding worst_def by (intro Max.boundedI) auto
qed

text \<open>Classes are all contiguous or none is; only in the second case the conflicts of the registers are looked at.\<close>

definition setup_ok :: "ra_regs \<Rightarrow> bool" where
  "setup_ok rs \<longleftrightarrow> reg_count rs < 2 ^ 32 \<and> (\<forall>c \<in> set (classes rs). class_ok rs c) \<and>
     ((\<forall>c \<in> set (classes rs). contig_len c \<noteq> 0) \<or> (\<forall>c \<in> set (classes rs). contig_len c = 0) \<and> regs_ok rs \<and> lists_ok rs)"

lemma q_value_eq:
  assumes ok: "setup_ok rs" and b: "b \<in> set (classes rs)" and c: "c \<in> set (classes rs)"
  shows "q_value rs b c = Some (of_nat (worst rs b c))"
proof -
  have cb: "class_ok rs b" "class_ok rs c" using ok b c by (simp_all add: setup_ok_def)
  have sub: "members c \<subseteq> {..<reg_count rs}" using cb(2) by (simp add: class_ok_def)
  have fe: "BITSET_FOREACH_SET (class_regs c) (reg_count rs) = Some (filter (\<lambda>r. r \<in> members c) [0..<reg_count rs])"
    using cb(2) by (intro BITSET_FOREACH_SET_eq) (simp add: class_ok_def)
  have st: "set (filter (\<lambda>r. r \<in> members c) [0..<reg_count rs]) = members c" using sub by auto
  show ?thesis
  proof (cases "contig_len b = 0")
    case True
    then have z: "contig_len c = 0" "regs_ok rs" "lists_ok rs" using ok b c by (auto simp: setup_ok_def)
    show ?thesis using list_conflicts_eq [OF z(3,2) cb(1) _ True, of "filter (\<lambda>r. r \<in> members c) [0..<reg_count rs]" 0 c] True z(1) fe st
      by (simp add: q_value_def worst_def)
  next
    case False
    then have len: "contig_len b \<noteq> 0" "contig_len c \<noteq> 0" using ok b c by (auto simp: setup_ok_def)
    show ?thesis
    proof (cases "contig_len b = 1 \<and> contig_len c = 1")
      case True
      then show ?thesis using words_intersect_eq [of "class_regs b" "BITSET_WORDS (reg_count rs)" "class_regs c"] cb single_worst [of b c rs]
        by (simp add: q_value_def class_ok_def)
    next
      case False
      have n: "contig_conflicts (reg_count rs) b c (filter (\<lambda>r. r \<in> members c) [0..<reg_count rs]) 0 = Some (worst rs b c)"
        unfolding worst_def using contig_conflicts_eq [OF cb(1) len, of 0 "filter (\<lambda>r. r \<in> members c) [0..<reg_count rs]"] unfolding st by simp
      show ?thesis unfolding q_value_def if_P [OF conjI [OF len]] if_not_P [OF False] fe using n by simp
    qed
  qed
qed

text \<open>What the allocator relies on.\<close>

definition final_ok :: "ra_regs \<Rightarrow> bool" where
  "final_ok rs \<longleftrightarrow> reg_count rs < 2 ^ 32 \<and> (\<forall>c \<in> set (classes rs). class_ok rs c \<and> length (class_q c) = class_count rs) \<and>
     ((\<forall>c \<in> set (classes rs). contig_len c \<noteq> 0) \<or> (\<forall>c \<in> set (classes rs). contig_len c = 0) \<and> regs_ok rs) \<and>
     (\<forall>b < class_count rs. \<forall>c < class_count rs. worst rs (classes rs ! b) (classes rs ! c) \<le> unat (class_q (classes rs ! b) ! c))"

lemma finalize_spec:
  assumes ok: "setup_ok rs"
  shows "\<exists>rs'. ra_set_finalize rs None = Some rs' \<and> final_ok rs' \<and> reg_count rs' = reg_count rs \<and> class_count rs' = class_count rs \<and>
    round_robin rs' = round_robin rs \<and>
    (\<forall>b < class_count rs. members (classes rs' ! b) = members (classes rs ! b) \<and> contig_len (classes rs' ! b) = contig_len (classes rs ! b) \<and>
      class_p (classes rs' ! b) = class_p (classes rs ! b) \<and>
      (\<forall>c < class_count rs. unat (class_q (classes rs' ! b) ! c) = worst rs (classes rs ! b) (classes rs ! c)))"
proof -
  let ?row = "\<lambda>b. map (\<lambda>c. of_nat (worst rs (classes rs ! b) c) :: u32) (classes rs)"
  have "q_row rs None b = Some (?row b)" if "b < class_count rs" for b
    using that those_map [of "classes rs" "q_value rs (classes rs ! b)" "\<lambda>c. of_nat (worst rs (classes rs ! b) c)"] q_value_eq [OF ok] by (simp add: q_row_def)
  then have qs: "those (map (q_row rs None) [0..<class_count rs]) = Some (map ?row [0..<class_count rs])" by (intro those_map) simp
  define cs where "cs = map2 (\<lambda>c q. c\<lparr>class_q := q\<rparr>) (classes rs) (map ?row [0..<class_count rs])"
  have cs: "length cs = class_count rs" "\<And>b. b < class_count rs \<Longrightarrow> cs ! b = (classes rs ! b)\<lparr>class_q := ?row b\<rparr>" by (simp_all add: cs_def)
  define rs' where "rs' = rs\<lparr>classes := cs, regs := map ((\<lambda>r. if \<forall>c \<in> set cs. contig_len c \<noteq> 0 then r\<lparr>conflicts := []\<rparr> else r) \<circ>
    (\<lambda>r. r\<lparr>conflict_list := map_option (\<lambda>_. []) (conflict_list r)\<rparr>)) (regs rs)\<rparr>"
  have run: "ra_set_finalize rs None = Some rs'" using qs by (simp add: ra_set_finalize_def rs'_def cs_def Let_def)
  have cnt: "reg_count rs' = reg_count rs" "classes rs' = cs" "round_robin rs' = round_robin rs" by (simp_all add: rs'_def)
  have keep: "contig_len (cs ! b) = contig_len (classes rs ! b)" "members (cs ! b) = members (classes rs ! b)" "class_p (cs ! b) = class_p (classes rs ! b)"
    "length (class_q (cs ! b)) = class_count rs" if "b < class_count rs" for b using cs(2) [OF that] by simp_all
  have allc: "(\<forall>c \<in> set cs. P (contig_len c)) \<longleftrightarrow> (\<forall>c \<in> set (classes rs). P (contig_len c))" for P
    unfolding all_set_conv_all_nth using cs keep by simp
  have cok: "class_ok rs' c" if c: "c \<in> set cs" for c
  proof -
    obtain b where b: "b < class_count rs" "c = cs ! b" using c cs(1) by (auto simp: in_set_conv_nth)
    then have "class_ok rs (classes rs ! b)" using ok by (simp add: setup_ok_def)
    then show ?thesis using b cs(2) [OF b(1)] cnt(1) by (simp add: class_ok_def)
  qed
  have same: "regs_ok rs' \<and> (\<forall>r < reg_count rs. conf rs' r = conf rs r)" if no: "\<not> (\<forall>c \<in> set (classes rs). contig_len c \<noteq> 0)"
  proof -
    have "\<not> (\<forall>c \<in> set cs. contig_len c \<noteq> 0)" using no allc [of "\<lambda>l. l \<noteq> 0"] by simp
    then have c: "conflicts (regs rs' ! r) = conflicts (regs rs ! r)" if "r < reg_count rs" for r using that by (simp only: rs'_def) simp
    have "regs_ok rs" using ok no by (auto simp: setup_ok_def)
    then show ?thesis using c cnt(1) unfolding regs_ok_def conf_def by (metis lessThan_iff subsetD)
  qed
  have w: "worst rs' (cs ! b) (cs ! c) = worst rs (classes rs ! b) (classes rs ! c)" if bc: "b < class_count rs" "c < class_count rs" for b c
  proof -
    have "class_ok rs (classes rs ! b)" using ok bc by (simp add: setup_ok_def)
    then have low: "r < reg_count rs" if "r \<in> members (classes rs ! b)" for r using that by (auto simp: class_ok_def)
    have "clash rs' (cs ! b) rb (cs ! c) rc = clash rs (classes rs ! b) rb (classes rs ! c) rc" if rb: "rb \<in> members (classes rs ! b)" for rb rc
    proof (cases "contig_len (classes rs ! b) = 0")
      case True
      then have "\<not> (\<forall>c \<in> set (classes rs). contig_len c \<noteq> 0)" using bc(1) nth_mem by blast
      then show ?thesis using True same low [OF rb] keep [OF bc(1)] by (simp add: clash_def)
    qed (simp add: clash_def keep bc)
    then have "hits rs' (cs ! b) (cs ! c) rc = hits rs (classes rs ! b) (classes rs ! c) rc" for rc using keep bc by (auto simp: hits_def)
    then show ?thesis using keep bc by (simp add: worst_def)
  qed
  have q: "unat (class_q (cs ! b) ! c) = worst rs (classes rs ! b) (classes rs ! c)" if bc: "b < class_count rs" "c < class_count rs" for b c
  proof -
    have "worst rs (classes rs ! b) (classes rs ! c) \<le> reg_count rs" using ok bc by (intro worst_le) (simp add: setup_ok_def)
    then have "worst rs (classes rs ! b) (classes rs ! c) < 2 ^ 32" using ok unfolding setup_ok_def by linarith
    then show ?thesis using cs(2) [OF bc(1)] bc(2) by (simp add: unat_of_nat take_bit_nat_eq_self)
  qed
  have fo: "final_ok rs'" unfolding final_ok_def cnt cs(1)
  proof (intro conjI allI impI ballI)
    show "reg_count rs < 2 ^ 32" using ok by (simp add: setup_ok_def)
    show "length (class_q c) = class_count rs" if "c \<in> set cs" for c using that keep(4) cs(1) by (auto simp: in_set_conv_nth)
    show "(\<forall>c \<in> set cs. contig_len c \<noteq> 0) \<or> (\<forall>c \<in> set cs. contig_len c = 0) \<and> regs_ok rs'"
      using ok same unfolding allc [of "\<lambda>l. l \<noteq> 0"] allc [of "\<lambda>l. l = 0"] by (auto simp: setup_ok_def)
  qed (use cok w q in simp_all)
  show ?thesis using run fo cnt cs(1) keep q by (intro exI [of _ rs']) simp
qed

end
