(* ===== verification/Ra_Graph_Correct.thy ===== *)
theory Ra_Graph_Correct
  imports Ra_Graph Reg_Class_Correct
begin

text \<open>
  The invariant of the interference graph: adjacency lists without repetition that form a symmetric relation, a triangular bit
  matrix that agrees with them, and totals \<open>q\<close> that are the sums over the neighbours.
\<close>

section \<open>The triangular matrix\<close>

abbreviation tri :: "nat \<Rightarrow> nat" where
  "tri \<equiv> ra_get_num_adjacency_bits"

lemma tri_Suc: "tri (Suc k) = tri k + k"
proof -
  have "even (k * (k - 1))" by (cases k) auto
  then show ?thesis by (cases k) (auto simp: ra_get_num_adjacency_bits_def elim!: evenE)
qed

lemma tri_mono: "a \<le> b \<Longrightarrow> tri a \<le> tri b"
  unfolding ra_get_num_adjacency_bits_def by (intro div_le_mono mult_le_mono) auto

lemma tri_bound: "k2 < k1 \<Longrightarrow> k1 < n \<Longrightarrow> tri k1 + k2 < tri n"
  using tri_mono [of "Suc k1" n] by (simp add: tri_Suc)

lemma tri_inj:
  assumes "k2 < k1" "l2 < l1" "tri k1 + k2 = tri l1 + l2"
  shows "k1 = l1 \<and> k2 = l2"
  using assms tri_bound [of k2 k1 l1] tri_bound [of l2 l1 k1] by (cases k1 l1 rule: linorder_cases) auto

text \<open>The largest number of nodes for which an index fits an \<^verbatim>\<open>unsigned\<close>.\<close>

definition max_nodes :: nat where
  "max_nodes = 92682"

lemma tri_fits: "n \<le> max_nodes \<Longrightarrow> tri n < 2 ^ 32"
  using tri_mono [of n max_nodes] by (simp add: max_nodes_def ra_get_num_adjacency_bits_def)

definition pair_index :: "nat \<Rightarrow> nat \<Rightarrow> nat" where
  "pair_index n1 n2 = tri (max n1 n2) + min n1 n2"

lemma pair_index_inj: "n1 \<noteq> n2 \<Longrightarrow> m1 \<noteq> m2 \<Longrightarrow> pair_index n1 n2 = pair_index m1 m2 \<longleftrightarrow> {n1, n2} = {m1, m2}"
  using tri_inj [of "min n1 n2" "max n1 n2" "min m1 m2" "max m1 m2"]
  by (auto simp: pair_index_def doubleton_eq_iff max_def min_def split: if_splits)

lemma pair_index_less: "n1 \<noteq> n2 \<Longrightarrow> n1 < n \<Longrightarrow> n2 < n \<Longrightarrow> pair_index n1 n2 < tri n"
  using tri_bound [of "min n1 n2" "max n1 n2" n] by (auto simp: pair_index_def)

lemma bit_index_eq: "n1 \<noteq> n2 \<Longrightarrow> ra_get_adjacency_bit_index n1 n2 = Some (pair_index n1 n2)"
  by (simp add: ra_get_adjacency_bit_index_def pair_index_def)

section \<open>The invariant\<close>

definition adj :: "ra_graph \<Rightarrow> nat \<Rightarrow> nat set" where
  "adj g n = set (adjacency_list (nodes g ! n))"

definition cls :: "ra_graph \<Rightarrow> nat \<Rightarrow> ra_class" where
  "cls g n = classes (graph_regs g) ! node_class (nodes g ! n)"

definition qw :: "ra_graph \<Rightarrow> nat \<Rightarrow> nat \<Rightarrow> u32" where
  "qw g n m = class_q (cls g n) ! node_class (nodes g ! m)"

definition regs_fit :: "ra_regs \<Rightarrow> bool" where
  "regs_fit rs \<longleftrightarrow> classes rs \<noteq> [] \<and> (\<forall>c \<in> set (classes rs). length (class_q c) = class_count rs)"

definition tmp_ok :: "nat \<Rightarrow> ra_tmp \<Rightarrow> bool" where
  "tmp_ok n t \<longleftrightarrow> length (node_reg t) = n \<and> length (node_q_total t) = n \<and> length (in_stack t) = BITSET_WORDS n \<and>
     length (reg_assigned t) = BITSET_WORDS n \<and> length (pq_test t) = BITSET_WORDS n \<and>
     length (min_q_total t) = BITSET_WORDS n \<and> length (min_q_node t) = BITSET_WORDS n"

text \<open>The sizes of a graph, and what holds of a node.\<close>

definition sizes_ok :: "ra_graph \<Rightarrow> bool" where
  "sizes_ok g \<longleftrightarrow> node_count g \<le> alloc g \<and> length (nodes g) = alloc g \<and> alloc g mod 32 = 0 \<and> alloc g \<le> max_nodes \<and>
     length (adjacency g) = BITSET_WORDS (tri (alloc g)) \<and> tmp_ok (alloc g) (tmp g) \<and> regs_fit (graph_regs g)"

definition edges_ok :: "ra_graph \<Rightarrow> bool" where
  "edges_ok g \<longleftrightarrow> (\<forall>n < alloc g. node_class (nodes g ! n) < class_count (graph_regs g) \<and> distinct (adjacency_list (nodes g ! n)) \<and>
     (\<forall>m \<in> adj g n. m < node_count g \<and> n < node_count g \<and> m \<noteq> n \<and> n \<in> adj g m)) \<and>
   (\<forall>n < alloc g. \<forall>m < alloc g. n \<noteq> m \<longrightarrow> (pair_index n m \<in> ids (adjacency g) \<longleftrightarrow> m \<in> adj g n)) \<and>
   ids (adjacency g) \<subseteq> {..<tri (alloc g)}"

definition q_ok :: "ra_graph \<Rightarrow> nat \<Rightarrow> bool" where
  "q_ok g n \<longleftrightarrow> q_total (nodes g ! n) = (\<Sum>m \<leftarrow> adjacency_list (nodes g ! n). qw g n m)"

definition graph_ok :: "ra_graph \<Rightarrow> bool" where
  "graph_ok g \<longleftrightarrow> sizes_ok g \<and> edges_ok g \<and> (\<forall>n < alloc g. q_ok g n)"

lemma edges_okD:
  assumes "edges_ok g" "n < alloc g"
  shows "node_class (nodes g ! n) < class_count (graph_regs g)" "distinct (adjacency_list (nodes g ! n))"
    "m \<in> adj g n \<Longrightarrow> m < node_count g" "m \<in> adj g n \<Longrightarrow> n < node_count g" "m \<in> adj g n \<Longrightarrow> m \<noteq> n" "m \<in> adj g n \<Longrightarrow> n \<in> adj g m"
  using assms unfolding edges_ok_def by blast+

lemma edges_ok_bit:
  assumes "edges_ok g" "n < alloc g" "m < alloc g" "n \<noteq> m"
  shows "pair_index n m \<in> ids (adjacency g) \<longleftrightarrow> m \<in> adj g n"
  using assms unfolding edges_ok_def by blast

lemma sizes_okD:
  assumes "sizes_ok g"
  shows "node_count g \<le> alloc g" "length (nodes g) = alloc g" "alloc g mod 32 = 0" "alloc g \<le> max_nodes"
    "length (adjacency g) = BITSET_WORDS (tri (alloc g))" "tmp_ok (alloc g) (tmp g)" "regs_fit (graph_regs g)"
  using assms by (simp_all add: sizes_ok_def)

lemma class_of_eq:
  assumes "sizes_ok g" "edges_ok g" "n < alloc g"
  shows "ra_get_node_class g n = Some (cls g n)"
  using assms by (simp add: ra_get_node_class_def cls_def sizes_ok_def edges_ok_def)

lemma cls_in: "edges_ok g \<Longrightarrow> n < alloc g \<Longrightarrow> cls g n \<in> set (classes (graph_regs g))"
  by (simp add: cls_def edges_ok_def)

lemma q_between_eq:
  assumes "sizes_ok g" "edges_ok g" "n < alloc g" "m < alloc g"
  shows "q_between g n m = Some (qw g n m)"
proof -
  have "length (class_q (cls g n)) = class_count (graph_regs g)" using assms(1) cls_in [OF assms(2,3)] by (simp add: sizes_ok_def regs_fit_def)
  then show ?thesis using assms class_of_eq [OF assms(1-3)] by (simp add: q_between_def qw_def sizes_ok_def edges_ok_def)
qed

text \<open>Access to the bits of the matrix.\<close>

lemma pair_word:
  assumes "sizes_ok g" "n < alloc g" "m < alloc g" "n \<noteq> m"
  shows "pair_index n m div 32 < length (adjacency g)" "pair_index n m mod 2 ^ 32 = pair_index n m"
proof -
  have b: "pair_index n m < tri (alloc g)" using assms by (intro pair_index_less) auto
  then show "pair_index n m div 32 < length (adjacency g)" using assms(1) word_index by (simp add: sizes_ok_def)
  have "tri (alloc g) < 2 ^ 32" using assms(1) by (intro tri_fits) (simp add: sizes_ok_def)
  then show "pair_index n m mod 2 ^ 32 = pair_index n m" using b by simp
qed

lemma test_adjacency_eq:
  assumes "sizes_ok g" "edges_ok g" "n < alloc g" "m < alloc g" "n \<noteq> m"
  shows "ra_test_adjacency_bit g n m = Some (m \<in> adj g n)"
  using assms BITSET_TEST_eq [OF pair_word(1) [OF assms(1,3-5)]] bit_index_eq [OF assms(5)]
  by (simp add: ra_test_adjacency_bit_def edges_ok_def)

section \<open>Making and growing a graph\<close>

lemma resize_length [simp]: "length (resize n v xs) = n"
  by (simp add: resize_def)

lemma resize_nth: "i < n \<Longrightarrow> resize n v xs ! i = (if i < length xs then xs ! i else v)"
  by (simp add: resize_def nth_append)

lemma resize_ids: "length x \<le> n \<Longrightarrow> ids (resize n 0 x) = ids x"
  by (simp add: resize_def ids_append_zero)

lemma align32_ge: "n \<le> align32 n" and align32_mod: "align32 n mod 32 = 0" and align32_le: "n \<le> k * 32 \<Longrightarrow> align32 n \<le> k * 32"
  unfolding align32_def by linarith simp_all

lemma words_mono: "a \<le> b \<Longrightarrow> BITSET_WORDS a \<le> BITSET_WORDS b"
  unfolding BITSET_WORDS_def by linarith

lemma grow_tmp_ok: "tmp_ok n t \<Longrightarrow> tmp_ok k (grow_tmp k t)"
  by (simp add: tmp_ok_def grow_tmp_def Let_def)

lemma realloc_spec:
  assumes h: "graph_ok h" "g = h\<lparr>node_count := c\<rparr>" "node_count h \<le> c" and n: "alloc h < n" "n \<le> 92672" "c \<le> n"
  shows "\<exists>g'. ra_realloc_interference_graph g n = Some g' \<and> graph_ok g' \<and> node_count g' = c \<and> graph_regs g' = graph_regs h \<and>
    select_reg_callback g' = select_reg_callback h \<and>
    (\<forall>x < alloc g'. nodes g' ! x = (if x < alloc h then nodes h ! x else fresh_node)) \<and> alloc h < alloc g'"
proof -
  define a where "a = align32 n"
  define g' where "g' = g\<lparr>nodes := resize a fresh_node (nodes g), adjacency := resize (BITSET_WORDS (tri a)) 0 (adjacency g),
             tmp := grow_tmp a (tmp g), alloc := a\<rparr>"
  have a: "n \<le> a" "a mod 32 = 0" "a \<le> 92672" "a \<le> max_nodes"
    using n(2) align32_ge align32_mod align32_le [of n 2896] by (simp_all add: a_def max_nodes_def)
  have so: "sizes_ok h" and eo: "edges_ok h" and qo: "\<And>x. x < alloc h \<Longrightarrow> q_ok h x" using h(1) by (simp_all add: graph_ok_def)
  note old = sizes_okD [OF so]
  have run: "ra_realloc_interference_graph g n = Some g'" using n(1) old(3) a(3) h(2)
    by (simp add: ra_realloc_interference_graph_def g'_def a_def [symmetric] Let_def)
  have reg: "graph_regs g' = graph_regs h" "node_count g' = c" "alloc g' = a" by (simp_all add: g'_def h(2))
  have sizes: "sizes_ok g'" using n a old grow_tmp_ok [OF old(6)] by (simp add: sizes_ok_def g'_def h(2))
  have nd: "nodes g' ! x = (if x < alloc h then nodes h ! x else fresh_node)" if "x < a" for x
    using that old(2) by (simp add: g'_def h(2) resize_nth)
  have up: "tri (alloc h) \<le> tri a" using n(1) a(1) by (intro tri_mono) simp
  then have bits: "ids (adjacency g') = ids (adjacency h)" using resize_ids words_mono [OF up] old(5) by (simp add: g'_def h(2))
  have low: "ids (adjacency h) \<subseteq> {..<tri (alloc h)}" using eo unfolding edges_ok_def by blast
  have cc: "0 < class_count (graph_regs h)" using old(7) by (simp add: regs_fit_def)
  have ad: "adj g' x = (if x < alloc h then adj h x else {})" if "x < a" for x using nd [OF that] by (simp add: adj_def fresh_node_def)
  have wide: "x < a" if "x < alloc h" for x using that n(1) a(1) by simp
  have edges: "edges_ok g'" unfolding edges_ok_def reg bits
  proof (intro conjI allI impI ballI)
    fix x assume x: "x < a"
    show "node_class (nodes g' ! x) < class_count (graph_regs h)" "distinct (adjacency_list (nodes g' ! x))"
      using edges_okD(1,2) [OF eo] nd [OF x] cc by (simp_all add: fresh_node_def)
    fix m assume "m \<in> adj g' x"
    then have x: "x < alloc h" "m \<in> adj h x" using ad [OF x] by (simp_all split: if_splits)
    have "m < alloc h" using edges_okD(3) [OF eo x] old(1) by simp
    then show "m < c" "x < c" "m \<noteq> x" "x \<in> adj g' m" using edges_okD(3-6) [OF eo x] h(3) ad [OF wide] by simp_all
  next
    fix x y assume xy: "x < a" "y < a" "x \<noteq> y"
    show "pair_index x y \<in> ids (adjacency h) \<longleftrightarrow> y \<in> adj g' x"
    proof (cases "x < alloc h \<and> y < alloc h")
      case True
      then show ?thesis using edges_ok_bit [OF eo] xy(3) ad [OF xy(1)] by simp
    next
      case False
      have "y \<notin> adj g' x" using False ad [OF xy(1)] edges_okD(3) [OF eo, of x y] old(1) by (cases "x < alloc h") auto
      moreover have "tri (alloc h) \<le> tri (max x y)" using False by (intro tri_mono) linarith
      ultimately show ?thesis using low unfolding pair_index_def by auto
    qed
  next
    show "ids (adjacency h) \<subseteq> {..<tri a}" using low up by auto
  qed
  have "q_ok g' x" if x: "x < a" for x
  proof (cases "x < alloc h")
    case True
    have "qw g' x m = qw h x m" if m: "m \<in> adj h x" for m
    proof -
      have "m < alloc h" using edges_okD(3) [OF eo True m] old(1) by simp
      then show ?thesis using nd [OF x] nd [of m] True wide by (simp add: qw_def cls_def reg)
    qed
    then show ?thesis using qo [OF True] nd [OF x] True by (simp add: q_ok_def adj_def cong: map_cong)
  next
    case False
    then show ?thesis using nd [OF x] by (simp add: q_ok_def fresh_node_def)
  qed
  then have "graph_ok g'" using sizes edges by (simp add: graph_ok_def reg)
  moreover have "select_reg_callback g' = select_reg_callback h" by (simp add: g'_def h(2))
  ultimately show ?thesis using run nd reg n(1) a(1) by (intro exI [of _ g']) simp
qed

lemma alloc_graph_spec:
  assumes "regs_fit rs" "n \<le> 92672"
  shows "\<exists>g. ra_alloc_interference_graph rs n = Some g \<and> graph_ok g \<and> node_count g = n \<and> graph_regs g = rs \<and> select_reg_callback g = None \<and>
    (\<forall>x < alloc g. nodes g ! x = fresh_node)"
proof -
  define h where "h = \<lparr>graph_regs = rs, nodes = [], adjacency = [], node_count = 0, alloc = 0, select_reg_callback = None,
      tmp = \<lparr>node_reg = [], node_q_total = [], stack = [], in_stack = [], reg_assigned = [], pq_test = [],
        min_q_total = [], min_q_node = [], stack_optimistic_start = 0\<rparr>\<rparr>"
  have ok: "graph_ok h" using assms(1)
    by (simp add: graph_ok_def sizes_ok_def edges_ok_def h_def tmp_ok_def BITSET_WORDS_def ra_get_num_adjacency_bits_def max_nodes_def ids_def)
  have run: "ra_alloc_interference_graph rs n = ra_realloc_interference_graph (h\<lparr>node_count := n\<rparr>) n" by (simp add: ra_alloc_interference_graph_def h_def)
  show ?thesis
  proof (cases "n = 0")
    case True
    then have "ra_alloc_interference_graph rs n = Some h" unfolding run by (simp add: ra_realloc_interference_graph_def h_def)
    then show ?thesis using ok True by (intro exI [of _ h]) (simp add: h_def)
  next
    case False
    then obtain g where g: "ra_realloc_interference_graph (h\<lparr>node_count := n\<rparr>) n = Some g" "graph_ok g" "node_count g = n" "graph_regs g = rs"
      "select_reg_callback g = None" "\<forall>x < alloc g. nodes g ! x = fresh_node"
      using realloc_spec [OF ok refl, of n n] assms(2) by (auto simp: h_def)
    then show ?thesis unfolding run using sizes_okD(1) [of g] by (intro exI [of _ g]) (auto simp: graph_ok_def)
  qed
qed

text \<open>Classes and totals only depend on the classes of the nodes.\<close>

lemma same_classes:
  assumes "map node_class (nodes g') = map node_class (nodes g)" "graph_regs g' = graph_regs g"
  shows "q_between g' = q_between g" "n < length (nodes g) \<Longrightarrow> cls g' n = cls g n"
    "n < length (nodes g) \<Longrightarrow> m < length (nodes g) \<Longrightarrow> qw g' n m = qw g n m"
proof -
  have len: "length (nodes g') = length (nodes g)" using assms(1) by (metis length_map)
  have nc: "node_class (nodes g' ! i) = node_class (nodes g ! i)" if "i < length (nodes g)" for i
    using assms(1) that len by (metis nth_map)
  show c: "cls g' n = cls g n" if "n < length (nodes g)" for n using nc [OF that] assms(2) by (simp add: cls_def)
  show "qw g' n m = qw g n m" if "n < length (nodes g)" "m < length (nodes g)" using nc [OF that(2)] c [OF that(1)] by (simp add: qw_def)
  show "q_between g' = q_between g"
  proof (intro ext)
    fix n m
    show "q_between g' n m = q_between g n m"
      using nc [of n] nc [of m] len assms(2) unfolding q_between_def ra_get_node_class_def array_get_def by (cases "n < length (nodes g)"; cases "m < length (nodes g)") simp_all
  qed
qed

lemma set_node_class_spec:
  assumes ok: "graph_ok g" and n: "n < alloc g" "adj g n = {}" "c < class_count (graph_regs g)"
  shows "\<exists>g'. ra_set_node_class g n c = Some g' \<and> graph_ok g' \<and> node_class (nodes g' ! n) = c \<and> g' = g\<lparr>nodes := nodes g'\<rparr> \<and>
    length (nodes g') = length (nodes g) \<and> forced_reg (nodes g' ! n) = forced_reg (nodes g ! n) \<and>
    (\<forall>x. adj g' x = adj g x) \<and> (\<forall>x. x \<noteq> n \<longrightarrow> nodes g' ! x = nodes g ! x)"
proof -
  have so: "sizes_ok g" and eo: "edges_ok g" and qo: "\<And>x. x < alloc g \<Longrightarrow> q_ok g x" using ok by (simp_all add: graph_ok_def)
  note old = sizes_okD [OF so]
  define g' where "g' = g\<lparr>nodes := (nodes g)[n := (nodes g ! n)\<lparr>node_class := c\<rparr>]\<rparr>"
  have ne: "adjacency_list (nodes g ! n) = []" using n(2) by (simp add: adj_def)
  have nd: "nodes g' ! x = (if x = n then (nodes g ! n)\<lparr>node_class := c\<rparr> else nodes g ! x)" for x
    using n(1) old(2) by (simp add: g'_def nth_list_update)
  then have ad: "adj g' x = adj g x" for x by (simp add: adj_def)
  have sel: "alloc g' = alloc g" "node_count g' = node_count g" "adjacency g' = adjacency g" "graph_regs g' = graph_regs g" by (simp_all add: g'_def)
  have "sizes_ok g'" using so by (simp add: sizes_ok_def g'_def)
  moreover have "edges_ok g'" using eo n(3) nd ad unfolding edges_ok_def sel by (simp add: ne)
  moreover have "q_ok g' x" if x: "x < alloc g" for x
  proof (cases "x = n")
    case True
    then show ?thesis using qo [OF x] nd ne by (simp add: q_ok_def)
  next
    case False
    have "m \<noteq> n" if "m \<in> adj g x" for m using edges_okD(6) [OF eo x that] n(2) by auto
    then have "qw g' x m = qw g x m" if "m \<in> adj g x" for m using that False nd by (auto simp: qw_def cls_def sel)
    then show ?thesis using qo [OF x] nd False by (simp add: q_ok_def adj_def cong: map_cong)
  qed
  moreover have "ra_set_node_class g n c = Some g'" using n(1) old(2) by (simp add: ra_set_node_class_def g'_def)
  ultimately show ?thesis using nd ad by (intro exI [of _ g']) (simp add: graph_ok_def sel, simp add: g'_def)
qed

lemma add_node_spec:
  assumes ok: "graph_ok g" and n: "0 < alloc g" "alloc g \<le> 46336" "c < class_count (graph_regs g)"
    and fresh: "node_count g < alloc g \<Longrightarrow> adj g (node_count g) = {}"
  shows "\<exists>g'. ra_add_node g c = Some (node_count g, g') \<and> graph_ok g' \<and> node_count g' = node_count g + 1 \<and> graph_regs g' = graph_regs g \<and>
    node_class (nodes g' ! node_count g) = c \<and> adj g' (node_count g) = {} \<and> (\<forall>x < node_count g. nodes g' ! x = nodes g ! x) \<and>
    alloc g \<le> alloc g' \<and> select_reg_callback g' = select_reg_callback g \<and>
    (\<forall>x < alloc g'. forced_reg (nodes g' ! x) = (if x < alloc g then forced_reg (nodes g ! x) else NO_REG))"
proof -
  have so: "sizes_ok g" and eo: "edges_ok g" using ok by (simp_all add: graph_ok_def)
  note old = sizes_okD [OF so]
  let ?n = "node_count g"
  have small: "(?n + 1) mod 2 ^ 32 = ?n + 1" "alloc g * 2 mod 2 ^ 32 = alloc g * 2" using old(1) n(2) by simp_all
  have "\<exists>h. ra_resize_interference_graph g (?n + 1) = Some h \<and> graph_ok h \<and> node_count h = ?n + 1 \<and> graph_regs h = graph_regs g \<and>
      adj h ?n = {} \<and> (\<forall>x < ?n. nodes h ! x = nodes g ! x) \<and> alloc g \<le> alloc h \<and> select_reg_callback h = select_reg_callback g \<and>
      (\<forall>x < alloc h. forced_reg (nodes h ! x) = (if x < alloc g then forced_reg (nodes g ! x) else NO_REG))"
  proof (cases "?n < alloc g")
    case True
    let ?h = "g\<lparr>node_count := ?n + 1\<rparr>"
    have "graph_ok ?h" using ok True unfolding graph_ok_def sizes_ok_def edges_ok_def q_ok_def qw_def cls_def adj_def
      by (simp add: less_Suc_eq)
    then show ?thesis using True fresh by (intro exI [of _ ?h]) (simp add: ra_resize_interference_graph_def adj_def)
  next
    case False
    then have e: "?n = alloc g" using old(1) by simp
    obtain h where h: "ra_realloc_interference_graph (g\<lparr>node_count := ?n + 1\<rparr>) (alloc g * 2) = Some h" "graph_ok h" "node_count h = ?n + 1"
      "graph_regs h = graph_regs g" "\<forall>x < alloc h. nodes h ! x = (if x < alloc g then nodes g ! x else fresh_node)" "alloc g < alloc h" "select_reg_callback h = select_reg_callback g"
      using realloc_spec [OF ok refl, of "?n + 1" "alloc g * 2"] n e by auto
    have "adj h ?n = {}" using h(5,6) e by (simp add: adj_def fresh_node_def)
    then show ?thesis using h e small(2) by (intro exI [of _ h]) (simp add: ra_resize_interference_graph_def Let_def fresh_node_def)
  qed
  then obtain h where h: "ra_resize_interference_graph g (?n + 1) = Some h" "graph_ok h" "node_count h = ?n + 1" "graph_regs h = graph_regs g"
    "adj h ?n = {}" "\<forall>x < ?n. nodes h ! x = nodes g ! x" "alloc g \<le> alloc h" "select_reg_callback h = select_reg_callback g"
    "\<forall>x < alloc h. forced_reg (nodes h ! x) = (if x < alloc g then forced_reg (nodes g ! x) else NO_REG)" by blast
  have "?n < alloc h" using h(2,3) sizes_okD(1) [of h] by (simp add: graph_ok_def)
  then obtain g' where g': "ra_set_node_class h ?n c = Some g'" "graph_ok g'" "node_class (nodes g' ! ?n) = c" "g' = h\<lparr>nodes := nodes g'\<rparr>"
    "\<forall>x. adj g' x = adj h x" "\<forall>x. x \<noteq> ?n \<longrightarrow> nodes g' ! x = nodes h ! x" "forced_reg (nodes g' ! ?n) = forced_reg (nodes h ! ?n)"
    using set_node_class_spec [OF h(2) _ h(5), of c] n(3) h(4) by auto
  obtain xs where xs: "g' = h\<lparr>nodes := xs\<rparr>" using g'(4) by blast
  then have sel: "node_count g' = ?n + 1" "graph_regs g' = graph_regs g" "alloc g' = alloc h" "select_reg_callback g' = select_reg_callback g"
    using h(3,4,8) by simp_all
  have "forced_reg (nodes g' ! x) = forced_reg (nodes h ! x)" for x using g'(6,7) by (cases "x = ?n") simp_all
  then show ?thesis using g'(1-3,5,6) h(1,5-7,9) sel small(1) by (intro exI [of _ g']) (simp add: ra_add_node_def Let_def)
qed

text \<open>A graph made for no nodes never grows: its first node is written outside the array.\<close>

lemma add_node_empty: "ra_alloc_interference_graph rs 0 = Some g \<Longrightarrow> ra_add_node g c = None"
  by (auto simp: ra_alloc_interference_graph_def ra_realloc_interference_graph_def ra_add_node_def ra_resize_interference_graph_def
      ra_set_node_class_def array_get_def)

end
