(* ===== verification/Ra_Edge_Correct.thy ===== *)
theory Ra_Edge_Correct
  imports Ra_Graph_Correct "HOL-Library.Multiset"
begin

text \<open>Adding and removing interferences keeps the graph invariant, apart from one total that \<^verbatim>\<open>ra_reset_node_interference\<close> forgets.\<close>

section \<open>Adding an interference\<close>

lemma add_adjacency_eq:
  assumes "n1 < length (nodes g)" "n1 \<noteq> n2" "q_between g n1 n2 = Some q"
  shows "ra_add_node_adjacency g n1 n2 = Some (g\<lparr>nodes := (nodes g)[n1 := (nodes g ! n1)\<lparr>q_total := q_total (nodes g ! n1) + q,
    adjacency_list := adjacency_list (nodes g ! n1) @ [n2]\<rparr>]\<rparr>)"
  using assms by (simp add: ra_add_node_adjacency_def)

lemma set_adjacency_eq:
  assumes "sizes_ok g" "n < alloc g" "m < alloc g" "n \<noteq> m"
  shows "\<exists>a. ra_set_adjacency_bit g n m = Some (g\<lparr>adjacency := a\<rparr>) \<and> length a = length (adjacency g) \<and> ids a = insert (pair_index n m) (ids (adjacency g))"
  using BITSET_SET_eq [OF pair_word(1) [OF assms]] pair_word(2) [OF assms] bit_index_eq [OF assms(4)] by (auto simp: ra_set_adjacency_bit_def)

lemma clear_adjacency_eq:
  assumes "sizes_ok g" "n < alloc g" "m < alloc g" "n \<noteq> m"
  shows "\<exists>a. ra_clear_adjacency_bit g n m = Some (g\<lparr>adjacency := a\<rparr>) \<and> length a = length (adjacency g) \<and> ids a = ids (adjacency g) - {pair_index n m}"
  using BITSET_CLEAR_eq [OF pair_word(1) [OF assms]] pair_word(2) [OF assms] bit_index_eq [OF assms(4)] by (auto simp: ra_clear_adjacency_bit_def)

lemma add_interference_spec:
  assumes ok: "graph_ok g" and n: "n1 < node_count g" "n2 < node_count g"
  shows "\<exists>g'. ra_add_node_interference g n1 n2 = Some g' \<and> graph_ok g' \<and> node_count g' = node_count g \<and> alloc g' = alloc g \<and>
    graph_regs g' = graph_regs g \<and> select_reg_callback g' = select_reg_callback g \<and>
    (\<forall>x < alloc g. node_class (nodes g' ! x) = node_class (nodes g ! x) \<and> forced_reg (nodes g' ! x) = forced_reg (nodes g ! x) \<and>
      adj g' x = adj g x \<union> {y. x \<noteq> y \<and> {x, y} = {n1, n2}})"
proof -
  have so: "sizes_ok g" and eo: "edges_ok g" and qo: "\<And>x. x < alloc g \<Longrightarrow> q_ok g x" using ok by (simp_all add: graph_ok_def)
  note old = sizes_okD [OF so]
  have na: "n1 < alloc g" "n2 < alloc g" using n old(1) by simp_all
  consider (same) "n1 = n2" | (there) "n1 \<noteq> n2" "n2 \<in> adj g n1" | (new) "n1 \<noteq> n2" "n2 \<notin> adj g n1" by blast
  then show ?thesis
  proof cases
    case same
    then show ?thesis using ok n by (intro exI [of _ g]) (auto simp: ra_add_node_interference_def doubleton_eq_iff)
  next
    case there
    have "n1 \<in> adj g n2" using edges_okD(6) [OF eo na(1) there(2)] .
    then have "adj g x \<union> {y. x \<noteq> y \<and> {x, y} = {n1, n2}} = adj g x" for x using there by (auto simp: doubleton_eq_iff)
    then show ?thesis using there ok n test_adjacency_eq [OF so eo na there(1)] by (intro exI [of _ g]) (simp add: ra_add_node_interference_def)
  next
    case new
    obtain a where a: "ra_set_adjacency_bit g n1 n2 = Some (g\<lparr>adjacency := a\<rparr>)" "length a = length (adjacency g)" "ids a = insert (pair_index n1 n2) (ids (adjacency g))"
      using set_adjacency_eq [OF so na new(1)] by blast
    define g1 where "g1 = g\<lparr>adjacency := a\<rparr>"
    define d1 where "d1 = (nodes g ! n1)\<lparr>q_total := q_total (nodes g ! n1) + qw g n1 n2, adjacency_list := adjacency_list (nodes g ! n1) @ [n2]\<rparr>"
    define d2 where "d2 = (nodes g ! n2)\<lparr>q_total := q_total (nodes g ! n2) + qw g n2 n1, adjacency_list := adjacency_list (nodes g ! n2) @ [n1]\<rparr>"
    define g2 where "g2 = g1\<lparr>nodes := (nodes g)[n1 := d1]\<rparr>"
    define g' where "g' = g2\<lparr>nodes := (nodes g)[n1 := d1, n2 := d2]\<rparr>"
    have c1: "map node_class (nodes g1) = map node_class (nodes g)" "graph_regs g1 = graph_regs g" by (simp_all add: g1_def)
    have c2: "map node_class (nodes g2) = map node_class (nodes g)" "graph_regs g2 = graph_regs g"
      using na(1) old(2) by (simp_all add: g2_def g1_def d1_def map_update) (metis list_update_id nth_map length_map)
    have c': "map node_class (nodes g') = map node_class (nodes g)" "graph_regs g' = graph_regs g"
      using na old(2) by (simp_all add: g'_def g2_def g1_def d1_def d2_def map_update) (metis list_update_id nth_map length_map)
    have q1: "q_between g1 n1 n2 = Some (qw g n1 n2)" unfolding same_classes(1) [OF c1] by (rule q_between_eq [OF so eo na])
    have q2: "q_between g2 n2 n1 = Some (qw g n2 n1)" unfolding same_classes(1) [OF c2] by (rule q_between_eq [OF so eo na(2,1)])
    have s1: "ra_add_node_adjacency g1 n1 n2 = Some g2"
      using add_adjacency_eq [OF _ new(1) q1] na(1) old(2) by (simp add: g1_def g2_def d1_def)
    have s2: "ra_add_node_adjacency g2 n2 n1 = Some g'"
      using add_adjacency_eq [OF _ new(1) [symmetric] q2] na(2) old(2) new(1) by (simp add: g2_def g'_def d2_def)
    have run: "ra_add_node_interference g n1 n2 = Some g'"
      using n new test_adjacency_eq [OF so eo na new(1)] a(1) s1 s2 by (simp add: ra_add_node_interference_def g1_def [symmetric])
    have nd: "nodes g' ! x = (if x = n1 then d1 else if x = n2 then d2 else nodes g ! x)" for x
      using na old(2) new(1) by (simp add: g'_def nth_list_update)
    have ad: "adj g' x = adj g x \<union> {y. x \<noteq> y \<and> {x, y} = {n1, n2}}" for x
      using new(1) unfolding adj_def nd by (auto simp: d1_def d2_def doubleton_eq_iff)
    have sel: "alloc g' = alloc g" "node_count g' = node_count g" "adjacency g' = a" "select_reg_callback g' = select_reg_callback g"
      by (simp_all add: g'_def g2_def g1_def)
    have nc: "node_class (nodes g' ! x) = node_class (nodes g ! x)" "forced_reg (nodes g' ! x) = forced_reg (nodes g ! x)" for x
      unfolding nd by (simp_all add: d1_def d2_def)
    have sy: "n1 \<notin> adj g n2" using edges_okD(6) [OF eo na(2), of n1] new(2) by blast
    have so': "sizes_ok g'" using so a(2) by (simp add: sizes_ok_def g'_def g2_def g1_def)
    have eo': "edges_ok g'" unfolding edges_ok_def sel c'(2) nc
    proof (intro conjI allI impI ballI)
      fix x assume x: "x < alloc g"
      show "node_class (nodes g ! x) < class_count (graph_regs g)" by (rule edges_okD(1) [OF eo x])
      show "distinct (adjacency_list (nodes g' ! x))" using edges_okD(2) [OF eo x] new(2) sy unfolding nd by (auto simp: d1_def d2_def adj_def)
      fix m assume "m \<in> adj g' x"
      then consider (o) "m \<in> adj g x" | (p) "x \<noteq> m" "{x, m} = {n1, n2}" unfolding ad by blast
      then show "m < node_count g" "x < node_count g" "m \<noteq> x" "x \<in> adj g' m"
        using edges_okD(3-6) [OF eo x, of m] n by (cases; auto simp: ad doubleton_eq_iff)+
    next
      fix x y assume xy: "x < alloc g" "y < alloc g" "x \<noteq> y"
      have "pair_index x y \<in> ids a \<longleftrightarrow> {x, y} = {n1, n2} \<or> y \<in> adj g x"
        using a(3) edges_ok_bit [OF eo xy] pair_index_inj [OF xy(3) new(1)] by simp
      then show "pair_index x y \<in> ids a \<longleftrightarrow> y \<in> adj g' x" using xy(3) unfolding ad by blast
    next
      show "ids a \<subseteq> {..<tri (alloc g)}" using a(3) eo pair_index_less [OF new(1) na] unfolding edges_ok_def by simp
    qed
    have "q_ok g' x" if x: "x < alloc g" for x
    proof -
      have w: "qw g' x m = qw g x m" if "m < alloc g" for m using same_classes(3) [OF c'] x that old(2) by simp
      have lt: "m < alloc g" if "m \<in> set (adjacency_list (nodes g ! x))" for m using edges_okD(3) [OF eo x] that old(1) by (fastforce simp: adj_def)
      have "(\<Sum>m \<leftarrow> adjacency_list (nodes g ! x). qw g' x m) = q_total (nodes g ! x)" using qo [OF x] w lt by (simp add: q_ok_def cong: map_cong)
      then show ?thesis using w na new(1) unfolding q_ok_def nd by (auto simp: d1_def d2_def)
    qed
    then have "graph_ok g'" using so' eo' by (simp add: graph_ok_def sel)
    then show ?thesis using run sel nc ad c'(2) by (intro exI [of _ g']) simp
  qed
qed

section \<open>Removing the interferences of a node\<close>

lemma delete_unordered_mset: "mset (util_dynarray_delete_unordered xs v) = mset (remove1 v xs)"
proof (induction xs v rule: util_dynarray_delete_unordered.induct)
  case (2 x xs v)
  have "mset (last xs # butlast xs) = mset xs" if "xs \<noteq> []" using arg_cong [OF append_butlast_last_id [OF that], of mset] by simp
  then show ?case using 2 by simp
qed simp

lemma delete_unordered_facts:
  assumes "distinct xs"
  shows "distinct (util_dynarray_delete_unordered xs v)" "set (util_dynarray_delete_unordered xs v) = set xs - {v}"
    "(\<Sum>m \<leftarrow> util_dynarray_delete_unordered xs v. f m) = (\<Sum>m \<leftarrow> remove1 v xs. f m :: 'a :: comm_monoid_add)"
proof -
  note e = delete_unordered_mset [of xs v]
  show "distinct (util_dynarray_delete_unordered xs v)" using mset_eq_imp_distinct_iff [OF e] assms by simp
  show "set (util_dynarray_delete_unordered xs v) = set xs - {v}" using mset_eq_setD [OF e] assms by simp
  show "(\<Sum>m \<leftarrow> util_dynarray_delete_unordered xs v. f m) = (\<Sum>m \<leftarrow> remove1 v xs. f m)"
    by (metis e mset_map sum_mset_sum_list)
qed

definition classes_in :: "ra_graph \<Rightarrow> bool" where
  "classes_in g \<longleftrightarrow> (\<forall>x < alloc g. node_class (nodes g ! x) < class_count (graph_regs g))"

lemma q_between_in:
  assumes "sizes_ok g" "classes_in g" "n < alloc g" "m < alloc g"
  shows "q_between g n m = Some (qw g n m)"
  using assms by (auto simp: q_between_def ra_get_node_class_def qw_def cls_def sizes_ok_def classes_in_def regs_fit_def)

definition unlinked :: "ra_graph \<Rightarrow> nat \<Rightarrow> nat \<Rightarrow> ra_node" where
  "unlinked g n x = (nodes g ! x)\<lparr>q_total := q_total (nodes g ! x) - qw g x n,
     adjacency_list := util_dynarray_delete_unordered (adjacency_list (nodes g ! x)) n\<rparr>"

lemma remove_adjacency_eq:
  assumes "sizes_ok g" "classes_in g" "n < alloc g" "x < alloc g" "x \<noteq> n"
  shows "\<exists>a. ra_node_remove_adjacency g x n = Some (g\<lparr>adjacency := a, nodes := (nodes g)[x := unlinked g n x]\<rparr>) \<and>
    length a = length (adjacency g) \<and> ids a = ids (adjacency g) - {pair_index x n}"
proof -
  obtain a where a: "ra_clear_adjacency_bit g x n = Some (g\<lparr>adjacency := a\<rparr>)" "length a = length (adjacency g)" "ids a = ids (adjacency g) - {pair_index x n}"
    using clear_adjacency_eq [OF assms(1,4,3,5)] by blast
  have "q_between (g\<lparr>adjacency := a\<rparr>) x n = Some (qw g x n)"
    using same_classes(1) [of "g\<lparr>adjacency := a\<rparr>" g] q_between_in [OF assms(1,2,4,3)] by simp
  then show ?thesis using a assms(4,5) sizes_okD(2) [OF assms(1)] by (intro exI [of _ a]) (simp add: ra_node_remove_adjacency_def unlinked_def)
qed

lemma remove_adjacencies_spec:
  assumes "sizes_ok g" "classes_in g" "n < alloc g" "\<forall>x \<in> set ns. x < alloc g \<and> x \<noteq> n" "distinct ns"
  shows "\<exists>a xs. remove_adjacencies g n ns = Some (g\<lparr>adjacency := a, nodes := xs\<rparr>) \<and> length a = length (adjacency g) \<and>
    ids a = ids (adjacency g) - pair_index n ` set ns \<and> length xs = length (nodes g) \<and>
    (\<forall>x. xs ! x = (if x \<in> set ns then unlinked g n x else nodes g ! x))"
  using assms
proof (induction ns arbitrary: g)
  case Nil
  then show ?case by (intro exI [of _ "adjacency g"] exI [of _ "nodes g"]) simp
next
  case (Cons x ns)
  have x: "x < alloc g" "x \<noteq> n" using Cons.prems(4) by simp_all
  obtain a where a: "ra_node_remove_adjacency g x n = Some (g\<lparr>adjacency := a, nodes := (nodes g)[x := unlinked g n x]\<rparr>)"
    "length a = length (adjacency g)" "ids a = ids (adjacency g) - {pair_index x n}"
    using remove_adjacency_eq [OF Cons.prems(1-3) x] by blast
  let ?h = "g\<lparr>adjacency := a, nodes := (nodes g)[x := unlinked g n x]\<rparr>"
  have len: "length (nodes g) = alloc g" using Cons.prems(1) by (simp add: sizes_ok_def)
  have nd: "nodes ?h ! y = (if y = x then unlinked g n x else nodes g ! y)" for y using x(1) len by (simp add: nth_list_update)
  have nc: "node_class (nodes ?h ! y) = node_class (nodes g ! y)" for y unfolding nd by (simp add: unlinked_def)
  have h: "sizes_ok ?h" "classes_in ?h" using Cons.prems(1,2) a(2) nc by (simp_all add: sizes_ok_def classes_in_def)
  obtain b xs where b: "remove_adjacencies ?h n ns = Some (?h\<lparr>adjacency := b, nodes := xs\<rparr>)" "length b = length a" "ids b = ids a - pair_index n ` set ns"
    "length xs = length (nodes g)" "\<forall>y. xs ! y = (if y \<in> set ns then unlinked ?h n y else nodes ?h ! y)"
    using Cons.IH [OF h] Cons.prems(3-5) by auto
  have sym: "pair_index x n = pair_index n x" by (simp add: pair_index_def max.commute min.commute)
  have "unlinked ?h n y = unlinked g n y" if "y \<in> set ns" for y
  proof -
    have "y \<noteq> x" using that Cons.prems(5) by auto
    moreover have "qw ?h y n = qw g y n" unfolding qw_def cls_def nc by simp
    ultimately show ?thesis unfolding unlinked_def nd by simp
  qed
  then have "xs ! y = (if y \<in> set (x # ns) then unlinked g n y else nodes g ! y)" for y using b(5) nd by auto
  then show ?case using a b(1-4) by (intro exI [of _ b] exI [of _ xs]) (auto simp: sym)
qed

text \<open>
  Afterwards the node has no neighbours and the other nodes have lost it; their totals are right. The total of the node itself is
  what it was.
\<close>

lemma reset_interference_spec:
  assumes ok: "graph_ok g" and n: "n < node_count g"
  shows "\<exists>g'. ra_reset_node_interference g n = Some g' \<and> sizes_ok g' \<and> edges_ok g' \<and> node_count g' = node_count g \<and> alloc g' = alloc g \<and>
    graph_regs g' = graph_regs g \<and> adj g' n = {} \<and> q_total (nodes g' ! n) = q_total (nodes g ! n) \<and>
    (\<forall>x < alloc g. x \<noteq> n \<longrightarrow> q_ok g' x \<and> adj g' x = adj g x - {n}) \<and>
    (\<forall>x. node_class (nodes g' ! x) = node_class (nodes g ! x) \<and> forced_reg (nodes g' ! x) = forced_reg (nodes g ! x))"
proof -
  have so: "sizes_ok g" and eo: "edges_ok g" and qo: "\<And>x. x < alloc g \<Longrightarrow> q_ok g x" using ok by (simp_all add: graph_ok_def)
  note old = sizes_okD [OF so]
  have na: "n < alloc g" using n old(1) by simp
  let ?ns = "adjacency_list (nodes g ! n)"
  have ci: "classes_in g" using edges_okD(1) [OF eo] by (simp add: classes_in_def)
  have "\<forall>x \<in> set ?ns. x < alloc g \<and> x \<noteq> n" using edges_okD(3,5) [OF eo na] old(1) unfolding adj_def by (meson order.strict_trans2)
  then obtain a xs where r: "remove_adjacencies g n ?ns = Some (g\<lparr>adjacency := a, nodes := xs\<rparr>)" "length a = length (adjacency g)"
    "ids a = ids (adjacency g) - pair_index n ` adj g n" "length xs = length (nodes g)" "\<forall>x. xs ! x = (if x \<in> adj g n then unlinked g n x else nodes g ! x)"
    using remove_adjacencies_spec [OF so ci na _ edges_okD(2) [OF eo na]] unfolding adj_def by blast
  define g' where "g' = g\<lparr>adjacency := a, nodes := xs[n := (nodes g ! n)\<lparr>adjacency_list := []\<rparr>]\<rparr>"
  have nn: "n \<notin> adj g n" using edges_okD(5) [OF eo na] by blast
  have nd: "nodes g' ! x = (if x = n then (nodes g ! n)\<lparr>adjacency_list := []\<rparr> else if x \<in> adj g n then unlinked g n x else nodes g ! x)" for x
    using na old(2) r(4,5) by (simp add: g'_def nth_list_update)
  have run: "ra_reset_node_interference g n = Some g'" using na old(2) r(1,4,5) nn by (simp add: ra_reset_node_interference_def g'_def)
  have sel: "alloc g' = alloc g" "node_count g' = node_count g" "adjacency g' = a" "graph_regs g' = graph_regs g" by (simp_all add: g'_def)
  have nc: "node_class (nodes g' ! x) = node_class (nodes g ! x)" "forced_reg (nodes g' ! x) = forced_reg (nodes g ! x)" for x
    unfolding nd by (simp_all add: unlinked_def)
  have sym: "n \<in> adj g x \<longleftrightarrow> x \<in> adj g n" if "x < alloc g" for x using edges_okD(6) [OF eo that] edges_okD(6) [OF eo na] by blast
  have ad: "adj g' x = (if x = n then {} else adj g x - {n})" if x: "x < alloc g" for x
    using delete_unordered_facts(2) [OF edges_okD(2) [OF eo x], of n] sym [OF x] unfolding adj_def nd by (auto simp: unlinked_def adj_def)
  have "sizes_ok g'" using so r(2,4) by (simp add: sizes_ok_def g'_def)
  moreover have "edges_ok g'" unfolding edges_ok_def sel nc
  proof (intro conjI allI impI ballI)
    fix x assume x: "x < alloc g"
    show "node_class (nodes g ! x) < class_count (graph_regs g)" by (rule edges_okD(1) [OF eo x])
    show "distinct (adjacency_list (nodes g' ! x))"
      using edges_okD(2) [OF eo x] delete_unordered_facts(1) unfolding nd by (simp add: unlinked_def)
    fix m assume "m \<in> adj g' x"
    then have m: "m \<in> adj g x" "m \<noteq> n" "x \<noteq> n" using ad [OF x] by (auto split: if_splits)
    have "m < alloc g" using edges_okD(3) [OF eo x m(1)] old(1) by simp
    then show "m < node_count g" "x < node_count g" "m \<noteq> x" "x \<in> adj g' m" using edges_okD(3-6) [OF eo x m(1)] m ad by simp_all
  next
    fix x y assume xy: "x < alloc g" "y < alloc g" "x \<noteq> y"
    have "pair_index x y \<in> pair_index n ` adj g n \<longleftrightarrow> (\<exists>m \<in> adj g n. pair_index x y = pair_index n m)" by blast
    also have "\<dots> \<longleftrightarrow> (\<exists>m \<in> adj g n. {x, y} = {n, m})" by (intro bex_cong refl pair_index_inj xy(3)) (use nn in blast)
    also have "\<dots> \<longleftrightarrow> x = n \<and> y \<in> adj g n \<or> y = n \<and> x \<in> adj g n" by (auto simp: doubleton_eq_iff)
    finally have "pair_index x y \<in> ids a \<longleftrightarrow> y \<in> adj g x \<and> \<not> (x = n \<and> y \<in> adj g n \<or> y = n \<and> x \<in> adj g n)"
      using edges_ok_bit [OF eo xy] unfolding r(3) by blast
    then show "pair_index x y \<in> ids a \<longleftrightarrow> y \<in> adj g' x" unfolding ad [OF xy(1)] using sym [OF xy(1)] by (cases "x = n"; cases "y = n") simp_all
  next
    show "ids a \<subseteq> {..<tri (alloc g)}" using eo r(3) unfolding edges_ok_def by blast
  qed
  moreover have "q_ok g' x" if x: "x < alloc g" "x \<noteq> n" for x
  proof -
    have w: "qw g' x = qw g x" unfolding qw_def cls_def nc sel by simp
    note f = delete_unordered_facts(3) [OF edges_okD(2) [OF eo x(1)], of "qw g x" n]
    show ?thesis
    proof (cases "n \<in> adj g x")
      case True
      have "(\<Sum>m \<leftarrow> adjacency_list (nodes g ! x). qw g x m) = qw g x n + (\<Sum>m \<leftarrow> remove1 n (adjacency_list (nodes g ! x)). qw g x m)"
        using True unfolding adj_def by (rule sum_list_map_remove1)
      then show ?thesis using True x sym [OF x(1)] qo [OF x(1)] f unfolding q_ok_def nd w by (simp add: unlinked_def)
    next
      case False
      then show ?thesis using x sym [OF x(1)] qo [OF x(1)] unfolding q_ok_def nd w by simp
    qed
  qed
  ultimately show ?thesis using run sel nc ad na nd [of n] by (intro exI [of _ g']) simp
qed

end
