(* ===== verification/Ra_Push_Correct.thy ===== *)
theory Ra_Push_Correct
  imports Ra_Allocate Ra_Edge_Correct
begin

text \<open>
  Pushing a node. The abstract state of the simplification is the stack alone: \<open>load g S n\<close> is what the neighbours of \<open>n\<close> that are
  not on the stack can cost it. The scratch data represents this state: totals, marks of the test and, per word, the open node
  with the lowest total.
\<close>

section \<open>The abstract simplification\<close>

definition open_node :: "ra_graph \<Rightarrow> nat list \<Rightarrow> nat \<Rightarrow> bool" where
  "open_node g S n \<longleftrightarrow> n < node_count g \<and> n \<notin> set S \<and> forced_reg (nodes g ! n) = NO_REG"

definition load :: "ra_graph \<Rightarrow> nat list \<Rightarrow> nat \<Rightarrow> nat" where
  "load g S n = (\<Sum>m \<in> adj g n - set S. unat (qw g n m))"

definition class_limit :: "ra_graph \<Rightarrow> nat \<Rightarrow> nat" where
  "class_limit g n = unat (class_p (cls g n))"

text \<open>
  A node that passes the test may be pushed; when none does, the node with the lowest load is pushed nevertheless, of several the
  one with the highest number. The last argument is the height of the stack when that first happened.
\<close>

inductive simplified :: "ra_graph \<Rightarrow> nat list \<Rightarrow> nat option \<Rightarrow> bool" for g where
  start: "simplified g [] None"
| push: "simplified g S k \<Longrightarrow> open_node g S n \<Longrightarrow> load g S n < class_limit g n \<Longrightarrow> simplified g (n # S) k"
| optimistic: "simplified g S k \<Longrightarrow> open_node g S n \<Longrightarrow> (\<And>m. open_node g S m \<Longrightarrow> class_limit g m \<le> load g S m) \<Longrightarrow>
    (\<And>m. open_node g S m \<Longrightarrow> load g S n < load g S m \<or> load g S n = load g S m \<and> m \<le> n) \<Longrightarrow>
    simplified g (n # S) (Some (case k of None \<Rightarrow> length S | Some h \<Rightarrow> h))"

lemma simplified_stack: "simplified g S k \<Longrightarrow> distinct S \<and> (\<forall>n \<in> set S. n < node_count g \<and> forced_reg (nodes g ! n) = NO_REG)"
  by (induction rule: simplified.induct) (auto simp: open_node_def)

lemma simplified_height: "simplified g S (Some h) \<Longrightarrow> h < length S"
  by (induction S "Some h" arbitrary: h rule: simplified.induct) (auto split: option.splits simp: less_SucI)

lemma stack_short: "distinct S \<Longrightarrow> \<forall>x \<in> set S. x < k \<Longrightarrow> length S \<le> k"
  using card_mono [of "{..<k}" "set S"] by (auto simp: distinct_card)

lemma load_cons:
  assumes "n \<in> adj g x" "n \<notin> set S"
  shows "load g S x = load g (n # S) x + unat (qw g x n)"
proof -
  have e: "adj g x - set S = insert n (adj g x - set (n # S))" using assms by auto
  have "finite (adj g x - set (n # S))" "n \<notin> adj g x - set (n # S)" by (simp_all add: adj_def)
  then show ?thesis unfolding load_def e by simp
qed

lemma load_cons_other: "n \<notin> adj g x \<Longrightarrow> load g (n # S) x = load g S x"
  unfolding load_def by (intro sum.cong) auto

lemma load_mono: "set S \<subseteq> set T \<Longrightarrow> load g T n \<le> load g S n"
  unfolding load_def by (intro sum_mono2) (auto simp: adj_def)

section \<open>What the scratch data represents\<close>

definition block_min :: "ra_graph \<Rightarrow> ra_tmp \<Rightarrow> (nat \<Rightarrow> nat) \<Rightarrow> nat \<Rightarrow> bool" where
  "block_min g t L i \<longleftrightarrow> (let k = min_q_node t ! i; m = unat (min_q_total t ! i)
     in k div 32 = i \<and> open_node g (stack t) k \<and> (k \<in> ids (pq_test t) \<or> L k = m) \<and>
        (\<forall>x. open_node g (stack t) x \<and> x div 32 = i \<and> x \<notin> ids (pq_test t) \<longrightarrow> m < L x \<or> m = L x \<and> x \<le> k))"

definition stack_ok :: "ra_graph \<Rightarrow> ra_tmp \<Rightarrow> bool" where
  "stack_ok g t \<longleftrightarrow> tmp_ok (alloc g) t \<and> distinct (stack t) \<and> (\<forall>n \<in> set (stack t). n < node_count g \<and> forced_reg (nodes g ! n) = NO_REG) \<and>
     (\<forall>x. x div 32 < BITSET_WORDS (node_count g) \<longrightarrow> (x \<in> ids (in_stack t) \<longleftrightarrow> x \<in> set (stack t)) \<and>
        (x \<in> ids (reg_assigned t) \<longleftrightarrow> x < node_count g \<and> forced_reg (nodes g ! x) \<noteq> NO_REG) \<and> (x \<in> ids (pq_test t) \<longrightarrow> x < node_count g))"

definition q_inv :: "ra_graph \<Rightarrow> ra_tmp \<Rightarrow> (nat \<Rightarrow> nat) \<Rightarrow> bool" where
  "q_inv g t L \<longleftrightarrow> stack_ok g t \<and>
     (\<forall>x. open_node g (stack t) x \<longrightarrow> unat (node_q_total t ! x) = L x \<and> (x \<in> ids (pq_test t) \<longleftrightarrow> L x < class_limit g x)) \<and>
     (\<forall>i < BITSET_WORDS (node_count g). min_q_total t ! i \<noteq> - 1 \<longrightarrow> block_min g t L i)"

lemma stack_okD:
  assumes "stack_ok g t"
  shows "tmp_ok (alloc g) t" "distinct (stack t)" "n \<in> set (stack t) \<Longrightarrow> n < node_count g" "n \<in> set (stack t) \<Longrightarrow> forced_reg (nodes g ! n) = NO_REG"
    "x div 32 < BITSET_WORDS (node_count g) \<Longrightarrow> x \<in> ids (in_stack t) \<longleftrightarrow> x \<in> set (stack t)"
    "x div 32 < BITSET_WORDS (node_count g) \<Longrightarrow> x \<in> ids (reg_assigned t) \<longleftrightarrow> x < node_count g \<and> forced_reg (nodes g ! x) \<noteq> NO_REG"
    "x div 32 < BITSET_WORDS (node_count g) \<Longrightarrow> x \<in> ids (pq_test t) \<Longrightarrow> x < node_count g"
  using assms unfolding stack_ok_def by blast+

lemma q_invD:
  assumes "q_inv g t L"
  shows "stack_ok g t" "open_node g (stack t) x \<Longrightarrow> unat (node_q_total t ! x) = L x" "open_node g (stack t) x \<Longrightarrow> x \<in> ids (pq_test t) \<longleftrightarrow> L x < class_limit g x"
    "i < BITSET_WORDS (node_count g) \<Longrightarrow> min_q_total t ! i \<noteq> - 1 \<Longrightarrow> block_min g t L i"
  using assms unfolding q_inv_def by blast+

text \<open>Access to the scratch arrays at a node of the graph.\<close>

lemma tmp_at:
  assumes "sizes_ok g" "tmp_ok (alloc g) t" "x < node_count g"
  shows "x < length (node_reg t)" "x < length (node_q_total t)" "x div 32 < length (in_stack t)" "x div 32 < length (reg_assigned t)"
    "x div 32 < length (pq_test t)" "x div 32 < length (min_q_total t)" "x div 32 < length (min_q_node t)" "x < length (nodes g)" "x < alloc g"
    "x div 32 < BITSET_WORDS (node_count g)"
proof -
  have "x < alloc g" using assms(1,3) by (simp add: sizes_ok_def)
  then show "x < length (node_reg t)" "x < length (node_q_total t)" "x div 32 < length (in_stack t)" "x div 32 < length (reg_assigned t)"
    "x div 32 < length (pq_test t)" "x div 32 < length (min_q_total t)" "x div 32 < length (min_q_node t)" "x < length (nodes g)" "x < alloc g"
    "x div 32 < BITSET_WORDS (node_count g)"
    using assms word_index [of x] by (simp_all add: tmp_ok_def sizes_ok_def)
qed

lemma word_at:
  assumes "sizes_ok g" "tmp_ok (alloc g) t" "i < BITSET_WORDS (node_count g)"
  shows "i < length (in_stack t)" "i < length (reg_assigned t)" "i < length (pq_test t)" "i < length (min_q_total t)" "i < length (min_q_node t)"
proof -
  have "BITSET_WORDS (node_count g) \<le> BITSET_WORDS (alloc g)" using assms(1) by (intro words_mono) (simp add: sizes_ok_def)
  then show "i < length (in_stack t)" "i < length (reg_assigned t)" "i < length (pq_test t)" "i < length (min_q_total t)" "i < length (min_q_node t)"
    using assms(2,3) by (simp_all add: tmp_ok_def)
qed

section \<open>The test\<close>

text \<open>The total of an open node has gone down to \<open>l\<close>.\<close>

lemma update_pq_spec:
  assumes g: "sizes_ok g" "edges_ok g" and inv: "q_inv g t L" and x: "open_node g (stack t) x" "l \<le> L x"
  shows "\<exists>t'. update_pq_info g (t\<lparr>node_q_total := (node_q_total t)[x := of_nat l]\<rparr>) x = Some t' \<and> q_inv g t' (L(x := l)) \<and>
    stack t' = stack t \<and> node_reg t' = node_reg t"
proof -
  let ?t = "t\<lparr>node_q_total := (node_q_total t)[x := of_nat l]\<rparr>" and ?i = "x div 32" and ?L = "L(x := l)"
  have so: "stack_ok g t" by (rule q_invD(1) [OF inv])
  have xc: "x < node_count g" using x(1) by (simp add: open_node_def)
  note at = tmp_at [OF g(1) stack_okD(1) [OF so] xc]
  have L: "unat (node_q_total t ! x) = L x" by (rule q_invD(2) [OF inv x(1)])
  have l: "unat (of_nat l :: u32) = l" using x(2) L unat_u32_less [of "node_q_total t ! x"] by (simp add: unat_of_nat take_bit_nat_eq_self)
  have nq: "unat (node_q_total ?t ! y) = ?L y" if "open_node g (stack t) y" for y
    using q_invD(2) [OF inv that] l at(2) by (cases "y = x") simp_all
  have c: "ra_get_node_class g x = Some (cls g x)" by (rule class_of_eq [OF g at(9)])
  have sok: "stack_ok g ?t" using so by (simp add: stack_ok_def tmp_ok_def)
  have lt: "of_nat l < class_p (cls g x) \<longleftrightarrow> l < class_limit g x" using l by (simp add: class_limit_def word_less_nat_alt)
  show ?thesis
  proof (cases "l < class_limit g x")
    case True
    obtain b where b: "BITSET_SET (pq_test t) x = Some b" "length b = length (pq_test t)" "ids b = insert x (ids (pq_test t))"
      using BITSET_SET_eq [OF at(5)] by blast
    let ?t' = "?t\<lparr>pq_test := b\<rparr>"
    have run: "update_pq_info g ?t x = Some ?t'" using c at(2) lt True b(1) by (simp add: update_pq_info_def Let_def)
    have "stack_ok g ?t'" using so b xc unfolding stack_ok_def tmp_ok_def by simp
    moreover have "block_min g ?t' ?L i" if "i < BITSET_WORDS (node_count g)" "min_q_total t ! i \<noteq> - 1" for i
      using q_invD(4) [OF inv that] b(3) unfolding block_min_def Let_def by simp
    moreover have "y \<in> ids b \<longleftrightarrow> ?L y < class_limit g y" if "open_node g (stack t) y" for y using q_invD(3) [OF inv that] b(3) True by simp
    ultimately have "q_inv g ?t' ?L" using nq unfolding q_inv_def by simp
    then show ?thesis using run by simp
  next
    case False
    have un: "x \<notin> ids (pq_test t)" using q_invD(3) [OF inv x(1)] False x(2) by simp
    have mk: "y \<in> ids (pq_test t) \<longleftrightarrow> ?L y < class_limit g y" if "open_node g (stack t) y" for y using q_invD(3) [OF inv that] un False by (cases "y = x") simp_all
    define m where "m = min_q_total t ! ?i"
    define k where "k = min_q_node t ! ?i"
    have keep: "block_min g ?t ?L i" if "i < BITSET_WORDS (node_count g)" "min_q_total t ! i \<noteq> - 1" "i \<noteq> ?i" for i
      using q_invD(4) [OF inv that(1,2)] that(3) unfolding block_min_def Let_def by auto
    show ?thesis
    proof (cases "m \<noteq> - 1 \<and> (of_nat l < m \<or> of_nat l = m \<and> x > k)")
      case True
      let ?t' = "?t\<lparr>min_q_total := (min_q_total t)[?i := of_nat l], min_q_node := (min_q_node t)[?i := x]\<rparr>"
      have run: "update_pq_info g ?t x = Some ?t'" using c at(2,6,7) lt False True by (simp add: update_pq_info_def Let_def m_def k_def)
      have bm: "block_min g t L ?i" using q_invD(4) [OF inv at(10)] True by (simp add: m_def)
      have lm: "l < unat m \<or> l = unat m \<and> k < x" using True l by (auto simp: word_less_nat_alt)
      have "block_min g ?t' ?L ?i" unfolding block_min_def Let_def
      proof (intro conjI allI impI)
        fix y assume y: "open_node g (stack ?t') y \<and> y div 32 = ?i \<and> y \<notin> ids (pq_test ?t')"
        then have "unat m < L y \<or> unat m = L y \<and> y \<le> k" using bm unfolding block_min_def Let_def m_def k_def by simp
        then show "unat (min_q_total ?t' ! ?i) < ?L y \<or> unat (min_q_total ?t' ! ?i) = ?L y \<and> y \<le> min_q_node ?t' ! ?i"
          using lm l at(6,7) by auto
      qed (use x(1) l at(6,7) in auto)
      moreover have "block_min g ?t' ?L i" if "i < BITSET_WORDS (node_count g)" "min_q_total t ! i \<noteq> - 1" "i \<noteq> ?i" for i
        using keep [OF that] that(3) unfolding block_min_def Let_def by simp
      ultimately have "block_min g ?t' ?L i" if "i < BITSET_WORDS (node_count g)" "min_q_total ?t' ! i \<noteq> - 1" for i
        using that by (cases "i = ?i") simp_all
      moreover have "stack_ok g ?t'" using sok by (simp add: stack_ok_def tmp_ok_def)
      ultimately have "q_inv g ?t' ?L" using nq mk unfolding q_inv_def by simp
      then show ?thesis using run by simp
    next
      case False2: False
      have run: "update_pq_info g ?t x = Some ?t" using c at(2,6,7) lt False False2 by (auto simp: update_pq_info_def Let_def m_def k_def)
      have "block_min g ?t ?L ?i" if ne: "m \<noteq> - 1"
      proof -
        have bm: "block_min g t L ?i" using q_invD(4) [OF inv at(10)] ne by (simp add: m_def)
        have lm: "unat m < l \<or> unat m = l \<and> x \<le> k" using False2 ne l by (auto simp: word_less_nat_alt not_less word_le_nat_alt le_less word_unat_eq_iff)
        have kx: "L x = unat m" if "k = x" using bm un that unfolding block_min_def Let_def m_def k_def by auto
        have sel: "min_q_node ?t ! ?i = k" "min_q_total ?t ! ?i = m" "stack ?t = stack t" "pq_test ?t = pq_test t" by (simp_all add: m_def k_def)
        have b: "k div 32 = ?i" "open_node g (stack t) k" "k \<in> ids (pq_test t) \<or> L k = unat m"
          "\<And>y. open_node g (stack t) y \<and> y div 32 = ?i \<and> y \<notin> ids (pq_test t) \<Longrightarrow> unat m < L y \<or> unat m = L y \<and> y \<le> k"
          using bm unfolding block_min_def Let_def m_def [symmetric] k_def [symmetric] by blast+
        have "k \<in> ids (pq_test t) \<or> ?L k = unat m" using b(3) lm kx x(2) by (cases "k = x") auto
        moreover have "unat m < ?L y \<or> unat m = ?L y \<and> y \<le> k" if "open_node g (stack t) y \<and> y div 32 = ?i \<and> y \<notin> ids (pq_test t)" for y
          using b(4) [OF that] lm by (cases "y = x") simp_all
        ultimately show ?thesis using b(1,2) unfolding block_min_def Let_def sel by blast
      qed
      then have "block_min g ?t ?L i" if "i < BITSET_WORDS (node_count g)" "min_q_total t ! i \<noteq> - 1" for i
        using that keep by (cases "i = ?i") (simp_all add: m_def)
      then have "q_inv g ?t ?L" using nq mk sok unfolding q_inv_def by simp
      then show ?thesis using run by simp
    qed
  qed
qed

section \<open>Pushing a node\<close>

lemma release_spec:
  assumes g: "sizes_ok g" "edges_ok g" and inv: "q_inv g t L" and n: "n < alloc g"
    and ns: "distinct ns" "\<forall>x \<in> set ns. x < node_count g" "\<forall>x \<in> set ns. open_node g (stack t) x \<longrightarrow> unat (qw g x n) \<le> L x"
  shows "\<exists>t'. release_neighbours g n ns t = Some t' \<and>
    q_inv g t' (\<lambda>x. if x \<in> set ns \<and> open_node g (stack t) x then L x - unat (qw g x n) else L x) \<and> stack t' = stack t \<and> node_reg t' = node_reg t"
  using inv ns
proof (induction ns arbitrary: t L)
  case Nil
  then show ?case by simp
next
  case (Cons x ns)
  have so: "stack_ok g t" by (rule q_invD(1) [OF Cons.prems(1)])
  have xc: "x < node_count g" using Cons.prems(3) by simp
  note at = tmp_at [OF g(1) stack_okD(1) [OF so] xc]
  have tests: "BITSET_TEST (in_stack t) x = Some (x \<in> set (stack t))" "BITSET_TEST (reg_assigned t) x = Some (forced_reg (nodes g ! x) \<noteq> NO_REG)"
    using BITSET_TEST_eq [OF at(3)] BITSET_TEST_eq [OF at(4)] stack_okD(5,6) [OF so at(10)] xc by simp_all
  show ?case
  proof (cases "open_node g (stack t) x")
    case True
    let ?q = "qw g x n"
    have L: "unat (node_q_total t ! x) = L x" by (rule q_invD(2) [OF Cons.prems(1) True])
    have q: "unat ?q \<le> L x" using Cons.prems(4) True by simp
    then have le: "?q \<le> node_q_total t ! x" using L by (simp add: word_le_nat_alt)
    have "unat (node_q_total t ! x - ?q) = L x - unat ?q" using unat_sub_no_wrap [OF le] L by simp
    then have e: "node_q_total t ! x - ?q = of_nat (L x - unat ?q)" by (metis of_nat_unat unsigned_ucast_eq ucast_id)
    obtain t1 where t1: "update_pq_info g (t\<lparr>node_q_total := (node_q_total t)[x := node_q_total t ! x - ?q]\<rparr>) x = Some t1"
      "q_inv g t1 (L(x := L x - unat ?q))" "stack t1 = stack t" "node_reg t1 = node_reg t"
      using update_pq_spec [OF g Cons.prems(1) True, of "L x - unat ?q"] unfolding e by auto
    have "\<forall>y \<in> set ns. open_node g (stack t1) y \<longrightarrow> unat (qw g y n) \<le> (L(x := L x - unat ?q)) y"
      using Cons.prems(2,4) t1(3) by auto
    then obtain t2 where t2: "release_neighbours g n ns t1 = Some t2" "stack t2 = stack t1" "node_reg t2 = node_reg t1"
      "q_inv g t2 (\<lambda>y. if y \<in> set ns \<and> open_node g (stack t1) y then (L(x := L x - unat ?q)) y - unat (qw g y n) else (L(x := L x - unat ?q)) y)"
      using Cons.IH [OF t1(2)] Cons.prems(2,3) by auto
    have "(\<lambda>y. if y \<in> set ns \<and> open_node g (stack t1) y then (L(x := L x - unat ?q)) y - unat (qw g y n) else (L(x := L x - unat ?q)) y) =
      (\<lambda>y. if y \<in> set (x # ns) \<and> open_node g (stack t) y then L y - unat (qw g y n) else L y)"
      using Cons.prems(2) True t1(3) by auto
    then show ?thesis using t1(1,3,4) t2 tests True le at(2) q_between_eq [OF g at(9) n] by (simp add: open_node_def)
  next
    case False
    then have skip: "x \<in> set (stack t) \<or> forced_reg (nodes g ! x) \<noteq> NO_REG" using xc by (simp add: open_node_def)
    obtain t2 where t2: "release_neighbours g n ns t = Some t2" "stack t2 = stack t" "node_reg t2 = node_reg t"
      "q_inv g t2 (\<lambda>y. if y \<in> set ns \<and> open_node g (stack t) y then L y - unat (qw g y n) else L y)"
      using Cons.IH [OF Cons.prems(1)] Cons.prems(2-4) by auto
    have "(\<lambda>y. if y \<in> set ns \<and> open_node g (stack t) y then L y - unat (qw g y n) else L y) =
      (\<lambda>y. if y \<in> set (x # ns) \<and> open_node g (stack t) y then L y - unat (qw g y n) else L y)" using False by auto
    then show ?thesis using t2 tests skip by auto
  qed
qed

lemma open_cons: "open_node g (n # S) x \<longleftrightarrow> open_node g S x \<and> x \<noteq> n"
  by (auto simp: open_node_def)

lemma q_inv_cong: "q_inv g t L \<Longrightarrow> (\<And>x. open_node g (stack t) x \<Longrightarrow> L x = L' x) \<Longrightarrow> q_inv g t L'"
  unfolding q_inv_def block_min_def Let_def by auto

lemma push_node_spec:
  assumes g: "sizes_ok g" "edges_ok g" and inv: "q_inv g t (load g (stack t))" and n: "open_node g (stack t) n"
  shows "\<exists>t'. add_node_to_stack g t n = Some t' \<and> q_inv g t' (load g (stack t')) \<and> stack t' = n # stack t \<and> node_reg t' = node_reg t"
proof -
  let ?S = "stack t" and ?ns = "adjacency_list (nodes g ! n)" and ?i = "n div 32"
  have so: "stack_ok g t" by (rule q_invD(1) [OF inv])
  have nc: "n < node_count g" and out: "n \<notin> set ?S" and free: "forced_reg (nodes g ! n) = NO_REG" using n by (simp_all add: open_node_def)
  note at = tmp_at [OF g(1) stack_okD(1) [OF so] nc]
  have ns: "distinct ?ns" "\<forall>x \<in> set ?ns. x < node_count g" using edges_okD(2,3) [OF g(2) at(9)] by (auto simp: adj_def)
  have symm: "n \<in> adj g x \<longleftrightarrow> x \<in> set ?ns" if "x < node_count g" for x
  proof -
    have "x < alloc g" using that sizes_okD(1) [OF g(1)] by simp
    then show ?thesis using edges_okD(6) [OF g(2), of x n] edges_okD(6) [OF g(2) at(9), of x] by (auto simp: adj_def)
  qed
  have ld: "load g ?S x = load g (n # ?S) x + unat (qw g x n)" if "x \<in> set ?ns" for x
    using symm ns(2) that out by (intro load_cons) auto
  then obtain t1 where t1: "release_neighbours g n ?ns t = Some t1" "stack t1 = ?S" "node_reg t1 = node_reg t"
    "q_inv g t1 (\<lambda>x. if x \<in> set ?ns \<and> open_node g ?S x then load g ?S x - unat (qw g x n) else load g ?S x)"
    using release_spec [OF g inv at(9) ns] by auto
  have "(if x \<in> set ?ns \<and> open_node g ?S x then load g ?S x - unat (qw g x n) else load g ?S x) = load g (n # ?S) x" if x: "open_node g ?S x" for x
    using ld symm [of x] x load_cons_other [of n g x ?S] by (auto simp: open_node_def)
  then have inv1: "q_inv g t1 (load g (n # ?S))" using q_inv_cong [OF t1(4)] unfolding t1(2) by simp
  have so1: "stack_ok g t1" by (rule q_invD(1) [OF inv1])
  note at1 = tmp_at [OF g(1) stack_okD(1) [OF so1] nc]
  have "length (n # ?S) \<le> node_count g" using stack_okD(2,3) [OF so] out nc by (intro stack_short) auto
  then have short: "length ?S < alloc g" using sizes_okD(1) [OF g(1)] by simp
  obtain b where b: "BITSET_SET (in_stack t1) n = Some b" "length b = length (in_stack t1)" "ids b = insert n (ids (in_stack t1))"
    using BITSET_SET_eq [OF at1(3)] by blast
  define t' where "t' = t1\<lparr>stack := n # ?S, in_stack := b, min_q_total := (min_q_total t1)[?i := - 1]\<rparr>"
  have run: "add_node_to_stack g t n = Some t'"
    using BITSET_TEST_eq [OF at(3)] stack_okD(5) [OF so at(10)] out at(8) t1(1,2) short b(1) at1(6) by (simp add: add_node_to_stack_def t'_def)
  have "stack_ok g t'" using so1 b nc out free t1(2) unfolding stack_ok_def tmp_ok_def by (simp add: t'_def)
  moreover have "block_min g t' (load g (n # ?S)) i" if i: "i < BITSET_WORDS (node_count g)" "min_q_total t' ! i \<noteq> - 1" for i
  proof -
    have ne: "i \<noteq> ?i" using i(2) at1(6) by (auto simp: t'_def)
    then have "block_min g t1 (load g (n # ?S)) i" using q_invD(4) [OF inv1 i(1)] i(2) by (simp add: t'_def)
    then show ?thesis using ne t1(2) unfolding block_min_def Let_def by (auto simp: t'_def open_cons)
  qed
  moreover have "unat (node_q_total t' ! x) = load g (n # ?S) x \<and> (x \<in> ids (pq_test t') \<longleftrightarrow> load g (n # ?S) x < class_limit g x)"
    if "open_node g (n # ?S) x" for x using q_invD(2,3) [OF inv1, of x] that t1(2) by (simp add: open_cons t'_def)
  moreover have st: "stack t' = n # ?S" by (simp add: t'_def)
  ultimately have "q_inv g t' (load g (stack t'))" unfolding q_inv_def st by blast
  then show ?thesis using run t1(3) by (simp add: t'_def)
qed

end
