(* ===== verification/Ra_Simplify_Correct.thy ===== *)
theory Ra_Simplify_Correct
  imports Ra_Push_Correct
begin

text \<open>The simplification refines its abstract version: whatever the graph, it ends with every node coloured in advance or on the stack.\<close>

section \<open>Words and bits\<close>

lemma top_bit_iff:
  assumes "i < BITSET_WORDS cnt"
  shows "j \<le> top_bit cnt i \<longleftrightarrow> j < 32 \<and> i * 32 + j < cnt"
proof (cases "i + 1 = BITSET_WORDS cnt")
  case True
  then have e: "(cnt + 31) div 32 = i + 1" by (simp add: BITSET_WORDS_def)
  define h where "h = (cnt - 1) mod 32"
  have "cnt - 1 = 32 * ((cnt - 1) div 32) + h" "h < 32" by (simp_all add: h_def)
  moreover have "(cnt - 1) div 32 = i" "0 < cnt" using e by linarith+
  ultimately have "cnt = 32 * i + h + 1" "h < 32" by simp_all
  then have "j \<le> h \<longleftrightarrow> j < 32 \<and> i * 32 + j < cnt" by linarith
  then show ?thesis using True by (simp add: top_bit_def h_def)
next
  case False
  then have "i + 1 < (cnt + 31) div 32" using assms by (simp add: BITSET_WORDS_def)
  then have "i * 32 + 32 \<le> cnt" by linarith
  then show ?thesis using False by (auto simp: top_bit_def)
qed

lemma set_bit_list: "i < BITSET_WORDS cnt \<Longrightarrow> j \<in> set (bit_list cnt i) \<longleftrightarrow> j < 32 \<and> i * 32 + j < cnt"
  using top_bit_iff [of i cnt j] by (auto simp: bit_list_def less_Suc_eq_le)

lemma bit_list_desc: "sorted_wrt (>) (bit_list cnt i)" and word_list_desc: "sorted_wrt (>) (word_list cnt)"
  by (simp_all add: bit_list_def word_list_def sorted_wrt_rev)

lemma set_word_list [simp]: "set (word_list cnt) = {..<BITSET_WORDS cnt}"
  by (auto simp: word_list_def)

lemma desc_distinct: "sorted_wrt (>) xs \<Longrightarrow> distinct (xs :: nat list)"
  by (induction xs) auto

lemma node_parts: "j < 32 \<Longrightarrow> (i * 32 + j) div 32 = i" "j < 32 \<Longrightarrow> (i * 32 + j) mod 32 = j" for i j :: nat
  by simp_all

section \<open>Setting up\<close>

lemma update_pq_fresh:
  assumes g: "sizes_ok g" "edges_ok g" and t: "tmp_ok (alloc g) t" and n: "n < node_count g" "min_q_total t ! (n div 32) = - 1"
  shows "\<exists>b. update_pq_info g t n = Some (t\<lparr>pq_test := b\<rparr>) \<and> length b = length (pq_test t) \<and>
    ids b = (if unat (node_q_total t ! n) < class_limit g n then insert n (ids (pq_test t)) else ids (pq_test t))"
proof -
  note at = tmp_at [OF g(1) t n(1)]
  have c: "ra_get_node_class g n = Some (cls g n)" by (rule class_of_eq [OF g at(9)])
  have lt: "node_q_total t ! n < class_p (cls g n) \<longleftrightarrow> unat (node_q_total t ! n) < class_limit g n" by (simp add: class_limit_def word_less_nat_alt)
  show ?thesis
  proof (cases "unat (node_q_total t ! n) < class_limit g n")
    case True
    then show ?thesis using BITSET_SET_eq [OF at(5)] c at(2) lt by (auto simp: update_pq_info_def)
  next
    case False
    then show ?thesis using c at(2,6) lt n(2) by (intro exI [of _ "pq_test t"]) (simp add: update_pq_info_def Let_def)
  qed
qed

text \<open>Node \<open>x\<close> is set up, given what its bits were before.\<close>

definition set_up :: "ra_graph \<Rightarrow> ra_tmp \<Rightarrow> ra_tmp \<Rightarrow> nat \<Rightarrow> bool" where
  "set_up g t t' x \<longleftrightarrow> node_reg t' ! x = forced_reg (nodes g ! x) \<and> node_q_total t' ! x = q_total (nodes g ! x) \<and>
     (x \<in> ids (pq_test t') \<longleftrightarrow> x \<in> ids (pq_test t) \<or> unat (q_total (nodes g ! x)) < class_limit g x) \<and>
     (x \<in> ids (reg_assigned t') \<longleftrightarrow> x \<in> ids (reg_assigned t) \<or> forced_reg (nodes g ! x) \<noteq> NO_REG)"

definition untouched :: "ra_tmp \<Rightarrow> ra_tmp \<Rightarrow> nat \<Rightarrow> bool" where
  "untouched t t' x \<longleftrightarrow> node_reg t' ! x = node_reg t ! x \<and> node_q_total t' ! x = node_q_total t ! x \<and>
     (x \<in> ids (pq_test t') \<longleftrightarrow> x \<in> ids (pq_test t)) \<and> (x \<in> ids (reg_assigned t') \<longleftrightarrow> x \<in> ids (reg_assigned t))"

lemma untouched_trans: "untouched t t1 x \<Longrightarrow> untouched t1 t2 x \<Longrightarrow> untouched t t2 x"
  and set_up_after: "untouched t t1 x \<Longrightarrow> set_up g t1 t2 x \<Longrightarrow> set_up g t t2 x"
  and set_up_before: "set_up g t t1 x \<Longrightarrow> untouched t1 t2 x \<Longrightarrow> set_up g t t2 x"
  by (simp_all add: untouched_def set_up_def)

lemma setup_bits_spec:
  assumes g: "sizes_ok g" "edges_ok g" and i: "i < BITSET_WORDS (node_count g)"
    and t: "tmp_ok (alloc g) t" "min_q_total t ! i = - 1" and js: "\<forall>j \<in> set js. j < 32 \<and> i * 32 + j < node_count g" "distinct js"
  shows "\<exists>t'. setup_bits g i js t = Some t' \<and> tmp_ok (alloc g) t' \<and> stack t' = stack t \<and> in_stack t' = in_stack t \<and>
    min_q_total t' = min_q_total t \<and>
    (\<forall>x. if x div 32 = i \<and> x mod 32 \<in> set js then set_up g t t' x else untouched t t' x)"
  using t js
proof (induction js arbitrary: t)
  case Nil
  then show ?case by (simp add: untouched_def)
next
  case (Cons j js)
  let ?n = "i * 32 + j"
  have j: "j < 32" "?n < node_count g" using Cons.prems(3) by simp_all
  note at = tmp_at [OF g(1) Cons.prems(1) j(2), unfolded node_parts [OF j(1)]]
  define a where "a = (if forced_reg (nodes g ! ?n) \<noteq> NO_REG then reg_assigned t ! i OR BITSET_BIT j else reg_assigned t ! i)"
  define t0 where "t0 = t\<lparr>node_reg := (node_reg t)[?n := forced_reg (nodes g ! ?n)], node_q_total := (node_q_total t)[?n := q_total (nodes g ! ?n)],
    reg_assigned := (reg_assigned t)[i := a]\<rparr>"
  have ok0: "tmp_ok (alloc g) t0" "min_q_total t0 ! (?n div 32) = - 1" using Cons.prems(1,2) j(1) by (simp_all add: tmp_ok_def t0_def node_parts)
  have q0: "node_q_total t0 ! ?n = q_total (nodes g ! ?n)" using at(2) by (simp add: t0_def)
  have as: "ids (reg_assigned t0) = (if forced_reg (nodes g ! ?n) \<noteq> NO_REG then insert ?n (ids (reg_assigned t)) else ids (reg_assigned t))"
    using ids_set_bit [OF at(4) j(1)] at(4) j(1) by (simp add: t0_def a_def BITSET_BIT_def)
  obtain b where b: "update_pq_info g t0 ?n = Some (t0\<lparr>pq_test := b\<rparr>)" "length b = length (pq_test t0)"
    "ids b = (if unat (node_q_total t0 ! ?n) < class_limit g ?n then insert ?n (ids (pq_test t0)) else ids (pq_test t0))"
    using update_pq_fresh [OF g ok0(1) j(2) ok0(2)] by blast
  let ?t1 = "t0\<lparr>pq_test := b\<rparr>"
  have ok1: "tmp_ok (alloc g) ?t1" "min_q_total ?t1 ! i = - 1" using ok0(1) b(2) Cons.prems(2) by (simp_all add: tmp_ok_def t0_def)
  have one: "set_up g t ?t1 ?n" using at(1,2) as b(3) q0 by (simp add: set_up_def t0_def)
  have two: "untouched t ?t1 x" if "x \<noteq> ?n" for x using that as b(3) by (auto simp: untouched_def t0_def)
  obtain t' where t': "setup_bits g i js ?t1 = Some t'" "tmp_ok (alloc g) t'" "stack t' = stack ?t1" "in_stack t' = in_stack ?t1" "min_q_total t' = min_q_total ?t1"
    "\<forall>x. if x div 32 = i \<and> x mod 32 \<in> set js then set_up g ?t1 t' x else untouched ?t1 t' x"
    using Cons.IH [OF ok1] Cons.prems(3,4) by auto
  have run: "setup_bits g i (j # js) t = Some t'" using at(1,2,4,8) b(1) t'(1) unfolding t0_def a_def by (simp add: Let_def)
  have "if x div 32 = i \<and> x mod 32 \<in> set (j # js) then set_up g t t' x else untouched t t' x" for x
  proof (cases "x = ?n")
    case True
    then have "untouched ?t1 t' x" using t'(6) [rule_format, of x] Cons.prems(4) j(1) by (simp split: if_splits)
    then show ?thesis using True one set_up_before j(1) by simp
  next
    case False
    then have "\<not> (x div 32 = i \<and> x mod 32 = j)" using id_parts [OF j(1)] by blast
    then show ?thesis using t'(6) [rule_format, of x] set_up_after [OF two [OF False]] untouched_trans [OF two [OF False]] by (auto split: if_splits)
  qed
  then show ?case using run t'(2-5) by (intro exI [of _ t']) (simp add: t0_def)
qed

text \<open>The state of a word after its setup.\<close>

definition word_ready :: "ra_graph \<Rightarrow> ra_tmp \<Rightarrow> nat \<Rightarrow> bool" where
  "word_ready g t i \<longleftrightarrow> min_q_total t ! i = - 1 \<and> (\<forall>x. x div 32 = i \<longrightarrow> x \<notin> ids (in_stack t) \<and>
     (if x < node_count g then node_reg t ! x = forced_reg (nodes g ! x) \<and> node_q_total t ! x = q_total (nodes g ! x) \<and>
        (x \<in> ids (pq_test t) \<longleftrightarrow> unat (q_total (nodes g ! x)) < class_limit g x) \<and> (x \<in> ids (reg_assigned t) \<longleftrightarrow> forced_reg (nodes g ! x) \<noteq> NO_REG)
      else x \<notin> ids (pq_test t) \<and> x \<notin> ids (reg_assigned t)))"

lemma setup_words_spec:
  assumes g: "sizes_ok g" "edges_ok g" and t: "tmp_ok (alloc g) t" "stack t = []" and "is": "\<forall>i \<in> set is. i < BITSET_WORDS (node_count g)" "distinct is"
  shows "\<exists>t'. setup_words g is t = Some t' \<and> tmp_ok (alloc g) t' \<and> stack t' = [] \<and> (\<forall>i \<in> set is. word_ready g t' i) \<and>
    (\<forall>k < BITSET_WORDS (node_count g). k \<notin> set is \<and> word_ready g t k \<longrightarrow> word_ready g t' k)"
  using t "is"
proof (induction "is" arbitrary: t)
  case Nil
  then show ?case by simp
next
  case (Cons i "is")
  have i: "i < BITSET_WORDS (node_count g)" using Cons.prems(3) by simp
  note at = word_at [OF g(1) Cons.prems(1) i]
  define t0 where "t0 = t\<lparr>in_stack := (in_stack t)[i := 0], reg_assigned := (reg_assigned t)[i := 0], pq_test := (pq_test t)[i := 0],
    min_q_total := (min_q_total t)[i := - 1], min_q_node := (min_q_node t)[i := 4294967295]\<rparr>"
  have ok0: "tmp_ok (alloc g) t0" "min_q_total t0 ! i = - 1" using Cons.prems(1) at by (simp_all add: t0_def tmp_ok_def)
  have js: "\<forall>j \<in> set (bit_list (node_count g) i). j < 32 \<and> i * 32 + j < node_count g" "distinct (bit_list (node_count g) i)"
    using set_bit_list [OF i] desc_distinct [OF bit_list_desc] by auto
  obtain t1 where t1: "setup_bits g i (bit_list (node_count g) i) t0 = Some t1" "tmp_ok (alloc g) t1" "stack t1 = stack t0" "in_stack t1 = in_stack t0"
    "min_q_total t1 = min_q_total t0" "\<And>x. if x div 32 = i \<and> x mod 32 \<in> set (bit_list (node_count g) i) then set_up g t0 t1 x else untouched t0 t1 x"
    using setup_bits_spec [OF g i ok0 js] by blast
  have z: "x \<notin> ids (in_stack t0) \<and> x \<notin> ids (pq_test t0) \<and> x \<notin> ids (reg_assigned t0)" if "x div 32 = i" for x
    using that at by (simp add: t0_def ids_update)
  have r1: "word_ready g t1 i" unfolding word_ready_def t1(4,5)
  proof (intro conjI allI impI)
    fix x assume x: "x div 32 = i"
    then have "x mod 32 \<in> set (bit_list (node_count g) i) \<longleftrightarrow> x < node_count g" using set_bit_list [OF i, of "x mod 32"] div_mult_mod_eq [of x 32] by auto
    then show "if x < node_count g then node_reg t1 ! x = forced_reg (nodes g ! x) \<and> node_q_total t1 ! x = q_total (nodes g ! x) \<and>
        (x \<in> ids (pq_test t1) \<longleftrightarrow> unat (q_total (nodes g ! x)) < class_limit g x) \<and> (x \<in> ids (reg_assigned t1) \<longleftrightarrow> forced_reg (nodes g ! x) \<noteq> NO_REG)
      else x \<notin> ids (pq_test t1) \<and> x \<notin> ids (reg_assigned t1)"
      using t1(6) [of x] z [OF x] x by (auto simp: set_up_def untouched_def split: if_splits)
  qed (use ok0(2) z in simp_all)
  have keep: "word_ready g t1 k" if k: "k \<noteq> i" "word_ready g t k" for k
  proof -
    have "untouched t t1 x" if "x div 32 \<noteq> i" for x
      using t1(6) [of x] that at by (simp add: untouched_def t0_def ids_update)
    moreover have "x \<in> ids (in_stack t1) \<longleftrightarrow> x \<in> ids (in_stack t)" if "x div 32 \<noteq> i" for x using that at t1(4) by (simp add: t0_def ids_update)
    moreover have "min_q_total t1 ! k = min_q_total t ! k" using k(1) t1(5) by (simp add: t0_def)
    ultimately show ?thesis using k unfolding word_ready_def untouched_def by simp
  qed
  obtain t' where t': "setup_words g is t1 = Some t'" "tmp_ok (alloc g) t'" "stack t' = []" "\<forall>i \<in> set is. word_ready g t' i"
    "\<forall>k < BITSET_WORDS (node_count g). k \<notin> set is \<and> word_ready g t1 k \<longrightarrow> word_ready g t' k"
    using Cons.IH [OF t1(2)] t1(3) Cons.prems(2-4) by (auto simp: t0_def)
  have run: "setup_words g (i # is) t = Some t'" using at t1(1) t'(1) unfolding t0_def by simp
  have "word_ready g t' i" using t'(5) i r1 Cons.prems(4) by simp
  then show ?case using run t' keep by auto
qed

text \<open>No total wraps around, and none looks like the mark of an unknown one.\<close>

definition small_loads :: "ra_graph \<Rightarrow> bool" where
  "small_loads g \<longleftrightarrow> (\<forall>n < node_count g. load g [] n < 4294967295)"

lemma unat_sum_list: "(\<Sum>m \<leftarrow> xs. unat (f m :: u32)) < 2 ^ 32 \<Longrightarrow> unat (\<Sum>m \<leftarrow> xs. f m) = (\<Sum>m \<leftarrow> xs. unat (f m))"
proof (induction xs)
  case (Cons x xs)
  then have "unat (\<Sum>m \<leftarrow> xs. f m) = (\<Sum>m \<leftarrow> xs. unat (f m))" by simp
  then show ?case using Cons.prems unat_add_no_wrap [of "f x" "\<Sum>m \<leftarrow> xs. f m"] by simp
qed simp

lemma q_total_load:
  assumes "graph_ok g" "small_loads g" "n < node_count g"
  shows "unat (q_total (nodes g ! n)) = load g [] n"
proof -
  have n: "n < alloc g" using assms(1,3) by (simp add: graph_ok_def sizes_ok_def)
  have d: "distinct (adjacency_list (nodes g ! n))" using assms(1) edges_okD(2) [OF _ n] by (simp add: graph_ok_def)
  have e: "(\<Sum>m \<leftarrow> adjacency_list (nodes g ! n). unat (qw g n m)) = load g [] n" using d by (simp add: load_def adj_def sum_list_distinct_conv_sum_set)
  have "load g [] n < 2 ^ 32" using assms(2,3) by (auto simp: small_loads_def)
  then show ?thesis using assms(1) n unat_sum_list [of "qw g n" "adjacency_list (nodes g ! n)"] e by (simp add: graph_ok_def q_ok_def)
qed

lemma setup_spec:
  assumes g: "graph_ok g" "small_loads g"
  shows "\<exists>t. setup_words g (word_list (node_count g)) ((tmp g)\<lparr>stack := []\<rparr>) = Some t \<and> stack t = [] \<and> q_inv g t (load g []) \<and>
    (\<forall>n < node_count g. node_reg t ! n = forced_reg (nodes g ! n))"
proof -
  have so: "sizes_ok g" and eo: "edges_ok g" using g(1) by (simp_all add: graph_ok_def)
  have tok: "tmp_ok (alloc g) ((tmp g)\<lparr>stack := []\<rparr>)" using sizes_okD(6) [OF so] by (simp add: tmp_ok_def)
  obtain t where t: "setup_words g (word_list (node_count g)) ((tmp g)\<lparr>stack := []\<rparr>) = Some t" "tmp_ok (alloc g) t" "stack t = []"
    "\<forall>i < BITSET_WORDS (node_count g). word_ready g t i"
    using setup_words_spec [OF so eo tok _ _ desc_distinct [OF word_list_desc, of "node_count g"]] by auto
  have r: "x \<notin> ids (in_stack t) \<and> (if x < node_count g then node_reg t ! x = forced_reg (nodes g ! x) \<and> node_q_total t ! x = q_total (nodes g ! x) \<and>
        (x \<in> ids (pq_test t) \<longleftrightarrow> unat (q_total (nodes g ! x)) < class_limit g x) \<and> (x \<in> ids (reg_assigned t) \<longleftrightarrow> forced_reg (nodes g ! x) \<noteq> NO_REG)
      else x \<notin> ids (pq_test t) \<and> x \<notin> ids (reg_assigned t))" if "x div 32 < BITSET_WORDS (node_count g)" for x
    using t(4) that unfolding word_ready_def by blast
  have "(x \<in> ids (in_stack t) \<longleftrightarrow> x \<in> set (stack t)) \<and> (x \<in> ids (reg_assigned t) \<longleftrightarrow> x < node_count g \<and> forced_reg (nodes g ! x) \<noteq> NO_REG) \<and>
    (x \<in> ids (pq_test t) \<longrightarrow> x < node_count g)" if "x div 32 < BITSET_WORDS (node_count g)" for x
    using r [OF that] t(3) by (cases "x < node_count g") simp_all
  then have "stack_ok g t" unfolding stack_ok_def using t(2,3) by simp
  moreover have "unat (node_q_total t ! x) = load g [] x \<and> (x \<in> ids (pq_test t) \<longleftrightarrow> load g [] x < class_limit g x)" if x: "open_node g (stack t) x" for x
    using r [of x] x word_index [of x "node_count g"] q_total_load [OF g, of x] by (simp add: open_node_def)
  moreover have "min_q_total t ! i = - 1" if "i < BITSET_WORDS (node_count g)" for i using t(4) that by (simp add: word_ready_def)
  ultimately have "q_inv g t (load g [])" unfolding q_inv_def by blast
  moreover have "node_reg t ! n = forced_reg (nodes g ! n)" if "n < node_count g" for n using r [of n] that word_index by simp
  ultimately show ?thesis using t(1,3) by blast
qed

end
