(* ===== verification/Ra_Rounds_Correct.thy ===== *)
theory Ra_Rounds_Correct
  imports Ra_Simplify_Correct
begin

text \<open>The rounds of the simplification: each pushes a node, so there are no more of them than nodes, and they follow the abstract steps.\<close>

section \<open>Pushing the nodes of a word\<close>

lemma bit_ids: "i < length x \<Longrightarrow> j < 32 \<Longrightarrow> bit (x ! i) j \<longleftrightarrow> i * 32 + j \<in> ids x"
  by (simp add: word_bits)

lemma and_bit: "j < 32 \<Longrightarrow> w AND BITSET_BIT j \<noteq> 0 \<longleftrightarrow> bit w j"
  using and_bit_iff [of j w] by (simp add: BITSET_BIT_def)

text \<open>The open nodes of a word, read off its bits.\<close>

lemma skip_bit:
  assumes g: "sizes_ok g" and so: "stack_ok g t" and i: "i < BITSET_WORDS (node_count g)" and j: "j < 32" "i * 32 + j < node_count g"
  shows "bit (in_stack t ! i OR reg_assigned t ! i) j \<longleftrightarrow> \<not> open_node g (stack t) (i * 32 + j)"
proof -
  note at = word_at [OF g stack_okD(1) [OF so] i]
  have "(i * 32 + j) div 32 < BITSET_WORDS (node_count g)" using i j(1) by simp
  then show ?thesis using stack_okD(5,6) [OF so] bit_ids [OF at(1) j(1)] bit_ids [OF at(2) j(1)] j(2) by (simp add: bit_or_iff open_node_def)
qed

lemma push_bits_spec:
  assumes g: "sizes_ok g" "edges_ok g" and i: "i < BITSET_WORDS (node_count g)"
    and inv: "q_inv g t (load g (stack t))" and sim: "simplified g (stack t) k" and js: "distinct js" "\<forall>j \<in> set js. j < 32 \<and> i * 32 + j < node_count g"
    and pq: "pq = pq_test t ! i AND NOT skip" and sk: "\<forall>j \<in> set js. bit skip j \<longleftrightarrow> \<not> open_node g (stack t) (i * 32 + j)"
  shows "\<exists>t' progress'. push_bits g i skip js pq progress t = Some (t', progress') \<and> q_inv g t' (load g (stack t')) \<and> simplified g (stack t') k \<and>
    node_reg t' = node_reg t \<and> length (stack t) \<le> length (stack t') \<and>
    ((\<exists>j \<in> set js. bit pq j) \<longrightarrow> progress' \<and> length (stack t) < length (stack t'))"
  using inv sim js pq sk
proof (induction js arbitrary: pq progress t)
  case Nil
  then show ?case by simp
next
  case (Cons j js)
  let ?n = "i * 32 + j"
  have j: "j < 32" "?n < node_count g" using Cons.prems(4) by simp_all
  show ?case
  proof (cases "bit pq j")
    case True
    have so: "stack_ok g t" by (rule q_invD(1) [OF Cons.prems(1)])
    note at = word_at [OF g(1) stack_okD(1) [OF so] i]
    have b: "bit (pq_test t ! i) j" "\<not> bit skip j" using True j(1) unfolding Cons.prems(5) by (simp_all add: bit_and_iff bit_not_iff)
    have op: "open_node g (stack t) ?n" using Cons.prems(6) b(2) by simp
    have "?n \<in> ids (pq_test t)" using b(1) bit_ids [OF at(3) j(1)] by simp
    then have ld: "load g (stack t) ?n < class_limit g ?n" using q_invD(3) [OF Cons.prems(1) op] by simp
    obtain t1 where t1: "add_node_to_stack g t ?n = Some t1" "q_inv g t1 (load g (stack t1))" "stack t1 = ?n # stack t" "node_reg t1 = node_reg t"
      using push_node_spec [OF g Cons.prems(1) op] by blast
    have s1: "simplified g (stack t1) k" unfolding t1(3) by (rule simplified.push [OF Cons.prems(2) op ld])
    have len: "i < length (pq_test t1)" using word_at(3) [OF g(1) stack_okD(1) [OF q_invD(1) [OF t1(2)]] i] .
    have "\<forall>j \<in> set js. bit skip j \<longleftrightarrow> \<not> open_node g (stack t1) (i * 32 + j)" using Cons.prems(3,6) unfolding t1(3) open_cons by auto
    then obtain t' p' where t': "push_bits g i skip js (pq_test t1 ! i AND NOT skip) True t1 = Some (t', p')" "q_inv g t' (load g (stack t'))"
      "simplified g (stack t') k" "node_reg t' = node_reg t1" "length (stack t1) \<le> length (stack t')"
      using Cons.IH [OF t1(2) s1 _ _ refl, of True] Cons.prems(3,4) by auto
    have "push_bits g i skip js pq2 True u = Some (u', p2) \<Longrightarrow> p2" for pq2 u u' p2
      by (induction js arbitrary: pq2 u) (auto simp: bind_eq_Some Let_def split: if_splits)
    then have "p'" using t'(1) by blast
    then show ?thesis using True and_bit [OF j(1), of pq] t1 t' j(2) len by (intro exI [of _ t'] exI [of _ True]) (simp add: Let_def)
  next
    case False
    then show ?thesis using Cons.IH [OF Cons.prems(1,2) _ _ Cons.prems(5), of progress] Cons.prems(3,4,6) and_bit [OF j(1), of pq] by simp
  qed
qed

section \<open>The lowest total\<close>

text \<open>\<open>(m, k)\<close> is the lowest total of the nodes of a set with its node, of several the highest; all ones stand for none.\<close>

definition lowest :: "(nat \<Rightarrow> nat) \<Rightarrow> nat set \<Rightarrow> u32 \<Rightarrow> nat \<Rightarrow> bool" where
  "lowest L A m k \<longleftrightarrow> (if A = {} then m = - 1 else k \<in> A \<and> unat m = L k \<and> m \<noteq> - 1 \<and> (\<forall>x \<in> A. L k < L x \<or> L k = L x \<and> x \<le> k))"

lemma unat_max: "unat (- 1 :: u32) = 4294967295"
  by (simp add: unsigned_minus_1_eq_mask mask_eq_exp_minus_1)

lemma below_max: "m \<noteq> - 1 \<longleftrightarrow> unat m < 4294967295" for m :: u32
proof -
  have "m = - 1 \<longleftrightarrow> unat m = 4294967295" unfolding unat_max [symmetric] by (rule word_unat_eq_iff)
  then show ?thesis using unat_u32_less [of m] by linarith
qed

lemma lowest_less:
  assumes "lowest L A m k" "lowest L B m' k'" "\<forall>x \<in> B. \<forall>y \<in> A. x < y" "\<forall>x \<in> B. L x < 4294967295"
  shows "lowest L (A \<union> B) (if m' < m then m' else m) (if m' < m then k' else k)"
proof (cases "B = {}")
  case True
  then show ?thesis using assms(1,2) by (simp add: lowest_def)
next
  case B: False
  then have b: "k' \<in> B" "unat m' = L k'" "m' \<noteq> - 1" "\<forall>x \<in> B. L k' < L x \<or> L k' = L x \<and> x \<le> k'" using assms(2) by (simp_all add: lowest_def)
  show ?thesis
  proof (cases "A = {}")
    case True
    then have "m' < m" using assms(1) b(3) by (simp add: lowest_def word_less_nat_alt unat_max below_max)
    then show ?thesis using True assms(2) by simp
  next
    case False
    then have a: "k \<in> A" "unat m = L k" "m \<noteq> - 1" "\<forall>x \<in> A. L k < L x \<or> L k = L x \<and> x \<le> k" using assms(1) by (simp_all add: lowest_def)
    have lt: "m' < m \<longleftrightarrow> L k' < L k" using a(2) b(2) by (simp add: word_less_nat_alt)
    show ?thesis
    proof (cases "m' < m")
      case True
      then have "\<forall>x \<in> A \<union> B. L k' < L x \<or> L k' = L x \<and> x \<le> k'" using a(4) b(4) lt by force
      then show ?thesis using True b B by (simp add: lowest_def)
    next
      case no: False
      have "x < k" if "x \<in> B" for x using assms(3) that a(1) by blast
      then have "\<forall>x \<in> A \<union> B. L k < L x \<or> L k = L x \<and> x \<le> k" using a(4) b(4) lt no by force
      then show ?thesis using no a False by (simp add: lowest_def)
    qed
  qed
qed

text \<open>The open nodes of a word with a bit of the list.\<close>

definition word_open :: "ra_graph \<Rightarrow> nat list \<Rightarrow> nat \<Rightarrow> nat set \<Rightarrow> nat set" where
  "word_open g S i J = {x. open_node g S x \<and> x div 32 = i \<and> x mod 32 \<in> J}"

lemma word_open_insert:
  assumes "j < 32"
  shows "word_open g S i (insert j J) = word_open g S i J \<union> (if open_node g S (i * 32 + j) then {i * 32 + j} else {})"
  using id_parts [OF assms] unfolding word_open_def by (auto split: if_splits)

lemma min_bits_spec:
  assumes g: "sizes_ok g" and i: "i < BITSET_WORDS (node_count g)" and so: "stack_ok g t"
    and L: "\<And>x. open_node g (stack t) x \<Longrightarrow> unat (node_q_total t ! x) = L x" "\<And>x. open_node g (stack t) x \<Longrightarrow> L x < 4294967295"
    and js: "sorted_wrt (>) js" "\<forall>j \<in> set js. j < 32 \<and> i * 32 + j < node_count g"
    and J: "\<forall>j \<in> set js. \<forall>x \<in> J. j < x" "lowest L (word_open g (stack t) i J) (min_q_total t ! i) (min_q_node t ! i)"
    and sk: "\<forall>j \<in> set js. bit skip j \<longleftrightarrow> \<not> open_node g (stack t) (i * 32 + j)"
  shows "\<exists>m k. min_bits g i skip js t = Some (t\<lparr>min_q_total := (min_q_total t)[i := m], min_q_node := (min_q_node t)[i := k]\<rparr>) \<and>
    lowest L (word_open g (stack t) i (J \<union> set js)) m k"
  using so L js J sk
proof (induction js arbitrary: t J)
  case Nil
  then show ?case by (intro exI [of _ "min_q_total t ! i"] exI [of _ "min_q_node t ! i"]) simp
next
  case (Cons j js)
  let ?n = "i * 32 + j"
  have j: "j < 32" "?n < node_count g" using Cons.prems(5) by simp_all
  note at = word_at [OF g stack_okD(1) [OF Cons.prems(1)] i] and an = tmp_at [OF g stack_okD(1) [OF Cons.prems(1)] j(2)]
  have J': "\<forall>x \<in> set js. \<forall>y \<in> insert j J. x < y" using Cons.prems(4,6) by auto
  show ?case
  proof (cases "open_node g (stack t) ?n")
    case False
    then have e: "word_open g (stack t) i (insert j J) = word_open g (stack t) i J" by (simp add: word_open_insert [OF j(1)])
    have "bit skip j" using False Cons.prems(8) by simp
    then show ?thesis using Cons.IH [of t "insert j J"] Cons.prems J' and_bit [OF j(1), of skip] unfolding e by simp
  next
    case True
    let ?q = "node_q_total t ! ?n" and ?m = "min_q_total t ! i" and ?k = "min_q_node t ! i"
    let ?m' = "if ?q < ?m then ?q else ?m" and ?k' = "if ?q < ?m then ?n else ?k"
    let ?t = "t\<lparr>min_q_total := (min_q_total t)[i := ?m'], min_q_node := (min_q_node t)[i := ?k']\<rparr>"
    have nb: "\<not> bit skip j" using True Cons.prems(8) by simp
    have "lowest L {?n} ?q ?n" using Cons.prems(2,3) [OF True] by (simp add: lowest_def below_max)
    moreover have "?n < y" if y: "y \<in> word_open g (stack t) i J" for y
    proof -
      have "j < y mod 32" "y div 32 = i" using y Cons.prems(6) by (auto simp: word_open_def)
      then show ?thesis using div_mult_mod_eq [of y 32] by linarith
    qed
    ultimately have "lowest L (word_open g (stack t) i J \<union> {?n}) ?m' ?k'" using Cons.prems(3) [OF True] by (intro lowest_less [OF Cons.prems(7)]) simp_all
    then have low: "lowest L (word_open g (stack t) i (insert j J)) ?m' ?k'" using True by (simp add: word_open_insert [OF j(1)])
    have eq: "stack ?t = stack t" "node_q_total ?t = node_q_total t" "min_q_total ?t ! i = ?m'" "min_q_node ?t ! i = ?k'" using at(4,5) by simp_all
    have so': "stack_ok g ?t" using Cons.prems(1) by (simp add: stack_ok_def tmp_ok_def)
    have L': "unat (node_q_total ?t ! x) = L x" "L x < 4294967295" if "open_node g (stack ?t) x" for x using Cons.prems(2,3) that unfolding eq by auto
    have js': "sorted_wrt (>) js" "\<forall>j \<in> set js. j < 32 \<and> i * 32 + j < node_count g" using Cons.prems(4,5) by simp_all
    have low': "lowest L (word_open g (stack ?t) i (insert j J)) (min_q_total ?t ! i) (min_q_node ?t ! i)" unfolding eq by (rule low)
    have sk': "\<forall>j \<in> set js. bit skip j \<longleftrightarrow> \<not> open_node g (stack ?t) (i * 32 + j)" using Cons.prems(8) by simp
    obtain m k where mk: "min_bits g i skip js ?t = Some (?t\<lparr>min_q_total := (min_q_total ?t)[i := m], min_q_node := (min_q_node ?t)[i := k]\<rparr>)"
      "lowest L (word_open g (stack t) i (insert j J \<union> set js)) m k"
      using Cons.IH [OF so' L' js' J' low' sk'] unfolding eq(1) by blast
    have run: "min_bits g i skip (j # js) t = min_bits g i skip js ?t"
      using nb and_bit [OF j(1), of skip] j(2) an(2) at(4,5) by (cases "?q < ?m") (simp_all add: Let_def)
    show ?thesis using run mk by (intro exI [of _ m] exI [of _ k]) simp
  qed
qed

section \<open>A round over the words\<close>

definition open_in :: "ra_graph \<Rightarrow> nat list \<Rightarrow> nat set \<Rightarrow> nat set" where
  "open_in g S W = {x. open_node g S x \<and> x div 32 \<in> W}"

lemma open_in_one: "i < BITSET_WORDS (node_count g) \<Longrightarrow> word_open g S i ({} \<union> set (bit_list (node_count g) i)) = open_in g S {i}"
  using set_bit_list [of i "node_count g"] div_mult_mod_eq [of _ 32] by (fastforce simp: word_open_def open_in_def open_node_def)

lemma open_in_insert: "open_in g S (insert i W) = open_in g S W \<union> open_in g S {i}"
  by (auto simp: open_in_def)

lemma load_small: "small_loads g \<Longrightarrow> open_node g S x \<Longrightarrow> load g S x < 4294967295"
  using load_mono [of "[]" S g x] by (auto simp: small_loads_def open_node_def intro: le_less_trans)

text \<open>Without a marked open node in a word, its recorded minimum is the lowest load.\<close>

lemma block_lowest:
  assumes "\<And>x. x \<in> open_in g (stack t) {i} \<Longrightarrow> x \<notin> ids (pq_test t)" "m = min_q_total t ! i" "m \<noteq> - 1"
  shows "block_min g t L i \<longleftrightarrow> lowest L (open_in g (stack t) {i}) m (min_q_node t ! i)"
proof
  assume b: "block_min g t L i"
  let ?k = "min_q_node t ! i"
  have k: "?k \<in> open_in g (stack t) {i}" using b unfolding block_min_def Let_def open_in_def by simp
  then have lk: "L ?k = unat m" using b assms(1,2) unfolding block_min_def Let_def by blast
  have "L ?k < L x \<or> L ?k = L x \<and> x \<le> ?k" if "x \<in> open_in g (stack t) {i}" for x
    using b assms(1) [OF that] that unfolding block_min_def Let_def lk assms(2) by (simp add: open_in_def)
  then show "lowest L (open_in g (stack t) {i}) m ?k" using k lk assms(3) by (auto simp: lowest_def)
next
  assume "lowest L (open_in g (stack t) {i}) m (min_q_node t ! i)"
  then show "block_min g t L i" using assms(2,3) unfolding block_min_def Let_def lowest_def open_in_def by (auto split: if_splits)
qed

definition round_inv :: "ra_graph \<Rightarrow> nat list \<Rightarrow> nat set \<Rightarrow> ra_tmp \<Rightarrow> bool \<Rightarrow> u32 \<Rightarrow> nat \<Rightarrow> bool" where
  "round_inv g S W t progress mt mn \<longleftrightarrow> q_inv g t (load g (stack t)) \<and>
     (if progress then length S < length (stack t)
      else stack t = S \<and> (\<forall>x \<in> open_in g S W. class_limit g x \<le> load g S x) \<and> lowest (load g S) (open_in g S W) mt mn)"

lemma fresh_min:
  assumes g: "sizes_ok g" "small_loads g" and i: "i < BITSET_WORDS (node_count g)" and inv: "q_inv g t (load g (stack t))"
    and un: "\<And>x. x \<in> open_in g (stack t) {i} \<Longrightarrow> x \<notin> ids (pq_test t)"
  shows "\<exists>t'. (if min_q_total t ! i = - 1 then min_bits g i (in_stack t ! i OR reg_assigned t ! i) (bit_list (node_count g) i) t else Some t) = Some t' \<and>
    q_inv g t' (load g (stack t)) \<and> stack t' = stack t \<and> node_reg t' = node_reg t \<and>
    lowest (load g (stack t)) (open_in g (stack t) {i}) (min_q_total t' ! i) (min_q_node t' ! i)"
proof (cases "min_q_total t ! i = - 1")
  case False
  then show ?thesis using inv q_invD(4) [OF inv i] block_lowest [of g t i, OF un refl] by auto
next
  case True
  let ?L = "load g (stack t)" and ?js = "bit_list (node_count g) i" and ?skip = "in_stack t ! i OR reg_assigned t ! i"
  have so: "stack_ok g t" by (rule q_invD(1) [OF inv])
  note at = word_at [OF g(1) stack_okD(1) [OF so] i]
  have js: "\<forall>j \<in> set ?js. j < 32 \<and> i * 32 + j < node_count g" using set_bit_list [OF i] by blast
  have sk: "\<forall>j \<in> set ?js. bit ?skip j \<longleftrightarrow> \<not> open_node g (stack t) (i * 32 + j)" using skip_bit [OF g(1) so i] js by blast
  have L: "unat (node_q_total t ! x) = ?L x" "?L x < 4294967295" if "open_node g (stack t) x" for x
    using q_invD(2) [OF inv that] load_small [OF g(2) that] by simp_all
  have l0: "lowest ?L (word_open g (stack t) i {}) (min_q_total t ! i) (min_q_node t ! i)" using True by (simp add: lowest_def word_open_def)
  obtain m k where mk: "min_bits g i ?skip ?js t = Some (t\<lparr>min_q_total := (min_q_total t)[i := m], min_q_node := (min_q_node t)[i := k]\<rparr>)"
    "lowest ?L (open_in g (stack t) {i}) m k"
    using min_bits_spec [OF g(1) i so L bit_list_desc js _ l0 sk] unfolding open_in_one [OF i] by blast
  let ?t = "t\<lparr>min_q_total := (min_q_total t)[i := m], min_q_node := (min_q_node t)[i := k]\<rparr>"
  have sel: "min_q_total ?t ! i = m" "min_q_node ?t ! i = k" "stack ?t = stack t" "pq_test ?t = pq_test t" using at(4,5) by simp_all
  have "stack_ok g ?t" using so by (simp add: stack_ok_def tmp_ok_def)
  moreover have "block_min g ?t ?L h" if h: "h < BITSET_WORDS (node_count g)" "min_q_total ?t ! h \<noteq> - 1" for h
  proof (cases "h = i")
    case True
    then show ?thesis using block_lowest [of g ?t i m ?L] h(2) mk(2) un unfolding sel True by auto
  next
    case False
    then show ?thesis using q_invD(4) [OF inv h(1)] h(2) by (simp add: block_min_def Let_def)
  qed
  ultimately have "q_inv g ?t ?L" using inv unfolding q_inv_def by simp
  then show ?thesis using True mk sel by simp
qed

lemma full_word_bit:
  assumes "i < BITSET_WORDS cnt" "j < 32" "i * 32 + j < cnt"
  shows "bit (drop_bit (31 - top_bit cnt i) (- 1 :: u32)) j"
  using top_bit_iff [OF assms(1), of j] assms(2,3) by (simp add: bit_mask_iff top_bit_def split: if_splits)

text \<open>The four ways through a word.\<close>

lemma word_steps:
  fixes g t i
  defines "skip \<equiv> in_stack t ! i OR reg_assigned t ! i" and "m \<equiv> drop_bit (31 - top_bit (node_count g) i) (- 1 :: u32)"
  defines "pq \<equiv> pq_test t ! i AND NOT skip"
  assumes at: "i < length (in_stack t)" "i < length (reg_assigned t)" "i < length (pq_test t)" "i < length (min_q_total t)"
  shows "skip = m \<Longrightarrow> simplify_words g (i # is) t p mt mn = simplify_words g is t p mt mn"
    "skip \<noteq> m \<Longrightarrow> pq \<noteq> 0 \<Longrightarrow> push_bits g i skip (bit_list (node_count g) i) pq p t = Some (t1, p1) \<Longrightarrow>
      simplify_words g (i # is) t p mt mn = simplify_words g is t1 p1 mt mn"
    "skip \<noteq> m \<Longrightarrow> pq = 0 \<Longrightarrow> p \<Longrightarrow> simplify_words g (i # is) t p mt mn = simplify_words g is t p mt mn"
    "skip \<noteq> m \<Longrightarrow> pq = 0 \<Longrightarrow> \<not> p \<Longrightarrow> (if min_q_total t ! i = - 1 then min_bits g i skip (bit_list (node_count g) i) t else Some t) = Some t1 \<Longrightarrow>
      i < length (min_q_total t1) \<Longrightarrow> i < length (min_q_node t1) \<Longrightarrow>
      simplify_words g (i # is) t p mt mn = simplify_words g is t1 p (if min_q_total t1 ! i < mt then min_q_total t1 ! i else mt)
        (if min_q_total t1 ! i < mt then min_q_node t1 ! i else mn)"
  unfolding simplify_words.simps(2) array_get_in [OF at(1)] array_get_in [OF at(2)] array_get_in [OF at(3)] array_get_in [OF at(4)]
    Option.bind.simps Let_def skip_def [symmetric] m_def [symmetric] pq_def [symmetric]
  by (simp_all only: if_True if_False simp_thms if_P if_not_P Option.bind.simps array_get_in prod.case split: if_split) blast

lemma simplify_words_spec:
  assumes g: "sizes_ok g" "edges_ok g" "small_loads g" and "is": "sorted_wrt (>) is" "\<forall>i \<in> set is. i < BITSET_WORDS (node_count g) \<and> (\<forall>w \<in> W. i < w)"
    and inv: "round_inv g S W t progress mt mn" and sim: "simplified g (stack t) k"
  shows "\<exists>t' progress' mt' mn'. simplify_words g is t progress mt mn = Some (t', progress', mt', mn') \<and>
    round_inv g S (W \<union> set is) t' progress' mt' mn' \<and> simplified g (stack t') k \<and> node_reg t' = node_reg t"
  using "is" inv sim
proof (induction "is" arbitrary: W t progress mt mn)
  case Nil
  then show ?case by simp
next
  case (Cons i "is")
  have i: "i < BITSET_WORDS (node_count g)" using Cons.prems(2) by simp
  have qi: "q_inv g t (load g (stack t))" using Cons.prems(3) by (simp add: round_inv_def)
  have so: "stack_ok g t" by (rule q_invD(1) [OF qi])
  note at = word_at [OF g(1) stack_okD(1) [OF so] i]
  let ?js = "bit_list (node_count g) i" and ?skip = "in_stack t ! i OR reg_assigned t ! i"
  let ?pq = "pq_test t ! i AND NOT ?skip" and ?m = "drop_bit (31 - top_bit (node_count g) i) (- 1 :: u32)"
  have js: "\<forall>j \<in> set ?js. j < 32 \<and> i * 32 + j < node_count g" using set_bit_list [OF i] by blast
  have sk: "\<forall>j \<in> set ?js. bit ?skip j \<longleftrightarrow> \<not> open_node g (stack t) (i * 32 + j)" using skip_bit [OF g(1) so i] js by blast
  have rest: "sorted_wrt (>) is" "\<forall>w \<in> set is. w < BITSET_WORDS (node_count g) \<and> (\<forall>v \<in> insert i W. w < v)" using Cons.prems(1,2) by auto
  have W: "W \<union> set (i # is) = insert i W \<union> set is" by simp
  have part: "x = i * 32 + x mod 32 \<and> x mod 32 < 32 \<and> x mod 32 \<in> set ?js" if x: "x \<in> open_in g (stack t) {i}" for x
    using x set_bit_list [OF i, of "x mod 32"] div_mult_mod_eq [of x 32] by (auto simp: open_in_def open_node_def)
  text \<open>The rest of the round, once the word is done.\<close>
  have go: ?case if "simplify_words g (i # is) t progress mt mn = simplify_words g is t1 p1 mt1 mn1" "round_inv g S (insert i W) t1 p1 mt1 mn1"
    "simplified g (stack t1) k" "node_reg t1 = node_reg t" for t1 p1 mt1 mn1
    using Cons.IH [OF rest that(2,3)] that(1,4) unfolding W by simp
  have same: "round_inv g S (insert i W) t progress mt mn" if "progress \<or> open_in g (stack t) {i} = {}"
  proof (cases progress)
    case False
    then have "open_in g S (insert i W) = open_in g S W" using that Cons.prems(3) by (simp add: open_in_insert [of g S i W] round_inv_def)
    then show ?thesis using Cons.prems(3) False by (auto simp: round_inv_def)
  qed (use Cons.prems(3) in \<open>simp add: round_inv_def\<close>)
  consider (full) "?skip = ?m" | (push) "?skip \<noteq> ?m" "?pq \<noteq> 0" | (skip) "?skip \<noteq> ?m" "?pq = 0" progress | (scan) "?skip \<noteq> ?m" "?pq = 0" "\<not> progress" by blast
  then show ?case
  proof cases
    case full
    have "open_in g (stack t) {i} = {}"
    proof (rule equals0I)
      fix x assume x: "x \<in> open_in g (stack t) {i}"
      have "bit ?skip (x mod 32)" unfolding full using full_word_bit [OF i, of "x mod 32"] part [OF x] x by (auto simp: open_in_def open_node_def)
      then show False using sk part [OF x] x by (auto simp: open_in_def)
    qed
    then show ?thesis using go [OF word_steps(1) [OF at(1-4) full] same Cons.prems(4) refl] by blast
  next
    case push
    obtain t1 p1 where t1: "push_bits g i ?skip ?js ?pq progress t = Some (t1, p1)" "q_inv g t1 (load g (stack t1))" "simplified g (stack t1) k"
      "node_reg t1 = node_reg t" "length (stack t) \<le> length (stack t1)" "(\<exists>j \<in> set ?js. bit ?pq j) \<longrightarrow> p1 \<and> length (stack t) < length (stack t1)"
      using push_bits_spec [OF g(1,2) i qi Cons.prems(4) desc_distinct [OF bit_list_desc] js refl sk] by blast
    obtain j where j: "j < 32" "bit ?pq j" using ffs_spec(1,2) [OF push(2)] by blast
    then have "bit (pq_test t ! i) j" by (simp add: bit_and_iff)
    then have "i * 32 + j < node_count g" using bit_ids [OF at(3) j(1)] stack_okD(7) [OF so, of "i * 32 + j"] i j(1) by simp
    then have "j \<in> set ?js" using set_bit_list [OF i] j(1) by blast
    then have p: "p1" "length (stack t) < length (stack t1)" using t1(6) j(2) by blast+
    have "length S \<le> length (stack t)" using Cons.prems(3) by (auto simp: round_inv_def split: if_splits)
    then have "round_inv g S (insert i W) t1 p1 mt mn" using p t1(2) by (simp add: round_inv_def)
    then show ?thesis by (rule go [OF word_steps(2) [OF at(1-4) push t1(1)] _ t1(3,4)])
  next
    case skip
    then show ?thesis using go [OF word_steps(3) [OF at(1-4) skip] same Cons.prems(4) refl] by blast
  next
    case scan
    then have st: "stack t = S" and old: "\<forall>x \<in> open_in g S W. class_limit g x \<le> load g S x" "lowest (load g S) (open_in g S W) mt mn"
      using Cons.prems(3) by (simp_all add: round_inv_def)
    have un: "x \<notin> ids (pq_test t)" if x: "x \<in> open_in g (stack t) {i}" for x
    proof
      assume "x \<in> ids (pq_test t)"
      then have "bit (pq_test t ! i) (x mod 32)" using bit_ids [OF at(3), of "x mod 32"] part [OF x] by simp
      moreover have "\<not> bit ?skip (x mod 32)" using sk part [OF x] x by (auto simp: open_in_def)
      ultimately have "bit ?pq (x mod 32)" using part [OF x] unfolding bit_and_iff bit_not_iff_eq by (simp add: bit_not_iff)
      then show False using scan(2) by simp
    qed
    obtain t1 where t1: "(if min_q_total t ! i = - 1 then min_bits g i ?skip ?js t else Some t) = Some t1"
      "q_inv g t1 (load g (stack t))" "stack t1 = stack t" "node_reg t1 = node_reg t"
      "lowest (load g (stack t)) (open_in g (stack t) {i}) (min_q_total t1 ! i) (min_q_node t1 ! i)"
      using fresh_min [OF g(1,3) i qi un] by blast
    note at1 = word_at [OF g(1) stack_okD(1) [OF q_invD(1) [OF t1(2)]] i]
    let ?q = "min_q_total t1 ! i"
    have "x < y" if "x \<in> open_in g S {i}" "y \<in> open_in g S W" for x y
    proof -
      have "x div 32 < y div 32" using that Cons.prems(2) by (auto simp: open_in_def)
      then show ?thesis using div_le_mono [of y x 32] by linarith
    qed
    moreover have "load g S x < 4294967295" if "x \<in> open_in g S {i}" for x using that load_small [OF g(3)] by (simp add: open_in_def)
    ultimately have low: "lowest (load g S) (open_in g S (insert i W)) (if ?q < mt then ?q else mt) (if ?q < mt then min_q_node t1 ! i else mn)"
      unfolding open_in_insert [of g S i W] using lowest_less [OF old(2) t1(5) [unfolded st]] by blast
    have "class_limit g x \<le> load g S x" if "x \<in> open_in g S {i}" for x
      using q_invD(3) [OF qi, of x] un that by (simp add: st open_in_def not_less)
    then have "round_inv g S (insert i W) t1 progress (if ?q < mt then ?q else mt) (if ?q < mt then min_q_node t1 ! i else mn)"
      using t1(2,3) low old(1) scan(3) unfolding round_inv_def open_in_insert [of g S i W] st by auto
    moreover have "simplified g (stack t1) k" using Cons.prems(4) t1(3) by simp
    ultimately show ?thesis by (rule go [OF word_steps(4) [OF at(1-4) scan t1(1) at1(4,5)] _ _ t1(4)])
  qed
qed

section \<open>All rounds\<close>

definition optimistic_start :: "nat option \<Rightarrow> u32" where
  "optimistic_start k = (case k of None \<Rightarrow> - 1 | Some h \<Rightarrow> of_nat h)"

lemma optimistic_start_None:
  assumes "simplified g S k" "node_count g \<le> max_nodes"
  shows "optimistic_start k = - 1 \<longleftrightarrow> k = None"
proof (cases k)
  case (Some h)
  have "h < length S" "length S \<le> node_count g" using assms(1) Some simplified_height simplified_stack [OF assms(1)] by (auto intro: stack_short)
  then have "unat (of_nat h :: u32) < 4294967295" using assms(2) by (simp add: max_nodes_def unat_of_nat take_bit_nat_eq_self)
  then show ?thesis using Some below_max [of "of_nat h"] by (simp add: optimistic_start_def)
qed (simp add: optimistic_start_def)

lemma optimistic_start_next:
  assumes "simplified g S k" "node_count g \<le> max_nodes"
  shows "(if optimistic_start k = - 1 then of_nat (length S) else optimistic_start k) = optimistic_start (Some (case k of None \<Rightarrow> length S | Some h \<Rightarrow> h))"
  using optimistic_start_None [OF assms] by (cases k) (simp_all add: optimistic_start_def)

lemma simplify_loop_spec:
  assumes g: "sizes_ok g" "edges_ok g" "small_loads g"
    and t: "q_inv g t (load g (stack t))" "simplified g (stack t) k" and fuel: "node_count g < length (stack t) + fuel"
  shows "\<exists>t' k'. simplify_loop fuel g t (optimistic_start k) = Some (t', optimistic_start k') \<and> q_inv g t' (load g (stack t')) \<and>
    simplified g (stack t') k' \<and> (\<forall>x. \<not> open_node g (stack t') x) \<and> node_reg t' = node_reg t"
  using t fuel
proof (induction fuel arbitrary: t k)
  case 0
  have "length (stack t) \<le> node_count g" using simplified_stack [OF 0(2)] by (intro stack_short) simp_all
  then show ?case using 0(3) by simp
next
  case (Suc fuel)
  have "round_inv g (stack t) {} t False (- 1) 4294967295" using Suc.prems(1) by (simp add: round_inv_def open_in_def lowest_def)
  from simplify_words_spec [OF g word_list_desc _ this Suc.prems(2), of "node_count g"]
  obtain t1 p mt mn where r: "simplify_words g (word_list (node_count g)) t False (- 1) 4294967295 = Some (t1, p, mt, mn)"
    "round_inv g (stack t) {..<BITSET_WORDS (node_count g)} t1 p mt mn" "simplified g (stack t1) k" "node_reg t1 = node_reg t"
    by auto
  have q1: "q_inv g t1 (load g (stack t1))" using r(2) by (simp add: round_inv_def)
  show ?case
  proof (cases p)
    case True
    then have "node_count g < length (stack t1) + fuel" using r(2) Suc.prems(3) by (simp add: round_inv_def)
    then show ?thesis using Suc.IH [OF q1 r(3)] r(1,4) True by simp
  next
    case False
    have all: "open_in g (stack t) {..<BITSET_WORDS (node_count g)} = {x. open_node g (stack t) x}"
      using word_index by (auto simp: open_in_def open_node_def)
    have st: "stack t1 = stack t" and none: "\<And>x. open_node g (stack t) x \<Longrightarrow> class_limit g x \<le> load g (stack t) x"
      and low: "lowest (load g (stack t)) {x. open_node g (stack t) x} mt mn"
      using r(2) False unfolding round_inv_def all by simp_all
    show ?thesis
    proof (cases "mt = - 1")
      case True
      then have "\<forall>x. \<not> open_node g (stack t) x" using low by (auto simp: lowest_def split: if_splits)
      then show ?thesis using r(1,3,4) q1 False True st by (intro exI [of _ t1] exI [of _ k]) simp
    next
      case no: False
      then have mn: "open_node g (stack t) mn" and best: "\<And>x. open_node g (stack t) x \<Longrightarrow> load g (stack t) mn < load g (stack t) x \<or> load g (stack t) mn = load g (stack t) x \<and> x \<le> mn"
        using low by (auto simp: lowest_def split: if_splits)
      obtain t2 where t2: "add_node_to_stack g t1 mn = Some t2" "q_inv g t2 (load g (stack t2))" "stack t2 = mn # stack t" "node_reg t2 = node_reg t1"
        using push_node_spec [OF g(1,2) q1, of mn] mn unfolding st by blast
      let ?k = "Some (case k of None \<Rightarrow> length (stack t) | Some h \<Rightarrow> h)"
      have s2: "simplified g (stack t2) ?k" unfolding t2(3) by (rule simplified.optimistic [OF Suc.prems(2) mn none best])
      have f2: "node_count g < length (stack t2) + fuel" using Suc.prems(3) t2(3) by simp
      have mx: "node_count g \<le> max_nodes" using sizes_okD(1,4) [OF g(1)] by simp
      have "simplify_loop (Suc fuel) g t (optimistic_start k) = simplify_loop fuel g t2 (optimistic_start ?k)"
        unfolding optimistic_start_next [OF Suc.prems(2) mx, symmetric] using r(1) False no t2(1) st by (simp add: Let_def)
      then show ?thesis using Suc.IH [OF t2(2) s2 f2] t2(4) r(4) by simp
    qed
  qed
qed

text \<open>The result of the simplification.\<close>

definition pushable :: "ra_graph \<Rightarrow> nat option \<Rightarrow> bool" where
  "pushable g k \<longleftrightarrow> stack_ok g (tmp g) \<and> simplified g (stack (tmp g)) k \<and> (\<forall>x. \<not> open_node g (stack (tmp g)) x) \<and>
     stack_optimistic_start (tmp g) = optimistic_start k \<and> (\<forall>n < node_count g. node_reg (tmp g) ! n = forced_reg (nodes g ! n))"

lemma simplified_tmp: "simplified g S k \<Longrightarrow> simplified (g\<lparr>tmp := t\<rparr>) S k"
proof (induction rule: simplified.induct)
  case (push S k n)
  then show ?case by (intro simplified.push) (simp_all add: open_node_def load_def class_limit_def adj_def qw_def cls_def)
next
  case (optimistic S k n)
  then show ?case by (intro simplified.optimistic) (simp_all add: open_node_def load_def class_limit_def adj_def qw_def cls_def)
qed (rule simplified.start)

lemma simplify_spec:
  assumes "graph_ok g" "small_loads g"
  shows "\<exists>t k. ra_simplify g = Some (g\<lparr>tmp := t\<rparr>) \<and> pushable (g\<lparr>tmp := t\<rparr>) k"
proof -
  have g: "sizes_ok g" "edges_ok g" using assms(1) by (simp_all add: graph_ok_def)
  obtain t where t: "setup_words g (word_list (node_count g)) ((tmp g)\<lparr>stack := []\<rparr>) = Some t" "stack t = []" "q_inv g t (load g [])"
    "\<forall>n < node_count g. node_reg t ! n = forced_reg (nodes g ! n)" using setup_spec [OF assms] by blast
  have i: "q_inv g t (load g (stack t))" "simplified g (stack t) None" using t(2,3) simplified.start by simp_all
  have f: "node_count g < length (stack t) + (node_count g + 1)" by simp
  obtain t' k where t': "simplify_loop (node_count g + 1) g t (- 1) = Some (t', optimistic_start k)" "q_inv g t' (load g (stack t'))"
    "simplified g (stack t') k" "\<forall>x. \<not> open_node g (stack t') x" "node_reg t' = node_reg t"
    using simplify_loop_spec [OF g assms(2) i f] by (auto simp: optimistic_start_def)
  let ?t = "t'\<lparr>stack_optimistic_start := optimistic_start k\<rparr>"
  have "stack_ok (g\<lparr>tmp := ?t\<rparr>) ?t" using q_invD(1) [OF t'(2)] by (simp add: stack_ok_def tmp_ok_def)
  moreover have "simplified (g\<lparr>tmp := ?t\<rparr>) (stack ?t) k" using simplified_tmp [OF t'(3)] by simp
  ultimately have "pushable (g\<lparr>tmp := ?t\<rparr>) k" using t'(4,5) t(4) by (simp add: pushable_def open_node_def)
  moreover have "ra_simplify g = Some (g\<lparr>tmp := ?t\<rparr>)" using t(1) t'(1) by (simp add: ra_simplify_def del: simplify_loop.simps)
  ultimately show ?thesis by blast
qed

end
