(* ===== verification/Ra_Select_Correct.thy ===== *)
theory Ra_Select_Correct
  imports Ra_Rounds_Correct
begin

text \<open>
  The selection. A register is available for a node when it is in the class of the node and clashes with no coloured neighbour;
  both ways of searching find one exactly when there is one. A node that passed the test when it was pushed always has one.
\<close>

section \<open>Clashes\<close>

definition node_clash :: "ra_graph \<Rightarrow> nat \<Rightarrow> nat \<Rightarrow> nat \<Rightarrow> nat \<Rightarrow> bool" where
  "node_clash g n r m s \<longleftrightarrow> clash (graph_regs g) (cls g n) r (cls g m) s"

lemma final_okD:
  assumes "final_ok rs" "c \<in> set (classes rs)"
  shows "class_ok rs c" "length (class_q c) = class_count rs" "d \<in> set (classes rs) \<Longrightarrow> contig_len c = 0 \<longleftrightarrow> contig_len d = 0"
    "contig_len c = 0 \<Longrightarrow> regs_ok rs"
  using assms unfolding final_ok_def by blast+

lemma regs_okD:
  assumes "regs_ok rs" "r < reg_count rs"
  shows "length (conflicts (regs rs ! r)) = BITSET_WORDS (reg_count rs)" "conf rs r \<subseteq> {..<reg_count rs}" "s \<in> conf rs r \<Longrightarrow> r \<in> conf rs s"
  using assms unfolding regs_ok_def by blast+

lemma clash_sym:
  assumes f: "final_ok rs" and c: "b \<in> set (classes rs)" "c \<in> set (classes rs)" and r: "r < reg_count rs" "s < reg_count rs"
  shows "clash rs b r c s \<longleftrightarrow> clash rs c s b r"
proof (cases "contig_len b = 0")
  case True
  then have "contig_len c = 0" "regs_ok rs" using final_okD(3,4) [OF f c(1)] c(2) by blast+
  then show ?thesis using True regs_okD(3) [of rs] r by (auto simp: clash_def)
next
  case False
  then have "contig_len c \<noteq> 0" using final_okD(3) [OF f c(1) c(2)] by simp
  then show ?thesis using False by (auto simp: clash_def)
qed

lemma allocations_conflict_eq:
  assumes f: "final_ok rs" and c: "b \<in> set (classes rs)" "c \<in> set (classes rs)" and r: "r < reg_count rs" "s < reg_count rs"
  shows "ra_class_allocations_conflict rs b r c s = Some (clash rs b r c s)"
proof (cases "contig_len b = 0")
  case True
  then have "regs_ok rs" using final_okD(4) [OF f c(1)] by blast
  then have "s div 32 < length (conflicts (regs rs ! r))" using regs_okD(1) r word_index by simp
  then show ?thesis using True r(1) by (simp add: ra_class_allocations_conflict_def clash_def BITSET_TEST_eq conf_def)
next
  case False
  then have "contig_len c \<noteq> 0" using final_okD(3) [OF f c(1) c(2)] by simp
  then show ?thesis using False by (auto simp: ra_class_allocations_conflict_def clash_def Let_def)
qed

section \<open>Available registers\<close>

text \<open>The state between two pops, with the nodes \<open>S\<close> still on the stack.\<close>

definition sel_ok :: "ra_graph \<Rightarrow> nat list \<Rightarrow> ra_tmp \<Rightarrow> bool" where
  "sel_ok g S t \<longleftrightarrow> tmp_ok (alloc g) t \<and> (\<forall>x < node_count g. (x \<in> ids (in_stack t) \<longleftrightarrow> x \<in> set S) \<and>
     (x \<notin> set S \<longrightarrow> node_reg t ! x < reg_count (graph_regs g)))"

definition taken :: "ra_graph \<Rightarrow> nat list \<Rightarrow> ra_tmp \<Rightarrow> nat \<Rightarrow> nat \<Rightarrow> nat \<Rightarrow> bool" where
  "taken g S t n r m \<longleftrightarrow> m \<notin> set S \<and> m \<noteq> n \<and> node_clash g n r m (node_reg t ! m)"

definition avail :: "ra_graph \<Rightarrow> nat list \<Rightarrow> ra_tmp \<Rightarrow> nat \<Rightarrow> nat set" where
  "avail g S t n = {r \<in> members (cls g n). \<forall>m \<in> adj g n. \<not> taken g S t n r m}"

text \<open>The state with the top of the stack popped but not yet coloured.\<close>

definition popped :: "ra_graph \<Rightarrow> nat list \<Rightarrow> ra_tmp \<Rightarrow> nat \<Rightarrow> bool" where
  "popped g S t n \<longleftrightarrow> tmp_ok (alloc g) t \<and> n < node_count g \<and> (\<forall>x < node_count g. (x \<in> ids (in_stack t) \<longleftrightarrow> x \<in> set S) \<and>
     (x \<notin> set S \<and> x \<noteq> n \<longrightarrow> node_reg t ! x < reg_count (graph_regs g)))"

abbreviation alloc_ok :: "ra_graph \<Rightarrow> bool" where
  "alloc_ok g \<equiv> sizes_ok g \<and> edges_ok g \<and> final_ok (graph_regs g)"

lemma nb:
  assumes "alloc_ok g" "n < node_count g" "m \<in> adj g n"
  shows "m < node_count g" "m < alloc g" "n < alloc g" "m \<noteq> n" "n \<in> adj g m" "cls g n \<in> set (classes (graph_regs g))" "cls g m \<in> set (classes (graph_regs g))"
    "ra_get_node_class g n = Some (cls g n)" "ra_get_node_class g m = Some (cls g m)"
proof -
  have g: "sizes_ok g" "edges_ok g" using assms(1) by simp_all
  show n: "n < alloc g" using assms(2) sizes_okD(1) [OF g(1)] by simp
  show "m < node_count g" "m \<noteq> n" "n \<in> adj g m" using edges_okD(3,5,6) [OF g(2) n assms(3)] by simp_all
  then show m: "m < alloc g" using sizes_okD(1) [OF g(1)] by simp
  show "cls g n \<in> set (classes (graph_regs g))" "cls g m \<in> set (classes (graph_regs g))" using cls_in [OF g(2)] n m by blast+
  show "ra_get_node_class g n = Some (cls g n)" "ra_get_node_class g m = Some (cls g m)" using class_of_eq [OF g] n m by blast+
qed

lemma find_conflicting_eq:
  assumes g: "alloc_ok g" and p: "popped g S t n" and ns: "set ns \<subseteq> adj g n" and r: "r < reg_count (graph_regs g)"
  shows "find_conflicting g t n r ns = Some (find (taken g S t n r) ns)"
  using ns
proof (induction ns)
  case (Cons m ns)
  have n: "n < node_count g" using p by (simp add: popped_def)
  note d = nb [OF g n, of m]
  have m: "m < node_count g" "m \<noteq> n" "m < alloc g" using d Cons.prems by simp_all
  have t: "tmp_ok (alloc g) t" "m \<in> ids (in_stack t) \<longleftrightarrow> m \<in> set S" "m \<notin> set S \<Longrightarrow> node_reg t ! m < reg_count (graph_regs g)"
    using p m by (simp_all add: popped_def)
  have at: "m div 32 < length (in_stack t)" "m < length (node_reg t)" using tmp_at(3,1) [OF _ t(1) m(1)] g by simp_all
  show ?case
  proof (cases "m \<in> set S")
    case True
    then show ?thesis using Cons t(2) at(1) by (simp add: BITSET_TEST_eq taken_def)
  next
    case False
    then have "ra_class_allocations_conflict (graph_regs g) (cls g n) r (cls g m) (node_reg t ! m) = Some (taken g S t n r m)"
      using allocations_conflict_eq [of "graph_regs g"] g d Cons.prems r t(3) m(2) by (simp add: taken_def node_clash_def)
    then show ?thesis using Cons False t(2) at d by (simp add: BITSET_TEST_eq)
  qed
qed simp

lemma find_neighbour_eq:
  assumes g: "alloc_ok g" and p: "popped g S t n" and r: "r < reg_count (graph_regs g)"
  shows "ra_find_conflicting_neighbor g t n r = Some (find (taken g S t n r) (adjacency_list (nodes g ! n)))"
proof -
  have "n < length (nodes g)" using p g by (simp add: popped_def sizes_ok_def)
  then show ?thesis using find_conflicting_eq [OF g p _ r, of "adjacency_list (nodes g ! n)"] by (simp add: ra_find_conflicting_neighbor_def adj_def)
qed

section \<open>The search\<close>

text \<open>The coloured neighbours of a node have registers of their classes.\<close>

definition placed :: "ra_graph \<Rightarrow> nat list \<Rightarrow> ra_tmp \<Rightarrow> nat \<Rightarrow> bool" where
  "placed g S t n \<longleftrightarrow> (\<forall>m \<in> adj g n. m \<notin> set S \<longrightarrow> node_reg t ! m \<in> members (cls g m))"

lemma skip_taken:
  assumes f: "final_ok (graph_regs g)" and c: "cls g n \<in> set (classes (graph_regs g))" "cls g m \<in> set (classes (graph_regs g))"
    and t: "taken g S t n r m" and l: "contig_len (cls g m) \<noteq> 0" and s: "r \<le> s" "s \<le> node_reg t ! m + contig_len (cls g m) - 1"
  shows "taken g S t n s m"
proof -
  have "contig_len (cls g n) \<noteq> 0" using final_okD(3) [OF f c] l by simp
  then show ?thesis using t l s by (auto simp: taken_def node_clash_def clash_def)
qed

lemma search_spec:
  assumes g: "alloc_ok g" and p: "popped g S t n"
  shows "\<exists>x. search_reg g t n (cls g n) start ri = Some x \<and> (\<forall>r. x = Some r \<longrightarrow> r \<in> avail g S t n) \<and>
    (x = None \<and> placed g S t n \<longrightarrow> (\<forall>i. ri \<le> i \<and> i < reg_count (graph_regs g) \<longrightarrow> (start + i) mod reg_count (graph_regs g) \<notin> avail g S t n))"
proof (induction "reg_count (graph_regs g) - ri" arbitrary: ri rule: less_induct)
  case less
  let ?cnt = "reg_count (graph_regs g)" and ?c = "cls g n"
  have n: "n < node_count g" using p by (simp add: popped_def)
  have nc: "?c \<in> set (classes (graph_regs g))" using cls_in g n sizes_okD(1) by (meson order.strict_trans2)
  note ck = final_okD(1) [OF conjunct2 [OF conjunct2 [OF g]] nc]
  show ?case
  proof (cases "ri < ?cnt")
    case False
    then have "search_reg g t n ?c start ri = Some None" by (subst search_reg.simps) simp
    then show ?thesis using False by auto
  next
    case True
    let ?r = "(start + ri) mod ?cnt"
    have r: "?r < ?cnt" using True by (intro mod_less_divisor) linarith
    have bel: "reg_belongs_to_class ?r ?c = Some (?r \<in> members ?c)"
      using r ck word_index by (simp add: reg_belongs_to_class_def BITSET_TEST_eq class_ok_def)
    have fn: "ra_find_conflicting_neighbor g t n ?r = Some (find (taken g S t n ?r) (adjacency_list (nodes g ! n)))" by (rule find_neighbour_eq [OF g p r])
    have step: ?thesis if "search_reg g t n ?c start ri = search_reg g t n ?c start ri'" "ri < ri'"
      "placed g S t n \<Longrightarrow> \<forall>i. ri \<le> i \<and> i < ri' \<and> i < ?cnt \<longrightarrow> (start + i) mod ?cnt \<notin> avail g S t n" for ri'
    proof -
      have "?cnt - ri' < ?cnt - ri" using that(2) True by simp
      from less [OF this] show ?thesis unfolding that(1) using that(3) by (metis not_le)
    qed
    consider (out) "?r \<notin> members ?c" | (found) "?r \<in> members ?c" "find (taken g S t n ?r) (adjacency_list (nodes g ! n)) = None"
      | (hit) m where "?r \<in> members ?c" "find (taken g S t n ?r) (adjacency_list (nodes g ! n)) = Some m" by fastforce
    then show ?thesis
    proof cases
      case out
      have "search_reg g t n ?c start ri = search_reg g t n ?c start (ri + 1)" using True bel out by (subst search_reg.simps) (simp add: Let_def)
      moreover have "\<forall>i. ri \<le> i \<and> i < ri + 1 \<and> i < ?cnt \<longrightarrow> (start + i) mod ?cnt \<notin> avail g S t n" using out by (auto simp: avail_def dest: le_antisym)
      ultimately show ?thesis using step by simp
    next
      case found
      have "search_reg g t n ?c start ri = Some (Some ?r)" using True bel fn found by (subst search_reg.simps) (simp add: Let_def)
      moreover have "?r \<in> avail g S t n" using found by (auto simp: avail_def adj_def find_None_iff)
      ultimately show ?thesis by simp
    next
      case (hit m)
      have m: "m \<in> adj g n" "taken g S t n ?r m" using hit(2) by (auto simp: find_Some_iff adj_def)
      note d = nb [OF g n m(1)]
      have at: "m < length (node_reg t)" using tmp_at(1) [of g t m] p g d(1) by (simp add: popped_def)
      have na: "?r \<notin> avail g S t n" using m by (auto simp: avail_def)
      show ?thesis
      proof (cases "contig_len (cls g m) = 0")
        case True2: True
        have "search_reg g t n ?c start ri = search_reg g t n ?c start (ri + 1)"
          using True bel fn hit d(9) at True2 by (subst search_reg.simps) (simp add: Let_def)
        moreover have "\<forall>i. ri \<le> i \<and> i < ri + 1 \<and> i < ?cnt \<longrightarrow> (start + i) mod ?cnt \<notin> avail g S t n" using na by (auto dest: le_antisym)
        ultimately show ?thesis using step by simp
      next
        case False
        let ?e = "node_reg t ! m + contig_len (cls g m) - 1"
        have "contig_len (cls g n) \<noteq> 0" using final_okD(3) [OF conjunct2 [OF conjunct2 [OF g]] d(6,7)] False by blast
        then have "?r < node_reg t ! m + contig_len (cls g m)" using m(2) unfolding taken_def node_clash_def clash_def by presburger
        then have e: "?r \<le> ?e" by linarith
        have run: "search_reg g t n ?c start ri = search_reg g t n ?c start (ri + (?e - ?r) + 1)"
          using True bel fn hit d(9) at False e by (subst search_reg.simps) (simp add: Let_def)
        have "(start + i) mod ?cnt \<notin> avail g S t n" if pl: "placed g S t n" and i: "ri \<le> i" "i < ri + (?e - ?r) + 1" for i
        proof -
          have "node_reg t ! m \<in> members (cls g m)" using pl m by (simp add: placed_def taken_def)
          then have "?e < ?cnt" using final_okD(1) [of "graph_regs g" "cls g m"] g d(7) False by (auto simp: class_ok_def)
          then have lt: "?r + (i - ri) < ?cnt" "?r + (i - ri) \<le> ?e" using i e by linarith+
          have "(start + i) mod ?cnt = ((start + ri) + (i - ri)) mod ?cnt" using i(1) by simp
          also have "\<dots> = (?r + (i - ri)) mod ?cnt" by (simp add: mod_add_left_eq)
          also have "\<dots> = ?r + (i - ri)" using lt(1) by simp
          finally have "taken g S t n ((start + i) mod ?cnt) m"
            using skip_taken [OF _ d(6,7) m(2) False _ lt(2)] g by simp
          then show ?thesis using m(1) by (auto simp: avail_def)
        qed
        then show ?thesis using step [OF run] by simp
      qed
    qed
  qed
qed

lemma residues: "r < c \<Longrightarrow> \<exists>i < c. (s + i) mod c = r" for r c s :: nat
proof -
  assume r: "r < c"
  let ?i = "(r + (c - s mod c)) mod c"
  have "(s + ?i) mod c = (s mod c + (r + (c - s mod c))) mod c" by (simp add: mod_add_left_eq mod_add_right_eq)
  also have "s mod c + (r + (c - s mod c)) = r + c" using mod_less_divisor [of c s] r by linarith
  finally have "(s + ?i) mod c = r" using r by simp
  then show ?thesis using r by (intro exI [of _ ?i]) simp
qed

section \<open>The set of available registers\<close>

lemma clear_bits_eq: "\<forall>i \<in> set is. i div 32 < length x \<Longrightarrow> \<exists>y. clear_bits x is = Some y \<and> length y = length x \<and> ids y = ids x - set is"
proof (induction "is" arbitrary: x)
  case (Cons i "is")
  obtain y where y: "BITSET_CLEAR x i = Some y" "length y = length x" "ids y = ids x - {i}" using BITSET_CLEAR_eq [of i x] Cons.prems by auto
  then show ?case using Cons.IH [of y] Cons.prems by auto
qed simp

lemma andnot_words_eq:
  assumes "length x = n" "length y = n"
  shows "\<exists>z. andnot_words n x y = Some z \<and> length z = n \<and> ids z = ids x - ids y"
proof -
  have "ids (map2 (\<lambda>a b. a AND NOT b) x y) = ids x - ids y"
    using assms by (auto simp: ids_def bit_and_iff bit_not_iff)
  then show ?thesis using assms by (simp add: andnot_words_def)
qed

lemma remove_neighbours_spec:
  assumes g: "alloc_ok g" and p: "popped g S t n" and ns: "set ns \<subseteq> adj g n"
    and x: "length x = BITSET_WORDS (reg_count (graph_regs g))" "ids x \<subseteq> {..<reg_count (graph_regs g)}"
  shows "\<exists>y. remove_neighbours g t (cls g n) ns x = Some y \<and> length y = length x \<and>
    ids y = {r \<in> ids x. \<forall>m \<in> set ns. \<not> taken g S t n r m}"
  using ns x
proof (induction ns arbitrary: x)
  case Nil
  then show ?case by simp
next
  case (Cons m ns)
  let ?cnt = "reg_count (graph_regs g)"
  have n: "n < node_count g" using p by (simp add: popped_def)
  have mn: "m \<in> adj g n" using Cons.prems(1) by simp
  note d = nb [OF g n mn]
  have f: "final_ok (graph_regs g)" using g by simp
  have t: "tmp_ok (alloc g) t" "m \<in> ids (in_stack t) \<longleftrightarrow> m \<in> set S" "m \<notin> set S \<Longrightarrow> node_reg t ! m < ?cnt"
    using p d(1,4) by (simp_all add: popped_def)
  have at: "m div 32 < length (in_stack t)" "m < length (node_reg t)" using tmp_at(3,1) [OF _ t(1) d(1)] g by simp_all
  have "\<exists>y. (if m \<in> set S then Some x
      else if contig_len (cls g n) \<noteq> 0
      then clear_bits x [node_reg t ! m + 1 - contig_len (cls g n)..<min ?cnt (node_reg t ! m + contig_len (cls g m))]
      else do { reg2 \<leftarrow> array_get (regs (graph_regs g)) (node_reg t ! m); andnot_words (BITSET_WORDS ?cnt) x (conflicts reg2) }) = Some y \<and>
    length y = length x \<and> ids y = {r \<in> ids x. \<not> taken g S t n r m}"
  proof (cases "m \<in> set S")
    case True
    then show ?thesis by (simp add: taken_def)
  next
    case out: False
    let ?s = "node_reg t ! m"
    show ?thesis
    proof (cases "contig_len (cls g n) = 0")
      case False
      have tk: "taken g S t n r m \<longleftrightarrow> ?s < r + contig_len (cls g n) \<and> r < ?s + contig_len (cls g m)" for r
        using out d(4) False by (simp add: taken_def node_clash_def clash_def)
      obtain y where y: "clear_bits x [?s + 1 - contig_len (cls g n)..<min ?cnt (?s + contig_len (cls g m))] = Some y" "length y = length x"
        "ids y = ids x - {?s + 1 - contig_len (cls g n)..<min ?cnt (?s + contig_len (cls g m))}"
        using clear_bits_eq [of "[?s + 1 - contig_len (cls g n)..<min ?cnt (?s + contig_len (cls g m))]" x] Cons.prems(2) word_index by auto
      have "ids y = {r \<in> ids x. \<not> taken g S t n r m}" using Cons.prems(3) unfolding y(3) tk by auto
      then show ?thesis using out False y(1,2) by simp
    next
      case True
      have ro: "regs_ok (graph_regs g)" by (rule final_okD(4) [OF f d(6) True])
      have s: "?s < ?cnt" by (rule t(3) [OF out])
      obtain y where y: "andnot_words (BITSET_WORDS ?cnt) x (conflicts (regs (graph_regs g) ! ?s)) = Some y" "length y = BITSET_WORDS ?cnt"
        "ids y = ids x - conf (graph_regs g) ?s"
        using andnot_words_eq [OF Cons.prems(2) regs_okD(1) [OF ro s]] by (auto simp: conf_def)
      have tk: "taken g S t n r m \<longleftrightarrow> r \<in> conf (graph_regs g) ?s" if "r < ?cnt" for r
        using out d(4) True regs_okD(3) [OF ro s] regs_okD(3) [OF ro that] by (auto simp: taken_def node_clash_def clash_def)
      have "ids y = {r \<in> ids x. \<not> taken g S t n r m}" using Cons.prems(3) tk unfolding y(3) by auto
      then show ?thesis using out True y(1,2) s Cons.prems(2) by simp
    qed
  qed
  then obtain y where y: "(if m \<in> set S then Some x
      else if contig_len (cls g n) \<noteq> 0
      then clear_bits x [node_reg t ! m + 1 - contig_len (cls g n)..<min ?cnt (node_reg t ! m + contig_len (cls g m))]
      else do { reg2 \<leftarrow> array_get (regs (graph_regs g)) (node_reg t ! m); andnot_words (BITSET_WORDS ?cnt) x (conflicts reg2) }) = Some y"
    "length y = length x" "ids y = {r \<in> ids x. \<not> taken g S t n r m}" by blast
  have run: "remove_neighbours g t (cls g n) (m # ns) x = remove_neighbours g t (cls g n) ns y"
    using y(1) d(9) at t(2) by (cases "m \<in> set S") (simp_all add: BITSET_TEST_eq)
  have "length y = BITSET_WORDS ?cnt" "ids y \<subseteq> {..<?cnt}" using y(2,3) Cons.prems(2,3) by auto
  then obtain z where "remove_neighbours g t (cls g n) ns y = Some z" "length z = length y" "ids z = {r \<in> ids y. \<forall>m \<in> set ns. \<not> taken g S t n r m}"
    using Cons.IH [of y] Cons.prems(1) by auto
  then show ?case using run y(2,3) by auto
qed

lemma ids_nonzero: "(\<exists>v \<in> set x. v \<noteq> 0) \<longleftrightarrow> ids x \<noteq> {}"
proof
  assume "\<exists>v \<in> set x. v \<noteq> 0"
  then obtain i where i: "i < length x" "x ! i \<noteq> 0" by (auto simp: in_set_conv_nth)
  then have "i * 32 + (ffs (x ! i) - 1) \<in> ids x" using ffs_spec(1,2) [OF i(2)] word_bits by simp
  then show "ids x \<noteq> {}" by blast
next
  assume "ids x \<noteq> {}"
  then obtain b where "b div 32 < length x" "bit (x ! (b div 32)) (b mod 32)" by (auto simp: ids_def)
  then show "\<exists>v \<in> set x. v \<noteq> 0" by (intro bexI [of _ "x ! (b div 32)"]) auto
qed

lemma compute_available_spec:
  assumes g: "alloc_ok g" and p: "popped g S t n"
  shows "\<exists>x. ra_compute_available_regs g t n = Some (x, avail g S t n \<noteq> {}) \<and> ids x = avail g S t n"
proof -
  have n: "n < node_count g" "n < alloc g" using p g sizes_okD(1) [of g] by (auto simp: popped_def)
  have c: "cls g n \<in> set (classes (graph_regs g))" "ra_get_node_class g n = Some (cls g n)" using cls_in class_of_eq g n(2) by blast+
  have ck: "length (class_regs (cls g n)) = BITSET_WORDS (reg_count (graph_regs g))" "members (cls g n) \<subseteq> {..<reg_count (graph_regs g)}"
    using final_okD(1) [of "graph_regs g", OF _ c(1)] g by (simp_all add: class_ok_def)
  obtain x where x: "remove_neighbours g t (cls g n) (adjacency_list (nodes g ! n)) (class_regs (cls g n)) = Some x"
    "length x = BITSET_WORDS (reg_count (graph_regs g))" "ids x = avail g S t n"
    using remove_neighbours_spec [OF g p, of "adjacency_list (nodes g ! n)" "class_regs (cls g n)"] ck by (auto simp: adj_def avail_def)
  have nl: "n < length (nodes g)" using n(2) g sizes_okD(2) by metis
  then show ?thesis using c(2) ck(1) x ids_nonzero [of x] by (intro exI [of _ x]) (simp add: ra_compute_available_regs_def Let_def)
qed

section \<open>Choosing a register\<close>

text \<open>A callback chooses one of the registers it is offered.\<close>

definition callback_ok :: "ra_graph \<Rightarrow> bool" where
  "callback_ok g \<longleftrightarrow> (\<forall>cb n x. select_reg_callback g = Some cb \<and> ids x \<noteq> {} \<longrightarrow> cb n x \<in> ids x)"

lemma pick_spec:
  assumes g: "alloc_ok g" "callback_ok g" and p: "popped g S t n"
  shows "\<exists>x. pick_reg g t n start = Some x \<and> (\<forall>r. x = Some r \<longrightarrow> r \<in> avail g S t n) \<and> (x = None \<and> placed g S t n \<longrightarrow> avail g S t n = {})"
proof -
  have n: "n < alloc g" using p g(1) sizes_okD(1) [of g] by (auto simp: popped_def)
  have c: "cls g n \<in> set (classes (graph_regs g))" "ra_get_node_class g n = Some (cls g n)" using cls_in class_of_eq g(1) n by blast+
  have sub: "avail g S t n \<subseteq> {..<reg_count (graph_regs g)}"
    using final_okD(1) [of "graph_regs g", OF _ c(1)] g(1) by (auto simp: class_ok_def avail_def)
  show ?thesis
  proof (cases "select_reg_callback g")
    case None
    obtain x where x: "search_reg g t n (cls g n) start 0 = Some x" "\<forall>r. x = Some r \<longrightarrow> r \<in> avail g S t n"
      "x = None \<and> placed g S t n \<longrightarrow> (\<forall>i. 0 \<le> i \<and> i < reg_count (graph_regs g) \<longrightarrow> (start + i) mod reg_count (graph_regs g) \<notin> avail g S t n)"
      using search_spec [OF g(1) p, of start 0] by blast
    have "avail g S t n = {}" if "x = None \<and> placed g S t n"
    proof (rule equals0I)
      fix r assume r: "r \<in> avail g S t n"
      then obtain i where "i < reg_count (graph_regs g)" "(start + i) mod reg_count (graph_regs g) = r" using residues [of r] sub by blast
      then show False using x(3) that r by auto
    qed
    then show ?thesis using x(1,2) None c(2) by (intro exI [of _ x]) (simp add: pick_reg_def)
  next
    case (Some cb)
    obtain x where x: "ra_compute_available_regs g t n = Some (x, avail g S t n \<noteq> {})" "ids x = avail g S t n" using compute_available_spec [OF g(1) p] by blast
    show ?thesis
    proof (cases "avail g S t n = {}")
      case True
      then show ?thesis using Some x(1) by (intro exI [of _ None]) (simp add: pick_reg_def)
    next
      case False
      then have "cb n x \<in> avail g S t n" using g(2) Some x(2) by (auto simp: callback_ok_def)
      then show ?thesis using Some x(1) False sub by (intro exI [of _ "Some (cb n x)"]) (auto simp: pick_reg_def Let_def)
    qed
  qed
qed

section \<open>Nodes that passed the test\<close>

lemma avail_nonempty:
  assumes g: "alloc_ok g" and p: "popped g S t n" "placed g S t n" and l: "load g S n < class_limit g n"
  shows "avail g S t n \<noteq> {}"
proof -
  let ?rs = "graph_regs g" and ?c = "cls g n" and ?A = "adj g n - set S"
  have n: "n < node_count g" "n < alloc g" using p g sizes_okD(1) [of g] by (auto simp: popped_def)
  have c: "?c \<in> set (classes ?rs)" using cls_in g n(2) by blast
  have "(\<Sum>m \<in> ?A. worst ?rs ?c (cls g m)) \<le> load g S n" unfolding load_def
  proof (rule sum_mono)
    fix m assume "m \<in> ?A"
    then have "m < alloc g" using nb(2) [OF g n(1)] by simp
    then have "node_class (nodes g ! n) < class_count ?rs" "node_class (nodes g ! m) < class_count ?rs" using edges_okD(1) g n(2) by blast+
    then show "worst ?rs ?c (cls g m) \<le> unat (qw g n m)" using g unfolding final_ok_def qw_def cls_def by blast
  qed
  moreover have "class_limit g n = card (members ?c)" using final_okD(1) [of ?rs, OF _ c] g by (simp add: class_limit_def class_ok_def)
  ultimately have "(\<Sum>m \<in> ?A. worst ?rs ?c (cls g m)) < card (members ?c)" using l by simp
  then obtain r where "r \<in> members ?c" "\<forall>m \<in> ?A. r \<notin> hits ?rs ?c (cls g m) (node_reg t ! m)"
    using pq.one_left [of ?A "\<lambda>m. node_reg t ! m" "cls g" ?rs ?c] p(2) by (auto simp: placed_def adj_def)
  then show ?thesis by (auto simp: avail_def taken_def node_clash_def hits_def)
qed

end
