(* ===== verification/Ra_Allocate_Correct.thy ===== *)
theory Ra_Allocate_Correct
  imports Ra_Select_Correct
begin

text \<open>The whole allocation: what the registers of the nodes satisfy when it succeeds, and when it has to succeed.\<close>

section \<open>Colouring\<close>

definition pinned :: "ra_graph \<Rightarrow> nat \<Rightarrow> bool" where
  "pinned g n \<longleftrightarrow> forced_reg (nodes g ! n) \<noteq> NO_REG"

text \<open>Registers given in advance exist, and in the stronger form they are in the class of their node.\<close>

definition pins_exist :: "ra_graph \<Rightarrow> bool" where
  "pins_exist g \<longleftrightarrow> (\<forall>n < node_count g. pinned g n \<longrightarrow> forced_reg (nodes g ! n) < reg_count (graph_regs g))"

definition pins_in_class :: "ra_graph \<Rightarrow> bool" where
  "pins_in_class g \<longleftrightarrow> (\<forall>n < node_count g. pinned g n \<longrightarrow> forced_reg (nodes g ! n) \<in> members (cls g n))"

definition coloured :: "ra_graph \<Rightarrow> nat list \<Rightarrow> ra_tmp \<Rightarrow> bool" where
  "coloured g S t \<longleftrightarrow> sel_ok g S t \<and> stack t = S \<and>
     (\<forall>x < node_count g. x \<notin> set S \<longrightarrow> (if pinned g x then node_reg t ! x = forced_reg (nodes g ! x) else node_reg t ! x \<in> members (cls g x))) \<and>
     (\<forall>x < node_count g. \<forall>y \<in> adj g x. x \<notin> set S \<and> y \<notin> set S \<and> \<not> (pinned g x \<and> pinned g y) \<longrightarrow> \<not> node_clash g x (node_reg t ! x) y (node_reg t ! y))"

lemma pop_spec:
  assumes g: "alloc_ok g" and c: "coloured g (n # S) t" and n: "open_node g S n"
  shows "\<exists>b. BITSET_CLEAR (in_stack t) n = Some b \<and> popped g S (t\<lparr>in_stack := b\<rparr>) n \<and> (pins_in_class g \<longrightarrow> placed g S (t\<lparr>in_stack := b\<rparr>) n)"
proof -
  have t: "tmp_ok (alloc g) t" "n < node_count g" using c n by (simp_all add: coloured_def sel_ok_def open_node_def)
  obtain b where b: "BITSET_CLEAR (in_stack t) n = Some b" "length b = length (in_stack t)" "ids b = ids (in_stack t) - {n}"
    using BITSET_CLEAR_eq tmp_at(3) [OF _ t] g by blast
  have "popped g S (t\<lparr>in_stack := b\<rparr>) n" using c t b(2,3) n by (auto simp: popped_def coloured_def sel_ok_def tmp_ok_def open_node_def)
  moreover have "placed g S (t\<lparr>in_stack := b\<rparr>) n" if pins: "pins_in_class g" unfolding placed_def
  proof (intro ballI impI)
    fix m assume m: "m \<in> adj g n" "m \<notin> set S"
    have d: "m < node_count g" "m \<noteq> n" using nb(1,4) [OF g t(2) m(1)] by simp_all
    then have "if pinned g m then node_reg t ! m = forced_reg (nodes g ! m) else node_reg t ! m \<in> members (cls g m)"
      using c m(2) by (simp add: coloured_def)
    then show "node_reg (t\<lparr>in_stack := b\<rparr>) ! m \<in> members (cls g m)" using pins d(1) by (auto simp: pins_in_class_def split: if_splits)
  qed
  ultimately show ?thesis using b(1) by blast
qed

lemma colour_spec:
  assumes g: "alloc_ok g" and c: "coloured g (n # S) t" and n: "open_node g S n"
    and p: "popped g S (t\<lparr>in_stack := b\<rparr>) n" and r: "r \<in> avail g S (t\<lparr>in_stack := b\<rparr>) n"
  shows "n < length (node_reg t) \<and> coloured g S (t\<lparr>in_stack := b, node_reg := (node_reg t)[n := r], stack := S\<rparr>)"
proof -
  let ?t = "t\<lparr>in_stack := b, node_reg := (node_reg t)[n := r], stack := S\<rparr>"
  have n': "n < node_count g" "n \<notin> set S" "\<not> pinned g n" using n by (simp_all add: open_node_def pinned_def)
  have len: "n < length (node_reg t)" using p tmp_at(1) [of g "t\<lparr>in_stack := b\<rparr>" n] g n' by (simp add: popped_def)
  have nc: "cls g n \<in> set (classes (graph_regs g))" using cls_in g n'(1) sizes_okD(1) by (meson order.strict_trans2)
  have rm: "r \<in> members (cls g n)" "r < reg_count (graph_regs g)"
    using r final_okD(1) [of "graph_regs g", OF _ nc] g by (auto simp: avail_def class_ok_def)
  have nr: "node_reg ?t ! x = (if x = n then r else node_reg t ! x)" for x using len by (simp add: nth_list_update)
  have low: "node_reg t ! x < reg_count (graph_regs g)" if "x < node_count g" "x \<notin> set S" "x \<noteq> n" for x using that p by (simp add: popped_def)
  have 1: "sel_ok g S ?t" using p rm(2) low unfolding sel_ok_def popped_def nr by (simp add: tmp_ok_def)
  have 2: "if pinned g x then node_reg ?t ! x = forced_reg (nodes g ! x) else node_reg ?t ! x \<in> members (cls g x)" if "x < node_count g" "x \<notin> set S" for x
    using c that n' rm(1) unfolding nr by (cases "x = n") (simp_all add: coloured_def)
  have 3: "\<not> node_clash g x (node_reg ?t ! x) y (node_reg ?t ! y)"
    if x: "x < node_count g" "y \<in> adj g x" "x \<notin> set S" "y \<notin> set S" "\<not> (pinned g x \<and> pinned g y)" for x y
  proof -
    note d = nb [OF g x(1,2)]
    have free: "\<not> node_clash g n r m (node_reg t ! m)" if "m \<in> adj g n" "m \<notin> set S" for m
      using r that nb(4) [OF g n'(1) that(1)] by (auto simp: avail_def taken_def)
    consider (x) "x = n" | (y) "y = n" "x \<noteq> n" | (o) "x \<noteq> n" "y \<noteq> n" by blast
    then show ?thesis
    proof cases
      case x: x
      then show ?thesis using free that(2,4) d(4) unfolding nr by simp
    next
      case y: y
      have "\<not> node_clash g n r x (node_reg t ! x)" using free [of x] d(5) y that(3) by simp
      then show ?thesis using clash_sym [of "graph_regs g" "cls g x" "cls g n"] g d(6,7) low [of x] x y rm(2) unfolding nr node_clash_def by simp
    next
      case o
      then show ?thesis using c x unfolding nr by (simp add: coloured_def)
    qed
  qed
  have "stack ?t = S" by simp
  with 1 2 3 have "coloured g S ?t" unfolding coloured_def by blast
  then show ?thesis using len by simp
qed

inductive_cases simplified_consE: "simplified g (n # S) k"

lemma simplified_below:
  assumes "simplified g (n # S) k"
  shows "\<exists>k'. simplified g S k' \<and> open_node g S n \<and> (load g S n < class_limit g n \<longrightarrow> k' = k) \<and> (k = None \<longrightarrow> k' = None \<and> load g S n < class_limit g n)"
  using assms by (elim simplified_consE) (auto simp: not_le [symmetric])

lemma select_nodes_spec:
  assumes g: "alloc_ok g" "callback_ok g" and s: "simplified g S k" and c: "coloured g S t"
  shows "\<exists>res t'. select_nodes g S start t = Some (res, t') \<and> (res \<longrightarrow> coloured g [] t') \<and>
    (\<not> res \<and> pins_in_class g \<longrightarrow> (\<exists>n T. stack t' = n # T \<and> avail g T t' n = {} \<and> class_limit g n \<le> load g T n)) \<and>
    (k = None \<and> pins_in_class g \<longrightarrow> res)"
  using s c
proof (induction S arbitrary: k t start)
  case Nil
  then show ?case by (intro exI [of _ True] exI [of _ t]) simp
next
  case (Cons n S)
  obtain k' where k': "simplified g S k'" "open_node g S n" "k = None \<longrightarrow> k' = None \<and> load g S n < class_limit g n"
    using simplified_below [OF Cons.prems(1)] by blast
  obtain b where b: "BITSET_CLEAR (in_stack t) n = Some b" "popped g S (t\<lparr>in_stack := b\<rparr>) n" "pins_in_class g \<longrightarrow> placed g S (t\<lparr>in_stack := b\<rparr>) n"
    using pop_spec [OF g(1) Cons.prems(2) k'(2)] by blast
  obtain x where x: "pick_reg g (t\<lparr>in_stack := b\<rparr>) n start = Some x" "\<forall>r. x = Some r \<longrightarrow> r \<in> avail g S (t\<lparr>in_stack := b\<rparr>) n"
    "x = None \<and> placed g S (t\<lparr>in_stack := b\<rparr>) n \<longrightarrow> avail g S (t\<lparr>in_stack := b\<rparr>) n = {}"
    using pick_spec [OF g b(2)] by blast
  show ?case
  proof (cases x)
    case None
    have st: "stack t = n # S" using Cons.prems(2) by (simp add: coloured_def)
    have "avail g S (t\<lparr>in_stack := b\<rparr>) n = {} \<and> class_limit g n \<le> load g S n" if "pins_in_class g"
      using x(3) None b(3) that avail_nonempty [OF g(1) b(2)] by (meson not_le)
    moreover have "\<not> (k = None \<and> pins_in_class g)" using calculation k'(3) by auto
    ultimately show ?thesis using b(1) x(1) None st by (intro exI [of _ False] exI [of _ "t\<lparr>in_stack := b\<rparr>"]) simp
  next
    case (Some r)
    let ?t = "t\<lparr>in_stack := b, node_reg := (node_reg t)[n := r], stack := S\<rparr>"
    have c': "n < length (node_reg t)" "coloured g S ?t" using colour_spec [OF g(1) Cons.prems(2) k'(2) b(2)] x(2) Some by blast+
    have run: "select_nodes g (n # S) start t = select_nodes g S
        (if round_robin (graph_regs g) \<and> (of_nat (length S) :: u32) - 1 \<le> stack_optimistic_start t then r + 1 else start) ?t"
      using b(1) x(1) Some c'(1) by (simp add: Let_def)
    show ?thesis unfolding run using Cons.IH [OF k'(1) c'(2)] k'(3) by blast
  qed
qed

section \<open>Allocation\<close>

text \<open>Everything the allocation asks of a graph.\<close>

definition allocatable :: "ra_graph \<Rightarrow> bool" where
  "allocatable g \<longleftrightarrow> graph_ok g \<and> small_loads g \<and> final_ok (graph_regs g) \<and> callback_ok g \<and> pins_exist g"

lemma pushable_coloured:
  assumes "pushable g k" "sizes_ok g" "edges_ok g" "pins_exist g"
  shows "coloured g (stack (tmp g)) (tmp g)"
proof -
  let ?t = "tmp g"
  have so: "stack_ok g ?t" and no: "\<And>x. \<not> open_node g (stack ?t) x" and reg: "\<And>n. n < node_count g \<Longrightarrow> node_reg ?t ! n = forced_reg (nodes g ! n)"
    using assms(1) by (simp_all add: pushable_def)
  have pin: "pinned g x" if "x < node_count g" "x \<notin> set (stack ?t)" for x using no [of x] that by (simp add: open_node_def pinned_def)
  have 1: "sel_ok g (stack ?t) ?t" unfolding sel_ok_def
    using stack_okD(1,5) [OF so] word_index pin reg assms(4) by (auto simp: pins_exist_def)
  have 2: "pinned g y" if "x < node_count g" "y \<in> adj g x" "y \<notin> set (stack ?t)" for x y
    using pin edges_okD(3) [OF assms(3) _ that(2)] that sizes_okD(1) [OF assms(2)] by simp
  show ?thesis unfolding coloured_def
  proof (intro conjI allI impI ballI)
    fix x y assume "x < node_count g" "y \<in> adj g x" "x \<notin> set (stack ?t) \<and> y \<notin> set (stack ?t) \<and> \<not> (pinned g x \<and> pinned g y)"
    then show "\<not> node_clash g x (node_reg ?t ! x) y (node_reg ?t ! y)" using pin 2 by blast
  qed (use 1 pin reg in simp_all)
qed

text \<open>The scratch data does not matter for what is said of a graph.\<close>

lemma tmp_irrelevant [simp]:
  "adj (g\<lparr>tmp := t\<rparr>) = adj g" "cls (g\<lparr>tmp := t\<rparr>) = cls g" "qw (g\<lparr>tmp := t\<rparr>) = qw g" "load (g\<lparr>tmp := t\<rparr>) = load g" "class_limit (g\<lparr>tmp := t\<rparr>) = class_limit g"
  "node_clash (g\<lparr>tmp := t\<rparr>) = node_clash g" "pinned (g\<lparr>tmp := t\<rparr>) = pinned g" "edges_ok (g\<lparr>tmp := t\<rparr>) = edges_ok g"
  "callback_ok (g\<lparr>tmp := t\<rparr>) = callback_ok g" "pins_exist (g\<lparr>tmp := t\<rparr>) = pins_exist g" "pins_in_class (g\<lparr>tmp := t\<rparr>) = pins_in_class g"
  "avail (g\<lparr>tmp := t\<rparr>) = avail g" "coloured (g\<lparr>tmp := t\<rparr>) = coloured g"
proof -
  show a: "adj (g\<lparr>tmp := t\<rparr>) = adj g" by (simp add: adj_def fun_eq_iff)
  show c: "cls (g\<lparr>tmp := t\<rparr>) = cls g" by (simp add: cls_def fun_eq_iff)
  show q: "qw (g\<lparr>tmp := t\<rparr>) = qw g" by (simp add: qw_def c fun_eq_iff)
  show "load (g\<lparr>tmp := t\<rparr>) = load g" "class_limit (g\<lparr>tmp := t\<rparr>) = class_limit g" by (simp_all add: load_def class_limit_def a c q fun_eq_iff)
  show n: "node_clash (g\<lparr>tmp := t\<rparr>) = node_clash g" by (simp add: node_clash_def c fun_eq_iff)
  show p: "pinned (g\<lparr>tmp := t\<rparr>) = pinned g" by (simp add: pinned_def fun_eq_iff)
  show "edges_ok (g\<lparr>tmp := t\<rparr>) = edges_ok g" by (simp add: edges_ok_def a)
  show "callback_ok (g\<lparr>tmp := t\<rparr>) = callback_ok g" by (simp add: callback_ok_def)
  show "pins_exist (g\<lparr>tmp := t\<rparr>) = pins_exist g" "pins_in_class (g\<lparr>tmp := t\<rparr>) = pins_in_class g" by (simp_all add: pins_exist_def pins_in_class_def p c)
  show "avail (g\<lparr>tmp := t\<rparr>) = avail g" by (simp add: avail_def taken_def a c n fun_eq_iff)
  show "coloured (g\<lparr>tmp := t\<rparr>) = coloured g" by (simp add: coloured_def sel_ok_def a c n p fun_eq_iff)
qed

lemma allocate_spec:
  assumes g: "allocatable g"
  shows "\<exists>res k t t'. ra_simplify g = Some (g\<lparr>tmp := t\<rparr>) \<and> pushable (g\<lparr>tmp := t\<rparr>) k \<and> ra_allocate g = Some (res, g\<lparr>tmp := t'\<rparr>) \<and>
    (res \<longrightarrow> coloured g [] t') \<and>
    (\<not> res \<and> pins_in_class g \<longrightarrow> (\<exists>n T. stack t' = n # T \<and> avail g T t' n = {} \<and> class_limit g n \<le> load g T n)) \<and>
    (k = None \<and> pins_in_class g \<longrightarrow> res)"
proof -
  have go: "graph_ok g" "small_loads g" "final_ok (graph_regs g)" "callback_ok g" "pins_exist g" using g by (simp_all add: allocatable_def)
  obtain t k where t: "ra_simplify g = Some (g\<lparr>tmp := t\<rparr>)" "pushable (g\<lparr>tmp := t\<rparr>) k" using simplify_spec [OF go(1,2)] by blast
  let ?g = "g\<lparr>tmp := t\<rparr>"
  have eo: "edges_ok ?g" using go(1) by (simp add: graph_ok_def)
  have "tmp_ok (alloc g) t" using t(2) stack_okD(1) [of ?g t] by (simp add: pushable_def)
  then have so: "sizes_ok ?g" using go(1) by (simp add: graph_ok_def sizes_ok_def)
  have ao: "alloc_ok ?g" using so eo go(3) by simp
  have co: "coloured ?g (stack t) t" using pushable_coloured [OF t(2) so eo] go(5) by simp
  have si: "simplified ?g (stack t) k" using t(2) by (simp add: pushable_def)
  obtain res t' where r: "select_nodes ?g (stack t) 0 t = Some (res, t')" "res \<longrightarrow> coloured ?g [] t'"
    "\<not> res \<and> pins_in_class ?g \<longrightarrow> (\<exists>n T. stack t' = n # T \<and> avail ?g T t' n = {} \<and> class_limit ?g n \<le> load ?g T n)" "k = None \<and> pins_in_class ?g \<longrightarrow> res"
    using select_nodes_spec [OF ao _ si co, of 0] go(4) unfolding tmp_irrelevant by blast
  have "ra_allocate g = Some (res, g\<lparr>tmp := t'\<rparr>)" using t(1) r(1) by (simp add: ra_allocate_def ra_select_def)
  then show ?thesis using t r(2-4) by (intro exI [of _ res] exI [of _ k] exI [of _ t] exI [of _ t']) simp
qed

end
