(* ===== verification/Ra_Client.thy ===== *)
theory Ra_Client
  imports Ra_Allocate_Correct
begin

text \<open>
  What clients of the allocator do: they make a register set, finalise it, make a graph and allocate. Every call within the
  documented conditions returns and keeps the invariants, so that an allocation may follow at any time.
\<close>

section \<open>Register sets\<close>

datatype regs_op = Conflict nat nat | Transitive nat nat | Halves nat nat nat | New_class nat | Class_reg nat nat | Round_robin

text \<open>A class of length zero is made by \<^verbatim>\<open>ra_alloc_reg_class\<close>, others by \<^verbatim>\<open>ra_alloc_contig_reg_class\<close>.\<close>

fun regs_step :: "regs_op \<Rightarrow> ra_regs \<Rightarrow> ra_regs option" where
  "regs_step (Conflict r1 r2) rs = ra_add_reg_conflict rs r1 r2"
| "regs_step (Transitive base r) rs = ra_add_transitive_reg_conflict rs base r"
| "regs_step (Halves base r0 r1) rs = ra_add_transitive_reg_pair_conflict rs base r0 r1"
| "regs_step (New_class len) rs = (if len = 0 then Some (snd (ra_alloc_reg_class rs)) else map_option snd (ra_alloc_contig_reg_class rs len))"
| "regs_step (Class_reg i r) rs = ra_class_add_reg rs i r"
| "regs_step Round_robin rs = Some (ra_set_allocate_round_robin rs)"

text \<open>
  Classes are all contiguous or none is, and a register is added to a class once. Sets with contiguous classes may be made without lists
  of conflicts, but then they cannot use the transitive functions, which read the lists.
\<close>

fun regs_op_ok :: "bool \<Rightarrow> regs_op \<Rightarrow> ra_regs \<Rightarrow> bool" where
  "regs_op_ok contig (Conflict r1 r2) rs \<longleftrightarrow> r1 < reg_count rs \<and> r2 < reg_count rs"
| "regs_op_ok contig (Transitive base r) rs \<longleftrightarrow> lists_ok rs \<and> base < reg_count rs \<and> r < reg_count rs"
| "regs_op_ok contig (Halves base r0 r1) rs \<longleftrightarrow> lists_ok rs \<and> base < reg_count rs \<and> r0 < reg_count rs \<and> r1 < reg_count rs \<and> base \<noteq> r0 \<and> base \<noteq> r1"
| "regs_op_ok contig (New_class len) rs \<longleftrightarrow> (len \<noteq> 0 \<longleftrightarrow> contig)"
| "regs_op_ok contig (Class_reg i r) rs \<longleftrightarrow> i < class_count rs \<and> r < reg_count rs \<and> r + contig_len (classes rs ! i) \<le> reg_count rs \<and>
     r \<notin> members (classes rs ! i)"
| "regs_op_ok contig Round_robin rs \<longleftrightarrow> True"

inductive set_built :: "bool \<Rightarrow> ra_regs \<Rightarrow> bool" for contig where
  make: "n < 2 ^ 31 \<Longrightarrow> need_lists \<or> contig \<Longrightarrow> ra_alloc_reg_set n need_lists = Some rs \<Longrightarrow> set_built contig rs"
| step: "set_built contig rs \<Longrightarrow> regs_op_ok contig op rs \<Longrightarrow> regs_step op rs = Some rs' \<Longrightarrow> set_built contig rs'"

definition set_inv :: "bool \<Rightarrow> ra_regs \<Rightarrow> bool" where
  "set_inv contig rs \<longleftrightarrow> reg_count rs < 2 ^ 31 \<and> regs_ok rs \<and> (lists_ok rs \<or> contig) \<and>
     (\<forall>c \<in> set (classes rs). class_ok rs c \<and> (contig_len c \<noteq> 0 \<longleftrightarrow> contig))"

lemma class_ok_count: "reg_count rs' = reg_count rs \<Longrightarrow> class_ok rs' c = class_ok rs c"
  by (simp add: class_ok_def)

lemma set_inv_conflicts: "set_inv contig rs \<Longrightarrow> adds_conflicts rs E rs' \<Longrightarrow> set_inv contig rs'"
  unfolding set_inv_def adds_conflicts_def by (auto simp: class_ok_count [of rs' rs])

lemma set_inv_classes:
  assumes "set_inv contig rs" "regs rs' = regs rs" "\<And>c. c \<in> set (classes rs') \<Longrightarrow> class_ok rs' c \<and> (contig_len c \<noteq> 0 \<longleftrightarrow> contig)"
  shows "set_inv contig rs'"
  using assms by (auto simp: set_inv_def regs_ok_def lists_ok_def conf_def)

lemma new_class_ok: "class_ok rs \<lparr>class_regs = replicate (BITSET_WORDS (reg_count rs)) 0, contig_len = len, class_p = 0, class_q = []\<rparr>"
  by (simp add: class_ok_def)

lemma regs_step_keeps:
  assumes inv: "set_inv contig rs" and ok: "regs_op_ok contig op rs"
  shows "\<exists>rs'. regs_step op rs = Some rs' \<and> set_inv contig rs'"
proof -
  have o: "regs_ok rs" using inv by (simp_all add: set_inv_def)
  show ?thesis
  proof (cases op)
    case (Conflict r1 r2)
    then have r: "r1 < reg_count rs" "r2 < reg_count rs" using ok by simp_all
    show ?thesis unfolding Conflict regs_step.simps using add_reg_conflict_spec [OF o r] set_inv_conflicts [OF inv] by blast
  next
    case (Transitive base r)
    then have t: "lists_ok rs" "base < reg_count rs" "r < reg_count rs" using ok by simp_all
    show ?thesis unfolding Transitive regs_step.simps using add_transitive_spec [OF o t] set_inv_conflicts [OF inv] by blast
  next
    case (Halves base r0 r1)
    then have h: "lists_ok rs" "base < reg_count rs" "r0 < reg_count rs" "r1 < reg_count rs" "base \<noteq> r0" "base \<noteq> r1" using ok by simp_all
    show ?thesis unfolding Halves regs_step.simps using add_pair_spec [OF o h] set_inv_conflicts [OF inv] by blast
  next
    case (New_class len)
    let ?c = "\<lparr>class_regs = replicate (BITSET_WORDS (reg_count rs)) 0, contig_len = len, class_p = 0, class_q = []\<rparr>"
    let ?rs = "rs\<lparr>classes := classes rs @ [?c]\<rparr>"
    have "regs_step op rs = Some ?rs" unfolding New_class by (cases "len = 0") (simp_all add: ra_alloc_reg_class_def ra_alloc_contig_reg_class_def)
    moreover have "set_inv contig ?rs"
    proof (rule set_inv_classes [OF inv])
      fix c assume "c \<in> set (classes ?rs)"
      then show "class_ok ?rs c \<and> (contig_len c \<noteq> 0 \<longleftrightarrow> contig)"
        using inv ok New_class new_class_ok [of rs len] class_ok_count [of ?rs rs] by (auto simp: set_inv_def)
    qed simp
    ultimately show ?thesis by blast
  next
    case (Class_reg i r)
    then have i: "i < class_count rs" "r < reg_count rs" "r + contig_len (classes rs ! i) \<le> reg_count rs" "r \<notin> members (classes rs ! i)" using ok by simp_all
    have c: "class_ok rs (classes rs ! i)" "contig_len (classes rs ! i) \<noteq> 0 \<longleftrightarrow> contig" "reg_count rs < 2 ^ 32" using inv i(1) by (auto simp: set_inv_def)
    obtain rs' d where r: "ra_class_add_reg rs i r = Some rs'" "regs rs' = regs rs" "classes rs' = (classes rs)[i := d]" "class_ok rs' d"
      "contig_len d = contig_len (classes rs ! i)" using class_add_reg_spec [OF i(1) c(1) i(2-4) c(3)] by blast
    have "set_inv contig rs'"
    proof (rule set_inv_classes [OF inv r(2)])
      fix x assume "x \<in> set (classes rs')"
      then have "x = d \<or> x \<in> set (classes rs)" unfolding r(3) using set_update_subset_insert [of "classes rs" i d] by blast
      then show "class_ok rs' x \<and> (contig_len x \<noteq> 0 \<longleftrightarrow> contig)" using inv r(2,4,5) c(2) class_ok_count [of rs' rs] by (auto simp: set_inv_def)
    qed
    then show ?thesis using r(1) Class_reg by simp
  next
    case Round_robin
    have "set_inv contig (ra_set_allocate_round_robin rs)"
      unfolding ra_set_allocate_round_robin_def using inv by (intro set_inv_classes [OF inv]) (simp_all add: set_inv_def class_ok_def)
    then show ?thesis unfolding Round_robin by simp
  qed
qed

lemma set_built_inv: "set_built contig rs \<Longrightarrow> set_inv contig rs"
proof (induction rule: set_built.induct)
  case (make n need_lists rs)
  then show ?case using alloc_reg_set_spec [of n need_lists] by (auto simp: set_inv_def)
next
  case (step rs op rs')
  then show ?case using regs_step_keeps by fastforce
qed

lemma set_built_setup: "set_built contig rs \<Longrightarrow> setup_ok rs"
  using set_built_inv [of contig rs] by (cases contig) (auto simp: set_inv_def setup_ok_def)

lemma finalized_fits: "final_ok rs \<Longrightarrow> classes rs \<noteq> [] \<Longrightarrow> regs_fit rs"
  by (simp add: final_ok_def regs_fit_def)

section \<open>Graphs\<close>

datatype graph_op = Set_class nat nat | Interfere nat nat | Pin nat nat | New_node nat | Callback "(nat \<Rightarrow> u32 list \<Rightarrow> nat) option"

fun graph_step :: "graph_op \<Rightarrow> ra_graph \<Rightarrow> ra_graph option" where
  "graph_step (Set_class n c) g = ra_set_node_class g n c"
| "graph_step (Interfere n m) g = ra_add_node_interference g n m"
| "graph_step (Pin n r) g = ra_set_node_reg g n r"
| "graph_step (New_node c) g = map_option snd (ra_add_node g c)"
| "graph_step (Callback cb) g = Some (ra_set_select_reg_callback g cb)"

text \<open>
  The class of a node is set before its interferences, as \<^verbatim>\<open>register_allocate.h\<close> demands; nodes are added to graphs that
  were not made for zero nodes, and while the doubled number of nodes still has adjacency bits that fit an \<^verbatim>\<open>unsigned\<close>. A callback
  chooses one of the registers it is offered.
\<close>

fun graph_op_ok :: "graph_op \<Rightarrow> ra_graph \<Rightarrow> bool" where
  "graph_op_ok (Set_class n c) g \<longleftrightarrow> n < node_count g \<and> adj g n = {} \<and> c < class_count (graph_regs g)"
| "graph_op_ok (Interfere n m) g \<longleftrightarrow> n < node_count g \<and> m < node_count g"
| "graph_op_ok (Pin n r) g \<longleftrightarrow> n < node_count g \<and> r < reg_count (graph_regs g)"
| "graph_op_ok (New_node c) g \<longleftrightarrow> 0 < alloc g \<and> alloc g \<le> 46336 \<and> c < class_count (graph_regs g)"
| "graph_op_ok (Callback cb) g \<longleftrightarrow> (\<forall>f n x. cb = Some f \<and> ids x \<noteq> {} \<longrightarrow> f n x \<in> ids x)"

inductive graph_built :: "ra_regs \<Rightarrow> ra_graph \<Rightarrow> bool" for rs where
  make: "n \<le> 92672 \<Longrightarrow> ra_alloc_interference_graph rs n = Some g \<Longrightarrow> graph_built rs g"
| step: "graph_built rs g \<Longrightarrow> graph_op_ok op g \<Longrightarrow> graph_step op g = Some g' \<Longrightarrow> graph_built rs g'"

definition graph_inv :: "ra_regs \<Rightarrow> ra_graph \<Rightarrow> bool" where
  "graph_inv rs g \<longleftrightarrow> graph_ok g \<and> graph_regs g = rs \<and> callback_ok g \<and>
     (\<forall>x < alloc g. forced_reg (nodes g ! x) = NO_REG \<or> x < node_count g \<and> forced_reg (nodes g ! x) < reg_count rs)"

lemma set_node_reg_spec:
  assumes "graph_ok g" "n < alloc g"
  shows "\<exists>xs. ra_set_node_reg g n r = Some (g\<lparr>nodes := xs\<rparr>) \<and> graph_ok (g\<lparr>nodes := xs\<rparr>) \<and>
    (\<forall>x. forced_reg (xs ! x) = (if x = n then r else forced_reg (nodes g ! x)))"
proof -
  let ?xs = "(nodes g)[n := (nodes g ! n)\<lparr>forced_reg := r\<rparr>]"
  have so: "sizes_ok g" and len: "length (nodes g) = alloc g" using assms(1) by (simp_all add: graph_ok_def sizes_ok_def)
  have nd: "?xs ! x = (if x = n then (nodes g ! n)\<lparr>forced_reg := r\<rparr> else nodes g ! x)" for x using assms(2) len by (simp add: nth_list_update)
  let ?g = "g\<lparr>nodes := ?xs\<rparr>"
  have sel: "adjacency_list (nodes ?g ! x) = adjacency_list (nodes g ! x)" "node_class (nodes ?g ! x) = node_class (nodes g ! x)"
    "q_total (nodes ?g ! x) = q_total (nodes g ! x)" for x using nd by simp_all
  have ad: "adj ?g = adj g" "cls ?g = cls g" "qw ?g = qw g" unfolding adj_def cls_def qw_def fun_eq_iff sel by simp_all
  have "sizes_ok ?g" using so by (simp add: sizes_ok_def)
  moreover have "edges_ok ?g" using assms(1) unfolding graph_ok_def edges_ok_def ad sel by simp
  moreover have "\<forall>x < alloc ?g. q_ok ?g x" using assms(1) unfolding graph_ok_def q_ok_def ad sel by simp
  ultimately show ?thesis using assms(2) len nd by (intro exI [of _ ?xs]) (simp add: graph_ok_def ra_set_node_reg_def)
qed

lemma graph_step_keeps:
  assumes inv: "graph_inv rs g" and ok: "graph_op_ok op g" and cnt: "reg_count rs < 2 ^ 32"
  shows "\<exists>g'. graph_step op g = Some g' \<and> graph_inv rs g'"
proof -
  have go: "graph_ok g" and gr: "graph_regs g = rs" and cb: "callback_ok g" and pin: "\<forall>x < alloc g. forced_reg (nodes g ! x) = NO_REG \<or> x < node_count g \<and> forced_reg (nodes g ! x) < reg_count rs"
    using inv by (simp_all add: graph_inv_def)
  have na: "node_count g \<le> alloc g" and eo: "edges_ok g" using go by (simp_all add: graph_ok_def sizes_ok_def)
  show ?thesis
  proof (cases op)
    case (Set_class n c)
    then obtain g' where g': "ra_set_node_class g n c = Some g'" "graph_ok g'" "g' = g\<lparr>nodes := nodes g'\<rparr>"
      "forced_reg (nodes g' ! n) = forced_reg (nodes g ! n)" "\<forall>x. x \<noteq> n \<longrightarrow> nodes g' ! x = nodes g ! x"
      using set_node_class_spec [OF go, of n c] ok na by auto
    obtain xs where xs: "g' = g\<lparr>nodes := xs\<rparr>" using g'(3) by blast
    have "forced_reg (nodes g' ! x) = forced_reg (nodes g ! x)" for x using g'(4,5) by (cases "x = n") simp_all
    then have "graph_inv rs g'" using g'(2) gr cb pin unfolding xs by (simp add: graph_inv_def callback_ok_def)
    then show ?thesis using g'(1) Set_class by simp
  next
    case (Interfere n m)
    then obtain g' where "ra_add_node_interference g n m = Some g'" "graph_ok g'" "node_count g' = node_count g" "alloc g' = alloc g"
      "graph_regs g' = graph_regs g" "select_reg_callback g' = select_reg_callback g" "\<forall>x < alloc g. forced_reg (nodes g' ! x) = forced_reg (nodes g ! x)"
      using add_interference_spec [OF go, of n m] ok by auto
    then show ?thesis using Interfere gr cb pin by (simp add: graph_inv_def callback_ok_def)
  next
    case (Pin n r)
    then have n: "n < alloc g" using ok na by simp
    obtain xs where "ra_set_node_reg g n r = Some (g\<lparr>nodes := xs\<rparr>)" "graph_ok (g\<lparr>nodes := xs\<rparr>)" "\<forall>x. forced_reg (xs ! x) = (if x = n then r else forced_reg (nodes g ! x))"
      using set_node_reg_spec [OF go n] by blast
    then show ?thesis using Pin ok gr cb pin by (simp add: graph_inv_def callback_ok_def)
  next
    case (New_node c)
    have "adj g (node_count g) = {}" if "node_count g < alloc g" using edges_okD(4) [OF eo that] by blast
    then obtain g' where g': "ra_add_node g c = Some (node_count g, g')" "graph_ok g'" "node_count g' = node_count g + 1" "graph_regs g' = graph_regs g"
      "select_reg_callback g' = select_reg_callback g" "\<forall>x < alloc g'. forced_reg (nodes g' ! x) = (if x < alloc g then forced_reg (nodes g ! x) else NO_REG)"
      using add_node_spec [OF go, of c] ok New_node by auto
    then have "graph_inv rs g'" using gr cb pin by (auto simp: graph_inv_def callback_ok_def)
    then show ?thesis using g'(1) New_node by simp
  next
    case (Callback f)
    have "graph_ok (g\<lparr>select_reg_callback := f\<rparr>)" using go by (simp add: graph_ok_def sizes_ok_def edges_ok_def q_ok_def qw_def cls_def adj_def)
    then show ?thesis using Callback ok gr pin by (simp add: graph_inv_def ra_set_select_reg_callback_def callback_ok_def)
  qed
qed

lemma graph_built_inv:
  assumes "graph_built rs g" "regs_fit rs" "reg_count rs < 2 ^ 32"
  shows "graph_inv rs g"
  using assms(1)
proof (induction rule: graph_built.induct)
  case (make n g)
  obtain g' where g': "ra_alloc_interference_graph rs n = Some g'" "graph_ok g'" "graph_regs g' = rs" "select_reg_callback g' = None" "\<forall>x < alloc g'. nodes g' ! x = fresh_node"
    using alloc_graph_spec [OF assms(2) make(1)] by blast
  then show ?case using make(2) by (simp add: graph_inv_def callback_ok_def fresh_node_def)
next
  case (step g op g')
  then show ?case using graph_step_keeps [OF step.IH step.hyps(2) assms(3)] by auto
qed

section \<open>From the set to the allocation\<close>

text \<open>A finalised set that a client has built, and a graph over it.\<close>

definition client_graph :: "bool \<Rightarrow> ra_regs \<Rightarrow> ra_regs \<Rightarrow> ra_graph \<Rightarrow> bool" where
  "client_graph contig rs rs' g \<longleftrightarrow> set_built contig rs \<and> classes rs \<noteq> [] \<and> ra_set_finalize rs None = Some rs' \<and> graph_built rs' g \<and>
     node_count g * reg_count rs < 4294967295"

lemma client_allocatable:
  assumes "client_graph contig rs rs' g"
  shows "allocatable g" "graph_regs g = rs'" "final_ok rs'"
proof -
  have c: "set_built contig rs" "classes rs \<noteq> []" "ra_set_finalize rs None = Some rs'" "graph_built rs' g" "node_count g * reg_count rs < 4294967295"
    using assms by (simp_all add: client_graph_def)
  have so: "setup_ok rs" by (rule set_built_setup [OF c(1)])
  have f: "final_ok rs'" "reg_count rs' = reg_count rs" "class_count rs' = class_count rs"
    "\<And>b d. b < class_count rs \<Longrightarrow> d < class_count rs \<Longrightarrow> unat (class_q (classes rs' ! b) ! d) = worst rs (classes rs ! b) (classes rs ! d)"
    using finalize_spec [OF so] c(3) by auto
  show "final_ok rs'" by (rule f(1))
  have cnt: "reg_count rs' < 2 ^ 32" using f(1) by (simp add: final_ok_def)
  have "classes rs' \<noteq> []" using c(2) f(3) by auto
  then have inv: "graph_inv rs' g" using graph_built_inv [OF c(4) finalized_fits [OF f(1)] cnt] by blast
  then show gr: "graph_regs g = rs'" by (simp add: graph_inv_def)
  have go: "graph_ok g" "callback_ok g" using inv by (simp_all add: graph_inv_def)
  have eo: "edges_ok g" "node_count g \<le> alloc g" using go(1) by (simp_all add: graph_ok_def sizes_ok_def)
  have "load g [] n < 4294967295" if n: "n < node_count g" for n
  proof -
    have na: "n < alloc g" using n eo(2) by simp
    have adj: "m < node_count g" if "m \<in> adj g n" for m using edges_okD(3) [OF eo(1) na that] .
    have "unat (qw g n m) \<le> reg_count rs" if m: "m \<in> adj g n" for m
    proof -
      have k: "node_class (nodes g ! n) < class_count rs" "node_class (nodes g ! m) < class_count rs"
        using edges_okD(1) [OF eo(1) na] edges_okD(1) [OF eo(1), of m] adj [OF m] eo(2) gr f(3) by simp_all
      have "class_ok rs (classes rs ! node_class (nodes g ! n))" using so k(1) by (simp add: setup_ok_def)
      then show ?thesis using f(4) [OF k] worst_le [of rs] by (simp add: qw_def cls_def gr)
    qed
    then have "(\<Sum>m \<in> adj g n. unat (qw g n m)) \<le> (\<Sum>m \<in> adj g n. reg_count rs)" by (rule sum_mono)
    then have "load g [] n \<le> (\<Sum>m \<in> adj g n. reg_count rs)" by (simp add: load_def)
    also have "\<dots> \<le> node_count g * reg_count rs"
      using card_mono [of "{..<node_count g}" "adj g n"] adj by (auto simp: intro: mult_right_mono)
    finally show ?thesis using c(5) by simp
  qed
  then have "small_loads g" by (simp add: small_loads_def)
  moreover have "forced_reg (nodes g ! n) < reg_count rs'" if "n < node_count g" "pinned g n" for n
    using inv eo(2) that unfolding graph_inv_def pinned_def by (meson order.strict_trans2)
  then have "pins_exist g" by (simp add: pins_exist_def gr)
  ultimately show "allocatable g" using go f(1) gr by (simp add: allocatable_def)
qed

text \<open>When every node passes the test at once, none is pushed optimistically.\<close>

lemma simplified_easy:
  assumes "simplified g S k" "\<forall>n < node_count g. load g [] n < class_limit g n"
  shows "k = None"
  using assms(1)
proof (induction rule: simplified.induct)
  case (optimistic S k n)
  then have "class_limit g n \<le> load g S n" "n < node_count g" by (simp_all add: open_node_def)
  then show ?case using assms(2) load_mono [of "[]" S g n] by fastforce
qed simp_all

end
