(* ===== verification/Ra_Properties.thy ===== *)
theory Ra_Properties
  imports Ra_Client
begin

text \<open>The properties of the register allocator, for every set and graph that a client can build.\<close>

section \<open>A client\<close>

text \<open>Two registers without conflicts in one class, and two nodes that interfere.\<close>

lemma demo_set: "\<exists>rs. set_built False rs \<and> reg_count rs = 2 \<and> class_count rs = 1 \<and> unat (class_p (classes rs ! 0)) = 2 \<and> (\<forall>r < 2. conf rs r = {r})"
proof -
  obtain rs0 where 0: "ra_alloc_reg_set 2 True = Some rs0" "reg_count rs0 = 2" "classes rs0 = []" "\<forall>r < 2. conf rs0 r = {r}"
    using alloc_reg_set_spec [of 2 True] by blast
  let ?c = "\<lparr>class_regs = replicate (BITSET_WORDS (reg_count rs0)) 0, contig_len = 0, class_p = 0, class_q = []\<rparr>"
  let ?rs1 = "rs0\<lparr>classes := [?c]\<rparr>"
  have b0: "set_built False rs0" by (rule set_built.make [OF _ _ 0(1)]) simp_all
  have b1: "set_built False ?rs1" by (rule set_built.step [OF b0, of "New_class 0"]) (simp_all add: ra_alloc_reg_class_def 0(3))
  have "class_ok ?rs1 ?c" using new_class_ok [of ?rs1 0] by simp
  then obtain rs2 c2 where 2: "ra_class_add_reg ?rs1 0 0 = Some rs2" "regs rs2 = regs rs0" "classes rs2 = [c2]" "class_ok rs2 c2" "members c2 = {0}" "contig_len c2 = 0"
    using class_add_reg_spec [of 0 ?rs1 0] 0(2) by auto
  have b2: "set_built False rs2" by (rule set_built.step [OF b1, of "Class_reg 0 0"]) (use 2(1) 0(2) in simp_all)
  obtain rs3 c3 where 3: "ra_class_add_reg rs2 0 1 = Some rs3" "regs rs3 = regs rs2" "classes rs3 = [c3]" "class_ok rs3 c3" "members c3 = {1, 0}"
    using class_add_reg_spec [of 0 rs2 1] 0(2) 2 by auto
  have b3: "set_built False rs3" by (rule set_built.step [OF b2, of "Class_reg 0 1"]) (use 2 3(1) 0(2) in simp_all)
  have "unat (class_p c3) = 2" using 3(4,5) by (simp add: class_ok_def)
  moreover have "\<forall>r < 2. conf rs3 r = {r}" using 0(4) 2(2) 3(2) by (simp add: conf_def)
  ultimately show ?thesis using b3 0(2) 2(2) 3(2,3) by (intro exI [of _ rs3]) simp
qed

lemma demo_client:
  "\<exists>rs rs' g. client_graph False rs rs' g \<and> node_count g = 2 \<and> adj g 0 = {1} \<and> adj g 1 = {0} \<and> \<not> pinned g 0 \<and> \<not> pinned g 1 \<and>
    load g [] 0 < class_limit g 0 \<and> load g [] 1 < class_limit g 1"
proof -
  obtain rs where rs: "set_built False rs" "reg_count rs = 2" "class_count rs = 1" "unat (class_p (classes rs ! 0)) = 2" "\<forall>r < 2. conf rs r = {r}"
    using demo_set by blast
  have so: "setup_ok rs" by (rule set_built_setup [OF rs(1)])
  have ne: "classes rs \<noteq> []" using rs(3) by auto
  obtain rs' where f: "ra_set_finalize rs None = Some rs'" "final_ok rs'" "reg_count rs' = 2" "class_count rs' = 1"
    "class_p (classes rs' ! 0) = class_p (classes rs ! 0)" "unat (class_q (classes rs' ! 0) ! 0) = worst rs (classes rs ! 0) (classes rs ! 0)"
    using finalize_spec [OF so] rs(2,3) by auto
  have co: "class_ok rs (classes rs ! 0)" "contig_len (classes rs ! 0) = 0"
    using set_built_inv [OF rs(1)] ne rs(3) by (simp_all add: set_inv_def)
  have "hits rs (classes rs ! 0) (classes rs ! 0) rc \<subseteq> {rc}" for rc
    using co rs(2,5) by (auto simp: hits_def clash_def class_ok_def)
  then have "card (hits rs (classes rs ! 0) (classes rs ! 0) rc) \<le> 1" for rc using card_mono [of "{rc}"] by fastforce
  then have w: "worst rs (classes rs ! 0) (classes rs ! 0) \<le> 1" unfolding worst_def by (intro Max.boundedI) auto
  have fit: "regs_fit rs'" using finalized_fits [OF f(2)] f(4) by (cases "classes rs'") simp_all
  obtain g0 where g0: "ra_alloc_interference_graph rs' 2 = Some g0" "graph_ok g0" "node_count g0 = 2" "graph_regs g0 = rs'" "\<forall>x < alloc g0. nodes g0 ! x = fresh_node"
    using alloc_graph_spec [OF fit, of 2] by auto
  have al: "2 \<le> alloc g0" using g0(2,3) by (simp add: graph_ok_def sizes_ok_def)
  obtain g where g: "ra_add_node_interference g0 0 1 = Some g" "graph_ok g" "node_count g = 2" "graph_regs g = rs'" "alloc g = alloc g0"
    "\<forall>x < alloc g0. node_class (nodes g ! x) = node_class (nodes g0 ! x) \<and> forced_reg (nodes g ! x) = forced_reg (nodes g0 ! x) \<and>
      adj g x = adj g0 x \<union> {y. x \<noteq> y \<and> {x, y} = {0, 1}}"
    using add_interference_spec [OF g0(2), of 0 1] g0(3,4) by auto
  have b0: "graph_built rs' g0" by (rule graph_built.make [OF _ g0(1)]) simp
  have b: "graph_built rs' g" by (rule graph_built.step [OF b0, of "Interfere 0 1"]) (use g(1) g0(3) in simp_all)
  have nd: "node_class (nodes g ! x) = 0" "forced_reg (nodes g ! x) = NO_REG" "adj g x = {y. x \<noteq> y \<and> {x, y} = {0, 1}}" if "x < 2" for x
    using g(6) g0(5) al that by (simp_all add: fresh_node_def adj_def)
  have ad: "adj g 0 = {1}" "adj g 1 = {0}" using nd(3) [of 0] nd(3) [of 1] by (auto simp: doubleton_eq_iff)
  have "unat (qw g x y) \<le> 1 \<and> class_limit g x = 2" if "x < 2" "y < 2" for x y using nd(1) that f(5,6) w rs(4) g(4) by (simp_all add: qw_def cls_def class_limit_def)
  from this [of 0 1] this [of 1 0] have "load g [] 0 < class_limit g 0 \<and> load g [] 1 < class_limit g 1" using ad by (simp add: load_def)
  moreover have "client_graph False rs rs' g" using rs(1,2) ne f(1) b g(3) by (simp add: client_graph_def)
  ultimately show ?thesis using g(3) ad nd(2) by (intro exI [of _ rs] exI [of _ rs'] exI [of _ g]) (simp add: pinned_def)
qed

section \<open>Allocation\<close>

lemma coloured_regs:
  assumes "coloured g [] t" "n < node_count g" "sizes_ok g"
  shows "ra_get_node_reg (g\<lparr>tmp := t\<rparr>) n = Some (node_reg t ! n)"
proof -
  have "tmp_ok (alloc g) t" using assms(1) by (simp add: coloured_def sel_ok_def)
  then have "n < length (nodes g)" "n < length (node_reg t)" using assms(2,3) by (simp_all add: tmp_ok_def sizes_ok_def)
  moreover have "pinned g n \<Longrightarrow> node_reg t ! n = forced_reg (nodes g ! n)" using assms(1,2) by (simp add: coloured_def)
  ultimately show ?thesis by (simp add: ra_get_node_reg_def pinned_def)
qed

text \<open>When every node passes the test from the start, the allocation succeeds.\<close>

lemma easy_graph_allocates:
  assumes "client_graph contig rs rs' g" "pins_in_class g" "\<forall>n < node_count g. load g [] n < class_limit g n"
  shows "\<exists>g'. ra_allocate g = Some (True, g')"
proof -
  obtain res k t t' where r: "pushable (g\<lparr>tmp := t\<rparr>) k" "ra_allocate g = Some (res, g\<lparr>tmp := t'\<rparr>)" "k = None \<longrightarrow> res"
    using allocate_spec [OF client_allocatable(1) [OF assms(1)]] assms(2) by blast
  have "simplified (g\<lparr>tmp := t\<rparr>) (stack t) k" using r(1) by (simp add: pushable_def)
  then have "k = None" using simplified_easy assms(3) by (simp add: load_def class_limit_def)
  then show ?thesis using r(2,3) by simp
qed

text \<open>
  C4: A client makes a register set with conflicts and classes, finalises it, which computes the numbers \<open>q\<close>, and makes a graph by any
  sequence of calls in which a node gets its class before its interferences. Then \<^verbatim>\<open>ra_allocate\<close> returns. When it returns true, every node has a register: the
  one that it was given, or one of its class, and by \<^verbatim>\<open>ra_class_allocations_conflict\<close> it does not conflict with that of a neighbour, unless
  both were given by the client. This covers separate and contiguous registers, the search from the lowest register, round robin and
  callbacks.
\<close>

theorem register_allocation_sound:
  assumes "client_graph contig rs rs' g"
  shows "\<exists>res g'. ra_allocate g = Some (res, g') \<and> (res \<longrightarrow> (\<forall>n < node_count g. \<exists>r. ra_get_node_reg g' n = Some r \<and>
    (if pinned g n then r = forced_reg (nodes g ! n) else reg_belongs_to_class r (cls g n) = Some True) \<and>
    (\<forall>m \<in> adj g n. \<not> (pinned g n \<and> pinned g m) \<longrightarrow>
      (\<exists>s. ra_get_node_reg g' m = Some s \<and> ra_class_allocations_conflict rs' (cls g n) r (cls g m) s = Some False))))"
proof -
  note a = client_allocatable [OF assms]
  have so: "sizes_ok g" "edges_ok g" using a(1) by (simp_all add: allocatable_def graph_ok_def)
  have ao: "alloc_ok g" using so a(2,3) by simp
  obtain res t' where r: "ra_allocate g = Some (res, g\<lparr>tmp := t'\<rparr>)" "res \<longrightarrow> coloured g [] t'" using allocate_spec [OF a(1)] by blast
  have "\<exists>r. ra_get_node_reg (g\<lparr>tmp := t'\<rparr>) n = Some r \<and>
    (if pinned g n then r = forced_reg (nodes g ! n) else reg_belongs_to_class r (cls g n) = Some True) \<and>
    (\<forall>m \<in> adj g n. \<not> (pinned g n \<and> pinned g m) \<longrightarrow>
      (\<exists>s. ra_get_node_reg (g\<lparr>tmp := t'\<rparr>) m = Some s \<and> ra_class_allocations_conflict rs' (cls g n) r (cls g m) s = Some False))"
    if res: res and n: "n < node_count g" for n
  proof -
    have c: "coloured g [] t'" using r(2) res by blast
    have low: "node_reg t' ! x < reg_count rs'" if "x < node_count g" for x using c that by (simp add: coloured_def sel_ok_def a(2))
    have cin: "cls g n \<in> set (classes rs')" using cls_in [OF so(2)] n sizes_okD(1) [OF so(1)] a(2) by auto
    have "reg_belongs_to_class (node_reg t' ! n) (cls g n) = Some True" if "\<not> pinned g n"
      using c n that final_okD(1) [OF a(3) cin] low [OF n] word_index by (simp add: coloured_def reg_belongs_to_class_def BITSET_TEST_eq class_ok_def)
    moreover have "ra_get_node_reg (g\<lparr>tmp := t'\<rparr>) m = Some (node_reg t' ! m) \<and>
      ra_class_allocations_conflict rs' (cls g n) (node_reg t' ! n) (cls g m) (node_reg t' ! m) = Some False"
      if m: "m \<in> adj g n" "\<not> (pinned g n \<and> pinned g m)" for m
    proof -
      note d = nb [OF ao n m(1)]
      have "\<not> node_clash g n (node_reg t' ! n) m (node_reg t' ! m)" using c n m by (simp add: coloured_def)
      then show ?thesis using coloured_regs [OF c d(1) so(1)] allocations_conflict_eq [OF a(3) cin _ low [OF n] low [OF d(1)], of "cls g m"] d(7)
        by (simp add: node_clash_def a(2))
    qed
    moreover have "pinned g n \<Longrightarrow> node_reg t' ! n = forced_reg (nodes g ! n)" using c n by (simp add: coloured_def)
    ultimately show ?thesis using coloured_regs [OF c n so(1)] by (intro exI [of _ "node_reg t' ! n"]) simp
  qed
  then show ?thesis using r(1) by blast
qed

theorem register_allocation_sound_witness:
  "\<exists>rs rs' g g' r s. client_graph False rs rs' g \<and> node_count g = 2 \<and> 1 \<in> adj g 0 \<and> ra_allocate g = Some (True, g') \<and>
    ra_get_node_reg g' 0 = Some r \<and> ra_get_node_reg g' 1 = Some s \<and> ra_class_allocations_conflict rs' (cls g 0) r (cls g 1) s = Some False"
proof -
  obtain rs rs' g where d: "client_graph False rs rs' g" "node_count g = 2" "adj g 0 = {1}" "\<not> pinned g 0" "\<not> pinned g 1"
    "load g [] 0 < class_limit g 0" "load g [] 1 < class_limit g 1" using demo_client by blast
  have "pins_in_class g" "\<forall>n < node_count g. load g [] n < class_limit g n" using d by (auto simp: pins_in_class_def less_2_cases_iff)
  then obtain g' where g': "ra_allocate g = Some (True, g')" using easy_graph_allocates [OF d(1)] by blast
  note sound = register_allocation_sound [OF d(1)]
  have lt: "0 < node_count g" and nb: "1 \<in> adj g 0" using d(2,3) by simp_all
  obtain r where r: "ra_get_node_reg g' 0 = Some r" "\<forall>m \<in> adj g 0. \<not> (pinned g 0 \<and> pinned g m) \<longrightarrow>
      (\<exists>s. ra_get_node_reg g' m = Some s \<and> ra_class_allocations_conflict rs' (cls g 0) r (cls g m) s = Some False)"
    using sound g' lt by (metis (no_types, lifting) option.inject prod.inject)
  obtain s where "ra_get_node_reg g' 1 = Some s" "ra_class_allocations_conflict rs' (cls g 0) r (cls g 1) s = Some False"
    using bspec [OF r(2) nb] d(4) by blast
  then show ?thesis using d(1,2) nb g' r(1) by blast
qed



section \<open>Simplification\<close>

text \<open>
  C11: The simplification, which works on words of flags and caches a minimum per word, does what the naive one does: starting from the
  empty stack it pushes nodes that pass the test for the neighbours not on the stack, and when there is none the node with the lowest sum,
  of several the one with the highest number, until every node is on the stack or has its register given. It remembers the height
  of the stack at the first such push.
\<close>

theorem simplify_refines_naive:
  assumes "client_graph contig rs rs' g"
  shows "\<exists>t k. ra_simplify g = Some (g\<lparr>tmp := t\<rparr>) \<and> simplified g (stack t) k \<and>
    (\<forall>n < node_count g. n \<in> set (stack t) \<longleftrightarrow> \<not> pinned g n) \<and> distinct (stack t) \<and>
    stack_optimistic_start t = (case k of None \<Rightarrow> - 1 | Some height \<Rightarrow> of_nat height)"
proof -
  obtain res k t t' where r: "ra_simplify g = Some (g\<lparr>tmp := t\<rparr>)" "pushable (g\<lparr>tmp := t\<rparr>) k"
    using allocate_spec [OF client_allocatable(1) [OF assms]] by blast
  have s: "simplified (g\<lparr>tmp := t\<rparr>) (stack t) k" "stack_ok (g\<lparr>tmp := t\<rparr>) t" "\<forall>x. \<not> open_node g (stack t) x" "stack_optimistic_start t = optimistic_start k"
    using r(2) by (simp_all add: pushable_def open_node_def)
  have "simplified g (stack t) k" using simplified_tmp [OF s(1), of "tmp g"] by simp
  moreover have "n \<in> set (stack t) \<longleftrightarrow> \<not> pinned g n" if "n < node_count g" for n
    using s(3) stack_okD(4) [OF s(2), of n] that by (auto simp: open_node_def pinned_def)
  moreover have "distinct (stack t)" by (rule stack_okD(2) [OF s(2)])
  ultimately show ?thesis using r(1) s(4) by (intro exI [of _ t] exI [of _ k]) (simp add: optimistic_start_def)
qed

theorem simplify_refines_naive_witness:
  "\<exists>rs rs' g t k. client_graph False rs rs' g \<and> node_count g = 2 \<and> ra_simplify g = Some (g\<lparr>tmp := t\<rparr>) \<and> simplified g (stack t) k \<and> set (stack t) \<supseteq> {0, 1}"
proof -
  obtain rs rs' g where d: "client_graph False rs rs' g" "node_count g = 2" "\<not> pinned g 0" "\<not> pinned g 1" using demo_client by blast
  obtain t k where t: "ra_simplify g = Some (g\<lparr>tmp := t\<rparr>)" "simplified g (stack t) k" "\<forall>n < node_count g. n \<in> set (stack t) \<longleftrightarrow> \<not> pinned g n"
    using simplify_refines_naive [OF d(1)] by blast
  then have "{0, 1} \<subseteq> set (stack t)" using d(2-4) by simp
  then show ?thesis using d(1,2) t(1,2) by blast
qed

end
