(* ===== verification/Spec2Isabelle.thy ===== *)
theory Spec2Isabelle
  imports Table_Properties Spirv_Properties Util_Properties Div_Properties Ra_Properties
begin

text \<open>
  A verification library for parts of Mesa that the \<^verbatim>\<open>zink\<close> driver is built on: zink's SPIR-V builder, the tables and
  allocators of \<^verbatim>\<open>src/util\<close> that it and its neighbours use, the register allocator of the back ends, and the compiler pass that turns
  integer divisions by constants into multiplications. File names are relative to \<^verbatim>\<open>src/src\<close>.

  \<^bold>\<open>The parts and how they interact.\<close> The translation of a shader to SPIR-V calls the functions of
  \<^verbatim>\<open>gallium/drivers/zink/nir_to_spirv/spirv_builder.c\<close>, which append words to nine buffers. Types and constants are interned through
  two hash tables (\<^verbatim>\<open>util/hash_table.c\<close>), whose keys are hashed with \<^verbatim>\<open>util/xxhash.h\<close>; capabilities are a set
  (\<^verbatim>\<open>util/set.c\<close>). Both tables probe with double hashing and compute remainders by multiplication
  (\<^verbatim>\<open>util/fast_urem_by_const.h\<close>). The address space allocator (\<^verbatim>\<open>util/vma.c\<close>), the id allocator
  (\<^verbatim>\<open>util/u_idalloc.c\<close>), the serialisation buffers (\<^verbatim>\<open>util/blob.c\<close>) and the graph-colouring register allocator
  (\<^verbatim>\<open>util/register_allocate.c\<close>, on the bit sets of \<^verbatim>\<open>util/bitset.h\<close>) are independent services of the drivers.
  The pass \<^verbatim>\<open>compiler/nir/nir_opt_idiv_const.c\<close> computes magic numbers with \<^verbatim>\<open>util/fast_idiv_by_const.c\<close>
  and builds the replacement with the functions of \<^verbatim>\<open>compiler/nir/nir_builder.h\<close>.

  \<^bold>\<open>Conventions.\<close> \<open>Prelude\<close> has the machine integers (\<open>u8\<close> to \<open>u64\<close>), the option monad in which
  \<open>None\<close> is a failed assertion or undefined behaviour, and the generic lemmas. C structs are records, enumerations and
  keys are datatypes, the memory allocator is a parameter that says which requests succeed, and a C function is one
  definition of the same name without a leading underscore. Loops are recursive functions with a measure; where a loop has
  no obvious measure it takes fuel, and a lemma shows that the fuel chosen is enough: the bits of a word for
  \<open>strip_even\<close> and \<open>sdiv_loop\<close>, one step per bit for \<open>foreach_loop\<close>, the size of the table for the probes (where
  the code compares with the start address instead), and one round more than there are nodes for \<open>simplify_loop\<close>, since every round
  but the last pushes a node.

  \<^bold>\<open>Tables.\<close> \<open>Fast_Urem\<close>, \<open>Primes\<close>, \<open>Hash_Sizes\<close>, \<open>Probing\<close> and
  \<open>Xxhash\<close> model the arithmetic: the remainder trick is exact, the sizes are prime (by Pratt certificates checked in the
  kernel), so the probe sequence visits every slot once. \<open>Hash_Table\<close>, \<open>Hash_Table_U64\<close> and \<open>Set_Table\<close> model the
  operations; \<open>Hash_Table_Correct\<close>, \<open>Hash_Table_Rehash\<close> and \<open>Set_Correct\<close> prove them against a linear scan of
  the slots. \<open>Map_Interface\<close> states the contract of a lookup table as the locale \<open>map_table\<close> and what interning adds to it as
  \<open>interning\<close>; \<open>Hash_Table_Map\<close>, \<open>Hash_Table_U64\<close>, \<open>Set_Correct\<close> and \<open>Spirv_Interning\<close> interpret
  them. \<open>Table_Runs\<close> lifts the steps to sequences of calls (locale \<open>op_refinement\<close>), and \<open>Table_Properties\<close>
  has the theorems: tables refine maps, sets refine sets, searches end, and iteration visits the contents.

  \<^bold>\<open>SPIR-V builder.\<close> \<open>Spirv_Enums\<close>, \<open>Spirv_Buffer\<close>, \<open>Spirv_Builder\<close>, \<open>Spirv_Types\<close>,
  \<open>Spirv_Insts\<close>, \<open>Spirv_Images\<close> and \<open>Spirv_Module\<close> model the file function by function.
  \<open>Spirv_Invariant\<close> states the invariant of the builder: every buffer is a sequence of whole instructions, ids are
  distinct and below the bound, and every interned type and constant is declared once. \<open>Spirv_Calls\<close>, \<open>Spirv_Api\<close>,
  \<open>Spirv_Operands\<close> and \<open>Spirv_Phi\<close> show that each function keeps it, \<open>Spirv_Reach\<close> makes the interface a state
  machine with a step relation, and \<open>Spirv_Results\<close> and \<open>Spirv_Properties\<close> draw the conclusions for the module: it
  decodes into instructions in the order of the sections, declarations are unique, ids stay valid, names and operands read back.

  \<^bold>\<open>Allocators and buffers.\<close> \<open>Vma\<close>, \<open>Bitset\<close> and \<open>Idalloc\<close>, \<open>Blob\<close> with their \<open>_Correct\<close>
  theories and \<open>Util_Properties\<close>: an address space heap is the set of its free addresses and refines the locale
  \<open>address_allocator\<close>; the id allocator returns the lowest unused id in every reachable state; what is written to a blob is
  read back, and a fixed blob runs out exactly when the values do not fit.

  \<^bold>\<open>Division by constants.\<close> \<open>Fast_Idiv\<close> models the magic numbers and \<open>Fast_Idiv_Correct\<close> and
  \<open>Fast_Sdiv_Correct\<close> prove that they divide, for every divisor and every width up to 64 bits. \<open>Nir_Alu\<close> gives NIR's
  integer expressions the values of the constant expressions in \<^verbatim>\<open>nir_opcodes.py\<close>, one definition per opcode, \<open>Nir_Idiv\<close> models the pass from one channel to the whole shader, and
  \<open>Nir_Idiv_Correct\<close> shows that each lowered channel has the value of the operation it replaces;
  \<open>Div_Properties\<close> concludes that the pass keeps the meaning of every function. The exception are 8-bit and 16-bit unsigned
  divisions whose magic numbers have an increment (\<open>sat_ok\<close> is false): the constant expression of \<^verbatim>\<open>uadd_sat\<close> wraps there, and the
  lowered quotient of the largest numerator is zero. Where signed arithmetic of the expressions overflows, its value wraps.

  \<^bold>\<open>Register allocation.\<close> \<open>Reg_Set\<close> models the register sets: conflicts as lists or bit sets, classes of single and contiguous
  registers, and the numbers \<open>p\<close> and \<open>q\<close> of Runeson and Nystrom that \<^verbatim>\<open>ra_set_finalize\<close> computes. \<open>Reg_Set_Correct\<close> and
  \<open>Reg_Class_Correct\<close> show that \<open>q\<close> is the number of registers that one neighbour can block at most; the locale \<open>runeson_test\<close>
  draws the conclusion for a node and all its neighbours. \<open>Ra_Graph\<close> models the interference graph and its scratch data, with
  \<open>Ra_Graph_Correct\<close> and \<open>Ra_Edge_Correct\<close> for its invariant; \<open>Ra_Allocate\<close> models simplification and selection. The abstract
  specification is the relation \<open>simplified\<close> between graphs and stacks, which knows nothing of words of flags and cached minima;
  \<open>Ra_Push_Correct\<close>, \<open>Ra_Simplify_Correct\<close> and \<open>Ra_Rounds_Correct\<close> prove that the code refines it, \<open>Ra_Select_Correct\<close> and
  \<open>Ra_Allocate_Correct\<close> that the registers found do not conflict. \<open>Ra_Client\<close> makes the interface a state machine and
  \<open>Ra_Properties\<close> has the theorems. Graphs have at most 92672 nodes, so that the index of an adjacency bit fits an
  \<^verbatim>\<open>unsigned\<close>, there are fewer than \<open>2^31\<close> registers, and nodes times registers stay below \<open>2^32 - 1\<close>, so that the sums of
  \<open>q\<close> do not wrap. The callback that selects a register is a function of the node and the available registers.

  \<^bold>\<open>Not modelled.\<close> Memory contexts (\<^verbatim>\<open>ralloc.c\<close>) appear only as the allocator parameter; functions that release memory or
  print are left out. Floating-point constants are left out, as are XXH64 and XXH3, the spill
  costs of the register allocator, which are floating-point numbers, and the serialisation of register sets. The translation of NIR to SPIR-V, the rest of NIR,
  the rest of zink and the other drivers are not modelled: they are sequences of calls to a Vulkan driver or the kernel, C++
  or generated code, or work on data structures that are not part of the slice. Threads appear only in the id allocator,
  whose lock makes each operation one step. Pointers are 64 bits wide and bytes little-endian.
\<close>

end
